(* ===== verification/Prelude.thy ===== *)
theory Prelude
  imports Main "HOL-Library.Word"
begin

text \<open>
  What every component of the library shares: bytes and machine integers, the memory image of
  an integer on a little- or big-endian host, \<open>htonl\<close>/\<open>ntohl\<close> and their 16 bit versions, byte
  buffers with checked writes, and the collections of rules the component theories add to.

  A C++ \<open>char\<close> array or \<open>std::string\<close> is a list of bytes.  A write outside its array is
  \<open>None\<close>: undefined behaviour is a value of the model, never a default.
\<close>

unbundle bit_operations_syntax

named_theorems wire_simps "images of integers and their inverses"
named_theorems buf_simps "checked buffer operations inside their bounds"

lemma ex_bool [simp]: "\<exists>b. b" "\<exists>b. \<not> b"
  by auto

section \<open>Bytes and integers\<close>

type_synonym byte = "8 word"
type_synonym cstr = "byte list"
type_synonym i16 = "16 word"
type_synonym i32 = "32 word"
type_synonym i64 = "64 word"
type_synonym fd = int

text \<open>
  The memory image of an integer, least significant byte first, and the integer that an image
  makes.  Both work at every width; the widths of the program are 16, 32 and 64 bits.
\<close>

definition le_image :: "'a::len word \<Rightarrow> byte list" where
  "le_image w = map (\<lambda>i. ucast (drop_bit (8 * i) w)) [0..<LENGTH('a) div 8]"

primrec of_le :: "byte list \<Rightarrow> 'a::len word" where
  "of_le [] = 0"
| "of_le (b # bs) = (ucast b OR push_bit 8 (of_le bs))"

text \<open>Network byte order: the most significant byte first.\<close>

definition be_image :: "'a::len word \<Rightarrow> byte list" where
  "be_image w = rev (le_image w)"

definition of_be :: "byte list \<Rightarrow> 'a::len word" where
  "of_be bs = of_le (rev bs)"

lemma length_le_image [simp]: "length (le_image (w :: 'a::len word)) = LENGTH('a) div 8"
  by (simp add: le_image_def)

lemma length_be_image [simp]: "length (be_image (w :: 'a::len word)) = LENGTH('a) div 8"
  by (simp add: be_image_def)

lemma bit_of_le:
  "bit (of_le bs :: 'a::len word) n \<longleftrightarrow>
     n < LENGTH('a) \<and> n div 8 < length bs \<and> bit (bs ! (n div 8)) (n mod 8)"
proof (induction bs arbitrary: n)
  case Nil
  then show ?case by simp
next
  case (Cons b bs)
  show ?case
  proof (cases "n < 8")
    case True
    then show ?thesis by (auto simp: bit_simps)
  next
    case False
    then obtain m where n: "n = m + 8" by (metis add.commute le_Suc_ex linorder_not_less)
    have b: "\<not> bit b n" using n by (auto dest: bit_imp_le_length)
    have d: "(m + 8) div 8 = Suc (m div 8)" "(m + 8) mod 8 = m mod 8" by simp_all
    show ?thesis using Cons.IH [of m] b n
      by (auto simp: bit_simps d simp del: div_add_self2 dest: bit_imp_le_length)
  qed
qed

lemma le_image_nth:
  "i < LENGTH('a) div 8 \<Longrightarrow> le_image (w :: 'a::len word) ! i = ucast (drop_bit (8 * i) w)"
  by (simp add: le_image_def)

lemma of_le_le_image:
  assumes "8 dvd LENGTH('a)"
  shows "of_le (le_image (w :: 'a::len word)) = w"
proof (rule bit_word_eqI)
  fix n assume n: "n < LENGTH('a)"
  obtain k where k: "LENGTH('a) = 8 * k" using assms by (elim dvdE)
  have d: "n div 8 < LENGTH('a) div 8" using n unfolding k
    by (simp add: less_mult_imp_div_less mult.commute)
  have "bit (of_le (le_image w) :: 'a word) n \<longleftrightarrow> bit (drop_bit (8 * (n div 8)) w) (n mod 8)"
    using n d by (simp add: bit_of_le le_image_nth bit_simps)
  then show "bit (of_le (le_image w) :: 'a word) n = bit w n"
    by (simp add: bit_simps)
qed

lemma of_be_be_image:
  "8 dvd LENGTH('a) \<Longrightarrow> of_be (be_image (w :: 'a::len word)) = w"
  by (simp add: of_be_def be_image_def of_le_le_image)

lemma le_image_of_le:
  assumes "length bs * 8 = LENGTH('a)"
  shows "le_image (of_le bs :: 'a::len word) = bs"
proof (rule nth_equalityI)
  show len: "length (le_image (of_le bs :: 'a word)) = length bs"
    using assms by (metis length_le_image nonzero_mult_div_cancel_right zero_neq_numeral)
  fix i assume "i < length (le_image (of_le bs :: 'a word))"
  then have i: "i < length bs" using len by simp
  show "le_image (of_le bs :: 'a word) ! i = bs ! i"
  proof (rule bit_word_eqI)
    fix n assume n: "n < LENGTH(8)"
    have "(n + 8 * i) div 8 = i" and "(n + 8 * i) mod 8 = n" using n by simp_all
    then show "bit (le_image (of_le bs :: 'a word) ! i) n = bit (bs ! i) n"
      using i n len assms by (simp add: le_image_nth bit_simps bit_of_le add.commute)
  qed
qed

lemma be_image_of_be:
  "length bs * 8 = LENGTH('a) \<Longrightarrow> be_image (of_be bs :: 'a::len word) = bs"
  by (simp add: of_be_def be_image_def le_image_of_le)

section \<open>Host byte order\<close>

text \<open>
  The source converts with \<open>htonl\<close> and copies the result with \<open>memcpy\<close>, so the bytes on the
  wire depend on both the host's byte order and the conversion.  The host's order is a parameter.
\<close>

datatype endian = LittleEndian | BigEndian

definition mem_image :: "endian \<Rightarrow> 'a::len word \<Rightarrow> byte list" where
  "mem_image e w = (case e of LittleEndian \<Rightarrow> le_image w | BigEndian \<Rightarrow> rev (le_image w))"

definition mem_load :: "endian \<Rightarrow> byte list \<Rightarrow> 'a::len word" where
  "mem_load e bs = (case e of LittleEndian \<Rightarrow> of_le bs | BigEndian \<Rightarrow> of_le (rev bs))"

text \<open>\<open>htons\<close>, \<open>htonl\<close> and their inverses: the byte swap on a little-endian host.\<close>

definition hton :: "endian \<Rightarrow> 'a::len word \<Rightarrow> 'a word" where
  "hton e w = (case e of LittleEndian \<Rightarrow> of_le (rev (le_image w)) | BigEndian \<Rightarrow> w)"

definition ntoh :: "endian \<Rightarrow> 'a::len word \<Rightarrow> 'a word" where
  "ntoh e w = (case e of LittleEndian \<Rightarrow> of_le (rev (le_image w)) | BigEndian \<Rightarrow> w)"

lemma dvd_widths [simp]:
  "8 dvd LENGTH(16)" "8 dvd LENGTH(32)" "8 dvd LENGTH(64)"
  by simp_all

lemma length_mem_image [simp]: "length (mem_image e (w :: 'a::len word)) = LENGTH('a) div 8"
  by (simp add: mem_image_def split: endian.split)

text \<open>What is sent is big-endian on every host; what is received is read back.\<close>

lemma mem_image_hton [wire_simps]:
  assumes "8 dvd LENGTH('a)"
  shows "mem_image e (hton e (w :: 'a::len word)) = be_image w"
proof -
  have "length (rev (le_image w)) * 8 = LENGTH('a)" using assms by simp
  then show ?thesis
    by (simp add: mem_image_def hton_def be_image_def le_image_of_le split: endian.split)
qed

lemma ntoh_mem_load [wire_simps]:
  assumes "length bs * 8 = LENGTH('a)"
  shows "ntoh e (mem_load e bs :: 'a::len word) = of_be bs"
  using assms by (simp add: ntoh_def mem_load_def of_be_def le_image_of_le split: endian.split)

lemma mem_load_image [wire_simps]:
  "8 dvd LENGTH('a) \<Longrightarrow> mem_load e (mem_image e (w :: 'a::len word)) = w"
  by (simp add: mem_load_def mem_image_def of_le_le_image split: endian.split)

section \<open>Byte buffers\<close>

text \<open>
  \<open>memcpy\<close> into and out of an array at an offset.  The whole range has to lie inside the array.
\<close>

definition blit :: "'a list \<Rightarrow> nat \<Rightarrow> 'a list \<Rightarrow> 'a list option" where
  "blit buf i xs =
     (if i + length xs \<le> length buf
      then Some (take i buf @ xs @ drop (i + length xs) buf) else None)"

definition slice_of :: "'a list \<Rightarrow> nat \<Rightarrow> nat \<Rightarrow> 'a list option" where
  "slice_of buf i n = (if i + n \<le> length buf then Some (take n (drop i buf)) else None)"

lemma blit_Some [buf_simps]:
  "i + length xs \<le> length buf \<Longrightarrow>
     blit buf i xs = Some (take i buf @ xs @ drop (i + length xs) buf)"
  by (simp add: blit_def)

lemma blit_length: "blit buf i xs = Some buf' \<Longrightarrow> length buf' = length buf"
  by (auto simp: blit_def split: if_splits)

lemma blit_nth:
  "blit buf i xs = Some buf' \<Longrightarrow> j < length buf \<Longrightarrow>
     buf' ! j = (if i \<le> j \<and> j < i + length xs then xs ! (j - i) else buf ! j)"
  by (auto simp: blit_def nth_append split: if_splits)

lemma slice_of_Some [buf_simps]:
  "i + n \<le> length buf \<Longrightarrow> slice_of buf i n = Some (take n (drop i buf))"
  by (simp add: slice_of_def)

text \<open>Appending at the end of what has been written so far, as the source's moving pointer does.\<close>

lemma blit_snoc [buf_simps]:
  "length xs + length ys \<le> length (xs @ junk) \<Longrightarrow>
     blit (xs @ junk) (length xs) ys = Some ((xs @ ys) @ drop (length ys) junk)"
  by (simp add: blit_def)

text \<open>
  The idiom \<open>memcpy(p, src, n); p = p + n;\<close> over an array: a buffer with a write position.
  \<open>written\<close> says what lies before the position.
\<close>

type_synonym cursor = "byte list \<times> nat"

definition poke :: "cursor \<Rightarrow> byte list \<Rightarrow> cursor option" where
  "poke c xs = map_option (\<lambda>buf. (buf, snd c + length xs)) (blit (fst c) (snd c) xs)"

definition written :: "nat \<Rightarrow> cursor \<Rightarrow> byte list \<Rightarrow> bool" where
  "written n c xs \<longleftrightarrow> length (fst c) = n \<and> snd c = length xs \<and> take (length xs) (fst c) = xs"

lemma written_start: "length buf = n \<Longrightarrow> written n (buf, 0) []"
  by (simp add: written_def)

lemma poke_bind:
  assumes "written n c xs" and "length xs + length ys \<le> n"
    and "\<And>d. written n d (xs @ ys) \<Longrightarrow> f d = Some r"
  shows "Option.bind (poke c ys) f = Some r"
proof -
  let ?d = "(take (snd c) (fst c) @ ys @ drop (snd c + length ys) (fst c), snd c + length ys)"
  have "poke c ys = Some ?d" "written n ?d (xs @ ys)"
    using assms(1,2) by (auto simp: poke_def blit_def written_def)
  then show ?thesis using assms(3) by simp
qed

lemma written_full: "written n c xs \<Longrightarrow> length xs = n \<Longrightarrow> fst c = xs"
  by (auto simp: written_def)

text \<open>\<open>new char[n]\<close>: the contents of fresh memory are whatever \<open>junk\<close> says.\<close>

definition new_array :: "(nat \<Rightarrow> 'a) \<Rightarrow> nat \<Rightarrow> 'a list" where
  "new_array junk n = map junk [0..<n]"

lemma length_new_array [simp]: "length (new_array junk n) = n"
  by (simp add: new_array_def)

section \<open>Narrowing conversions\<close>

text \<open>A \<open>size_t\<close> or \<open>long long\<close> stored in an \<open>int\<close>: two's complement wrap-around.\<close>

definition to_int32 :: "int \<Rightarrow> int" where
  "to_int32 n = sint (word_of_int n :: i32)"

lemma to_int32_id: "- (2 ^ 31) \<le> n \<Longrightarrow> n < 2 ^ 31 \<Longrightarrow> to_int32 n = n"
  by (simp add: to_int32_def signed_of_int signed_take_bit_int_eq_self)

text \<open>The value of an \<open>int\<close> as the 32 bit pattern it is stored in.\<close>

definition int32_bits :: "int \<Rightarrow> i32" where
  "int32_bits n = word_of_int n"

end
