(* ===== verification/Kernel.thy ===== *)
theory Kernel
  imports Prelude
begin

text \<open>
  The operating system as the program sees it.  Nothing is assumed about what a call returns:
  a \<open>kernel\<close> is a record of arbitrary result functions, one per system call, read at the
  world's clock, so that every call may answer differently.  What the manual pages promise of a
  call (a receive never returns more than was asked for, \<open>poll\<close> reports the number of entries
  with a non-zero \<open>revents\<close>) is built into the call's own definition below.

  The \<open>world\<close> records what the program did: datagrams and stream bytes sent, descriptors closed.
\<close>

section \<open>Error numbers\<close>

datatype errno =
    CI_EINTR | CI_EBADF | CI_EACCES | CI_EFAULT | CI_EINVAL | CI_EMFILE
  | CI_EWOULDBLOCK | CI_EINPROGRESS | CI_EALREADY | CI_ENOTSOCK | CI_EDESTADDRREQ
  | CI_EMSGSIZE | CI_EPROTOTYPE | CI_ENOPROTOOPT | CI_EPROTONOSUPPORT | CI_ESOCKTNOSUPPORT
  | CI_EOPNOTSUPP | CI_EPFNOSUPPORT | CI_EAFNOSUPPORT | CI_EADDRINUSE | CI_EADDRNOTAVAIL
  | CI_ENETDOWN | CI_ENETUNREACH | CI_ENETRESET | CI_ECONNABORTED | CI_ECONNRESET
  | CI_ENOBUFS | CI_EISCONN | CI_ENOTCONN | CI_ESHUTDOWN | CI_ETOOMANYREFS | CI_ETIMEDOUT
  | CI_ECONNREFUSED | CI_ELOOP | CI_ENAMETOOLONG | CI_EHOSTDOWN | CI_EHOSTUNREACH
  | CI_ENOTEMPTY | CI_EPROCLIM | CI_EUSERS | CI_EDQUOT | CI_ESTALE | CI_EREMOTE

section \<open>Descriptors and poll\<close>

abbreviation NU_INVALID_SOCKET :: fd where
  "NU_INVALID_SOCKET \<equiv> - 1"

type_synonym events = "16 word"
type_synonym sockaddr = "byte list"

text \<open>The event bits of \<open>poll.h\<close> on Linux.\<close>

abbreviation POLLIN :: events where "POLLIN \<equiv> 0x001"
abbreviation POLLPRI :: events where "POLLPRI \<equiv> 0x002"
abbreviation POLLOUT :: events where "POLLOUT \<equiv> 0x004"
abbreviation POLLRDNORM :: events where "POLLRDNORM \<equiv> 0x040"
abbreviation POLLRDBAND :: events where "POLLRDBAND \<equiv> 0x080"
abbreviation POLLWRNORM :: events where "POLLWRNORM \<equiv> 0x100"
abbreviation POLLWRBAND :: events where "POLLWRBAND \<equiv> 0x200"

text \<open>\<open>POLLERR\<close>, \<open>POLLHUP\<close> and \<open>POLLNVAL\<close> are reported whether asked for or not.\<close>

abbreviation POLLALWAYS :: events where "POLLALWAYS \<equiv> 0x038"

definition read_events :: events where
  "read_events = POLLIN OR POLLRDNORM OR POLLRDBAND OR POLLPRI"

record pollfd =
  pfd :: fd
  pevents :: events
  prevents :: events

section \<open>Results of system calls\<close>

datatype poll_res = PollFail errno | PollReady "fd \<Rightarrow> events"
datatype recv_res = RecvFail errno | RecvData sockaddr "byte list"
datatype send_res = SendFail errno | SendOk nat

record kernel =
  k_socket :: "nat \<Rightarrow> fd"
  k_setsockopt :: "nat \<Rightarrow> bool"
  k_bind :: "nat \<Rightarrow> bool"
  k_close :: "nat \<Rightarrow> bool"
  k_poll :: "nat \<Rightarrow> poll_res"
  k_recv :: "nat \<Rightarrow> recv_res"
  k_send :: "nat \<Rightarrow> send_res"

text \<open>What can happen to a thread that is blocked on a semaphore.\<close>

datatype sem_event = Signal | Posted

text \<open>\<open>SO_LINGER\<close> takes a struct: its \<open>l_linger\<close> is the argument, \<open>l_onoff\<close> the value that is set.\<close>

datatype sockopt = SO_KEEPALIVE | SO_REUSEADDR | SO_RCVBUF | SO_SNDBUF | SO_RCVTIMEO | SO_SNDTIMEO
  | SO_LINGER i32

text \<open>
  \<open>bound\<close> lists the address and the port of each successful \<open>bind\<close>, as the bit patterns stored
  in \<open>sin_addr\<close> and \<open>sin_port\<close>; \<open>conns\<close> does so for each \<open>connect\<close> that was not refused at once,
  \<open>listening\<close> has the queue length of each \<open>listen\<close>, \<open>nonblock\<close> the changes of the blocking mode.
\<close>

record world =
  clock :: nat
  sent :: "(fd \<times> sockaddr \<times> byte list) list"
  outstream :: "byte list"
  instream :: "byte list"
  closed_fds :: "fd list"
  sockopts :: "(fd \<times> sockopt \<times> i32) list"
  bound :: "(fd \<times> i32 \<times> i16) list"
  conns :: "(fd \<times> i32 \<times> i16) list"
  listening :: "(fd \<times> int) list"
  nonblock :: "(fd \<times> bool) list"
  sem_events :: "sem_event list"

definition tick :: "world \<Rightarrow> world" where
  "tick w = w\<lparr>clock := Suc (clock w)\<rparr>"

definition world0 :: world where
  "world0 = \<lparr>clock = 0, sent = [], outstream = [], instream = [], closed_fds = [],
     sockopts = [], bound = [], conns = [], listening = [], nonblock = [], sem_events = []\<rparr>"

text \<open>\<open>socket\<close>, \<open>setsockopt\<close>, \<open>bind\<close> and \<open>close\<close>.\<close>

definition sys_socket :: "kernel \<Rightarrow> world \<Rightarrow> fd \<times> world" where
  "sys_socket K w = (k_socket K (clock w), tick w)"

definition sys_setsockopt ::
  "kernel \<Rightarrow> fd \<Rightarrow> sockopt \<Rightarrow> i32 \<Rightarrow> world \<Rightarrow> bool \<times> world" where
  "sys_setsockopt K s opt val w =
     (if k_setsockopt K (clock w)
      then (True, (tick w)\<lparr>sockopts := sockopts w @ [(s, opt, val)]\<rparr>) else (False, tick w))"

definition sys_bind :: "kernel \<Rightarrow> fd \<Rightarrow> i32 \<Rightarrow> i16 \<Rightarrow> world \<Rightarrow> bool \<times> world" where
  "sys_bind K s addr port w =
     (if k_bind K (clock w)
      then (True, (tick w)\<lparr>bound := bound w @ [(s, addr, port)]\<rparr>) else (False, tick w))"

definition sys_close :: "kernel \<Rightarrow> fd \<Rightarrow> world \<Rightarrow> bool \<times> world" where
  "sys_close K s w = (k_close K (clock w), (tick w)\<lparr>closed_fds := closed_fds w @ [s]\<rparr>)"

text \<open>
  \<open>poll\<close> over an array: an entry with a negative descriptor reports nothing, any other entry
  reports what is ready among the events it asked for; the result counts the entries that
  report something.
\<close>

definition poll_entry :: "(fd \<Rightarrow> events) \<Rightarrow> pollfd \<Rightarrow> pollfd" where
  "poll_entry r p =
     p\<lparr>prevents := if pfd p < 0 then 0 else r (pfd p) AND (pevents p OR POLLALWAYS)\<rparr>"

definition poll_array :: "(fd \<Rightarrow> events) \<Rightarrow> nat \<Rightarrow> pollfd list \<Rightarrow> int \<times> pollfd list" where
  "poll_array r n ps =
     (let ps' = map (poll_entry r) (take n ps)
      in (int (length (filter (\<lambda>p. prevents p \<noteq> 0) ps')), ps' @ drop n ps))"

text \<open>
  \<open>recvfrom\<close> and \<open>recv\<close> with room for \<open>n\<close> bytes: at most \<open>n\<close> bytes arrive.  A stream
  receive adds the bytes to what has been taken out of the connection so far.
\<close>

datatype recvd = RecvErr errno | Recvd sockaddr "byte list"

definition sys_recvfrom :: "kernel \<Rightarrow> nat \<Rightarrow> world \<Rightarrow> recvd \<times> world" where
  "sys_recvfrom K n w =
     (case k_recv K (clock w) of
        RecvFail e \<Rightarrow> (RecvErr e, tick w)
      | RecvData a bs \<Rightarrow> (Recvd a (take n bs), tick w))"

definition sys_recv :: "kernel \<Rightarrow> nat \<Rightarrow> world \<Rightarrow> (errno + byte list) \<times> world" where
  "sys_recv K n w =
     (case k_recv K (clock w) of
        RecvFail e \<Rightarrow> (Inl e, tick w)
      | RecvData a bs \<Rightarrow> (Inr (take n bs), (tick w)\<lparr>instream := instream w @ take n bs\<rparr>))"

text \<open>
  \<open>sendto\<close> hands over one datagram, of which the kernel reports how much it took; \<open>send\<close>
  appends a prefix of the data to the stream.
\<close>

definition sys_sendto ::
  "kernel \<Rightarrow> fd \<Rightarrow> sockaddr \<Rightarrow> byte list \<Rightarrow> world \<Rightarrow> (errno + nat) \<times> world" where
  "sys_sendto K s a bs w =
     (case k_send K (clock w) of
        SendFail e \<Rightarrow> (Inl e, tick w)
      | SendOk n \<Rightarrow> (Inr (min n (length bs)), (tick w)\<lparr>sent := sent w @ [(s, a, bs)]\<rparr>))"

definition sys_send :: "kernel \<Rightarrow> byte list \<Rightarrow> world \<Rightarrow> (errno + nat) \<times> world" where
  "sys_send K bs w =
     (case k_send K (clock w) of
        SendFail e \<Rightarrow> (Inl e, tick w)
      | SendOk n \<Rightarrow>
          (Inr (min n (length bs)), (tick w)\<lparr>outstream := outstream w @ take n bs\<rparr>))"

named_theorems sys_simps "the system calls, unfolded"

lemmas [sys_simps] =
  sys_socket_def sys_setsockopt_def sys_bind_def sys_close_def sys_recvfrom_def
  sys_sendto_def tick_def

lemma tick_simps [simp]:
  "clock (tick w) = Suc (clock w)" "sent (tick w) = sent w" "closed_fds (tick w) = closed_fds w"
  "sem_events (tick w) = sem_events w" "bound (tick w) = bound w"
  "instream (tick w) = instream w" "outstream (tick w) = outstream w"
  "sockopts (tick w) = sockopts w" "conns (tick w) = conns w" "nonblock (tick w) = nonblock w"
  "listening (tick w) = listening w"
  by (simp_all add: tick_def)

text \<open>\<open>poll\<close> keeps the descriptors and the requested events and counts what is ready.\<close>

lemma poll_entry_keeps [simp]: "pfd (poll_entry r p) = pfd p" "pevents (poll_entry r p) = pevents p"
  by (simp_all add: poll_entry_def)

lemma length_poll_array [simp]: "length (snd (poll_array r n ps)) = length ps"
  by (simp add: poll_array_def Let_def)

lemma map_pfd_poll_array [simp]: "map pfd (snd (poll_array r n ps)) = map pfd ps"
proof -
  have "map pfd (snd (poll_array r n ps)) = map pfd (take n ps @ drop n ps)"
    by (simp add: poll_array_def Let_def comp_def del: append_take_drop_id)
  then show ?thesis by simp
qed

lemma poll_array_nonneg: "0 \<le> fst (poll_array r n ps)"
  by (simp add: poll_array_def Let_def)

lemma poll_array_le: "fst (poll_array r n ps) \<le> int n"
proof -
  have "length (filter (\<lambda>p. prevents p \<noteq> 0) (map (poll_entry r) (take n ps)))
        \<le> length (map (poll_entry r) (take n ps))"
    by (rule length_filter_le)
  also have "\<dots> \<le> n" by simp
  finally show ?thesis by (simp add: poll_array_def Let_def)
qed

end
