(* ===== verification/Semaphore.thy ===== *)
theory Semaphore
  imports Kernel
begin

text \<open>
  \<open>cihb::CCiSemaphore\<close> of \<open>legacy_support.cpp\<close> and \<open>CCiSemaphore\<close> of \<open>CiSemaphore.cpp\<close> (the
  same code twice), in their POSIX form.  A \<open>sem_t\<close> is valid or not and has a value.  \<open>Wait\<close>
  blocks while the value is 0; what then happens to the blocked thread (a signal arrives,
  another thread posts) is read from the world's list of semaphore events.  No event left means
  that the call never returns.
\<close>

record sem =
  sem_valid :: bool
  sem_value :: nat

definition SEM_VALUE_MAX :: nat where
  "SEM_VALUE_MAX = 2147483647"

text \<open>\<open>sem_init\<close> takes its value as an \<open>unsigned int\<close>; a value above the maximum is refused.\<close>

definition Sem_Initialize :: "int \<Rightarrow> bool \<times> sem" where
  "Sem_Initialize lInitialValue =
     (let v = nat (lInitialValue mod 2 ^ 32)
      in if v \<le> SEM_VALUE_MAX then (True, \<lparr>sem_valid = True, sem_value = v\<rparr>)
         else (False, \<lparr>sem_valid = False, sem_value = 0\<rparr>))"

text \<open>One \<open>sem_wait\<close>: acquired, failed with an error number, or blocked for ever.\<close>

datatype sem_wait_res = Acquired sem "sem_event list" | Failed errno "sem_event list" | Blocked

fun sem_wait :: "sem \<Rightarrow> sem_event list \<Rightarrow> sem_wait_res" where
  "sem_wait s evs =
     (if \<not> sem_valid s then Failed CI_EINVAL evs
      else if 0 < sem_value s then Acquired (s\<lparr>sem_value := sem_value s - 1\<rparr>) evs
      else (case evs of
              [] \<Rightarrow> Blocked
            | Signal # evs' \<Rightarrow> Failed CI_EINTR evs'
            | Posted # evs' \<Rightarrow> Acquired s evs'))"

declare sem_wait.simps [simp del]

lemma sem_wait_EINTR_shorter:
  "sem_wait s evs = Failed CI_EINTR evs' \<Longrightarrow> length evs' < length evs"
  by (auto simp: sem_wait.simps split: if_splits list.splits sem_event.splits)

text \<open>The loop of \<open>Wait\<close>: retry while \<open>sem_wait\<close> fails with \<open>EINTR\<close>.\<close>

function Sem_Wait :: "sem \<Rightarrow> sem_event list \<Rightarrow> (bool \<times> sem \<times> sem_event list) option" where
  "Sem_Wait s evs =
     (case sem_wait s evs of
        Acquired s' evs' \<Rightarrow> Some (True, s', evs')
      | Failed e evs' \<Rightarrow> if e = CI_EINTR then Sem_Wait s evs' else Some (False, s, evs')
      | Blocked \<Rightarrow> None)"
  by pat_completeness auto
termination
  by (relation "measure (\<lambda>(s, evs). length evs)") (auto dest: sem_wait_EINTR_shorter)

declare Sem_Wait.simps [simp del]

definition Sem_Post :: "sem \<Rightarrow> bool \<times> sem" where
  "Sem_Post s =
     (if \<not> sem_valid s \<or> sem_value s = SEM_VALUE_MAX then (False, s)
      else (True, s\<lparr>sem_value := Suc (sem_value s)\<rparr>))"

definition Sem_Finalize :: "sem \<Rightarrow> bool \<times> sem" where
  "Sem_Finalize s = (if sem_valid s then (True, s\<lparr>sem_valid := False\<rparr>) else (False, s))"

section \<open>Properties\<close>

lemma Sem_Wait_free:
  "sem_valid s \<Longrightarrow> 0 < sem_value s \<Longrightarrow>
     Sem_Wait s evs = Some (True, s\<lparr>sem_value := sem_value s - 1\<rparr>, evs)"
  by (simp add: Sem_Wait.simps sem_wait.simps)

lemma Sem_Wait_invalid: "\<not> sem_valid s \<Longrightarrow> Sem_Wait s evs = Some (False, s, evs)"
  by (simp add: Sem_Wait.simps sem_wait.simps)

lemma Sem_Wait_held:
  assumes "sem_valid s" and "sem_value s = 0"
  shows "Sem_Wait s evs =
    (case dropWhile (\<lambda>e. e = Signal) evs of [] \<Rightarrow> None | _ # evs' \<Rightarrow> Some (True, s, evs'))"
proof (induction evs)
  case Nil
  then show ?case using assms by (simp add: Sem_Wait.simps sem_wait.simps)
next
  case (Cons e evs)
  then show ?case using assms
    by (cases e) (simp_all add: Sem_Wait.simps [of s "_ # _"] sem_wait.simps)
qed

text \<open>A held semaphore is released by a post, however many signals come first.\<close>

lemma Sem_Wait_returns_iff:
  "sem_valid s \<Longrightarrow>
     Sem_Wait s evs \<noteq> None \<longleftrightarrow> 0 < sem_value s \<or> Posted \<in> set evs"
proof -
  assume v: "sem_valid s"
  have "dropWhile (\<lambda>e. e = Signal) evs = [] \<longleftrightarrow> Posted \<notin> set evs"
    by (auto simp: dropWhile_eq_Nil_conv) (metis sem_event.exhaust)
  moreover have "0 < sem_value s \<Longrightarrow> Sem_Wait s evs \<noteq> None"
    using v by (simp add: Sem_Wait_free)
  moreover have "sem_value s = 0 \<Longrightarrow>
      Sem_Wait s evs \<noteq> None \<longleftrightarrow> dropWhile (\<lambda>e. e = Signal) evs \<noteq> []"
    using v by (cases "dropWhile (\<lambda>e. e = Signal) evs") (simp_all add: Sem_Wait_held del: not_None_eq dropWhile_eq_Nil_conv)
  ultimately show ?thesis by (cases "0 < sem_value s") simp_all
qed

text \<open>\<open>Post\<close> after \<open>Wait\<close> gives back the semaphore that was taken.\<close>

lemma Sem_Post_Wait:
  "sem_valid s \<Longrightarrow> 0 < sem_value s \<Longrightarrow> sem_value s \<le> SEM_VALUE_MAX \<Longrightarrow>
     Sem_Wait s evs = Some (True, s', evs') \<Longrightarrow> Sem_Post s' = (True, s)"
  by (auto simp: Sem_Wait_free Sem_Post_def)

end
