(* ===== verification/Thread2.thy ===== *)
theory Thread2
  imports Semaphore "HOL-Library.Monad_Syntax"
begin

text \<open>
  \<open>cihb::CCiThread2\<close> (\<open>legacy_support.h\<close>, \<open>legacy_support.cpp\<close>): the thread object, its
  life cycle and the loop that drives it.  A class is an extensible record, so that a derived
  class extends the record and every operation of the base class works on the derived object.
  The virtual functions a derived class overrides are the fields of a table \<open>thread_vtbl\<close>; an
  operation takes the table of the object's dynamic type as an argument.

  An operation on an object and the world is \<open>None\<close> when it runs into undefined behaviour or
  never returns.
\<close>

datatype CiThread2State_t =
    CI_THREAD2_READY
  | CI_THREAD2_DONE_INITINSTANCE
  | CI_THREAD2_DONE_RUN
  | CI_THREAD2_DONE_EXITINSTANCE
  | CI_THREAD2_DONE_EXITINSTANCE_ERROR
  | CI_THREAD2_DONE
  | CI_THREAD2_DONE_ERROR
  | CI_THREAD2_ERROR
  | CI_THREAD2_INACTIVE

record ci_thread2 =
  m_ciThreadHandle :: nat   \<comment> \<open>0 is \<open>CI_THREAD2_INVALID_THREAD_HANDLE\<close>\<close>
  m_bExit :: bool
  m_semExit :: sem
  m_state :: CiThread2State_t

abbreviation (input) CI_THREAD2_INVALID_THREAD_HANDLE :: nat where
  "CI_THREAD2_INVALID_THREAD_HANDLE \<equiv> 0"

type_synonym 'o st = "'o \<times> world"
type_synonym ('o, 'r) meth = "'o st \<Rightarrow> ('r \<times> 'o st) option"

record 'o thread_vtbl =
  v_InitInstance :: "('o, bool) meth"
  v_Run :: "('o, bool) meth"
  v_ExitInstance :: "('o, bool) meth"

section \<open>The class\<close>

definition ci_thread2_new :: ci_thread2 where
  "ci_thread2_new =
     \<lparr>m_ciThreadHandle = CI_THREAD2_INVALID_THREAD_HANDLE, m_bExit = True,
      m_semExit = snd (Sem_Initialize 1), m_state = CI_THREAD2_READY\<rparr>"

definition ci_thread2_destroy :: "'a ci_thread2_scheme \<Rightarrow> 'a ci_thread2_scheme" where
  "ci_thread2_destroy o1 = o1\<lparr>m_semExit := snd (Sem_Finalize (m_semExit o1))\<rparr>"

definition GetState :: "'a ci_thread2_scheme \<Rightarrow> CiThread2State_t" where
  "GetState o1 = m_state o1"

definition SetState :: "CiThread2State_t \<Rightarrow> 'a ci_thread2_scheme \<Rightarrow> 'a ci_thread2_scheme" where
  "SetState state o1 = o1\<lparr>m_state := state\<rparr>"

definition IsState :: "CiThread2State_t \<Rightarrow> 'a ci_thread2_scheme \<Rightarrow> bool" where
  "IsState state o1 \<longleftrightarrow> m_state o1 = state"

definition IsThreadDone :: "'a ci_thread2_scheme \<Rightarrow> bool" where
  "IsThreadDone o1 \<longleftrightarrow> m_state o1 = CI_THREAD2_DONE \<or> m_state o1 = CI_THREAD2_DONE_ERROR"

definition EndThread :: "'a ci_thread2_scheme \<Rightarrow> 'a ci_thread2_scheme" where
  "EndThread o1 = o1\<lparr>m_bExit := True\<rparr>"

definition NotifyExit :: "'a ci_thread2_scheme \<Rightarrow> 'a ci_thread2_scheme" where
  "NotifyExit o1 = o1\<lparr>m_semExit := snd (Sem_Post (m_semExit o1))\<rparr>"

text \<open>\<open>WaitUntilExit\<close>: join the thread that was created, if any, and put the semaphore back.\<close>

definition WaitUntilExit :: "('a ci_thread2_scheme, unit) meth" where
  "WaitUntilExit = (\<lambda>(o1, w).
     if m_ciThreadHandle o1 \<noteq> CI_THREAD2_INVALID_THREAD_HANDLE then
       (case Sem_Wait (m_semExit o1) (sem_events w) of
          None \<Rightarrow> None
        | Some (_, s, evs) \<Rightarrow>
            Some ((), NotifyExit (o1\<lparr>m_semExit := s,
                       m_ciThreadHandle := CI_THREAD2_INVALID_THREAD_HANDLE\<rparr>),
                  w\<lparr>sem_events := evs\<rparr>))
     else Some ((), o1, w))"

definition PrepareRunning :: "('a ci_thread2_scheme, bool) meth" where
  "PrepareRunning = (\<lambda>(o1, w).
     case Sem_Wait (m_semExit o1) (sem_events w) of
       None \<Rightarrow> None
     | Some (_, s, evs) \<Rightarrow>
         Some (True, o1\<lparr>m_bExit := False, m_state := CI_THREAD2_READY, m_semExit := s\<rparr>,
               w\<lparr>sem_events := evs\<rparr>))"

text \<open>The virtual functions as the base class defines them.\<close>

definition Thread2_InitInstance :: "('o, bool) meth" where
  "Thread2_InitInstance s = Some (True, s)"

definition Thread2_ExitInstance :: "('o, bool) meth" where
  "Thread2_ExitInstance s = Some (True, s)"

definition Thread2_Run :: "('o, bool) meth" where
  "Thread2_Run s = Some (True, s)"

definition thread2_vtbl :: "'o thread_vtbl" where
  "thread2_vtbl =
     \<lparr>v_InitInstance = Thread2_InitInstance, v_Run = Thread2_Run,
      v_ExitInstance = Thread2_ExitInstance\<rparr>"

section \<open>\<open>ThreadProc\<close>\<close>

text \<open>
  The \<open>switch\<close> falls through from case to case; each label below is the code from that label to
  the end of the function.
\<close>

text \<open>From \<open>case CI_THREAD2_DONE_EXITINSTANCE\<close>.\<close>

definition thread_proc_finish :: "'a ci_thread2_scheme \<Rightarrow> 'a ci_thread2_scheme" where
  "thread_proc_finish o1 =
     o1\<lparr>m_state := (if m_state o1 = CI_THREAD2_DONE_EXITINSTANCE
                    then CI_THREAD2_DONE else CI_THREAD2_DONE_ERROR)\<rparr>"

text \<open>From \<open>case CI_THREAD2_DONE_RUN\<close>.\<close>

definition thread_proc_exit ::
  "'a ci_thread2_scheme thread_vtbl \<Rightarrow> 'a ci_thread2_scheme st \<Rightarrow> 'a ci_thread2_scheme st option"
where
  "thread_proc_exit vt s = do {
     (_, o1, w) \<leftarrow> v_ExitInstance vt s;
     Some (thread_proc_finish
             (o1\<lparr>m_state := (if m_state o1 = CI_THREAD2_DONE_RUN
                             then CI_THREAD2_DONE_EXITINSTANCE
                             else CI_THREAD2_DONE_EXITINSTANCE_ERROR)\<rparr>), w) }"

text \<open>From \<open>case CI_THREAD2_DONE_INITINSTANCE\<close>.\<close>

definition thread_proc_run ::
  "'a ci_thread2_scheme thread_vtbl \<Rightarrow> 'a ci_thread2_scheme st \<Rightarrow> 'a ci_thread2_scheme st option"
where
  "thread_proc_run vt s =
     (if \<not> m_bExit (fst s) then do {
        (ok, o1, w) \<leftarrow> v_Run vt s;
        Some (if ok then o1 else o1\<lparr>m_state := CI_THREAD2_ERROR\<rparr>, w) }
      else thread_proc_exit vt ((fst s)\<lparr>m_state := CI_THREAD2_DONE_RUN\<rparr>, snd s))"

definition ThreadProc ::
  "'a ci_thread2_scheme thread_vtbl \<Rightarrow> 'a ci_thread2_scheme st \<Rightarrow> 'a ci_thread2_scheme st option"
where
  "ThreadProc vt s =
     (case m_state (fst s) of
        CI_THREAD2_READY \<Rightarrow> do {
          (ok, o1, w) \<leftarrow> v_InitInstance vt s;
          if ok then thread_proc_run vt (o1\<lparr>m_state := CI_THREAD2_DONE_INITINSTANCE\<rparr>, w)
          else Some (o1\<lparr>m_state := CI_THREAD2_ERROR\<rparr>, w) }
      | CI_THREAD2_DONE_INITINSTANCE \<Rightarrow> thread_proc_run vt s
      | CI_THREAD2_DONE_RUN \<Rightarrow> thread_proc_exit vt s
      | CI_THREAD2_ERROR \<Rightarrow> thread_proc_exit vt s
      | CI_THREAD2_INACTIVE \<Rightarrow> thread_proc_exit vt s
      | CI_THREAD2_DONE_EXITINSTANCE \<Rightarrow> Some (thread_proc_finish (fst s), snd s)
      | CI_THREAD2_DONE_EXITINSTANCE_ERROR \<Rightarrow> Some (thread_proc_finish (fst s), snd s)
      | CI_THREAD2_DONE \<Rightarrow> Some s
      | CI_THREAD2_DONE_ERROR \<Rightarrow> Some s)"

text \<open>
  The loop \<open>while (!IsThreadDone()) ThreadProc();\<close> of \<open>RunThreadHere\<close> and of the thread entry
  point.  It may run for ever, so it takes fuel: the number of times the guard is evaluated.
\<close>

fun thread_loop ::
  "nat \<Rightarrow> 'a ci_thread2_scheme thread_vtbl \<Rightarrow> 'a ci_thread2_scheme st
     \<Rightarrow> 'a ci_thread2_scheme st option"
where
  "thread_loop 0 vt s = None"
| "thread_loop (Suc n) vt s =
     (if IsThreadDone (fst s) then Some s
      else do { s' \<leftarrow> ThreadProc vt s; thread_loop n vt s' })"

definition RunThreadHere ::
  "nat \<Rightarrow> 'a ci_thread2_scheme thread_vtbl \<Rightarrow> ('a ci_thread2_scheme, bool) meth"
where
  "RunThreadHere n vt s =
     (if m_ciThreadHandle (fst s) \<noteq> CI_THREAD2_INVALID_THREAD_HANDLE then Some (False, s)
      else do {
        (ok, o1, w) \<leftarrow> PrepareRunning s;
        if \<not> ok then Some (False, o1\<lparr>m_bExit := True\<rparr>, w)
        else do {
          (o2, w2) \<leftarrow> thread_loop n vt (o1, w);
          Some (True, NotifyExit o2, w2) } })"

text \<open>The entry point of a created thread: the loop, then the notification.\<close>

definition CiThread2Entry ::
  "nat \<Rightarrow> 'a ci_thread2_scheme thread_vtbl \<Rightarrow> 'a ci_thread2_scheme st
     \<Rightarrow> 'a ci_thread2_scheme st option"
where
  "CiThread2Entry n vt s = do { (o1, w) \<leftarrow> thread_loop n vt s; Some (NotifyExit o1, w) }"

text \<open>
  \<open>CreateThread\<close>: \<open>pthread_create\<close> either fails (\<open>None\<close>) or gives a handle.  The started
  thread runs \<open>CiThread2Entry\<close>; its steps interleave with the caller's (below).
\<close>

definition CreateThread :: "nat option \<Rightarrow> ('a ci_thread2_scheme, bool) meth" where
  "CreateThread pthread s =
     (if m_ciThreadHandle (fst s) \<noteq> CI_THREAD2_INVALID_THREAD_HANDLE then Some (False, s)
      else do {
        (ok, o1, w) \<leftarrow> PrepareRunning s;
        if \<not> ok then Some (False, o1\<lparr>m_bExit := True\<rparr>, w)
        else (case pthread of
          None \<Rightarrow> Some (False, NotifyExit (o1\<lparr>m_bExit := True,
                     m_ciThreadHandle := CI_THREAD2_INVALID_THREAD_HANDLE\<rparr>), w)
        | Some h \<Rightarrow> Some (True, o1\<lparr>m_ciThreadHandle := h\<rparr>, w)) })"


section \<open>What a thread does: the life cycle as a structured program\<close>

text \<open>
  The state machine is meant to be: initialise once; run until an exit is requested or \<open>Run\<close>
  fails; clean up once.  \<open>lifecycle\<close> says this without the machine's states, but for the value
  of \<open>m_state\<close> each virtual function sees.
\<close>

definition set_state ::
  "CiThread2State_t \<Rightarrow> 'a ci_thread2_scheme st \<Rightarrow> 'a ci_thread2_scheme st" where
  "set_state x s = ((fst s)\<lparr>m_state := x\<rparr>, snd s)"

fun run_loop ::
  "nat \<Rightarrow> 'a ci_thread2_scheme thread_vtbl \<Rightarrow> ('a ci_thread2_scheme, bool) meth"
where
  "run_loop 0 vt s = None"
| "run_loop (Suc n) vt s =
     (if m_bExit (fst s) then Some (True, s)
      else do { (ok, s1) \<leftarrow> v_Run vt s; if ok then run_loop n vt s1 else Some (False, s1) })"

definition exit_as ::
  "bool \<Rightarrow> 'a ci_thread2_scheme thread_vtbl \<Rightarrow> 'a ci_thread2_scheme st
     \<Rightarrow> 'a ci_thread2_scheme st option"
where
  "exit_as ok vt s = do {
     (_, s1) \<leftarrow> v_ExitInstance vt
        (set_state (if ok then CI_THREAD2_DONE_RUN else CI_THREAD2_ERROR) s);
     Some (set_state (if ok then CI_THREAD2_DONE else CI_THREAD2_DONE_ERROR) s1) }"

definition lifecycle ::
  "nat \<Rightarrow> 'a ci_thread2_scheme thread_vtbl \<Rightarrow> 'a ci_thread2_scheme st
     \<Rightarrow> 'a ci_thread2_scheme st option"
where
  "lifecycle n vt s = do {
     (ok, s1) \<leftarrow> v_InitInstance vt s;
     if ok then do {
       (ok2, s2) \<leftarrow> run_loop n vt (set_state CI_THREAD2_DONE_INITINSTANCE s1);
       exit_as ok2 vt s2 }
     else exit_as False vt s1 }"

text \<open>What every virtual function leaves alone, and that it never withdraws an exit request.\<close>

definition thread_frame :: "'a ci_thread2_scheme \<Rightarrow> 'a ci_thread2_scheme \<Rightarrow> bool" where
  "thread_frame o1 o2 \<longleftrightarrow>
     m_state o2 = m_state o1 \<and> m_ciThreadHandle o2 = m_ciThreadHandle o1 \<and>
     m_semExit o2 = m_semExit o1 \<and> (m_bExit o1 \<longrightarrow> m_bExit o2)"

lemma thread_frame_refl [simp]: "thread_frame o1 o1"
  by (simp add: thread_frame_def)

lemma thread_frame_trans: "thread_frame a b \<Longrightarrow> thread_frame b c \<Longrightarrow> thread_frame a c"
  by (simp add: thread_frame_def)

definition hook_law ::
  "('a ci_thread2_scheme st \<Rightarrow> bool) \<Rightarrow> ('a ci_thread2_scheme, bool) meth \<Rightarrow> bool" where
  "hook_law Inv f \<longleftrightarrow>
     (\<forall>s. Inv s \<longrightarrow> (\<exists>ok s'. f s = Some (ok, s') \<and> Inv s' \<and> thread_frame (fst s) (fst s')))"

lemma hook_lawI:
  "(\<And>o1 w. Inv (o1, w) \<Longrightarrow>
      \<exists>ok o2 w2. f (o1, w) = Some (ok, o2, w2) \<and> Inv (o2, w2) \<and> thread_frame o1 o2)
   \<Longrightarrow> hook_law Inv f"
  by (fastforce simp: hook_law_def)

lemma hook_lawE:
  assumes "hook_law Inv f" and "Inv s"
  obtains ok o1 w where "f s = Some (ok, o1, w)" "Inv (o1, w)" "thread_frame (fst s) o1"
proof -
  obtain ok s' where "f s = Some (ok, s')" "Inv s'" "thread_frame (fst s) (fst s')"
    using assms unfolding hook_law_def by blast
  then show ?thesis by (cases s') (auto intro: that)
qed

text \<open>The states in the order in which a thread passes through them.\<close>

fun state_rank :: "CiThread2State_t \<Rightarrow> nat" where
  "state_rank CI_THREAD2_READY = 0"
| "state_rank CI_THREAD2_INACTIVE = 0"
| "state_rank CI_THREAD2_DONE_INITINSTANCE = 1"
| "state_rank CI_THREAD2_DONE_RUN = 2"
| "state_rank CI_THREAD2_ERROR = 2"
| "state_rank CI_THREAD2_DONE_EXITINSTANCE = 3"
| "state_rank CI_THREAD2_DONE_EXITINSTANCE_ERROR = 3"
| "state_rank CI_THREAD2_DONE = 4"
| "state_rank CI_THREAD2_DONE_ERROR = 4"

text \<open>More fuel never changes the result of the loop.\<close>

lemma thread_loop_Suc: "thread_loop n vt s = Some r \<Longrightarrow> thread_loop (Suc n) vt s = Some r"
proof (induction n arbitrary: s)
  case 0
  then show ?case by simp
next
  case (Suc n)
  show ?case
  proof (cases "IsThreadDone (fst s)")
    case True
    then show ?thesis using Suc.prems by simp
  next
    case False
    then obtain t where "ThreadProc vt s = Some t" "thread_loop n vt t = Some r"
      using Suc.prems by (auto split: bind_splits)
    then show ?thesis using Suc.IH [of t] False by simp
  qed
qed

lemma thread_loop_mono:
  "thread_loop n vt s = Some r \<Longrightarrow> n \<le> m \<Longrightarrow> thread_loop m vt s = Some r"
  by (induction m) (auto simp: le_Suc_eq simp del: thread_loop.simps(2) intro: thread_loop_Suc)

text \<open>Calling \<open>ThreadProc\<close> a given number of times.\<close>

fun proc_iter ::
  "nat \<Rightarrow> 'a ci_thread2_scheme thread_vtbl \<Rightarrow> 'a ci_thread2_scheme st
     \<Rightarrow> 'a ci_thread2_scheme st option"
where
  "proc_iter 0 vt s = Some s"
| "proc_iter (Suc n) vt s = do { s' \<leftarrow> ThreadProc vt s; proc_iter n vt s' }"

text \<open>What one call of \<open>ThreadProc\<close> may do, by the state it finds.\<close>

definition proc_next :: "bool \<Rightarrow> CiThread2State_t \<Rightarrow> bool \<Rightarrow> CiThread2State_t \<Rightarrow> bool" where
  "proc_next ex x ex' y \<longleftrightarrow> (ex \<longrightarrow> ex') \<and>
     (case x of
        CI_THREAD2_READY \<Rightarrow> y = CI_THREAD2_ERROR \<or> y = CI_THREAD2_DONE \<and> ex' \<or>
          y = CI_THREAD2_DONE_INITINSTANCE \<and> \<not> ex
      | CI_THREAD2_DONE_INITINSTANCE \<Rightarrow>
          (if ex then y = CI_THREAD2_DONE
           else y = CI_THREAD2_DONE_INITINSTANCE \<or> y = CI_THREAD2_ERROR)
      | CI_THREAD2_DONE_RUN \<Rightarrow> y = CI_THREAD2_DONE
      | CI_THREAD2_DONE_EXITINSTANCE \<Rightarrow> y = CI_THREAD2_DONE
      | CI_THREAD2_DONE \<Rightarrow> y = CI_THREAD2_DONE
      | _ \<Rightarrow> y = CI_THREAD2_DONE_ERROR)"

definition proc_rel :: "'a ci_thread2_scheme \<Rightarrow> 'a ci_thread2_scheme \<Rightarrow> bool" where
  "proc_rel o1 o2 \<longleftrightarrow> m_semExit o2 = m_semExit o1 \<and> m_ciThreadHandle o2 = m_ciThreadHandle o1 \<and>
     proc_next (m_bExit o1) (m_state o1) (m_bExit o2) (m_state o2)"

section \<open>Interleaving with the controlling thread\<close>

text \<open>
  A created thread calls \<open>ThreadProc\<close> until it is done, while the thread that owns the object
  may call \<open>EndThread\<close> at any time.
\<close>

inductive thread_step ::
  "'a ci_thread2_scheme thread_vtbl \<Rightarrow> 'a ci_thread2_scheme st \<Rightarrow> 'a ci_thread2_scheme st \<Rightarrow> bool"
  for vt
where
  worker: "\<not> IsThreadDone (fst s) \<Longrightarrow> ThreadProc vt s = Some s' \<Longrightarrow> thread_step vt s s'"
| controller: "thread_step vt (o1, w) (EndThread o1, w)"

inductive_cases thread_stepE: "thread_step vt s s'"
inductive_simps thread_step_done: "thread_step vt (o1, w) s'"

inductive thread_reach ::
  "'a ci_thread2_scheme thread_vtbl \<Rightarrow> 'a ci_thread2_scheme st \<Rightarrow> 'a ci_thread2_scheme st \<Rightarrow> bool"
  for vt s
where
  reach_start: "thread_reach vt s s"
| reach_step: "thread_reach vt s t \<Longrightarrow> thread_step vt t u \<Longrightarrow> thread_reach vt s u"

section \<open>The contract of a derived class, and what it buys\<close>

locale thread_hooks =
  fixes vt :: "'a ci_thread2_scheme thread_vtbl"
    and Inv :: "'a ci_thread2_scheme st \<Rightarrow> bool"
  assumes init_law: "hook_law Inv (v_InitInstance vt)"
    and run_law: "hook_law Inv (v_Run vt)"
    and exit_law: "hook_law Inv (v_ExitInstance vt)"
    and inv_state: "\<And>o1 w x. Inv (o1, w) \<Longrightarrow> Inv (o1\<lparr>m_state := x\<rparr>, w)"
    and inv_bExit: "\<And>o1 w x. Inv (o1, w) \<Longrightarrow> Inv (o1\<lparr>m_bExit := x\<rparr>, w)"
    and inv_sem: "\<And>o1 w x. Inv (o1, w) \<Longrightarrow> Inv (o1\<lparr>m_semExit := x\<rparr>, w)"
    and inv_events: "\<And>o1 w x. Inv (o1, w) \<Longrightarrow> Inv (o1, w\<lparr>sem_events := x\<rparr>)"
begin

lemma exit_step:
  assumes "Inv s"
  obtains s' where "thread_proc_exit vt s = Some s'" "Inv s'"
    "m_state (fst s') = (if m_state (fst s) = CI_THREAD2_DONE_RUN
       then CI_THREAD2_DONE else CI_THREAD2_DONE_ERROR)"
    "thread_frame (fst s) ((fst s')\<lparr>m_state := m_state (fst s)\<rparr>)"
proof -
  obtain ok o1 w where 1: "v_ExitInstance vt s = Some (ok, o1, w)" "Inv (o1, w)"
      "thread_frame (fst s) o1"
    using hook_lawE [OF exit_law assms] .
  let ?x = "if m_state (fst s) = CI_THREAD2_DONE_RUN then CI_THREAD2_DONE else CI_THREAD2_DONE_ERROR"
  have "thread_proc_exit vt s = Some (o1\<lparr>m_state := ?x\<rparr>, w)"
    using 1 by (simp add: thread_proc_exit_def thread_proc_finish_def thread_frame_def)
  then show ?thesis
    by (rule that) (use 1 in \<open>auto simp: thread_frame_def intro: inv_state\<close>)
qed

lemma exit_rel:
  assumes "Inv s"
    and "m_state (fst s) \<in> {CI_THREAD2_DONE_RUN, CI_THREAD2_ERROR, CI_THREAD2_INACTIVE}"
  shows "\<exists>s'. thread_proc_exit vt s = Some s' \<and> Inv s' \<and> proc_rel (fst s) (fst s')"
  by (rule exit_step [OF assms(1)])
     (use assms(2) in \<open>auto simp: proc_rel_def proc_next_def thread_frame_def\<close>)

lemma run_rel:
  assumes "Inv s" and st: "m_state (fst s) = CI_THREAD2_DONE_INITINSTANCE"
  shows "\<exists>s'. thread_proc_run vt s = Some s' \<and> Inv s' \<and> proc_rel (fst s) (fst s')"
proof (cases "m_bExit (fst s)")
  case True
  let ?s = "((fst s)\<lparr>m_state := CI_THREAD2_DONE_RUN\<rparr>, snd s)"
  have "Inv ?s" using assms by (cases s) (auto intro: inv_state)
  then obtain s' where "thread_proc_exit vt ?s = Some s'" "Inv s'" "proc_rel (fst ?s) (fst s')"
    using exit_rel [of ?s] by auto
  then show ?thesis using True st
    by (auto simp: thread_proc_run_def proc_rel_def proc_next_def)
next
  case False
  obtain ok o1 w where 1: "v_Run vt s = Some (ok, o1, w)" "Inv (o1, w)" "thread_frame (fst s) o1"
    using hook_lawE [OF run_law assms(1)] .
  then show ?thesis using False st
    by (auto simp: thread_proc_run_def proc_rel_def proc_next_def thread_frame_def
             intro: inv_state)
qed

text \<open>\<open>ThreadProc\<close> always returns, and moves the thread along its life cycle.\<close>

lemma proc_step:
  assumes I: "Inv s"
  shows "\<exists>s'. ThreadProc vt s = Some s' \<and> Inv s' \<and> proc_rel (fst s) (fst s')"
proof (cases "m_state (fst s)")
  case CI_THREAD2_READY
  obtain ok o1 w where 1: "v_InitInstance vt s = Some (ok, o1, w)" "Inv (o1, w)"
      "thread_frame (fst s) o1"
    using hook_lawE [OF init_law I] .
  show ?thesis
  proof (cases ok)
    case True
    let ?t = "(o1\<lparr>m_state := CI_THREAD2_DONE_INITINSTANCE\<rparr>, w)"
    have "ThreadProc vt s = thread_proc_run vt ?t"
      using CI_THREAD2_READY 1 True by (simp add: ThreadProc_def)
    moreover have "\<exists>s'. thread_proc_run vt ?t = Some s' \<and> Inv s' \<and> proc_rel (fst ?t) (fst s')"
      by (rule run_rel) (use 1 in \<open>simp_all add: inv_state\<close>)
    ultimately show ?thesis using CI_THREAD2_READY 1(3)
      by (auto simp: proc_rel_def proc_next_def thread_frame_def split: if_splits)
  next
    case False
    then show ?thesis using CI_THREAD2_READY 1
      by (auto simp: ThreadProc_def proc_rel_def proc_next_def thread_frame_def intro: inv_state)
  qed
next
  case CI_THREAD2_DONE_INITINSTANCE
  then show ?thesis using run_rel [OF I] by (simp add: ThreadProc_def)
qed (use I exit_rel [OF I] in \<open>auto simp: ThreadProc_def thread_proc_finish_def proc_rel_def
       proc_next_def inv_state\<close>)

lemma proc_bExit_done:
  assumes "Inv s" and "m_bExit (fst s)" and "m_state (fst s) \<noteq> CI_THREAD2_READY"
  shows "\<exists>s'. ThreadProc vt s = Some s' \<and> Inv s' \<and> IsThreadDone (fst s') \<and> m_bExit (fst s')"
proof -
  obtain s' where "ThreadProc vt s = Some s'" "Inv s'" "proc_rel (fst s) (fst s')"
    using proc_step [OF assms(1)] by blast
  then show ?thesis using assms(2,3)
    by (auto simp: proc_rel_def proc_next_def IsThreadDone_def split: CiThread2State_t.splits)
qed

text \<open>Once an exit is requested, two more calls of \<open>ThreadProc\<close> are enough.\<close>

lemma loop_after_exit_request:
  assumes "Inv s" and "m_bExit (fst s)"
  shows "\<exists>s'. thread_loop (Suc (Suc (Suc n))) vt s = Some s' \<and> Inv s' \<and> IsThreadDone (fst s')"
proof (cases "m_state (fst s) = CI_THREAD2_READY")
  case True
  obtain t where t: "ThreadProc vt s = Some t" "Inv t" "proc_rel (fst s) (fst t)"
    using proc_step [OF assms(1)] by blast
  with True assms(2) have e: "m_bExit (fst t)" "m_state (fst t) \<noteq> CI_THREAD2_READY"
    by (auto simp: proc_rel_def proc_next_def)
  obtain u where "ThreadProc vt t = Some u" "Inv u" "IsThreadDone (fst u)"
    using proc_bExit_done [OF t(2) e] by blast
  then have "thread_loop (Suc (Suc n)) vt t = Some (if IsThreadDone (fst t) then t else u)"
    by simp
  with t True \<open>Inv u\<close> \<open>IsThreadDone (fst u)\<close> show ?thesis
    by (intro exI [of _ "if IsThreadDone (fst t) then t else u"]) (simp add: IsThreadDone_def)
next
  case False
  obtain u where "ThreadProc vt s = Some u" "Inv u" "IsThreadDone (fst u)"
    using proc_bExit_done [OF assms False] by blast
  with assms show ?thesis
    by (intro exI [of _ "if IsThreadDone (fst s) then s else u"]) simp
qed

text \<open>
  The loop returns as soon as the runs of the derived class make progress towards asking for
  an exit or failing.
\<close>

lemma loop_terminates:
  assumes "Inv s" and "m_state (fst s) = CI_THREAD2_DONE_INITINSTANCE"
    and progress: "\<And>t ok t'. Inv t \<Longrightarrow> \<not> m_bExit (fst t) \<Longrightarrow> v_Run vt t = Some (ok, t') \<Longrightarrow>
        \<not> ok \<or> m_bExit (fst t') \<or> mu t' < (mu t :: nat)"
  shows "\<exists>s'. thread_loop (mu s + 4) vt s = Some s' \<and> Inv s' \<and> IsThreadDone (fst s')"
  using assms(1,2)
proof (induction "mu s" arbitrary: s rule: less_induct)
  case less
  show ?case
  proof (cases "m_bExit (fst s)")
    case True
    then show ?thesis using loop_after_exit_request [OF less.prems(1) True, of "Suc (mu s)"]
      by (simp add: numeral_eq_Suc)
  next
    case False
    obtain ok o1 w where 1: "v_Run vt s = Some (ok, o1, w)" "Inv (o1, w)" "thread_frame (fst s) o1"
      using hook_lawE [OF run_law less.prems(1)] .
    have nd: "\<not> IsThreadDone (fst s)" using less.prems(2) by (simp add: IsThreadDone_def)
    show ?thesis
    proof (cases ok)
      case ok: True
      then have P: "ThreadProc vt s = Some (o1, w)"
        using 1 False less.prems(2) by (simp add: ThreadProc_def thread_proc_run_def)
      show ?thesis
      proof (cases "m_bExit o1")
        case True
        with loop_after_exit_request [OF 1(2), of "mu s"] P nd show ?thesis
          by (simp add: numeral_eq_Suc)
      next
        case noexit: False
        have "mu (o1, w) < mu s" using progress [OF less.prems(1) False 1(1)] ok noexit by simp
        moreover have "m_state (fst (o1, w)) = CI_THREAD2_DONE_INITINSTANCE"
          using 1(3) less.prems(2) by (simp add: thread_frame_def)
        ultimately obtain s' where s': "thread_loop (mu (o1, w) + 4) vt (o1, w) = Some s'"
            "Inv s'" "IsThreadDone (fst s')"
          using less.hyps 1(2) by blast
        have "thread_loop (mu s + 3) vt (o1, w) = Some s'"
          using s'(1) \<open>mu (o1, w) < mu s\<close> by (auto intro: thread_loop_mono)
        then show ?thesis using P nd s' by (simp add: numeral_eq_Suc)
      qed
    next
      case notok: False
      let ?t = "(o1\<lparr>m_state := CI_THREAD2_ERROR\<rparr>, w)"
      have P: "ThreadProc vt s = Some ?t"
        using 1 False less.prems(2) notok by (simp add: ThreadProc_def thread_proc_run_def)
      obtain u where "ThreadProc vt ?t = Some u" "Inv u" "proc_rel (fst ?t) (fst u)"
        using proc_step [of ?t] inv_state [OF 1(2)] by blast
      then show ?thesis using P nd
        by (simp add: numeral_eq_Suc IsThreadDone_def proc_rel_def proc_next_def)
    qed
  qed
qed

text \<open>The state machine is the structured program, in both directions.\<close>

lemma exit_as_proc:
  assumes "Inv s"
  shows "thread_proc_exit vt (set_state (if ok then CI_THREAD2_DONE_RUN else CI_THREAD2_ERROR) s)
         = exit_as ok vt s"
proof -
  let ?s = "set_state (if ok then CI_THREAD2_DONE_RUN else CI_THREAD2_ERROR) s"
  have "Inv ?s" using assms by (cases s) (simp add: set_state_def inv_state)
  then obtain r o1 w where "v_ExitInstance vt ?s = Some (r, o1, w)" "thread_frame (fst ?s) o1"
    using hook_lawE [OF exit_law] by metis
  then show ?thesis
    by (simp add: thread_proc_exit_def exit_as_def thread_frame_def set_state_def
        thread_proc_finish_def)
qed

lemma exit_as_done: "exit_as ok vt s = Some s' \<Longrightarrow> IsThreadDone (fst s')"
  by (cases ok) (auto simp: exit_as_def set_state_def IsThreadDone_def split: bind_splits)

lemma run_loop_machine:
  assumes "Inv s" and "m_state (fst s) = CI_THREAD2_DONE_INITINSTANCE"
    and "run_loop n vt s = Some (ok, t)" and "exit_as ok vt t = Some r"
  shows "thread_loop (n + 2) vt s = Some r"
  using assms
proof (induction n arbitrary: s)
  case 0
  then show ?case by simp
next
  case (Suc n)
  have nd: "\<not> IsThreadDone (fst s)" using Suc.prems(2) by (simp add: IsThreadDone_def)
  have rd: "IsThreadDone (fst r)" using Suc.prems(4) by (rule exit_as_done)
  show ?case
  proof (cases "m_bExit (fst s)")
    case True
    then have "t = s" "ok" using Suc.prems(3) by simp_all
    then have "ThreadProc vt s = Some r"
      using True Suc.prems(2,4) exit_as_proc [OF Suc.prems(1), of True]
      by (simp add: ThreadProc_def thread_proc_run_def set_state_def)
    then show ?thesis using nd rd by simp
  next
    case False
    obtain k o1 w where 1: "v_Run vt s = Some (k, o1, w)" "Inv (o1, w)" "thread_frame (fst s) o1"
      using hook_lawE [OF run_law Suc.prems(1)] .
    show ?thesis
    proof (cases k)
      case True
      then have "run_loop n vt (o1, w) = Some (ok, t)" using Suc.prems(3) 1(1) False by simp
      moreover have "m_state (fst (o1, w)) = CI_THREAD2_DONE_INITINSTANCE"
        using 1(3) Suc.prems(2) by (simp add: thread_frame_def)
      ultimately have "thread_loop (n + 2) vt (o1, w) = Some r"
        using Suc.IH [OF 1(2)] Suc.prems(4) by blast
      then show ?thesis
        using nd 1(1) True False Suc.prems(2) by (simp add: ThreadProc_def thread_proc_run_def)
    next
      case nk: False
      then have t: "t = (o1, w)" "\<not> ok" using Suc.prems(3) 1(1) False by simp_all
      let ?e = "set_state CI_THREAD2_ERROR (o1, w)"
      have "ThreadProc vt s = Some ?e"
        using 1(1) nk False Suc.prems(2)
        by (simp add: ThreadProc_def thread_proc_run_def set_state_def)
      moreover have "ThreadProc vt ?e = Some r"
        using exit_as_proc [OF 1(2), of False] Suc.prems(4) t
        by (simp add: ThreadProc_def set_state_def)
      moreover have "\<not> IsThreadDone (fst ?e)" by (simp add: IsThreadDone_def set_state_def)
      ultimately show ?thesis using nd rd by simp
    qed
  qed
qed

lemma machine_run_loop:
  assumes "Inv s" and "m_state (fst s) = CI_THREAD2_DONE_INITINSTANCE"
    and "thread_loop n vt s = Some r"
  shows "\<exists>ok t. run_loop n vt s = Some (ok, t) \<and> exit_as ok vt t = Some r"
  using assms
proof (induction n arbitrary: s)
  case 0
  then show ?case by simp
next
  case (Suc n)
  have nd: "\<not> IsThreadDone (fst s)" using Suc.prems(2) by (simp add: IsThreadDone_def)
  then obtain s1 where P: "ThreadProc vt s = Some s1" and L: "thread_loop n vt s1 = Some r"
    using Suc.prems(3) by (auto split: bind_splits)
  show ?case
  proof (cases "m_bExit (fst s)")
    case True
    then have E: "exit_as True vt s = Some s1"
      using P Suc.prems(2) exit_as_proc [OF Suc.prems(1), of True]
      by (simp add: ThreadProc_def thread_proc_run_def set_state_def)
    then have "s1 = r" using L exit_as_done [OF E] by (cases n) simp_all
    then show ?thesis using E True by (intro exI [of _ True] exI [of _ s]) simp
  next
    case False
    obtain k o1 w where 1: "v_Run vt s = Some (k, o1, w)" "Inv (o1, w)" "thread_frame (fst s) o1"
      using hook_lawE [OF run_law Suc.prems(1)] .
    show ?thesis
    proof (cases k)
      case True
      then have "s1 = (o1, w)"
        using P 1(1) False Suc.prems(2) by (simp add: ThreadProc_def thread_proc_run_def)
      moreover have "m_state (fst (o1, w)) = CI_THREAD2_DONE_INITINSTANCE"
        using 1(3) Suc.prems(2) by (simp add: thread_frame_def)
      ultimately have "\<exists>ok t. run_loop n vt (o1, w) = Some (ok, t) \<and> exit_as ok vt t = Some r"
        using Suc.IH [OF 1(2)] L by blast
      then show ?thesis using 1(1) True False by simp
    next
      case nk: False
      let ?e = "set_state CI_THREAD2_ERROR (o1, w)"
      have s1: "s1 = ?e"
        using P 1(1) nk False Suc.prems(2)
        by (simp add: ThreadProc_def thread_proc_run_def set_state_def)
      then obtain m where n: "n = Suc m" using L by (cases n) simp_all
      have "ThreadProc vt ?e = exit_as False vt (o1, w)"
        using exit_as_proc [OF 1(2), of False] by (simp add: ThreadProc_def set_state_def)
      then obtain u where E: "exit_as False vt (o1, w) = Some u" and U: "thread_loop m vt u = Some r"
        using L s1 n by (auto simp: IsThreadDone_def set_state_def split: bind_splits)
      then have "u = r" using exit_as_done [OF E] by (cases m) simp_all
      then show ?thesis using E 1(1) nk False
        by (intro exI [of _ False] exI [of _ "(o1, w)"]) simp
    qed
  qed
qed

lemma machine_is_lifecycle:
  assumes "Inv s" and st: "m_state (fst s) = CI_THREAD2_READY"
  shows "(\<exists>n. thread_loop n vt s = Some r) \<longleftrightarrow> (\<exists>n. lifecycle n vt s = Some r)"
proof -
  have nd: "\<not> IsThreadDone (fst s)" using st by (simp add: IsThreadDone_def)
  obtain k o1 w where 1: "v_InitInstance vt s = Some (k, o1, w)" "Inv (o1, w)"
      "thread_frame (fst s) o1"
    using hook_lawE [OF init_law assms(1)] .
  let ?d = "set_state CI_THREAD2_DONE_INITINSTANCE (o1, w)"
  let ?e = "set_state CI_THREAD2_ERROR (o1, w)"
  have I: "Inv ?d" "Inv ?e" using 1(2) by (simp_all add: set_state_def inv_state)
  have dst: "m_state (fst ?d) = CI_THREAD2_DONE_INITINSTANCE" by (simp add: set_state_def)
  show ?thesis
  proof (cases k)
    case True
    have P: "ThreadProc vt s = ThreadProc vt ?d"
      using st 1(1) True by (simp add: ThreadProc_def set_state_def)
    have "(\<exists>n. thread_loop n vt s = Some r) \<longleftrightarrow> (\<exists>n. thread_loop n vt ?d = Some r)"
    proof -
      have eq: "thread_loop (Suc n) vt s = thread_loop (Suc n) vt ?d" for n
        using P nd dst by (simp add: IsThreadDone_def)
      show ?thesis
      proof
        assume "\<exists>n. thread_loop n vt s = Some r"
        then obtain n where "thread_loop n vt s = Some r" ..
        then show "\<exists>n. thread_loop n vt ?d = Some r"
          by (intro exI [of _ n]) (cases n, simp, simp only: eq)
      next
        assume "\<exists>n. thread_loop n vt ?d = Some r"
        then obtain n where "thread_loop n vt ?d = Some r" ..
        then show "\<exists>n. thread_loop n vt s = Some r"
          by (intro exI [of _ n]) (cases n, simp, simp only: eq)
      qed
    qed
    also have "\<dots> \<longleftrightarrow> (\<exists>n. lifecycle n vt s = Some r)"
    proof
      assume "\<exists>n. thread_loop n vt ?d = Some r"
      then obtain n where "thread_loop n vt ?d = Some r" ..
      then obtain ok t where "run_loop n vt ?d = Some (ok, t)" "exit_as ok vt t = Some r"
        using machine_run_loop [OF I(1) dst] by blast
      then have "lifecycle n vt s = Some r" using 1(1) True by (simp add: lifecycle_def)
      then show "\<exists>n. lifecycle n vt s = Some r" ..
    next
      assume "\<exists>n. lifecycle n vt s = Some r"
      then obtain n where "lifecycle n vt s = Some r" ..
      then obtain ok t where "run_loop n vt ?d = Some (ok, t)" "exit_as ok vt t = Some r"
        using 1(1) True by (auto simp: lifecycle_def split: bind_splits)
      then have "thread_loop (n + 2) vt ?d = Some r"
        using run_loop_machine [OF I(1) dst] by blast
      then show "\<exists>n. thread_loop n vt ?d = Some r" ..
    qed
    finally show ?thesis .
  next
    case False
    have P: "ThreadProc vt s = Some ?e"
      using st 1(1) False by (simp add: ThreadProc_def set_state_def)
    have E: "ThreadProc vt ?e = exit_as False vt (o1, w)"
      using exit_as_proc [OF 1(2), of False] by (simp add: ThreadProc_def set_state_def)
    have nde: "\<not> IsThreadDone (fst ?e)" by (simp add: IsThreadDone_def set_state_def)
    have L: "lifecycle n vt s = exit_as False vt (o1, w)" for n
      using 1(1) False by (simp add: lifecycle_def)
    show ?thesis
    proof
      assume "\<exists>n. thread_loop n vt s = Some r"
      then obtain n where "thread_loop n vt s = Some r" ..
      then have "thread_loop (Suc (Suc (Suc n))) vt s = Some r" by (rule thread_loop_mono) simp
      then obtain u where "exit_as False vt (o1, w) = Some u" "thread_loop (Suc n) vt u = Some r"
        using P E nd nde by (auto split: bind_splits)
      then show "\<exists>n. lifecycle n vt s = Some r" using L exit_as_done by fastforce
    next
      assume "\<exists>n. lifecycle n vt s = Some r"
      then have X: "exit_as False vt (o1, w) = Some r" by (simp add: L)
      then have "thread_loop 3 vt s = Some r"
        using P E nd nde exit_as_done [OF X] by (simp add: numeral_eq_Suc)
      then show "\<exists>n. thread_loop n vt s = Some r" ..
    qed
  qed
qed

text \<open>A derived class whose \<open>Run\<close> never fails and never asks for an exit serves for ever.\<close>

lemma serves_forever:
  assumes run: "\<And>t. Inv t \<Longrightarrow> \<not> m_bExit (fst t) \<Longrightarrow>
      \<exists>t'. v_Run vt t = Some (True, t') \<and> \<not> m_bExit (fst t')"
    and "Inv s" "m_state (fst s) = CI_THREAD2_DONE_INITINSTANCE" "\<not> m_bExit (fst s)"
  shows "\<exists>t. proc_iter n vt s = Some t \<and> Inv t \<and> \<not> m_bExit (fst t) \<and>
           m_state (fst t) = CI_THREAD2_DONE_INITINSTANCE"
  using assms(2-4)
proof (induction n arbitrary: s)
  case 0
  then show ?case by simp
next
  case (Suc n)
  obtain t' where t': "v_Run vt s = Some (True, t')" "\<not> m_bExit (fst t')"
    using run [OF Suc.prems(1,3)] by blast
  moreover obtain k o1 w where "v_Run vt s = Some (k, o1, w)" "Inv (o1, w)"
      "thread_frame (fst s) o1"
    using hook_lawE [OF run_law Suc.prems(1)] .
  ultimately have "Inv t'" "m_state (fst t') = CI_THREAD2_DONE_INITINSTANCE"
    using Suc.prems(2) by (auto simp: thread_frame_def)
  moreover have "ThreadProc vt s = Some t'"
    using t'(1) Suc.prems(2,3) by (cases t') (simp add: ThreadProc_def thread_proc_run_def)
  ultimately show ?case using Suc.IH [of t'] t'(2) by simp
qed

text \<open>The interleaved thread: what holds in every state that can be reached.\<close>

lemma reach_invariant:
  assumes "thread_reach vt s t" and "Inv s" and "m_state (fst s) = CI_THREAD2_READY"
  shows "Inv t \<and> m_semExit (fst t) = m_semExit (fst s) \<and>
     m_ciThreadHandle (fst t) = m_ciThreadHandle (fst s) \<and>
     m_state (fst t) \<in> {CI_THREAD2_READY, CI_THREAD2_DONE_INITINSTANCE, CI_THREAD2_ERROR,
       CI_THREAD2_DONE, CI_THREAD2_DONE_ERROR} \<and>
     (m_state (fst t) = CI_THREAD2_DONE \<longrightarrow> m_bExit (fst t))"
  using assms(1)
proof (induction rule: thread_reach.induct)
  case reach_start
  then show ?case using assms by simp
next
  case (reach_step t u)
  from reach_step.hyps(2) show ?case
  proof (cases rule: thread_step.cases)
    case worker
    then have nd: "\<not> IsThreadDone (fst t)" and P: "ThreadProc vt t = Some u" by auto
    obtain u' where "ThreadProc vt t = Some u'" "Inv u'" "proc_rel (fst t) (fst u')"
      using proc_step [of t] reach_step.IH by blast
    then have "Inv u" "proc_rel (fst t) (fst u)" using P by simp_all
    then show ?thesis using reach_step.IH nd
      by (auto simp: proc_rel_def proc_next_def IsThreadDone_def
               split: CiThread2State_t.splits if_splits)
  next
    case (controller o1 w)
    then show ?thesis using reach_step.IH by (auto simp: EndThread_def inv_bExit)
  qed
qed

lemma RunThreadHere_result:
  assumes I: "Inv s" and h: "m_ciThreadHandle (fst s) = CI_THREAD2_INVALID_THREAD_HANDLE"
    and sm: "m_semExit (fst s) = \<lparr>sem_valid = True, sem_value = 1\<rparr>"
    and r: "RunThreadHere n vt s = Some (ok, t)"
  shows "ok \<and> IsThreadDone (fst t) \<and> m_semExit (fst t) = m_semExit (fst s)"
proof -
  let ?o = "(fst s)\<lparr>m_bExit := False, m_state := CI_THREAD2_READY,
      m_semExit := \<lparr>sem_valid = True, sem_value = 0\<rparr>\<rparr>"
  have "PrepareRunning s = Some (True, ?o, snd s)"
    using sm by (cases s) (simp add: PrepareRunning_def Sem_Wait_free)
  then obtain u where u: "thread_loop n vt (?o, snd s) = Some u" "ok" "t = (NotifyExit (fst u), snd u)"
    using r h by (auto simp: RunThreadHere_def split: bind_splits)
  have "Inv (?o, snd s)" using I by (cases s) (simp add: inv_state inv_bExit inv_sem)
  moreover have "Inv v \<Longrightarrow> thread_loop m vt v = Some u \<Longrightarrow>
      IsThreadDone (fst u) \<and> m_semExit (fst u) = m_semExit (fst v)" for m v
  proof (induction m arbitrary: v)
    case 0
    then show ?case by simp
  next
    case (Suc m)
    obtain v' where "ThreadProc vt v = Some v'" "Inv v'" "proc_rel (fst v) (fst v')"
      using proc_step [OF Suc.prems(1)] by blast
    then show ?case using Suc by (auto simp: proc_rel_def split: if_splits)
  qed
  ultimately have "IsThreadDone (fst u)" "m_semExit (fst u) = \<lparr>sem_valid = True, sem_value = 0\<rparr>"
    using u(1) by fastforce+
  then show ?thesis using u sm
    by (simp add: NotifyExit_def Sem_Post_def SEM_VALUE_MAX_def IsThreadDone_def)
qed

end


text \<open>The base class keeps its own contract.\<close>

interpretation base_thread: thread_hooks thread2_vtbl "\<lambda>_. True"
  by unfold_locales
     (auto simp: hook_law_def thread2_vtbl_def Thread2_InitInstance_def Thread2_Run_def
        Thread2_ExitInstance_def)

end
