(* ===== verification/Net_Thread.thy ===== *)
theory Net_Thread
  imports Thread2 "HOL-Library.Multiset"
begin

text \<open>
  \<open>cihb::CNetworkThread\<close> (\<open>legacy_support.h\<close>, \<open>legacy_support.cpp\<close>), the poll version: a
  thread that waits for readable sockets and hands each ready one to the derived class.  The
  array \<open>m_PollFds\<close> is a list of fixed length of which the first \<open>m_iPollFdCount\<close> entries are in
  use; \<open>m_ReadSockets\<close>, a \<open>std::set<int>\<close>, is iterated in ascending order.
\<close>

record network_thread = ci_thread2 +
  m_ReadSockets :: "fd set"
  m_PollFds :: "pollfd list"
  m_iPollFdCount :: nat
  m_iEventsCount :: int
  m_iTimeoutMillisec :: int
  m_iMaxFDSize :: nat

definition NETWORK_THREAD_FD_SETSIZE :: nat where
  "NETWORK_THREAD_FD_SETSIZE = 1024"

definition free_pollfd :: pollfd where
  "free_pollfd = \<lparr>pfd = NU_INVALID_SOCKET, pevents = 0, prevents = 0\<rparr>"

text \<open>The constructor, over the fields that the base class constructor has set.\<close>

definition network_thread_new :: "nat \<Rightarrow> int \<Rightarrow> network_thread" where
  "network_thread_new maxfd iTimeoutMillisec =
     ci_thread2.extend ci_thread2_new
       (network_thread.fields {} (replicate maxfd free_pollfd) 0 0 iTimeoutMillisec maxfd)"

section \<open>The poll table\<close>

definition PollFDAdd ::
  "fd \<Rightarrow> 'a network_thread_scheme \<Rightarrow> bool \<times> 'a network_thread_scheme" where
  "PollFDAdd sockfd o1 =
     (if sockfd = NU_INVALID_SOCKET then (False, o1)
      else if m_iMaxFDSize o1 \<le> m_iPollFdCount o1 then (False, o1)
      else (True, o1\<lparr>m_PollFds := (m_PollFds o1)[m_iPollFdCount o1 :=
                       \<lparr>pfd = sockfd, pevents = read_events, prevents = 0\<rparr>],
                     m_iPollFdCount := Suc (m_iPollFdCount o1)\<rparr>))"

text \<open>The search loop: the index of the first entry in use that has the descriptor.\<close>

fun poll_find :: "fd \<Rightarrow> pollfd list \<Rightarrow> nat option" where
  "poll_find sockfd [] = None"
| "poll_find sockfd (p # ps) =
     (if pfd p = sockfd then Some 0 else map_option Suc (poll_find sockfd ps))"

definition PollFDDelete ::
  "fd \<Rightarrow> 'a network_thread_scheme \<Rightarrow> bool \<times> 'a network_thread_scheme" where
  "PollFDDelete sockfd o1 =
     (if sockfd = NU_INVALID_SOCKET then (False, o1)
      else case poll_find sockfd (take (m_iPollFdCount o1) (m_PollFds o1)) of
        None \<Rightarrow> (False, o1)
      | Some i \<Rightarrow>
          (let l = m_iPollFdCount o1 - 1; ps = m_PollFds o1;
               ps1 = (if i \<noteq> l then ps[i := ps ! l] else ps)
           in (True, o1\<lparr>m_PollFds := ps1[l := free_pollfd], m_iPollFdCount := l\<rparr>)))"

text \<open>\<open>PollFDEnable\<close> and \<open>PollFDDisable\<close> take a pointer to an entry; \<open>None\<close> is \<open>NULL\<close>.\<close>

definition PollFDEnable :: "pollfd option \<Rightarrow> bool \<times> pollfd option" where
  "PollFDEnable pPollFD =
     (case pPollFD of
        None \<Rightarrow> (False, None)
      | Some p \<Rightarrow>
          if pfd p = NU_INVALID_SOCKET then (False, Some p)
          else (True, Some (p\<lparr>pevents := pevents p OR read_events\<rparr>)))"

definition PollFDDisable :: "pollfd option \<Rightarrow> bool \<times> pollfd option" where
  "PollFDDisable pPollFD =
     (case pPollFD of
        None \<Rightarrow> (False, None)
      | Some p \<Rightarrow>
          if pfd p = NU_INVALID_SOCKET then (False, Some p)
          else (True, Some (p\<lparr>pevents := pevents p AND NOT read_events\<rparr>)))"

section \<open>The socket set\<close>

definition AddReadSocket ::
  "fd \<Rightarrow> 'a network_thread_scheme \<Rightarrow> bool \<times> 'a network_thread_scheme" where
  "AddReadSocket sockfd o1 =
     (if sockfd = NU_INVALID_SOCKET then (False, o1)
      else (True, o1\<lparr>m_ReadSockets := insert sockfd (m_ReadSockets o1)\<rparr>))"

definition DeleteReadSocket ::
  "fd \<Rightarrow> 'a network_thread_scheme \<Rightarrow> bool \<times> 'a network_thread_scheme" where
  "DeleteReadSocket sockfd o1 =
     (if sockfd = NU_INVALID_SOCKET then (False, o1)
      else (True, o1\<lparr>m_ReadSockets := m_ReadSockets o1 - {sockfd}\<rparr>))"

text \<open>\<open>nu_disconnect\<close>, and \<open>for_each\<close> of it over the socket set.\<close>

definition nu_disconnect :: "kernel \<Rightarrow> fd \<Rightarrow> world \<Rightarrow> bool \<times> world" where
  "nu_disconnect K sock w = sys_close K sock w"

fun disconnect_all :: "kernel \<Rightarrow> fd list \<Rightarrow> world \<Rightarrow> world" where
  "disconnect_all K [] w = w"
| "disconnect_all K (s # ss) w = disconnect_all K ss (snd (nu_disconnect K s w))"

text \<open>The destructor closes what is still open.\<close>

definition network_thread_destroy :: "kernel \<Rightarrow> 'a network_thread_scheme st \<Rightarrow> world" where
  "network_thread_destroy K s =
     disconnect_all K (sorted_list_of_set (m_ReadSockets (fst s))) (snd s)"

definition NT_ExitInstance :: "kernel \<Rightarrow> ('a network_thread_scheme, bool) meth" where
  "NT_ExitInstance K s =
     (let w = disconnect_all K (sorted_list_of_set (m_ReadSockets (fst s))) (snd s)
      in Thread2_ExitInstance
           ((fst s)\<lparr>m_ReadSockets := {},
                    m_PollFds := replicate (m_iMaxFDSize (fst s)) free_pollfd,
                    m_iPollFdCount := 0, m_iEventsCount := 0\<rparr>, w))"

definition DisableSocket :: "kernel \<Rightarrow> fd \<Rightarrow> ('a network_thread_scheme, bool) meth" where
  "DisableSocket K sockfd s =
     (if sockfd = NU_INVALID_SOCKET then Some (False, s)
      else Some (True, snd (PollFDDelete sockfd (fst s)), snd (nu_disconnect K sockfd (snd s))))"

definition NT_OnReadSocketError :: "kernel \<Rightarrow> fd \<Rightarrow> ('a network_thread_scheme, bool) meth" where
  "NT_OnReadSocketError K sockfd s =
     (if sockfd = NU_INVALID_SOCKET then Some (False, s)
      else do {
        (_, o1, w) \<leftarrow> DisableSocket K sockfd s;
        Some (True, snd (DeleteReadSocket sockfd o1), w) })"

section \<open>Waiting for events and serving them\<close>

record 'o nt_vtbl =
  v_ReceiveIntMessage :: "fd \<Rightarrow> ('o, bool \<times> i32) meth"
  v_OnMessage :: "fd \<Rightarrow> i32 \<Rightarrow> ('o, bool) meth"
  v_OnReadSocketError :: "fd \<Rightarrow> ('o, bool) meth"

text \<open>
  The base class receives nothing.  \<open>ReceiveIntMessage\<close> returns its \<open>bool\<close> and the value left in
  \<open>*piReceivedMessage\<close>, which the caller has set to 0.
\<close>

definition NT_ReceiveIntMessage :: "fd \<Rightarrow> ('o, bool \<times> i32) meth" where
  "NT_ReceiveIntMessage sockfd s = Some ((False, 0), s)"

definition NT_OnMessage :: "fd \<Rightarrow> i32 \<Rightarrow> ('o, bool) meth" where
  "NT_OnMessage sockfd iMessage s = Some (False, s)"

definition nt_base_vtbl :: "kernel \<Rightarrow> 'a network_thread_scheme nt_vtbl" where
  "nt_base_vtbl K =
     \<lparr>v_ReceiveIntMessage = NT_ReceiveIntMessage, v_OnMessage = NT_OnMessage,
      v_OnReadSocketError = NT_OnReadSocketError K\<rparr>"

text \<open>
  \<open>WaitNetworkEvent\<close> with \<open>piNEvent\<close> pointing to \<open>m_iEventsCount\<close>, as \<open>Run\<close> calls it.  An
  interrupted \<open>poll\<close> counts as no event; after any other error the thread sleeps and goes on
  with a count of -1.
\<close>

definition WaitNetworkEvent :: "kernel \<Rightarrow> ('a network_thread_scheme, bool) meth" where
  "WaitNetworkEvent K s =
     (case k_poll K (clock (snd s)) of
        PollFail e \<Rightarrow>
          if e = CI_EINTR then Some (False, (fst s)\<lparr>m_iEventsCount := 0\<rparr>, tick (snd s))
          else Some (True, (fst s)\<lparr>m_iEventsCount := - 1\<rparr>, tick (tick (snd s)))
      | PollReady r \<Rightarrow>
          (let (n, ps) = poll_array r (m_iPollFdCount (fst s)) (m_PollFds (fst s))
           in Some (True, (fst s)\<lparr>m_PollFds := ps, m_iEventsCount := n\<rparr>, tick (snd s))))"

definition read_ready :: "pollfd \<Rightarrow> bool" where
  "read_ready p \<longleftrightarrow> pfd p \<noteq> NU_INVALID_SOCKET \<and> prevents p AND read_events \<noteq> 0"

text \<open>
  The body of the loop for entry \<open>i\<close>.  The descriptor is read from the table again before each
  virtual call, as in the code.
\<close>

definition fd_at :: "nat \<Rightarrow> 'a network_thread_scheme st \<Rightarrow> fd" where
  "fd_at i s = pfd (m_PollFds (fst s) ! i)"

definition serve_entry ::
  "'a network_thread_scheme nt_vtbl \<Rightarrow> nat \<Rightarrow> 'a network_thread_scheme st
     \<Rightarrow> 'a network_thread_scheme st option"
where
  "serve_entry vt i s = do {
     ((ok, msg), s1) \<leftarrow> v_ReceiveIntMessage vt (fd_at i s) s;
     if ok then do {
       (r, s2) \<leftarrow> v_OnMessage vt (fd_at i s1) msg s1;
       if \<not> r then do { (_, s3) \<leftarrow> v_OnReadSocketError vt (fd_at i s2) s2; Some s3 }
       else Some s2 }
     else do { (_, s3) \<leftarrow> v_OnReadSocketError vt (fd_at i s1) s1; Some s3 } }"

text \<open>
  The loop of \<open>ProcessReadEvent\<close> from index \<open>i\<close>, with \<open>k\<close> entries of the array left.  The
  entries are used up before the loop ends only if it would read past the end of the array.
\<close>

fun read_loop ::
  "'a network_thread_scheme nt_vtbl \<Rightarrow> nat \<Rightarrow> nat \<Rightarrow> 'a network_thread_scheme st
     \<Rightarrow> 'a network_thread_scheme st option"
where
  "read_loop vt 0 i s = (if i < m_iPollFdCount (fst s) then None else Some s)"
| "read_loop vt (Suc k) i s =
     (if i < m_iPollFdCount (fst s) then
        if read_ready (m_PollFds (fst s) ! i) then do {
          (o1, w) \<leftarrow> serve_entry vt i
             ((fst s)\<lparr>m_PollFds :=
                (m_PollFds (fst s))[i := (m_PollFds (fst s) ! i)\<lparr>prevents := 0\<rparr>]\<rparr>, snd s);
          let n = m_iEventsCount o1 - 1;
          let o2 = o1\<lparr>m_iEventsCount := n\<rparr>;
          if n \<le> 0 then Some (o2, w) else read_loop vt k (Suc i) (o2, w) }
        else read_loop vt k (Suc i) s
      else Some s)"

definition ProcessReadEvent ::
  "'a network_thread_scheme nt_vtbl \<Rightarrow> ('a network_thread_scheme, bool) meth" where
  "ProcessReadEvent vt s =
     map_option (\<lambda>t. (True, t)) (read_loop vt (m_iMaxFDSize (fst s)) 0 s)"

definition NT_Run ::
  "kernel \<Rightarrow> 'a network_thread_scheme nt_vtbl \<Rightarrow> ('a network_thread_scheme, bool) meth" where
  "NT_Run K vt s =
     (if \<not> m_bExit (fst s) then do {
        (ok, s1) \<leftarrow> WaitNetworkEvent K s;
        if ok \<and> \<not> m_bExit (fst s1) \<and> 0 < m_iEventsCount (fst s1) then do {
          (_, s2) \<leftarrow> ProcessReadEvent vt s1; Some (True, s2) }
        else Some (True, s1) }
      else Some (True, s))"

text \<open>The thread class a derived class makes by overriding \<open>InitInstance\<close> and the message hooks.\<close>

definition nt_thread_vtbl ::
  "kernel \<Rightarrow> ('a network_thread_scheme, bool) meth \<Rightarrow> 'a network_thread_scheme nt_vtbl
     \<Rightarrow> 'a network_thread_scheme thread_vtbl"
where
  "nt_thread_vtbl K init vt =
     \<lparr>v_InitInstance = init, v_Run = NT_Run K vt, v_ExitInstance = NT_ExitInstance K\<rparr>"


section \<open>Well-formed poll tables and what they stand for\<close>

text \<open>
  The array keeps its length, the entries in use hold valid descriptors and the others are free.
  \<open>poll_fds\<close> is what the table stands for: the bag of registered descriptors.
\<close>

definition nt_wf :: "'a network_thread_scheme \<Rightarrow> bool" where
  "nt_wf o1 \<longleftrightarrow>
     length (m_PollFds o1) = m_iMaxFDSize o1 \<and> m_iPollFdCount o1 \<le> m_iMaxFDSize o1 \<and>
     NU_INVALID_SOCKET \<notin> pfd ` set (take (m_iPollFdCount o1) (m_PollFds o1)) \<and>
     drop (m_iPollFdCount o1) (m_PollFds o1) =
       replicate (m_iMaxFDSize o1 - m_iPollFdCount o1) free_pollfd"

definition poll_fds :: "'a network_thread_scheme \<Rightarrow> fd multiset" where
  "poll_fds o1 = mset (map pfd (take (m_iPollFdCount o1) (m_PollFds o1)))"

named_theorems nt_simps "well-formed tables, unfolded"
lemmas [nt_simps] = nt_wf_def poll_fds_def free_pollfd_def

lemma nt_wf_new: "nt_wf (network_thread_new maxfd t)"
  by (simp add: network_thread_new_def nt_wf_def network_thread.defs ci_thread2.defs)

lemma nt_wf_base [simp]:
  "nt_wf (o1\<lparr>m_state := x\<rparr>) = nt_wf o1" "nt_wf (o1\<lparr>m_bExit := b\<rparr>) = nt_wf o1"
  "nt_wf (o1\<lparr>m_semExit := y\<rparr>) = nt_wf o1" "nt_wf (o1\<lparr>m_iEventsCount := n\<rparr>) = nt_wf o1"
  "nt_wf (o1\<lparr>m_ReadSockets := r\<rparr>) = nt_wf o1"
  by (simp_all add: nt_wf_def)

lemma poll_fds_base [simp]:
  "poll_fds (o1\<lparr>m_state := x\<rparr>) = poll_fds o1" "poll_fds (o1\<lparr>m_bExit := b\<rparr>) = poll_fds o1"
  "poll_fds (o1\<lparr>m_iEventsCount := n\<rparr>) = poll_fds o1" "poll_fds (o1\<lparr>m_semExit := y\<rparr>) = poll_fds o1"
  "poll_fds (o1\<lparr>m_ReadSockets := r\<rparr>) = poll_fds o1"
  by (simp_all add: poll_fds_def)

lemma size_poll_fds: "nt_wf o1 \<Longrightarrow> size (poll_fds o1) = m_iPollFdCount o1"
  by (simp add: nt_wf_def poll_fds_def)

lemma poll_find_Some:
  "poll_find s ps = Some i \<Longrightarrow> i < length ps \<and> pfd (ps ! i) = s"
  by (induction s ps arbitrary: i rule: poll_find.induct) (auto split: if_splits)

lemma poll_find_None_iff: "poll_find s ps = None \<longleftrightarrow> s \<notin> pfd ` set ps"
  by (induction s ps rule: poll_find.induct) auto

text \<open>Overwriting an entry of the part in use, and dropping the last one.\<close>

lemma mset_swap_remove:
  assumes "i < length xs"
  shows "mset (butlast (xs[i := last xs])) = mset xs - {#xs ! i#}"
proof -
  have ne: "xs \<noteq> []" using assms by auto
  show ?thesis
  proof (cases "i = length xs - 1")
    case True
    then have "xs ! i = last xs" "butlast (xs[i := last xs]) = butlast xs"
      using ne by (simp_all add: last_conv_nth butlast_list_update)
    moreover have "mset xs = add_mset (last xs) (mset (butlast xs))"
      using arg_cong [OF append_butlast_last_id [OF ne], of mset] by simp
    ultimately show ?thesis by simp
  next
    case False
    define ys where "ys = butlast xs"
    have xs: "xs = ys @ [last xs]" using ne by (simp add: ys_def)
    have i: "i < length ys" using False assms by (simp add: ys_def)
    then have "butlast (xs[i := last xs]) = ys[i := last xs]"
      by (subst xs) (simp add: list_update_append)
    moreover have "mset (ys[i := last xs]) = add_mset (last xs) (mset ys - {#ys ! i#})"
      using i by (rule mset_update)
    moreover have "mset xs = add_mset (last xs) (mset ys)"
      by (subst xs) simp
    moreover have "xs ! i = ys ! i" using i by (subst xs) (simp add: nth_append)
    moreover have "ys ! i \<in># mset ys" using i by simp
    ultimately show ?thesis by simp
  qed
qed

text \<open>The interface: registering and removing a descriptor.\<close>

lemma PollFDAdd_wf:
  assumes "nt_wf o1"
  shows "nt_wf (snd (PollFDAdd s o1))"
proof (cases "s = NU_INVALID_SOCKET \<or> m_iMaxFDSize o1 \<le> m_iPollFdCount o1")
  case True
  then show ?thesis using assms by (auto simp: PollFDAdd_def)
next
  case False
  let ?c = "m_iPollFdCount o1"
  have len: "?c < length (m_PollFds o1)" using assms False by (simp add: nt_wf_def)
  have "drop (Suc ?c) (m_PollFds o1) = tl (drop ?c (m_PollFds o1))"
    by (simp add: drop_Suc tl_drop)
  also have "\<dots> = replicate (m_iMaxFDSize o1 - Suc ?c) free_pollfd"
    using assms False by (simp add: nt_wf_def)
  finally show ?thesis
    using assms False len
    by (auto simp: PollFDAdd_def nt_wf_def take_Suc_conv_app_nth)
qed

lemma PollFDAdd_fds:
  assumes "nt_wf o1"
  shows "poll_fds (snd (PollFDAdd s o1)) =
    (if fst (PollFDAdd s o1) then add_mset s (poll_fds o1) else poll_fds o1)"
  using assms by (auto simp: PollFDAdd_def poll_fds_def nt_wf_def take_Suc_conv_app_nth)

lemma PollFDAdd_ok:
  "fst (PollFDAdd s o1) \<longleftrightarrow> s \<noteq> NU_INVALID_SOCKET \<and> m_iPollFdCount o1 < m_iMaxFDSize o1"
  by (auto simp: PollFDAdd_def)

lemma PollFDDelete_ok:
  assumes "nt_wf o1"
  shows "fst (PollFDDelete s o1) \<longleftrightarrow> s \<in># poll_fds o1"
proof -
  have "s \<in># poll_fds o1 \<longleftrightarrow> poll_find s (take (m_iPollFdCount o1) (m_PollFds o1)) \<noteq> None"
    by (simp add: poll_fds_def poll_find_None_iff)
  moreover have "NU_INVALID_SOCKET \<notin># poll_fds o1"
    using assms by (simp add: nt_wf_def poll_fds_def)
  ultimately show ?thesis
    by (auto simp: PollFDDelete_def Let_def split: option.splits)
qed

lemma swap_remove_take:
  assumes "i < c" "c \<le> length ps"
  shows "take (c - 1) ((if i \<noteq> c - 1 then ps[i := ps ! (c - 1)] else ps)[c - 1 := f])
         = butlast ((take c ps)[i := last (take c ps)])"
proof -
  have l: "last (take c ps) = ps ! (c - 1)"
    using assms by (subst last_conv_nth) auto
  have "butlast ((take c ps)[i := ps ! (c - 1)]) = take (c - 1) (ps[i := ps ! (c - 1)])"
    using assms by (simp add: butlast_conv_take take_update_swap min_def)
  moreover have "i = c - 1 \<Longrightarrow> ps[i := ps ! (c - 1)] = ps" by simp
  ultimately show ?thesis by (auto simp: l)
qed

lemma PollFDDelete_cases:
  assumes "nt_wf o1"
  obtains "PollFDDelete s o1 = (False, o1)" "s \<notin># poll_fds o1"
  | i ps where "i < m_iPollFdCount o1" "pfd (m_PollFds o1 ! i) = s" "s \<in># poll_fds o1"
      "PollFDDelete s o1 = (True, o1\<lparr>m_PollFds := ps, m_iPollFdCount := m_iPollFdCount o1 - 1\<rparr>)"
      "ps = (if i \<noteq> m_iPollFdCount o1 - 1
             then (m_PollFds o1)[i := m_PollFds o1 ! (m_iPollFdCount o1 - 1)]
             else m_PollFds o1)[m_iPollFdCount o1 - 1 := free_pollfd]"
proof (cases "fst (PollFDDelete s o1)")
  case False
  then have "s \<notin># poll_fds o1" using PollFDDelete_ok [OF assms] by simp
  moreover have "PollFDDelete s o1 = (False, o1)"
    using False by (auto simp: PollFDDelete_def Let_def split: option.splits if_splits)
  ultimately show ?thesis by (rule that(1) [rotated])
next
  case True
  then obtain i where i: "poll_find s (take (m_iPollFdCount o1) (m_PollFds o1)) = Some i"
      and s: "s \<noteq> NU_INVALID_SOCKET"
    by (auto simp: PollFDDelete_def Let_def split: option.splits if_splits)
  have b: "i < m_iPollFdCount o1" "pfd (m_PollFds o1 ! i) = s"
    using poll_find_Some [OF i] by auto
  have m: "s \<in># poll_fds o1" using True PollFDDelete_ok [OF assms] by blast
  show ?thesis
    by (rule that(2) [OF b m]) (use i s in \<open>simp_all add: PollFDDelete_def Let_def\<close>)
qed

lemma PollFDDelete_wf: "nt_wf o1 \<Longrightarrow> nt_wf (snd (PollFDDelete s o1))"
proof -
  assume wf: "nt_wf o1"
  let ?c = "m_iPollFdCount o1" and ?n = "m_iMaxFDSize o1"
  show ?thesis
  proof (cases rule: PollFDDelete_cases [OF wf, of s])
    case 1
    then show ?thesis using wf by simp
  next
    case (2 i ps)
    have c: "?c \<le> ?n" "length (m_PollFds o1) = ?n" "0 < ?c" "Suc (?c - 1) = ?c"
      using wf 2(1) by (auto simp: nt_wf_def)
    have tk: "take (?c - 1) ps =
        butlast ((take ?c (m_PollFds o1))[i := last (take ?c (m_PollFds o1))])"
      using swap_remove_take [of i ?c "m_PollFds o1" free_pollfd] 2(1,5) c by simp
    have "set (take (?c - 1) ps) \<subseteq> set (take ?c (m_PollFds o1))"
    proof
      fix x assume "x \<in> set (take (?c - 1) ps)"
      then have "x \<in> set ((take ?c (m_PollFds o1))[i := last (take ?c (m_PollFds o1))])"
        unfolding tk by (rule in_set_butlastD)
      then have "x \<in> insert (last (take ?c (m_PollFds o1))) (set (take ?c (m_PollFds o1)))"
        using set_update_subset_insert by fastforce
      moreover have "last (take ?c (m_PollFds o1)) \<in> set (take ?c (m_PollFds o1))"
        using c by (intro last_in_set) auto
      ultimately show "x \<in> set (take ?c (m_PollFds o1))" by auto
    qed
    moreover have "drop (?c - 1) ps = free_pollfd # drop ?c (m_PollFds o1)"
    proof -
      have "drop (?c - 1) ps = ps ! (?c - 1) # drop ?c ps"
        using c 2(5) by (subst Cons_nth_drop_Suc [symmetric]) auto
      moreover have "drop ?c ps = drop ?c (m_PollFds o1)" using 2(1,5) c by auto
      moreover have "ps ! (?c - 1) = free_pollfd" using 2(5) c by auto
      ultimately show ?thesis by simp
    qed
    moreover have "length ps = ?n" using 2(5) c by simp
    moreover have "replicate (?n - (?c - 1)) free_pollfd =
        free_pollfd # replicate (?n - ?c) free_pollfd"
      using c by (simp add: Suc_diff_le flip: replicate_Suc)
    ultimately show ?thesis using wf 2(4) c by (auto simp: nt_wf_def)
  qed
qed

lemma PollFDDelete_fds:
  assumes wf: "nt_wf o1"
  shows "poll_fds (snd (PollFDDelete s o1)) = poll_fds o1 - {#s#}"
proof (cases rule: PollFDDelete_cases [OF wf, of s])
  case 1
  then show ?thesis by simp
next
  case (2 i ps)
  let ?c = "m_iPollFdCount o1"
  have c: "?c \<le> length (m_PollFds o1)" using wf by (simp add: nt_wf_def)
  have tk: "take (?c - 1) ps =
      butlast ((take ?c (m_PollFds o1))[i := last (take ?c (m_PollFds o1))])"
    using swap_remove_take [of i ?c "m_PollFds o1" free_pollfd] 2(1,5) c by simp
  have "mset (take (?c - 1) ps) = mset (take ?c (m_PollFds o1)) - {#m_PollFds o1 ! i#}"
    using mset_swap_remove [of i "take ?c (m_PollFds o1)"] 2(1) c by (subst tk) simp
  moreover have "m_PollFds o1 ! i \<in># mset (take ?c (m_PollFds o1))"
    using 2(1) c by (auto simp: in_set_conv_nth)
  ultimately show ?thesis using 2(2,4)
    by (simp add: poll_fds_def image_mset_Diff)
qed

lemma PollFDAdd_frame [simp]:
  "m_iMaxFDSize (snd (PollFDAdd s o1)) = m_iMaxFDSize o1"
  "m_ReadSockets (snd (PollFDAdd s o1)) = m_ReadSockets o1"
  "thread_frame o1 (snd (PollFDAdd s o1))"
  by (simp_all add: PollFDAdd_def thread_frame_def)

lemma PollFDDelete_frame [simp]:
  "m_iMaxFDSize (snd (PollFDDelete s o1)) = m_iMaxFDSize o1"
  "m_ReadSockets (snd (PollFDDelete s o1)) = m_ReadSockets o1"
  "m_iEventsCount (snd (PollFDDelete s o1)) = m_iEventsCount o1"
  "thread_frame o1 (snd (PollFDDelete s o1))"
  by (simp_all add: PollFDDelete_def thread_frame_def Let_def split: option.split)

section \<open>The registry: poll table and socket set in step\<close>

text \<open>
  A socket is registered in both the table and the set.  \<open>nt_sync\<close> says that they agree and
  that no socket is registered twice.
\<close>

definition nt_sync :: "'a network_thread_scheme \<Rightarrow> bool" where
  "nt_sync o1 \<longleftrightarrow> nt_wf o1 \<and> finite (m_ReadSockets o1) \<and> poll_fds o1 = mset_set (m_ReadSockets o1)"

lemma nt_sync_new: "nt_sync (network_thread_new maxfd t)"
  using nt_wf_new [of maxfd t]
  by (simp add: nt_sync_def poll_fds_def network_thread_new_def network_thread.defs
      ci_thread2.defs)

lemma nt_sync_base [simp]:
  "nt_sync (o1\<lparr>m_state := x\<rparr>) = nt_sync o1" "nt_sync (o1\<lparr>m_bExit := b\<rparr>) = nt_sync o1"
  "nt_sync (o1\<lparr>m_iEventsCount := n\<rparr>) = nt_sync o1" "nt_sync (o1\<lparr>m_semExit := y\<rparr>) = nt_sync o1"
  by (simp_all add: nt_sync_def poll_fds_def)

lemma nt_wf_table:
  assumes "map pfd ps = map pfd (m_PollFds o1)"
    and "drop (m_iPollFdCount o1) ps = drop (m_iPollFdCount o1) (m_PollFds o1)"
  shows "nt_wf (o1\<lparr>m_PollFds := ps\<rparr>) = nt_wf o1" "poll_fds (o1\<lparr>m_PollFds := ps\<rparr>) = poll_fds o1"
proof -
  have "map pfd (take n ps) = map pfd (take n (m_PollFds o1))" for n
    using assms(1) by (metis take_map)
  moreover have "length ps = length (m_PollFds o1)" using assms(1) by (rule map_eq_imp_length_eq)
  ultimately show "nt_wf (o1\<lparr>m_PollFds := ps\<rparr>) = nt_wf o1"
    "poll_fds (o1\<lparr>m_PollFds := ps\<rparr>) = poll_fds o1"
    using assms(2) by (simp_all add: nt_wf_def poll_fds_def flip: set_map)
qed

lemma nt_sync_table:
  "map pfd ps = map pfd (m_PollFds o1) \<Longrightarrow>
   drop (m_iPollFdCount o1) ps = drop (m_iPollFdCount o1) (m_PollFds o1) \<Longrightarrow>
   nt_sync (o1\<lparr>m_PollFds := ps\<rparr>) = nt_sync o1"
  by (simp add: nt_sync_def nt_wf_table)

lemma OnReadSocketError_run:
  assumes "s \<noteq> NU_INVALID_SOCKET"
  shows "NT_OnReadSocketError K s (o1, w) =
    Some (True, (snd (PollFDDelete s o1))\<lparr>m_ReadSockets := m_ReadSockets o1 - {s}\<rparr>,
          snd (nu_disconnect K s w))"
  using assms by (simp add: NT_OnReadSocketError_def DisableSocket_def DeleteReadSocket_def)

lemma mset_set_remove: "finite A \<Longrightarrow> mset_set A - {#s#} = mset_set (A - {s})"
  by (cases "s \<in> A") (simp_all add: mset_set_Diff diff_single_trivial)

lemma OnReadSocketError_sync:
  assumes "nt_sync o1"
  shows "\<exists>ok o2 w2. NT_OnReadSocketError K s (o1, w) = Some (ok, o2, w2) \<and> nt_sync o2 \<and>
     thread_frame o1 o2 \<and> m_iMaxFDSize o2 = m_iMaxFDSize o1"
proof (cases "s = NU_INVALID_SOCKET")
  case True
  then show ?thesis using assms by (auto simp: NT_OnReadSocketError_def)
next
  case False
  let ?o = "(snd (PollFDDelete s o1))\<lparr>m_ReadSockets := m_ReadSockets o1 - {s}\<rparr>"
  have wf: "nt_wf o1" and fin: "finite (m_ReadSockets o1)"
    and eq: "poll_fds o1 = mset_set (m_ReadSockets o1)"
    using assms by (auto simp: nt_sync_def)
  have "nt_sync ?o"
    using PollFDDelete_wf [OF wf] fin
    by (simp add: nt_sync_def PollFDDelete_fds [OF wf] eq mset_set_remove)
  moreover have "thread_frame o1 ?o"
    using PollFDDelete_frame(4) [of o1 s] by (simp add: thread_frame_def)
  ultimately show ?thesis by (simp add: OnReadSocketError_run [OF False])
qed

lemma clock_disconnect_all: "clock (disconnect_all K ss w) = clock w + length ss"
  by (induction ss arbitrary: w) (simp_all add: nu_disconnect_def sys_simps)

lemma closed_disconnect_all: "closed_fds (disconnect_all K ss w) = closed_fds w @ ss"
  by (induction ss arbitrary: w) (simp_all add: nu_disconnect_def sys_simps)

lemma other_disconnect_all [simp]:
  "sent (disconnect_all K ss w) = sent w"
  "sem_events (disconnect_all K ss w) = sem_events w"
  by (induction ss arbitrary: w) (simp_all add: nu_disconnect_def sys_simps)

lemma ExitInstance_run:
  "NT_ExitInstance K (o1, w) =
     Some (True, o1\<lparr>m_ReadSockets := {}, m_PollFds := replicate (m_iMaxFDSize o1) free_pollfd,
                    m_iPollFdCount := 0, m_iEventsCount := 0\<rparr>,
           disconnect_all K (sorted_list_of_set (m_ReadSockets o1)) w)"
  by (simp add: NT_ExitInstance_def Thread2_ExitInstance_def Let_def)

lemma ExitInstance_sync:
  "\<exists>ok o2 w2. NT_ExitInstance K (o1, w) = Some (ok, o2, w2) \<and> nt_sync o2 \<and> thread_frame o1 o2 \<and>
     m_iMaxFDSize o2 = m_iMaxFDSize o1"
  by (auto simp: ExitInstance_run nt_sync_def nt_wf_def poll_fds_def thread_frame_def)

section \<open>The contract of the message hooks\<close>

text \<open>
  A derived class supplies \<open>InitInstance\<close> and the three message hooks.  Its invariant keeps the
  poll table well-formed; the hooks keep the invariant, the thread's own fields and the size of
  the table, and always return.
\<close>

definition msg_law :: "('a network_thread_scheme st \<Rightarrow> bool) \<Rightarrow>
    ('a network_thread_scheme, 'r) meth \<Rightarrow> bool" where
  "msg_law I f \<longleftrightarrow>
     (\<forall>s. I s \<longrightarrow> (\<exists>r s'. f s = Some (r, s') \<and> I s' \<and> thread_frame (fst s) (fst s') \<and>
        m_iMaxFDSize (fst s') = m_iMaxFDSize (fst s)))"

lemma msg_lawI:
  "(\<And>o1 w. I (o1, w) \<Longrightarrow> \<exists>r o2 w2. f (o1, w) = Some (r, o2, w2) \<and> I (o2, w2) \<and>
      thread_frame o1 o2 \<and> m_iMaxFDSize o2 = m_iMaxFDSize o1) \<Longrightarrow> msg_law I f"
  by (fastforce simp: msg_law_def)

lemma msg_lawE:
  assumes "msg_law I f" and "I s"
  obtains r s' where "f s = Some (r, s')" "I s'" "thread_frame (fst s) (fst s')"
    "m_iMaxFDSize (fst s') = m_iMaxFDSize (fst s)"
  using assms unfolding msg_law_def by blast

locale poll_hooks =
  fixes K :: kernel
    and init :: "('a network_thread_scheme, bool) meth"
    and nvt :: "'a network_thread_scheme nt_vtbl"
    and Inv :: "'a network_thread_scheme st \<Rightarrow> bool"
  assumes Inv_wf: "\<And>o1 w. Inv (o1, w) \<Longrightarrow> nt_wf o1"
    and init_ok: "hook_law Inv init"
    and receive_ok: "\<And>f. msg_law Inv (v_ReceiveIntMessage nvt f)"
    and message_ok: "\<And>f m. msg_law Inv (v_OnMessage nvt f m)"
    and error_ok: "\<And>f. msg_law Inv (v_OnReadSocketError nvt f)"
    and exit_ok: "hook_law Inv (NT_ExitInstance K)"
    and inv_state: "\<And>o1 w x. Inv (o1, w) \<Longrightarrow> Inv (o1\<lparr>m_state := x\<rparr>, w)"
    and inv_bExit: "\<And>o1 w x. Inv (o1, w) \<Longrightarrow> Inv (o1\<lparr>m_bExit := x\<rparr>, w)"
    and inv_sem: "\<And>o1 w x. Inv (o1, w) \<Longrightarrow> Inv (o1\<lparr>m_semExit := x\<rparr>, w)"
    and inv_events: "\<And>o1 w x. Inv (o1, w) \<Longrightarrow> Inv (o1, w\<lparr>sem_events := x\<rparr>)"
    and inv_tick: "\<And>o1 w. Inv (o1, w) \<Longrightarrow> Inv (o1, tick w)"
    and inv_count: "\<And>o1 w n. Inv (o1, w) \<Longrightarrow> Inv (o1\<lparr>m_iEventsCount := n\<rparr>, w)"
    and inv_table: "\<And>o1 w ps. Inv (o1, w) \<Longrightarrow> map pfd ps = map pfd (m_PollFds o1) \<Longrightarrow>
        drop (m_iPollFdCount o1) ps = drop (m_iPollFdCount o1) (m_PollFds o1) \<Longrightarrow>
        Inv (o1\<lparr>m_PollFds := ps\<rparr>, w)"
begin

lemma serve_entry_ok:
  assumes "Inv s"
  shows "\<exists>s'. serve_entry nvt i s = Some s' \<and> Inv s' \<and> thread_frame (fst s) (fst s') \<and>
     m_iMaxFDSize (fst s') = m_iMaxFDSize (fst s)"
proof -
  obtain ok m s1 where 1: "v_ReceiveIntMessage nvt (fd_at i s) s = Some ((ok, m), s1)" "Inv s1"
      "thread_frame (fst s) (fst s1)" "m_iMaxFDSize (fst s1) = m_iMaxFDSize (fst s)"
    using msg_lawE [OF receive_ok assms, of "fd_at i s"] by (metis surj_pair)
  show ?thesis
  proof (cases ok)
    case True
    obtain r s2 where 2: "v_OnMessage nvt (fd_at i s1) m s1 = Some (r, s2)" "Inv s2"
        "thread_frame (fst s1) (fst s2)" "m_iMaxFDSize (fst s2) = m_iMaxFDSize (fst s1)"
      using msg_lawE [OF message_ok 1(2)] by blast
    obtain r' s3 where 3: "v_OnReadSocketError nvt (fd_at i s2) s2 = Some (r', s3)" "Inv s3"
        "thread_frame (fst s2) (fst s3)" "m_iMaxFDSize (fst s3) = m_iMaxFDSize (fst s2)"
      using msg_lawE [OF error_ok 2(2)] by blast
    show ?thesis
      by (rule exI [of _ "if r then s2 else s3"])
         (use 1 2 3 True in \<open>auto simp: serve_entry_def intro: thread_frame_trans\<close>)
  next
    case False
    obtain r' s3 where 3: "v_OnReadSocketError nvt (fd_at i s1) s1 = Some (r', s3)" "Inv s3"
        "thread_frame (fst s1) (fst s3)" "m_iMaxFDSize (fst s3) = m_iMaxFDSize (fst s1)"
      using msg_lawE [OF error_ok 1(2)] by blast
    show ?thesis
      by (rule exI [of _ s3])
         (use 1 3 False in \<open>auto simp: serve_entry_def intro: thread_frame_trans\<close>)
  qed
qed

lemma clear_revents:
  assumes "Inv (o1, w)" and "i < m_iPollFdCount o1"
  shows "Inv (o1\<lparr>m_PollFds := (m_PollFds o1)[i := (m_PollFds o1 ! i)\<lparr>prevents := x\<rparr>]\<rparr>, w)"
proof (rule inv_table [OF assms(1)])
  show "map pfd ((m_PollFds o1)[i := (m_PollFds o1 ! i)\<lparr>prevents := x\<rparr>]) = map pfd (m_PollFds o1)"
    by (cases "i < length (m_PollFds o1)")
       (auto intro!: nth_equalityI simp: nth_list_update list_update_beyond)
qed (use assms(2) in simp)

text \<open>The loop never reads past the end of the table and always returns.\<close>

lemma read_loop_ok:
  assumes "Inv s" and "i + k = m_iMaxFDSize (fst s)"
  shows "\<exists>s'. read_loop nvt k i s = Some s' \<and> Inv s' \<and> thread_frame (fst s) (fst s')"
  using assms
proof (induction k arbitrary: i s)
  case 0
  then have "nt_wf (fst s)" by (cases s) (auto dest: Inv_wf)
  then show ?case using 0 by (auto simp: nt_wf_def)
next
  case (Suc k)
  let ?s = "((fst s)\<lparr>m_PollFds := (m_PollFds (fst s))
      [i := (m_PollFds (fst s) ! i)\<lparr>prevents := 0\<rparr>]\<rparr>, snd s)"
  consider (past) "\<not> i < m_iPollFdCount (fst s)"
    | (idle) "i < m_iPollFdCount (fst s)" "\<not> read_ready (m_PollFds (fst s) ! i)"
    | (ready) "i < m_iPollFdCount (fst s)" "read_ready (m_PollFds (fst s) ! i)" by blast
  then show ?case
  proof cases
    case past
    then show ?thesis using Suc.prems by (intro exI [of _ s]) simp
  next
    case idle
    then show ?thesis using Suc.IH [of s "Suc i"] Suc.prems by simp
  next
    case ready
    have "Inv ?s" using clear_revents ready(1) Suc.prems(1) by (cases s) simp
    then obtain o1 w where 1: "serve_entry nvt i ?s = Some (o1, w)" "Inv (o1, w)"
        "thread_frame (fst s) o1" "m_iMaxFDSize o1 = m_iMaxFDSize (fst s)"
      using serve_entry_ok [of ?s i] by (fastforce simp: thread_frame_def)
    let ?t = "(o1\<lparr>m_iEventsCount := m_iEventsCount o1 - 1\<rparr>, w)"
    have t: "Inv ?t" "thread_frame (fst s) (fst ?t)" "Suc i + k = m_iMaxFDSize (fst ?t)"
      using 1 Suc.prems(2) by (auto simp: inv_count thread_frame_def)
    obtain u where "read_loop nvt k (Suc i) ?t = Some u" "Inv u" "thread_frame (fst ?t) (fst u)"
      using Suc.IH [OF t(1,3)] by blast
    then show ?thesis
      using ready 1(1) t thread_frame_trans [OF t(2)]
      by (intro exI [of _ "if m_iEventsCount o1 - 1 \<le> 0 then ?t else u"]) (simp add: Let_def)
  qed
qed

lemma WaitNetworkEvent_ok:
  assumes "Inv s"
  shows "\<exists>ok s'. WaitNetworkEvent K s = Some (ok, s') \<and> Inv s' \<and> thread_frame (fst s) (fst s') \<and>
    m_iMaxFDSize (fst s') = m_iMaxFDSize (fst s)"
proof (cases "k_poll K (clock (snd s))")
  case (PollFail e)
  have "Inv ((fst s)\<lparr>m_iEventsCount := n\<rparr>, snd s)" for n
    using assms by (cases s) (simp add: inv_count)
  then show ?thesis using PollFail
    by (cases "e = CI_EINTR") (simp_all add: WaitNetworkEvent_def thread_frame_def inv_tick)
next
  case (PollReady r)
  let ?o = "fst s"
  let ?ps = "snd (poll_array r (m_iPollFdCount ?o) (m_PollFds ?o))"
  have "nt_wf ?o" using assms by (cases s) (auto dest: Inv_wf)
  then have "drop (m_iPollFdCount ?o) ?ps = drop (m_iPollFdCount ?o) (m_PollFds ?o)"
    by (simp add: poll_array_def Let_def nt_wf_def)
  then have "Inv (?o\<lparr>m_PollFds := ?ps\<rparr>, snd s)"
    using assms by (cases s) (auto intro: inv_table)
  then have "Inv (?o\<lparr>m_PollFds := ?ps, m_iEventsCount := n\<rparr>, tick (snd s))" for n
    using inv_count inv_tick by blast
  then show ?thesis using PollReady
    by (simp add: WaitNetworkEvent_def thread_frame_def split: prod.split) (metis snd_conv)
qed

lemma run_ok: "hook_law Inv (NT_Run K nvt)"
  unfolding hook_law_def
proof (intro allI impI)
  fix s assume I: "Inv s"
  show "\<exists>ok s'. NT_Run K nvt s = Some (ok, s') \<and> Inv s' \<and> thread_frame (fst s) (fst s')"
  proof (cases "m_bExit (fst s)")
    case True
    then show ?thesis using I by (auto simp: NT_Run_def)
  next
    case False
    obtain ok s1 where 1: "WaitNetworkEvent K s = Some (ok, s1)" "Inv s1"
        "thread_frame (fst s) (fst s1)" using WaitNetworkEvent_ok [OF I] by blast
    obtain s2 where 2: "read_loop nvt (m_iMaxFDSize (fst s1)) 0 s1 = Some s2" "Inv s2"
        "thread_frame (fst s1) (fst s2)" using read_loop_ok [OF 1(2), of 0] by auto
    show ?thesis
      using 1 2 False thread_frame_trans [OF 1(3) 2(3)]
      by (intro exI [of _ True]
           exI [of _ "if ok \<and> \<not> m_bExit (fst s1) \<and> 0 < m_iEventsCount (fst s1) then s2 else s1"])
         (auto simp: NT_Run_def ProcessReadEvent_def)
  qed
qed

end

text \<open>A class that keeps the contract of the message hooks keeps that of a thread.\<close>

sublocale poll_hooks \<subseteq> thread: thread_hooks "nt_thread_vtbl K init nvt" Inv
  by unfold_locales
     (simp_all add: nt_thread_vtbl_def init_ok run_ok exit_ok inv_state inv_bExit inv_sem inv_events)

text \<open>The base class itself: every ready socket is dropped, and the registry stays in step.\<close>

interpretation base_net: poll_hooks K Thread2_InitInstance "nt_base_vtbl K"
  "\<lambda>s. nt_sync (fst s)" for K
proof unfold_locales
  fix o1 :: "'a network_thread_scheme" and w :: world
  show "msg_law (\<lambda>s. nt_sync (fst s)) (v_OnReadSocketError (nt_base_vtbl K) f)" for f
    using OnReadSocketError_sync by (intro msg_lawI) (fastforce simp: nt_base_vtbl_def)
  show "hook_law (\<lambda>s. nt_sync (fst s)) (NT_ExitInstance K :: ('a network_thread_scheme, bool) meth)"
    by (rule hook_lawI) (use ExitInstance_sync in fastforce)
  fix ps assume *: "nt_sync (fst (o1, w))" "map pfd ps = map pfd (m_PollFds o1)"
    "drop (m_iPollFdCount o1) ps = drop (m_iPollFdCount o1) (m_PollFds o1)"
  then show "nt_sync (fst (o1\<lparr>m_PollFds := ps\<rparr>, w))"
    by (simp add: nt_sync_table)
qed (auto simp: nt_base_vtbl_def msg_law_def hook_law_def NT_ReceiveIntMessage_def
       NT_OnMessage_def Thread2_InitInstance_def nt_sync_def)

end
