(* ===== verification/HB_Protocol.thy ===== *)
theory HB_Protocol
  imports Prelude
begin

text \<open>
  The heartbeat protocol (\<open>legacy_compatible/CiHBDefines.h\<close>; the formats are the comments of
  \<open>OnHeartbeatRequest\<close> and \<open>SendHeartbeatResponse\<close>).  This theory holds the message types and
  states, and the specification both responders are compared with: what a request is, which
  bytes answer it, and that different responses have different bytes.
\<close>

definition CIHB_MAX_DATA_SIZE :: nat where
  "CIHB_MAX_DATA_SIZE = 1350"

datatype CiHBMessageType_t = CIHB_HEARTBEAT_REQUEST | CIHB_HEARTBEAT_RESPONSE

datatype CiHBState_t = CIHB_STATE_ALIVE | CIHB_STATE_SW_ERROR | CIHB_STATE_HW_ERROR

text \<open>The values the compiler gives the enumerators.\<close>

fun msg_code :: "CiHBMessageType_t \<Rightarrow> i32" where
  "msg_code CIHB_HEARTBEAT_REQUEST = 0"
| "msg_code CIHB_HEARTBEAT_RESPONSE = 1"

fun state_code :: "CiHBState_t \<Rightarrow> i32" where
  "state_code CIHB_STATE_ALIVE = 0"
| "state_code CIHB_STATE_SW_ERROR = 1"
| "state_code CIHB_STATE_HW_ERROR = 2"

section \<open>The wire format\<close>

text \<open>
  A response is the message type, the sequence number, the representative address with its
  length, the state, and the local address with its length; all integers are big-endian.
\<close>

record hb_response =
  hr_seq :: i32
  hr_representative :: cstr
  hr_state :: CiHBState_t
  hr_local :: cstr

definition put_int :: "i32 \<Rightarrow> byte list" where
  "put_int n = be_image n"

definition put_string :: "cstr \<Rightarrow> byte list" where
  "put_string s = put_int (of_nat (length s)) @ s"

definition encode_response :: "hb_response \<Rightarrow> byte list" where
  "encode_response r =
     put_int (msg_code CIHB_HEARTBEAT_RESPONSE) @ put_int (hr_seq r) @
     put_string (hr_representative r) @ put_int (state_code (hr_state r)) @
     put_string (hr_local r)"

definition encode_request :: "i32 \<Rightarrow> byte list" where
  "encode_request seq = put_int (msg_code CIHB_HEARTBEAT_REQUEST) @ put_int seq"

section \<open>Requests\<close>

text \<open>A request is exactly eight bytes: the request type and the sequence number.\<close>

definition request_seq :: "byte list \<Rightarrow> i32 option" where
  "request_seq d =
     (if length d = 8 \<and> (of_be (take 4 d) :: i32) = msg_code CIHB_HEARTBEAT_REQUEST
      then Some (of_be (drop 4 d)) else None)"

text \<open>
  The specification of a responder: what it answers to the first eight bytes of a datagram.
\<close>

definition heartbeat_reply ::
  "cstr \<Rightarrow> cstr \<Rightarrow> CiHBState_t \<Rightarrow> byte list \<Rightarrow> byte list option" where
  "heartbeat_reply rep loc st d =
     map_option (\<lambda>seq. encode_response \<lparr>hr_seq = seq, hr_representative = rep, hr_state = st,
                                        hr_local = loc\<rparr>) (request_seq d)"

section \<open>The bytes determine the response\<close>

lemma length_put_int [simp]: "length (put_int n) = 4"
  by (simp add: put_int_def)

lemma length_put_string [simp]: "length (put_string s) = 4 + length s"
  by (simp add: put_string_def)

lemma length_encode_response:
  "length (encode_response r) = 20 + length (hr_representative r) + length (hr_local r)"
  by (simp add: encode_response_def)

lemma put_int_append: "put_int m @ x = put_int n @ y \<longleftrightarrow> m = n \<and> x = y"
proof
  assume "put_int m @ x = put_int n @ y"
  then have 1: "put_int m = put_int n" and "x = y" by simp_all
  moreover have "m = n" using arg_cong [OF 1, of "\<lambda>bs. of_be bs :: i32"] by (simp only: put_int_def of_be_be_image dvd_widths)
  ultimately show "m = n \<and> x = y" by blast
qed simp

lemma put_string_append:
  assumes "length s < 2 ^ 32" "length t < 2 ^ 32"
  shows "put_string s @ x = put_string t @ y \<longleftrightarrow> s = t \<and> x = y"
proof
  assume *: "put_string s @ x = put_string t @ y"
  then have "(of_nat (length s) :: i32) = of_nat (length t)" and r: "s @ x = t @ y"
    by (simp_all add: put_string_def put_int_append)
  then have "unat (of_nat (length s) :: i32) = unat (of_nat (length t) :: i32)" by simp
  then have "length s = length t" using assms by (simp add: unat_of_nat)
  then show "s = t \<and> x = y" using r by simp
qed simp

lemma state_code_inj [simp]: "state_code st = state_code st' \<longleftrightarrow> st = st'"
  by (cases st; cases st') simp_all

text \<open>No encoding is a part of the beginning of another one.\<close>

lemma encode_response_append:
  assumes "length (hr_representative r) < 2 ^ 32" "length (hr_local r) < 2 ^ 32"
    and "length (hr_representative r') < 2 ^ 32" "length (hr_local r') < 2 ^ 32"
  shows "encode_response r @ x = encode_response r' @ y \<longleftrightarrow> r = r' \<and> x = y"
proof -
  have "encode_response r @ x = encode_response r' @ y \<longleftrightarrow> hr_seq r = hr_seq r' \<and>
      hr_representative r = hr_representative r' \<and> hr_state r = hr_state r' \<and> hr_local r = hr_local r' \<and> x = y"
    unfolding encode_response_def append_assoc put_int_append put_string_append [OF assms(1,3)]
      put_string_append [OF assms(2,4)] state_code_inj by blast
  then show ?thesis by (cases r, cases r') simp
qed

lemma request_seq_encode [wire_simps]: "request_seq (encode_request seq) = Some seq"
  by (simp add: request_seq_def encode_request_def)
     (simp add: put_int_def of_be_be_image)

lemma request_seq_Some: "request_seq d = Some seq \<longleftrightarrow> d = encode_request seq"
proof
  assume *: "request_seq d = Some seq"
  then have d: "length d = 8" "(of_be (take 4 d) :: i32) = msg_code CIHB_HEARTBEAT_REQUEST"
      "seq = of_be (drop 4 d)"
    by (auto simp: request_seq_def split: if_splits)
  have "be_image (of_be (take 4 d) :: i32) = take 4 d" "be_image (of_be (drop 4 d) :: i32) = drop 4 d"
    using d(1) by (simp_all add: be_image_of_be)
  then show "d = encode_request seq"
    using d by (metis append_take_drop_id encode_request_def put_int_def)
qed (simp add: wire_simps)

end
