(* ===== verification/HB_Responser.thy ===== *)
theory HB_Responser
  imports Net_Thread HB_Protocol
begin

text \<open>
  \<open>CCiHBResponser\<close> (\<open>legacy_compatible/CiHBResponser.h\<close>, \<open>CiHBResponser.cpp\<close>): the network
  thread that answers heartbeat requests on one UDP socket.  The class extends the record of
  \<open>Net_Thread\<close> and overrides \<open>InitInstance\<close> and the three message hooks.

  The host's byte order \<open>e\<close> and the contents of fresh memory \<open>junk\<close> are parameters, so what is
  proved about the bytes on the wire holds on every host and never reads uninitialised memory.
\<close>

record hb_responser = network_thread +
  m_szRepresentativeIP :: cstr
  m_szLocalIP :: cstr
  m_iPortNumber :: i16
  m_processState :: CiHBState_t
  m_saRecv :: sockaddr
  m_szRecvBuf :: "byte list"

definition CCiHBResponser ::
  "(nat \<Rightarrow> byte) \<Rightarrow> cstr \<Rightarrow> i16 \<Rightarrow> cstr \<Rightarrow> int \<Rightarrow> hb_responser" where
  "CCiHBResponser junk szRepresentativeIP iPortNumber szLocalIP iTimeoutMillisec =
     network_thread.extend (network_thread_new NETWORK_THREAD_FD_SETSIZE iTimeoutMillisec)
       (hb_responser.fields szRepresentativeIP szLocalIP iPortNumber CIHB_STATE_ALIVE
          (new_array junk 16) (new_array junk CIHB_MAX_DATA_SIZE))"

section \<open>Socket helpers\<close>

definition nu_create_udp_socket :: "kernel \<Rightarrow> world \<Rightarrow> (bool \<times> fd) \<times> world" where
  "nu_create_udp_socket K w =
     (let (sock, w1) = sys_socket K w
      in if sock < 0 then ((False, sock), w1) else ((True, sock), w1))"

definition nu_bind :: "endian \<Rightarrow> kernel \<Rightarrow> fd \<Rightarrow> i16 \<Rightarrow> world \<Rightarrow> bool \<times> world" where
  "nu_bind e K sock port w = sys_bind K sock (hton e 0) (hton e port) w"

definition nu_set_keep_alive :: "kernel \<Rightarrow> fd \<Rightarrow> bool \<Rightarrow> world \<Rightarrow> bool \<times> world" where
  "nu_set_keep_alive K sock bEnable w =
     sys_setsockopt K sock SO_KEEPALIVE (if bEnable then 1 else 0) w"

definition nu_set_reuse_addr :: "kernel \<Rightarrow> fd \<Rightarrow> bool \<Rightarrow> world \<Rightarrow> bool \<times> world" where
  "nu_set_reuse_addr K sock bEnable w =
     sys_setsockopt K sock SO_REUSEADDR (if bEnable then 1 else 0) w"

section \<open>Initialisation\<close>

definition HB_InitInstance :: "endian \<Rightarrow> kernel \<Rightarrow> ('a hb_responser_scheme, bool) meth" where
  "HB_InitInstance e K s = do {
     (base, o0, w0) \<leftarrow> Thread2_InitInstance s;
     if \<not> base then Some (False, o0, w0) else
     (let ((made, sockfd), w1) = nu_create_udp_socket K w0 in
      if \<not> made then Some (False, o0, w1) else
     (let (reuse, w2) = nu_set_reuse_addr K sockfd True w1 in
      if \<not> reuse then Some (False, o0, w2) else
     (let (bnd, w3) = nu_bind e K sockfd (m_iPortNumber o0) w2 in
      if \<not> bnd then Some (False, o0, w3) else
     (let (added, o1) = AddReadSocket sockfd o0 in
      if \<not> added then Some (False, o1, snd (nu_disconnect K sockfd w3)) else
     (let (polled, o2) = PollFDAdd sockfd o1 in
      if \<not> polled then Some (False, o2, w3) else Some (True, o2, w3)))))) }"

section \<open>Receiving and answering\<close>

text \<open>The socket is not connected, so an error does not close it.\<close>

definition HB_OnReadSocketError :: "fd \<Rightarrow> ('o, bool) meth" where
  "HB_OnReadSocketError sockfd s = Some (True, s)"

text \<open>
  The message of \<open>SendHeartbeatResponse\<close>.  \<open>new char[iMsgStrSize]\<close> throws when the size has
  wrapped around to a negative \<open>int\<close>; a copy outside the array is undefined behaviour.  Both are
  \<open>None\<close>.
\<close>

definition response_message ::
  "endian \<Rightarrow> (nat \<Rightarrow> byte) \<Rightarrow> cstr \<Rightarrow> cstr \<Rightarrow> CiHBState_t \<Rightarrow> i32 \<Rightarrow> byte list option"
where
  "response_message e junk rep loc st iSeqNum = do {
     let iMsgStrSize = to_int32 (4 + 4 + 4 + int (length rep) + 4 + 4 + int (length loc));
     if iMsgStrSize < 0 then None else do {
       p1 \<leftarrow> poke (new_array junk (nat iMsgStrSize), 0)
               (mem_image e (hton e (msg_code CIHB_HEARTBEAT_RESPONSE)));
       p2 \<leftarrow> poke p1 (mem_image e (hton e iSeqNum));
       p3 \<leftarrow> poke p2 (mem_image e (hton e (int32_bits (to_int32 (int (length rep))))));
       p4 \<leftarrow> poke p3 rep;
       p5 \<leftarrow> poke p4 (mem_image e (hton e (state_code st)));
       p6 \<leftarrow> poke p5 (mem_image e (hton e (int32_bits (to_int32 (int (length loc))))));
       p7 \<leftarrow> poke p6 loc;
       Some (fst p7) } }"

definition SendHeartbeatResponse ::
  "endian \<Rightarrow> kernel \<Rightarrow> (nat \<Rightarrow> byte) \<Rightarrow> fd \<Rightarrow> i32 \<Rightarrow> ('a hb_responser_scheme, bool) meth" where
  "SendHeartbeatResponse e K junk sockfd iSeqNum s = do {
     let o1 = fst s;
     pMsgStr \<leftarrow> response_message e junk (m_szRepresentativeIP o1) (m_szLocalIP o1)
                  (m_processState o1) iSeqNum;
     case sys_sendto K sockfd (m_saRecv o1) pMsgStr (snd s) of
       (Inl err, w) \<Rightarrow> Some (False, o1, w)
     | (Inr nSend, w) \<Rightarrow>
         if to_int32 (int nSend) \<noteq> int (length pMsgStr) then Some (False, o1, w)
         else Some (True, o1, w) }"

definition OnHeartbeatRequest ::
  "endian \<Rightarrow> kernel \<Rightarrow> (nat \<Rightarrow> byte) \<Rightarrow> fd \<Rightarrow> ('a hb_responser_scheme, bool) meth" where
  "OnHeartbeatRequest e K junk sockfd s = do {
     iTemp \<leftarrow> slice_of (m_szRecvBuf (fst s)) 4 4;
     SendHeartbeatResponse e K junk sockfd (ntoh e (mem_load e iTemp)) s }"

text \<open>
  \<open>ReceiveIntMessage\<close>; the only caller passes the address of a local variable that holds 0, so
  \<open>piReceivedMessage\<close> is never \<open>NULL\<close>.
\<close>

definition HB_ReceiveIntMessage ::
  "endian \<Rightarrow> kernel \<Rightarrow> fd \<Rightarrow> ('a hb_responser_scheme, bool \<times> i32) meth" where
  "HB_ReceiveIntMessage e K sockfd s =
     (if sockfd = NU_INVALID_SOCKET then Some ((False, 0), s)
      else case sys_recvfrom K 8 (snd s) of
        (RecvErr err, w) \<Rightarrow> Some ((False, 0), fst s, w)
      | (Recvd sa bs, w) \<Rightarrow> do {
          buf \<leftarrow> blit (m_szRecvBuf (fst s)) 0 bs;
          let o1 = (fst s)\<lparr>m_szRecvBuf := buf, m_saRecv := sa\<rparr>;
          if length bs \<noteq> 8 then Some ((False, 0), o1, w)
          else do {
            iTemp \<leftarrow> slice_of buf 0 4;
            Some ((True, ntoh e (mem_load e iTemp)), o1, w) } })"

definition HB_OnMessage ::
  "endian \<Rightarrow> kernel \<Rightarrow> (nat \<Rightarrow> byte) \<Rightarrow> fd \<Rightarrow> i32 \<Rightarrow> ('a hb_responser_scheme, bool) meth" where
  "HB_OnMessage e K junk sockfd iMessage s =
     (if sockfd = NU_INVALID_SOCKET then Some (False, s)
      else if iMessage = msg_code CIHB_HEARTBEAT_REQUEST then do {
        (_, s1) \<leftarrow> OnHeartbeatRequest e K junk sockfd s;
        Some (True, s1) }
      else Some (False, s))"

definition hb_vtbl ::
  "endian \<Rightarrow> kernel \<Rightarrow> (nat \<Rightarrow> byte) \<Rightarrow> 'a hb_responser_scheme nt_vtbl" where
  "hb_vtbl e K junk =
     \<lparr>v_ReceiveIntMessage = HB_ReceiveIntMessage e K, v_OnMessage = HB_OnMessage e K junk,
      v_OnReadSocketError = HB_OnReadSocketError\<rparr>"

definition hb_thread_vtbl ::
  "endian \<Rightarrow> kernel \<Rightarrow> (nat \<Rightarrow> byte) \<Rightarrow> 'a hb_responser_scheme thread_vtbl" where
  "hb_thread_vtbl e K junk = nt_thread_vtbl K (HB_InitInstance e K) (hb_vtbl e K junk)"

section \<open>The process state\<close>

definition GetProcessState :: "'a hb_responser_scheme \<Rightarrow> CiHBState_t" where
  "GetProcessState o1 = m_processState o1"

definition SetProcessState :: "CiHBState_t \<Rightarrow> 'a hb_responser_scheme \<Rightarrow> 'a hb_responser_scheme" where
  "SetProcessState state o1 = o1\<lparr>m_processState := state\<rparr>"

definition SetProcessHWError :: "'a hb_responser_scheme \<Rightarrow> 'a hb_responser_scheme" where
  "SetProcessHWError o1 = SetProcessState CIHB_STATE_HW_ERROR o1"

definition SetProcessSWError :: "'a hb_responser_scheme \<Rightarrow> 'a hb_responser_scheme" where
  "SetProcessSWError o1 = SetProcessState CIHB_STATE_SW_ERROR o1"

definition SetProcessAlive :: "'a hb_responser_scheme \<Rightarrow> 'a hb_responser_scheme" where
  "SetProcessAlive o1 = SetProcessState CIHB_STATE_ALIVE o1"

section \<open>The message\<close>

lemma int32_bits_length: "int32_bits (to_int32 (int n)) = of_nat n"
  by (simp add: int32_bits_def to_int32_def)

lemma put_int_image [wire_simps]: "mem_image e (hton e n) = put_int n"
  by (simp add: mem_image_hton put_int_def)

lemma response_message_encode:
  assumes fit: "20 + length rep + length loc < 2 ^ 31"
  shows "response_message e junk rep loc st seq =
    Some (encode_response \<lparr>hr_seq = seq, hr_representative = rep, hr_state = st, hr_local = loc\<rparr>)"
proof -
  let ?n = "20 + length rep + length loc"
  have size: "to_int32 (4 + 4 + 4 + int (length rep) + 4 + 4 + int (length loc)) = int ?n"
    using fit by (simp add: to_int32_id)
  have start: "written ?n (new_array junk ?n, 0) []" by (rule written_start) simp
  show ?thesis
    unfolding response_message_def Let_def size
    apply (simp add: wire_simps int32_bits_length nat_add_distrib add.assoc del: of_nat_add)
    apply (rule poke_bind [OF start [unfolded add.assoc]], simp)
    apply (erule poke_bind, simp)+
    apply (drule written_full)
     apply (simp_all add: encode_response_def put_string_def)
    done
qed

section \<open>One request, one answer\<close>

text \<open>What can be sent: the two addresses have to leave the message's size within an \<open>int\<close>.\<close>

definition hb_sized :: "'a hb_responser_scheme \<Rightarrow> bool" where
  "hb_sized o1 \<longleftrightarrow> length (m_szRecvBuf o1) = CIHB_MAX_DATA_SIZE \<and>
     20 + length (m_szRepresentativeIP o1) + length (m_szLocalIP o1) < 2 ^ 31"

lemma hb_sized_bExit: "hb_sized (o1\<lparr>m_bExit := b\<rparr>) = hb_sized o1"
  by (simp add: hb_sized_def)

definition hb_reply :: "'a hb_responser_scheme \<Rightarrow> byte list \<Rightarrow> byte list option" where
  "hb_reply o1 d =
     heartbeat_reply (m_szRepresentativeIP o1) (m_szLocalIP o1) (m_processState o1) d"

definition hb_response_for :: "'a hb_responser_scheme \<Rightarrow> i32 \<Rightarrow> byte list" where
  "hb_response_for o1 seq =
     encode_response \<lparr>hr_seq = seq, hr_representative = m_szRepresentativeIP o1,
       hr_state = m_processState o1, hr_local = m_szLocalIP o1\<rparr>"

lemma nt_wf_hb [simp]:
  "nt_wf (o1\<lparr>m_szRecvBuf := b\<rparr>) = nt_wf o1" "nt_wf (o1\<lparr>m_saRecv := a\<rparr>) = nt_wf o1"
  "nt_wf (o1\<lparr>m_processState := st\<rparr>) = nt_wf o1"
  by (simp_all add: nt_wf_def)

lemma SendHeartbeatResponse_run:
  assumes "hb_sized o1"
  shows "SendHeartbeatResponse e K junk s seq (o1, w) =
    (case k_send K (clock w) of
       SendFail err \<Rightarrow> Some (False, o1, tick w)
     | SendOk n \<Rightarrow> Some (length (hb_response_for o1 seq) \<le> n, o1,
         (tick w)\<lparr>sent := sent w @ [(s, m_saRecv o1, hb_response_for o1 seq)]\<rparr>))"
proof -
  let ?m = "hb_response_for o1 seq"
  have m: "response_message e junk (m_szRepresentativeIP o1) (m_szLocalIP o1) (m_processState o1)
      seq = Some ?m"
    using assms by (simp add: response_message_encode hb_response_for_def hb_sized_def)
  have "length ?m < 2 ^ 31"
    using assms by (simp add: hb_response_for_def hb_sized_def length_encode_response)
  then have "to_int32 (int (min n (length ?m))) = int (min n (length ?m))" for n
    by (simp add: to_int32_id min_def)
  then show ?thesis
    by (auto simp: SendHeartbeatResponse_def m sys_sendto_def Let_def min_def split: send_res.split)
qed

text \<open>The receive buffer after eight bytes have arrived.\<close>

definition received :: "sockaddr \<Rightarrow> byte list \<Rightarrow> 'a hb_responser_scheme \<Rightarrow> 'a hb_responser_scheme"
where
  "received sa bs o1 = o1\<lparr>m_szRecvBuf := bs @ drop (length bs) (m_szRecvBuf o1), m_saRecv := sa\<rparr>"

lemma received_simps [simp]:
  "m_szRecvBuf (received sa bs o1) = bs @ drop (length bs) (m_szRecvBuf o1)"
  "m_saRecv (received sa bs o1) = sa" "nt_wf (received sa bs o1) = nt_wf o1"
  "m_PollFds (received sa bs o1) = m_PollFds o1"
  "m_iPollFdCount (received sa bs o1) = m_iPollFdCount o1"
  "m_iMaxFDSize (received sa bs o1) = m_iMaxFDSize o1"
  "m_iEventsCount (received sa bs o1) = m_iEventsCount o1"
  "m_ReadSockets (received sa bs o1) = m_ReadSockets o1"
  "m_szRepresentativeIP (received sa bs o1) = m_szRepresentativeIP o1"
  "m_szLocalIP (received sa bs o1) = m_szLocalIP o1"
  "m_processState (received sa bs o1) = m_processState o1"
  "m_bExit (received sa bs o1) = m_bExit o1"
  "hb_response_for (received sa bs o1) seq = hb_response_for o1 seq"
  "thread_frame o1 (received sa bs o1)"
  by (simp_all add: received_def hb_response_for_def thread_frame_def)

lemma received_sized: "hb_sized o1 \<Longrightarrow> length bs \<le> 8 \<Longrightarrow> hb_sized (received sa bs o1)"
  by (simp add: hb_sized_def CIHB_MAX_DATA_SIZE_def)

lemma ReceiveIntMessage_run:
  assumes "hb_sized o1" and "s \<noteq> NU_INVALID_SOCKET"
  shows "HB_ReceiveIntMessage e K s (o1, w) =
    (case k_recv K (clock w) of
       RecvFail err \<Rightarrow> Some ((False, 0), o1, tick w)
     | RecvData sa d \<Rightarrow>
         Some (if length (take 8 d) = 8 then (True, of_be (take 4 d)) else (False, 0),
               received sa (take 8 d) o1, tick w))"
proof -
  have "length (m_szRecvBuf o1) = 1350" using assms(1) by (simp add: hb_sized_def CIHB_MAX_DATA_SIZE_def)
  moreover have "8 \<le> length d \<Longrightarrow> ntoh e (mem_load e (take 4 (take 8 d))) = (of_be (take 4 d) :: i32)"
    for d :: "byte list" by (simp add: ntoh_mem_load)
  ultimately show ?thesis using assms(2)
    by (auto simp: HB_ReceiveIntMessage_def sys_recvfrom_def blit_def slice_of_def received_def
        Let_def min_def split: recv_res.split)
qed

lemma OnMessage_run:
  assumes "hb_sized o1" and "s \<noteq> NU_INVALID_SOCKET" and "8 \<le> length d"
  shows "HB_OnMessage e K junk s (of_be (take 4 d)) (received sa (take 8 d) o1, w) =
    (case request_seq (take 8 d) of
       None \<Rightarrow> Some (False, received sa (take 8 d) o1, w)
     | Some seq \<Rightarrow> Some (True, received sa (take 8 d) o1,
         (case k_send K (clock w) of
            SendFail err \<Rightarrow> tick w
          | SendOk n \<Rightarrow> (tick w)\<lparr>sent := sent w @ [(s, sa, hb_response_for o1 seq)]\<rparr>)))"
proof -
  let ?o = "received sa (take 8 d) o1"
  have sz: "hb_sized ?o" using assms by (simp add: received_sized)
  have seq: "ntoh e (mem_load e (drop 4 (take 8 d))) = (of_be (drop 4 (take 8 d)) :: i32)"
    using assms(3) by (simp add: ntoh_mem_load)
  have "slice_of (m_szRecvBuf ?o) 4 4 = Some (drop 4 (take 8 d))"
    using assms(3) by (simp add: slice_of_def)
  then have "OnHeartbeatRequest e K junk s (?o, w) =
      SendHeartbeatResponse e K junk s (of_be (drop 4 (take 8 d))) (?o, w)"
    by (simp add: OnHeartbeatRequest_def seq del: received_simps)
  then show ?thesis
    using assms(2,3)
    by (auto simp: HB_OnMessage_def request_seq_def SendHeartbeatResponse_run [OF sz] take_take
        split: send_res.split)
qed

section \<open>A round of the server\<close>

text \<open>
  The specification of a responder on one socket: a deterministic automaton over what the
  kernel offers.  A round takes the clock and gives the clock and the datagrams sent.
\<close>

definition answer_step ::
  "kernel \<Rightarrow> (byte list \<Rightarrow> byte list option) \<Rightarrow> fd \<Rightarrow> nat \<Rightarrow>
     nat \<times> (fd \<times> sockaddr \<times> byte list) list"
where
  "answer_step K reply s c =
     (case k_recv K c of
        RecvFail err \<Rightarrow> (c + 1, [])
      | RecvData sa d \<Rightarrow>
          case reply (take 8 d) of
            None \<Rightarrow> (c + 1, [])
          | Some m \<Rightarrow>
              (c + 2, case k_send K (c + 1) of SendFail err \<Rightarrow> [] | SendOk n \<Rightarrow> [(s, sa, m)]))"

definition poll_step ::
  "kernel \<Rightarrow> (byte list \<Rightarrow> byte list option) \<Rightarrow> fd \<Rightarrow> nat \<Rightarrow>
     nat \<times> (fd \<times> sockaddr \<times> byte list) list"
where
  "poll_step K reply s c =
     (case k_poll K c of
        PollFail err \<Rightarrow> (if err = CI_EINTR then c + 1 else c + 2, [])
      | PollReady r \<Rightarrow>
          if r s AND read_events \<noteq> 0 then answer_step K reply s (c + 1) else (c + 1, []))"

fun server_trace ::
  "nat \<Rightarrow> kernel \<Rightarrow> (byte list \<Rightarrow> byte list option) \<Rightarrow> fd \<Rightarrow> nat \<Rightarrow>
     nat \<times> (fd \<times> sockaddr \<times> byte list) list"
where
  "server_trace 0 K reply s c = (c, [])"
| "server_trace (Suc n) K reply s c =
     (let (c1, out) = poll_step K reply s c; (c2, outs) = server_trace n K reply s c1
      in (c2, out @ outs))"

text \<open>A thread that serves the one socket it has opened.\<close>

definition serving :: "fd \<Rightarrow> 'a hb_responser_scheme \<Rightarrow> bool" where
  "serving s o1 \<longleftrightarrow> nt_wf o1 \<and> hb_sized o1 \<and> m_iPollFdCount o1 = 1 \<and> 0 \<le> s \<and>
     pfd (m_PollFds o1 ! 0) = s \<and> pevents (m_PollFds o1 ! 0) = read_events"

text \<open>What a round keeps.\<close>

definition same_service :: "'a hb_responser_scheme \<Rightarrow> 'a hb_responser_scheme \<Rightarrow> bool" where
  "same_service o1 o2 \<longleftrightarrow>
     m_szRepresentativeIP o2 = m_szRepresentativeIP o1 \<and> m_szLocalIP o2 = m_szLocalIP o1 \<and>
     m_processState o2 = m_processState o1 \<and> m_bExit o2 = m_bExit o1 \<and> m_state o2 = m_state o1 \<and>
     m_ReadSockets o2 = m_ReadSockets o1"

lemma same_service_reply: "same_service o1 o2 \<Longrightarrow> hb_reply o2 = hb_reply o1"
  by (auto simp: same_service_def hb_reply_def fun_eq_iff)

lemma same_service_trans: "same_service a b \<Longrightarrow> same_service b c \<Longrightarrow> same_service a c"
  by (simp add: same_service_def)

lemma same_service_refl [simp]: "same_service a a"
  by (simp add: same_service_def)

lemma hb_reply_Some: "hb_reply o1 d = map_option (hb_response_for o1) (request_seq d)"
  by (cases "request_seq d") (simp_all add: hb_reply_def heartbeat_reply_def hb_response_for_def)

lemma serve_entry_run:
  assumes sv: "serving s o1"
  obtains o2 w2 where "serve_entry (hb_vtbl e K junk) 0 (o1, w) = Some (o2, w2)"
    "serving s o2" "same_service o1 o2" "m_iEventsCount o2 = m_iEventsCount o1"
    "m_iMaxFDSize o2 = m_iMaxFDSize o1"
    "clock w2 = fst (answer_step K (hb_reply o1) s (clock w))"
    "sent w2 = sent w @ snd (answer_step K (hb_reply o1) s (clock w))"
proof -
  have sz: "hb_sized o1" and s: "s \<noteq> NU_INVALID_SOCKET" "fd_at 0 (o1, w') = s" for w'
    using sv by (auto simp: serving_def fd_at_def)
  show ?thesis
  proof (cases "k_recv K (clock w)")
    case (RecvFail err)
    have r: "HB_ReceiveIntMessage e K s (o1, w) = Some ((False, 0), o1, tick w)"
      using ReceiveIntMessage_run [OF sz s(1)] RecvFail by simp
    show ?thesis
      by (rule that [of o1 "tick w"])
         (use sv r RecvFail s in \<open>simp_all add: serve_entry_def hb_vtbl_def HB_OnReadSocketError_def
            answer_step_def tick_def\<close>)
  next
    case (RecvData sa d)
    let ?o = "received sa (take 8 d) o1"
    have fd: "fd_at 0 (?o, w') = s" for w' using sv by (simp add: serving_def fd_at_def)
    have sv': "serving s ?o" using sv received_sized [OF sz, of "take 8 d" sa]
      by (simp add: serving_def)
    have ss: "same_service o1 ?o" by (simp add: same_service_def received_def)
    have r: "HB_ReceiveIntMessage e K s (o1, w) =
        Some (if length (take 8 d) = 8 then (True, of_be (take 4 d)) else (False, 0), ?o, tick w)"
      using ReceiveIntMessage_run [OF sz s(1)] RecvData by simp
    show ?thesis
    proof (cases "8 \<le> length d")
      case False
      then have n: "hb_reply o1 (take 8 d) = None" by (simp add: hb_reply_Some request_seq_def)
      show ?thesis
        by (rule that [of ?o "tick w"])
           (use r False s fd sv' ss n RecvData in \<open>simp_all add: serve_entry_def hb_vtbl_def
              HB_OnReadSocketError_def answer_step_def tick_def\<close>)
    next
      case True
      note m = OnMessage_run [OF sz s(1) True, of e K junk sa "tick w"]
      let ?w = "case request_seq (take 8 d) of None \<Rightarrow> tick w | Some seq \<Rightarrow>
        (case k_send K (Suc (clock w)) of SendFail err \<Rightarrow> tick (tick w)
         | SendOk n \<Rightarrow> (tick (tick w))\<lparr>sent := sent w @ [(s, sa, hb_response_for o1 seq)]\<rparr>)"
      have "serve_entry (hb_vtbl e K junk) 0 (o1, w) = Some (?o, ?w)"
        using r m True fd s
        by (auto simp: serve_entry_def hb_vtbl_def HB_OnReadSocketError_def tick_def
            split: option.split send_res.split)
      then show ?thesis
        by (rule that)
           (use sv' ss RecvData in \<open>auto simp: answer_step_def hb_reply_Some tick_def
              split: option.split send_res.split\<close>)
    qed
  qed
qed

lemma serving_table: "serving s o1 \<Longrightarrow> m_PollFds o1 = m_PollFds o1 ! 0 # tl (m_PollFds o1)"
  by (cases "m_PollFds o1") (auto simp: serving_def nt_wf_def)

text \<open>The state after \<open>poll\<close>, and after the reported events of the entry are cleared.\<close>

lemma serving_update:
  assumes "serving s o1" and "pfd p = s" and "pevents p = read_events"
  shows "serving s (o1\<lparr>m_PollFds := p # tl (m_PollFds o1), m_iEventsCount := n\<rparr>)"
    "same_service o1 (o1\<lparr>m_PollFds := p # tl (m_PollFds o1), m_iEventsCount := n\<rparr>)"
    "hb_reply (o1\<lparr>m_PollFds := p # tl (m_PollFds o1), m_iEventsCount := n\<rparr>) = hb_reply o1"
proof -
  have wf: "nt_wf o1" "m_iPollFdCount o1 = Suc 0" "pfd (m_PollFds o1 ! 0) = s"
    using assms(1) by (auto simp: serving_def)
  have "map pfd (p # tl (m_PollFds o1)) = map pfd (m_PollFds o1)"
    by (subst (2) serving_table [OF assms(1)]) (simp add: assms(2) wf(3))
  moreover have "drop (Suc 0) (p # tl (m_PollFds o1)) = drop (Suc 0) (m_PollFds o1)"
    by (simp add: drop_Suc)
  ultimately have "nt_wf (o1\<lparr>m_PollFds := p # tl (m_PollFds o1)\<rparr>)"
    using wf nt_wf_table(1) [of "p # tl (m_PollFds o1)" o1] by simp
  then have "nt_wf (o1\<lparr>m_PollFds := p # tl (m_PollFds o1), m_iEventsCount := n\<rparr>)" by simp
  then show "serving s (o1\<lparr>m_PollFds := p # tl (m_PollFds o1), m_iEventsCount := n\<rparr>)"
    using assms by (simp add: serving_def hb_sized_def)
  show "same_service o1 (o1\<lparr>m_PollFds := p # tl (m_PollFds o1), m_iEventsCount := n\<rparr>)"
    by (simp add: same_service_def)
  then show "hb_reply (o1\<lparr>m_PollFds := p # tl (m_PollFds o1), m_iEventsCount := n\<rparr>) = hb_reply o1"
    by (rule same_service_reply)
qed

lemma poll_one:
  assumes sv: "serving s o1"
  shows "poll_array r (m_iPollFdCount o1) (m_PollFds o1) =
    (let p = poll_entry r (m_PollFds o1 ! 0)
     in (if prevents p \<noteq> 0 then 1 else 0, p # tl (m_PollFds o1)))"
proof -
  obtain q qs where "m_PollFds o1 = q # qs" using serving_table [OF sv] by blast
  then show ?thesis using sv by (simp add: poll_array_def Let_def serving_def)
qed

lemma and_read_events: "(x AND (read_events OR POLLALWAYS)) AND read_events = x AND read_events"
  by (rule bit_eqI) (auto simp: bit_simps)

lemma ready_entry:
  fixes r :: "fd \<Rightarrow> events"
  assumes "serving s o1"
  defines "p \<equiv> poll_entry r (m_PollFds o1 ! 0)"
  shows "read_ready p \<longleftrightarrow> r s AND read_events \<noteq> 0" "pfd p = s" "pevents p = read_events"
    "read_ready p \<Longrightarrow> prevents p \<noteq> 0"
proof -
  show "read_ready p \<longleftrightarrow> r s AND read_events \<noteq> 0" "pfd p = s" "pevents p = read_events"
    using assms(1) by (auto simp: serving_def p_def poll_entry_def read_ready_def and_read_events)
  show "read_ready p \<Longrightarrow> prevents p \<noteq> 0"
    by (auto simp: read_ready_def)
qed

lemma count_after_table:
  "o1\<lparr>m_iEventsCount := n, m_PollFds := ps\<rparr> = o1\<lparr>m_PollFds := ps, m_iEventsCount := n\<rparr>"
  by simp

lemma run_round:
  assumes sv: "serving s o1" and run: "\<not> m_bExit o1"
  obtains o2 w2 where "NT_Run K (hb_vtbl e K junk) (o1, w) = Some (True, o2, w2)"
    "serving s o2" "same_service o1 o2"
    "clock w2 = fst (poll_step K (hb_reply o1) s (clock w))"
    "sent w2 = sent w @ snd (poll_step K (hb_reply o1) s (clock w))"
proof (cases "k_poll K (clock w)")
  case (PollFail err)
  let ?o = "\<lambda>n. o1\<lparr>m_iEventsCount := n\<rparr>"
  have "serving s (?o n)" "same_service o1 (?o n)" for n
    using sv by (simp_all add: serving_def hb_sized_def same_service_def)
  then show ?thesis
    by (intro that [of "?o (if err = CI_EINTR then 0 else - 1)"
          "if err = CI_EINTR then tick w else tick (tick w)"])
       (use PollFail run in \<open>simp_all add: NT_Run_def WaitNetworkEvent_def poll_step_def tick_def\<close>)
next
  case (PollReady r)
  let ?p = "poll_entry r (m_PollFds o1 ! 0)"
  let ?o = "\<lambda>p n. o1\<lparr>m_PollFds := p # tl (m_PollFds o1), m_iEventsCount := n\<rparr>"
  note e = ready_entry [OF sv, of r]
  have "pfd (?p\<lparr>prevents := 0\<rparr>) = s" "pevents (?p\<lparr>prevents := 0\<rparr>) = read_events"
    using e(2,3) by simp_all
  note upd = serving_update [OF sv this]
  note upd' = serving_update [OF sv e(2,3)]
  obtain k where k: "m_iMaxFDSize o1 = Suc k" and c: "m_iPollFdCount o1 = Suc 0"
    using sv by (cases "m_iMaxFDSize o1") (auto simp: serving_def nt_wf_def)
  have w: "WaitNetworkEvent K (o1, w) =
      Some (True, ?o ?p (if prevents ?p \<noteq> 0 then 1 else 0), tick w)"
    using PollReady poll_one [OF sv, of r] by (simp add: WaitNetworkEvent_def Let_def)
  have past: "read_loop vt k (Suc 0) (?o ?p n, w') = Some (?o ?p n, w')"
    for vt :: "'a hb_responser_scheme nt_vtbl" and n w'
    by (cases k) (simp_all add: c)
  show ?thesis
  proof (cases "read_ready ?p")
    case False
    show ?thesis
      by (rule that [of "?o ?p (if prevents ?p \<noteq> 0 then 1 else 0)" "tick w"])
         (use w past False e(1) upd' k c run PollReady in
           \<open>simp_all add: NT_Run_def ProcessReadEvent_def poll_step_def tick_def\<close>)
  next
    case True
    obtain o2 w2 where 2: "serve_entry (hb_vtbl e K junk) 0 (?o (?p\<lparr>prevents := 0\<rparr>) 1, tick w) =
          Some (o2, w2)"
        "serving s o2" "same_service (?o (?p\<lparr>prevents := 0\<rparr>) 1) o2" "m_iEventsCount o2 = 1"
        "clock w2 = fst (answer_step K (hb_reply o1) s (Suc (clock w)))"
        "sent w2 = sent w @ snd (answer_step K (hb_reply o1) s (Suc (clock w)))"
      by (rule serve_entry_run [OF upd(1) [of 1], of e K junk "tick w"]) (simp add: upd(3))
    have "serving s (o2\<lparr>m_iEventsCount := 0\<rparr>)" "same_service o1 (o2\<lparr>m_iEventsCount := 0\<rparr>)"
      using 2(2,3) by (simp_all add: serving_def hb_sized_def same_service_def)
    then show ?thesis
      by (intro that [of "o2\<lparr>m_iEventsCount := 0\<rparr>" w2])
         (use w 2 True e k c run PollReady in
           \<open>simp_all add: NT_Run_def ProcessReadEvent_def poll_step_def Let_def
             count_after_table\<close>)
  qed
qed

text \<open>The thread's loop, round by round.\<close>

lemma proc_round:
  assumes "serving s o1" and "\<not> m_bExit o1" and "m_state o1 = CI_THREAD2_DONE_INITINSTANCE"
  shows "\<exists>o2 w2. proc_iter n (hb_thread_vtbl e K junk) (o1, w) = Some (o2, w2) \<and> serving s o2 \<and>
     same_service o1 o2 \<and> clock w2 = fst (server_trace n K (hb_reply o1) s (clock w)) \<and>
     sent w2 = sent w @ snd (server_trace n K (hb_reply o1) s (clock w))"
  using assms
proof (induction n arbitrary: o1 w)
  case 0
  then show ?case by simp
next
  case (Suc n)
  obtain o2 w2 where 2: "NT_Run K (hb_vtbl e K junk) (o1, w) = Some (True, o2, w2)"
      "serving s o2" "same_service o1 o2"
      "clock w2 = fst (poll_step K (hb_reply o1) s (clock w))"
      "sent w2 = sent w @ snd (poll_step K (hb_reply o1) s (clock w))"
    using run_round [OF Suc.prems(1,2)] by metis
  have P: "ThreadProc (hb_thread_vtbl e K junk) (o1, w) = Some (o2, w2)"
    using 2(1) Suc.prems by (simp add: ThreadProc_def thread_proc_run_def hb_thread_vtbl_def
        nt_thread_vtbl_def)
  have "\<not> m_bExit o2" "m_state o2 = CI_THREAD2_DONE_INITINSTANCE"
    using 2(3) Suc.prems by (simp_all add: same_service_def)
  from Suc.IH [OF 2(2) this, of w2] same_service_reply [OF 2(3)]
  obtain o3 w3 where 3: "proc_iter n (hb_thread_vtbl e K junk) (o2, w2) = Some (o3, w3)"
      "serving s o3" "same_service o2 o3" "clock w3 = fst (server_trace n K (hb_reply o1) s (clock w2))"
      "sent w3 = sent w2 @ snd (server_trace n K (hb_reply o1) s (clock w2))" by auto
  show ?case
    using P 3 2(4,5) same_service_trans [OF 2(3) 3(3)]
    by (auto simp: Let_def split: prod.splits)
qed

section \<open>Starting up\<close>

definition may_init :: "kernel \<Rightarrow> nat \<Rightarrow> bool" where
  "may_init K c \<longleftrightarrow> 0 \<le> k_socket K c \<and> k_setsockopt K (c + 1) \<and> k_bind K (c + 2)"

text \<open>Three calls that may fail, each with its own early return; the object is not touched.\<close>

lemmas init_simps = HB_InitInstance_def may_init_def Thread2_InitInstance_def
  nu_create_udp_socket_def nu_set_reuse_addr_def nu_bind_def sys_simps

lemma InitInstance_fail:
  assumes "\<not> may_init K (clock w)"
  shows "\<exists>w2. HB_InitInstance e K (o1, w) = Some (False, o1, w2) \<and> closed_fds w2 = closed_fds w \<and>
    sent w2 = sent w \<and> bound w2 = bound w \<and> sem_events w2 = sem_events w"
proof -
  consider "k_socket K (clock w) < 0"
    | "0 \<le> k_socket K (clock w)" "\<not> k_setsockopt K (Suc (clock w))"
    | "0 \<le> k_socket K (clock w)" "k_setsockopt K (Suc (clock w))" "\<not> k_bind K (Suc (Suc (clock w)))"
    using assms by (fastforce simp: may_init_def)
  then show ?thesis by cases (simp_all add: init_simps)
qed

text \<open>The object after a successful start: the socket is in the set and in the poll table.\<close>

definition registered :: "fd \<Rightarrow> 'a network_thread_scheme \<Rightarrow> 'a network_thread_scheme" where
  "registered s o1 = snd (PollFDAdd s (snd (AddReadSocket s o1)))"

lemma registered_table:
  assumes "s \<noteq> NU_INVALID_SOCKET" and "m_iPollFdCount o1 < m_iMaxFDSize o1"
  shows "registered s o1 = o1\<lparr>m_ReadSockets := insert s (m_ReadSockets o1),
     m_PollFds := (m_PollFds o1)[m_iPollFdCount o1 :=
        \<lparr>pfd = s, pevents = read_events, prevents = 0\<rparr>],
     m_iPollFdCount := Suc (m_iPollFdCount o1)\<rparr>"
  using assms by (simp add: registered_def AddReadSocket_def PollFDAdd_def)

lemma registered_wf: "nt_wf o1 \<Longrightarrow> nt_wf (registered s o1)"
  unfolding registered_def
  by (rule PollFDAdd_wf) (simp add: AddReadSocket_def)

text \<open>All of \<open>InitInstance\<close> once the three calls have succeeded.\<close>

lemma InitInstance_run:
  assumes "may_init K (clock w)"
  defines "s \<equiv> k_socket K (clock w)"
  shows "\<exists>w2. HB_InitInstance e K (o1, w) =
      Some (m_iPollFdCount o1 < m_iMaxFDSize o1, registered s o1, w2) \<and>
    closed_fds w2 = closed_fds w \<and> sent w2 = sent w \<and> clock w2 = clock w + 3 \<and>
    bound w2 = bound w @ [(s, hton e 0, hton e (m_iPortNumber o1))] \<and>
    sem_events w2 = sem_events w"
  using assms
  by (auto simp: init_simps registered_def AddReadSocket_def PollFDAdd_def)

lemma InitInstance_serving:
  assumes "may_init K (clock w)" and "nt_wf o1" "hb_sized o1"
    and "m_iPollFdCount o1 = 0" "0 < m_iMaxFDSize o1"
  obtains w2 where "HB_InitInstance e K (o1, w) =
      Some (True, registered (k_socket K (clock w)) o1, w2)"
    "serving (k_socket K (clock w)) (registered (k_socket K (clock w)) o1)"
    "sent w2 = sent w" "closed_fds w2 = closed_fds w" "clock w2 = clock w + 3"
    "bound w2 = bound w @ [(k_socket K (clock w), hton e 0, hton e (m_iPortNumber o1))]"
proof -
  let ?s = "k_socket K (clock w)"
  have s: "0 \<le> ?s" using assms(1) by (simp add: may_init_def)
  have len: "0 < length (m_PollFds o1)" using assms by (simp add: nt_wf_def)
  have "serving ?s (registered ?s o1)"
    using assms s len registered_wf [of o1 ?s]
    by (auto simp: serving_def registered_table hb_sized_def)
  then show ?thesis
    using InitInstance_run [OF assms(1), of e o1] assms(5) that assms(4) by auto
qed

lemma registered_frame:
  "thread_frame o1 (registered s o1)" "m_iMaxFDSize (registered s o1) = m_iMaxFDSize o1"
  by (simp_all add: registered_def AddReadSocket_def PollFDAdd_def thread_frame_def)

lemma registered_fields:
  "m_szRepresentativeIP (registered s o1) = m_szRepresentativeIP o1"
  "m_szLocalIP (registered s o1) = m_szLocalIP o1"
  "m_szRecvBuf (registered s o1) = m_szRecvBuf o1"
  "m_processState (registered s o1) = m_processState o1"
  "finite (m_ReadSockets o1) \<Longrightarrow> finite (m_ReadSockets (registered s o1))"
  by (simp_all add: registered_def AddReadSocket_def PollFDAdd_def)

text \<open>A new responder.\<close>

lemma new_responder:
  assumes "20 + length rep + length loc < 2 ^ 31"
  shows "nt_wf (CCiHBResponser junk rep port loc t)" "hb_sized (CCiHBResponser junk rep port loc t)"
    "m_iPollFdCount (CCiHBResponser junk rep port loc t) = 0"
    "m_iMaxFDSize (CCiHBResponser junk rep port loc t) = 1024"
    "m_ReadSockets (CCiHBResponser junk rep port loc t) = {}"
    "m_processState (CCiHBResponser junk rep port loc t) = CIHB_STATE_ALIVE"
    "m_szRepresentativeIP (CCiHBResponser junk rep port loc t) = rep"
    "m_szLocalIP (CCiHBResponser junk rep port loc t) = loc"
    "m_iPortNumber (CCiHBResponser junk rep port loc t) = port"
    "m_state (CCiHBResponser junk rep port loc t) = CI_THREAD2_READY"
  using assms
  by (simp_all add: CCiHBResponser_def network_thread_new_def network_thread.defs
      hb_responser.defs ci_thread2.defs ci_thread2_new_def NETWORK_THREAD_FD_SETSIZE_def
      nt_wf_def hb_sized_def CIHB_MAX_DATA_SIZE_def)

section \<open>The contract of the hooks\<close>

text \<open>
  What holds at every moment of a responder's life: the table is well-formed, the message fits,
  and every datagram ever sent is a response that carries the two configured addresses.
\<close>

definition only_responses :: "cstr \<Rightarrow> cstr \<Rightarrow> world \<Rightarrow> bool" where
  "only_responses rep loc w \<longleftrightarrow>
     (\<forall>(s, sa, m) \<in> set (sent w). \<exists>seq st.
        m = encode_response \<lparr>hr_seq = seq, hr_representative = rep, hr_state = st, hr_local = loc\<rparr>)"

definition hb_inv :: "cstr \<Rightarrow> cstr \<Rightarrow> 'a hb_responser_scheme st \<Rightarrow> bool" where
  "hb_inv rep loc s \<longleftrightarrow> nt_wf (fst s) \<and> hb_sized (fst s) \<and> finite (m_ReadSockets (fst s)) \<and>
     m_szRepresentativeIP (fst s) = rep \<and> m_szLocalIP (fst s) = loc \<and>
     only_responses rep loc (snd s)"

lemma only_responses_world [simp]:
  "only_responses rep loc (tick w) = only_responses rep loc w"
  "only_responses rep loc (w\<lparr>sem_events := x\<rparr>) = only_responses rep loc w"
  "only_responses rep loc (disconnect_all K ss w) = only_responses rep loc w"
  by (simp_all add: only_responses_def)

lemma only_responses_sent:
  "sent w2 = sent w \<Longrightarrow> only_responses rep loc w2 = only_responses rep loc w"
  by (simp add: only_responses_def)

lemma only_responses_send:
  "only_responses rep loc w \<Longrightarrow> m_szRepresentativeIP o1 = rep \<Longrightarrow> m_szLocalIP o1 = loc \<Longrightarrow>
     only_responses rep loc ((tick w)\<lparr>sent := sent w @ [(s, sa, hb_response_for o1 seq)]\<rparr>)"
  by (auto simp: only_responses_def hb_response_for_def intro!: exI refl)

lemma InitInstance_law: "hook_law (hb_inv rep loc) (HB_InitInstance e K)"
proof (rule hook_lawI)
  fix o1 :: "'a hb_responser_scheme" and w
  assume I: "hb_inv rep loc (o1, w)"
  show "\<exists>ok o2 w2. HB_InitInstance e K (o1, w) = Some (ok, o2, w2) \<and> hb_inv rep loc (o2, w2) \<and>
      thread_frame o1 o2"
  proof (cases "may_init K (clock w)")
    case True
    show ?thesis
      using InitInstance_run [OF True, of e o1] I
      by (auto simp: hb_inv_def registered_wf registered_frame registered_fields hb_sized_def
          only_responses_def)
  next
    case False
    show ?thesis
      using InitInstance_fail [OF False, of e o1] I by (auto simp: hb_inv_def only_responses_def)
  qed
qed

lemma ReceiveIntMessage_law: "msg_law (hb_inv rep loc) (HB_ReceiveIntMessage e K s)"
proof (rule msg_lawI)
  fix o1 :: "'a hb_responser_scheme" and w
  assume I: "hb_inv rep loc (o1, w)"
  then have sz: "hb_sized o1" by (simp add: hb_inv_def)
  show "\<exists>r o2 w2. HB_ReceiveIntMessage e K s (o1, w) = Some (r, o2, w2) \<and>
      hb_inv rep loc (o2, w2) \<and> thread_frame o1 o2 \<and> m_iMaxFDSize o2 = m_iMaxFDSize o1"
  proof (cases "s = NU_INVALID_SOCKET")
    case True
    then show ?thesis using I by (simp add: HB_ReceiveIntMessage_def)
  next
    case False
    show ?thesis
      using I received_sized [OF sz]
      by (cases "k_recv K (clock w)")
         (simp_all add: ReceiveIntMessage_run [OF sz False] hb_inv_def)
  qed
qed

lemma OnHeartbeatRequest_law:
  assumes I: "hb_inv rep loc (o1, w)"
  shows "\<exists>r o2 w2. OnHeartbeatRequest e K junk s (o1, w) = Some (r, o2, w2) \<and>
      hb_inv rep loc (o2, w2) \<and> thread_frame o1 o2 \<and> m_iMaxFDSize o2 = m_iMaxFDSize o1"
proof -
  have sz: "hb_sized o1" using I by (simp add: hb_inv_def)
  then have "slice_of (m_szRecvBuf o1) 4 4 \<noteq> None"
    by (simp add: hb_sized_def CIHB_MAX_DATA_SIZE_def slice_of_def)
  then show ?thesis
    using I by (cases "k_send K (clock w)")
      (auto simp: OnHeartbeatRequest_def SendHeartbeatResponse_run [OF sz] hb_inv_def
        only_responses_send)
qed

lemma OnMessage_law: "msg_law (hb_inv rep loc) (HB_OnMessage e K junk s m)"
proof (rule msg_lawI)
  fix o1 :: "'a hb_responser_scheme" and w
  assume I: "hb_inv rep loc (o1, w)"
  obtain r o2 w2 where "OnHeartbeatRequest e K junk s (o1, w) = Some (r, o2, w2)"
      "hb_inv rep loc (o2, w2)" "thread_frame o1 o2" "m_iMaxFDSize o2 = m_iMaxFDSize o1"
    using OnHeartbeatRequest_law [OF I] by blast
  then show "\<exists>r o2 w2. HB_OnMessage e K junk s m (o1, w) = Some (r, o2, w2) \<and>
      hb_inv rep loc (o2, w2) \<and> thread_frame o1 o2 \<and> m_iMaxFDSize o2 = m_iMaxFDSize o1"
    using I by (auto simp: HB_OnMessage_def)
qed

interpretation hb: poll_hooks K "HB_InitInstance e K" "hb_vtbl e K junk" "hb_inv rep loc"
  for e K junk rep loc
proof unfold_locales
  fix o1 :: "'a hb_responser_scheme" and w :: world and ps n
  show "msg_law (hb_inv rep loc) (v_ReceiveIntMessage (hb_vtbl e K junk) f)" for f
    by (simp add: hb_vtbl_def ReceiveIntMessage_law)
  show "msg_law (hb_inv rep loc) (v_OnMessage (hb_vtbl e K junk) f m)" for f m
    by (simp add: hb_vtbl_def OnMessage_law)
  show "hook_law (hb_inv rep loc) (NT_ExitInstance K :: ('a hb_responser_scheme, bool) meth)"
    by (rule hook_lawI)
       (auto simp: ExitInstance_run hb_inv_def nt_wf_def hb_sized_def thread_frame_def)
  show "hook_law (hb_inv rep loc) (HB_InitInstance e K)" by (rule InitInstance_law)
  assume I: "hb_inv rep loc (o1, w)"
  then show "hb_inv rep loc (o1\<lparr>m_iEventsCount := n\<rparr>, w)" by (auto simp: hb_inv_def hb_sized_def)
  assume "map pfd ps = map pfd (m_PollFds o1)"
    "drop (m_iPollFdCount o1) ps = drop (m_iPollFdCount o1) (m_PollFds o1)"
  from nt_wf_table(1) [OF this] I show "hb_inv rep loc (o1\<lparr>m_PollFds := ps\<rparr>, w)"
    by (auto simp: hb_inv_def hb_sized_def)
qed (auto simp: hb_inv_def hb_sized_def hb_vtbl_def HB_OnReadSocketError_def msg_law_def)

section \<open>A whole life of the thread\<close>

text \<open>The first call of \<open>ThreadProc\<close> opens the socket and serves a first round.\<close>

lemma first_call:
  assumes "may_init K (clock w)" and "nt_wf o1" "hb_sized o1" "m_iPollFdCount o1 = 0"
    and "0 < m_iMaxFDSize o1" "\<not> m_bExit o1" "m_state o1 = CI_THREAD2_READY"
  defines "s \<equiv> k_socket K (clock w)"
  shows "\<exists>o2 w2. serving s o2 \<and> \<not> m_bExit o2 \<and> m_state o2 = CI_THREAD2_DONE_INITINSTANCE \<and>
    m_ReadSockets o2 = insert s (m_ReadSockets o1) \<and> hb_reply o2 = hb_reply o1 \<and>
    clock w2 = clock w + 3 \<and> sent w2 = sent w \<and> closed_fds w2 = closed_fds w \<and>
    bound w2 = bound w @ [(s, hton e 0, hton e (m_iPortNumber o1))] \<and>
    proc_iter (Suc n) (hb_thread_vtbl e K junk) (o1, w) =
      proc_iter (Suc n) (hb_thread_vtbl e K junk) (o2, w2)"
proof -
  let ?r = "registered s o1"
  let ?o = "?r\<lparr>m_state := CI_THREAD2_DONE_INITINSTANCE\<rparr>"
  obtain w2 where 1: "HB_InitInstance e K (o1, w) = Some (True, ?r, w2)" "serving s ?r"
      "sent w2 = sent w" "closed_fds w2 = closed_fds w" "clock w2 = clock w + 3"
      "bound w2 = bound w @ [(s, hton e 0, hton e (m_iPortNumber o1))]"
    using InitInstance_serving [OF assms(1-5), of e] unfolding s_def by metis
  have s: "s \<noteq> NU_INVALID_SOCKET" using assms(1) by (auto simp: may_init_def s_def)
  have tab: "m_iPollFdCount o1 < m_iMaxFDSize o1" using assms(4,5) by simp
  have "ThreadProc (hb_thread_vtbl e K junk) (o1, w) = thread_proc_run (hb_thread_vtbl e K junk) (?o, w2)"
    using 1(1) assms(7) by (simp add: ThreadProc_def hb_thread_vtbl_def nt_thread_vtbl_def)
  moreover have "ThreadProc (hb_thread_vtbl e K junk) (?o, w2) =
      thread_proc_run (hb_thread_vtbl e K junk) (?o, w2)" by (simp add: ThreadProc_def)
  ultimately have "proc_iter (Suc n) (hb_thread_vtbl e K junk) (o1, w) =
      proc_iter (Suc n) (hb_thread_vtbl e K junk) (?o, w2)" by simp
  moreover have "serving s ?o" using 1(2) by (simp add: serving_def hb_sized_def)
  moreover have "m_ReadSockets ?o = insert s (m_ReadSockets o1)" "\<not> m_bExit ?o"
    "hb_reply ?o = hb_reply o1"
    using assms(6) by (auto simp: registered_table [OF s tab] hb_reply_def)
  ultimately show ?thesis using 1 by (intro exI [of _ ?o] exI [of _ w2]) simp
qed

text \<open>The call after an exit request closes what is in the socket set and ends the thread.\<close>

lemma last_call:
  assumes "m_state o1 = CI_THREAD2_DONE_INITINSTANCE"
  shows "\<exists>o2 w2. ThreadProc (hb_thread_vtbl e K junk) (EndThread o1, w) = Some (o2, w2) \<and>
    m_state o2 = CI_THREAD2_DONE \<and> m_ReadSockets o2 = {} \<and> m_iPollFdCount o2 = 0 \<and>
    closed_fds w2 = closed_fds w @ sorted_list_of_set (m_ReadSockets o1) \<and> sent w2 = sent w"
  using assms
  by (simp add: ThreadProc_def thread_proc_run_def EndThread_def thread_proc_exit_def
      hb_thread_vtbl_def nt_thread_vtbl_def ExitInstance_run thread_proc_finish_def
      closed_disconnect_all)

text \<open>When the start fails the thread ends in an error, and a socket that was opened stays open.\<close>

lemma failed_start:
  assumes "\<not> may_init K (clock w)" and "m_state o1 = CI_THREAD2_READY" "m_ReadSockets o1 = {}"
  shows "\<exists>o2 w2. thread_loop 3 (hb_thread_vtbl e K junk) (o1, w) = Some (o2, w2) \<and>
    m_state o2 = CI_THREAD2_DONE_ERROR \<and> closed_fds w2 = closed_fds w \<and> sent w2 = sent w"
proof -
  obtain w2 where 1: "HB_InitInstance e K (o1, w) = Some (False, o1, w2)" "closed_fds w2 = closed_fds w"
      "sent w2 = sent w" using InitInstance_fail [OF assms(1)] by metis
  then have "ThreadProc (hb_thread_vtbl e K junk) (o1, w) =
      Some (o1\<lparr>m_state := CI_THREAD2_ERROR\<rparr>, w2)"
    using assms(2) by (simp add: ThreadProc_def hb_thread_vtbl_def nt_thread_vtbl_def)
  moreover have "\<exists>o2. ThreadProc (hb_thread_vtbl e K junk) (o1\<lparr>m_state := CI_THREAD2_ERROR\<rparr>, w2) =
      Some (o2, w2) \<and> m_state o2 = CI_THREAD2_DONE_ERROR"
    using assms(3) by (simp add: ThreadProc_def thread_proc_exit_def hb_thread_vtbl_def
        nt_thread_vtbl_def ExitInstance_run thread_proc_finish_def)
  ultimately show ?thesis using 1(2,3) assms(2)
    by (auto simp: numeral_3_eq_3 IsThreadDone_def)
qed

section \<open>Interleaving with the program that owns the responder\<close>

text \<open>
  While the thread runs, the program may request its end and change the process state.
\<close>

inductive hb_step ::
  "endian \<Rightarrow> kernel \<Rightarrow> (nat \<Rightarrow> byte) \<Rightarrow> 'a hb_responser_scheme st \<Rightarrow> 'a hb_responser_scheme st \<Rightarrow> bool"
  for e K junk
where
  in_thread: "thread_step (hb_thread_vtbl e K junk) s t \<Longrightarrow> hb_step e K junk s t"
| hw_error: "hb_step e K junk (o1, w) (SetProcessHWError o1, w)"
| sw_error: "hb_step e K junk (o1, w) (SetProcessSWError o1, w)"
| alive: "hb_step e K junk (o1, w) (SetProcessAlive o1, w)"

inductive_cases hb_stepE: "hb_step e K junk s t"

inductive hb_reach ::
  "endian \<Rightarrow> kernel \<Rightarrow> (nat \<Rightarrow> byte) \<Rightarrow> 'a hb_responser_scheme st \<Rightarrow> 'a hb_responser_scheme st \<Rightarrow> bool"
  for e K junk s
where
  hb_start: "hb_reach e K junk s s"
| hb_more: "hb_reach e K junk s t \<Longrightarrow> hb_step e K junk t u \<Longrightarrow> hb_reach e K junk s u"

lemmas process_state_defs = SetProcessHWError_def SetProcessSWError_def SetProcessAlive_def
  SetProcessState_def GetProcessState_def

lemma hb_inv_state: "hb_inv rep loc (SetProcessState st o1, w) = hb_inv rep loc (o1, w)"
  by (simp add: hb_inv_def hb_sized_def SetProcessState_def)

lemma thread_step_inv:
  assumes st: "thread_step (hb_thread_vtbl e K junk) s t" and I: "hb_inv rep loc s"
  shows "hb_inv rep loc t"
proof -
  obtain u where u: "ThreadProc (hb_thread_vtbl e K junk) s = Some u" "hb_inv rep loc u"
    using hb.thread.proc_step [OF I, of K e junk] by (auto simp: hb_thread_vtbl_def)
  with st I show ?thesis
    by (elim thread_stepE) (auto simp: EndThread_def hb.thread.inv_bExit)
qed

lemma hb_step_inv: "hb_step e K junk s t \<Longrightarrow> hb_inv rep loc s \<Longrightarrow> hb_inv rep loc t"
  by (elim hb_stepE)
     (auto simp: SetProcessHWError_def SetProcessSWError_def SetProcessAlive_def hb_inv_state
       intro: thread_step_inv)

lemma hb_reach_inv: "hb_reach e K junk s t \<Longrightarrow> hb_inv rep loc s \<Longrightarrow> hb_inv rep loc t"
  by (induction rule: hb_reach.induct) (auto dest: hb_step_inv)

text \<open>No reachable state is stuck: the thread's next call always returns.\<close>

lemma hb_reach_progress:
  "hb_reach e K junk s t \<Longrightarrow> hb_inv rep loc s \<Longrightarrow>
     \<exists>u. ThreadProc (hb_thread_vtbl e K junk) t = Some u"
  using hb.thread.proc_step [OF hb_reach_inv, of e K junk s t rep loc K e junk]
  by (auto simp: hb_thread_vtbl_def)

text \<open>A request to end the thread is honoured in at most two further calls, from anywhere.\<close>

lemma hb_reach_ends:
  assumes "hb_reach e K junk s (o1, w)" and "hb_inv rep loc s"
  shows "\<exists>t. thread_loop 3 (hb_thread_vtbl e K junk) (EndThread o1, w) = Some t \<and>
     IsThreadDone (fst t)"
proof -
  have I: "hb_inv rep loc (EndThread o1, w)"
    using hb_reach_inv [OF assms] by (simp add: EndThread_def hb.thread.inv_bExit)
  have "m_bExit (fst (EndThread o1, w))" by (simp add: EndThread_def)
  from hb.thread.loop_after_exit_request [OF I this, of 0 K e junk] show ?thesis
    by (auto simp: numeral_3_eq_3 hb_thread_vtbl_def)
qed

end
