(* ===== verification/HB_Session.thy ===== *)
theory HB_Session
  imports HB_Protocol "HOL-Library.Monad_Syntax" "HOL-Library.Sublist"
begin

text \<open>
  \<open>HeartBeatSession\<close> (\<open>asio_base/HeartBeatSession.h\<close>, \<open>HeartBeatSession.cpp\<close>): the responder on
  \<open>boost::asio\<close>.  The socket and the \<open>io_service\<close> are third-party code: what each of their calls
  returns is a parameter (a field of \<open>asio\<close>, read at a clock), and only the following is built
  in.  \<open>async_receive_from\<close> starts one operation, which completes once, either with an error or
  with at most the prepared number of bytes and the sender's endpoint; the handler runs later.
  Closing the socket completes the operations that still wait, with an error.

  Dereferencing the null \<open>shared_ptr\<close> is \<open>None\<close>; an exception that leaves a function is \<open>Inl\<close> of
  its error code.  An error code is its \<open>value()\<close>, 0 for success.
\<close>

type_synonym endpoint = "byte list"
type_synonym error_code = int

record asio =
  a_open :: "nat \<Rightarrow> error_code"
  a_set_option :: "nat \<Rightarrow> error_code"
  a_bind :: "nat \<Rightarrow> error_code"
  a_close :: "nat \<Rightarrow> error_code"
  a_send :: "nat \<Rightarrow> error_code + nat"
  a_message :: "error_code \<Rightarrow> string"
  a_to_string :: "endpoint \<Rightarrow> string option"   \<comment> \<open>\<open>None\<close>: it throws\<close>

record udp_socket =
  u_open :: bool
  u_reuse :: bool
  u_bound :: "i16 option"

definition closed_socket :: udp_socket where
  "closed_socket = \<lparr>u_open = False, u_reuse = False, u_bound = None\<rparr>"

text \<open>A receive operation, with the eight bytes \<open>prepare\<close> has reserved.\<close>

datatype op = Waiting "byte list" | Queued "byte list" error_code nat

fun waits :: "op \<Rightarrow> bool" where
  "waits (Waiting b) \<longleftrightarrow> True"
| "waits (Queued b err n) \<longleftrightarrow> False"

record session =
  ses_socket :: "udp_socket option"
  ses_representativeIP :: cstr
  ses_localIP :: cstr
  ses_hbPort :: i16
  ses_processState :: CiHBState_t
  ses_sender_endpoint :: endpoint

text \<open>
  The world outside: the operations in the \<open>io_service\<close>, the datagrams sent and the error log; and,
  which no code looks at, the datagrams that were received, with their senders.
\<close>

record asio_world =
  a_clock :: nat
  a_ops :: "op list"
  a_arrived :: "(endpoint \<times> byte list) list"
  a_sent :: "(endpoint \<times> byte list) list"
  a_log :: "(int \<times> string) list"

type_synonym ses = "session \<times> asio_world"

definition a_tick :: "asio_world \<Rightarrow> asio_world" where
  "a_tick w = w\<lparr>a_clock := Suc (a_clock w)\<rparr>"

section \<open>The class\<close>

definition HeartBeatSession :: "cstr \<Rightarrow> cstr \<Rightarrow> i16 \<Rightarrow> session" where
  "HeartBeatSession repIP locIP port =
     \<lparr>ses_socket = Some closed_socket, ses_representativeIP = repIP, ses_localIP = locIP,
      ses_hbPort = port, ses_processState = CIHB_STATE_ALIVE, ses_sender_endpoint = []\<rparr>"

definition handle_error :: "int \<Rightarrow> string \<Rightarrow> asio_world \<Rightarrow> asio_world" where
  "handle_error errorCode errorStr w = w\<lparr>a_log := a_log w @ [(errorCode, errorStr)]\<rparr>"

definition HBS_GetProcessState :: "session \<Rightarrow> CiHBState_t" where
  "HBS_GetProcessState o1 = ses_processState o1"

definition HBS_SetProcessState :: "CiHBState_t \<Rightarrow> session \<Rightarrow> session" where
  "HBS_SetProcessState state o1 = o1\<lparr>ses_processState := state\<rparr>"

definition HBS_SetProcessHWError :: "session \<Rightarrow> session" where
  "HBS_SetProcessHWError o1 = HBS_SetProcessState CIHB_STATE_HW_ERROR o1"

definition HBS_SetProcessSWError :: "session \<Rightarrow> session" where
  "HBS_SetProcessSWError o1 = HBS_SetProcessState CIHB_STATE_SW_ERROR o1"

definition HBS_SetProcessAlive :: "session \<Rightarrow> session" where
  "HBS_SetProcessAlive o1 = HBS_SetProcessState CIHB_STATE_ALIVE o1"

definition remote_address :: "asio \<Rightarrow> session \<Rightarrow> string" where
  "remote_address A o1 = (case a_to_string A (ses_sender_endpoint o1) of Some s \<Rightarrow> s | None \<Rightarrow> '''')"

text \<open>The text of an error report.\<close>

definition report :: "asio \<Rightarrow> session \<Rightarrow> string \<Rightarrow> string" where
  "report A o1 what = what @ '' from '' @ remote_address A o1"

definition do_read_request :: "(nat \<Rightarrow> byte) \<Rightarrow> ses \<Rightarrow> ses option" where
  "do_read_request junk s =
     (case ses_socket (fst s) of
        None \<Rightarrow> None
      | Some k \<Rightarrow> Some (fst s, (snd s)\<lparr>a_ops := a_ops (snd s) @ [Waiting (new_array junk 8)]\<rparr>))"

text \<open>
  \<open>start\<close>: each of the three calls on the socket throws when it fails, and the object keeps what
  the calls before it have done.
\<close>

definition HBS_start :: "asio \<Rightarrow> (nat \<Rightarrow> byte) \<Rightarrow> ses \<Rightarrow> ((error_code + unit) \<times> ses) option" where
  "HBS_start A junk s =
     (case ses_socket (fst s) of
        None \<Rightarrow> None
      | Some k0 \<Rightarrow>
     (let e1 = a_open A (a_clock (snd s)); w1 = a_tick (snd s) in
      if e1 \<noteq> 0 then Some (Inl e1, fst s, w1) else
     (let k1 = k0\<lparr>u_open := True\<rparr>; o1 = (fst s)\<lparr>ses_socket := Some k1\<rparr>;
          e2 = a_set_option A (a_clock w1); w2 = a_tick w1 in
      if e2 \<noteq> 0 then Some (Inl e2, o1, w2) else
     (let k2 = k1\<lparr>u_reuse := True\<rparr>; o2 = o1\<lparr>ses_socket := Some k2\<rparr>;
          e3 = a_bind A (a_clock w2); w3 = a_tick w2 in
      if e3 \<noteq> 0 then Some (Inl e3, o2, w3) else
     (let k3 = k2\<lparr>u_bound := Some (ses_hbPort o2)\<rparr>; o3 = o2\<lparr>ses_socket := Some k3\<rparr> in
      map_option (\<lambda>s4. (Inr (), s4)) (do_read_request junk (o3, w3)))))))"

text \<open>Closing the socket completes what still waits; a null pointer is left alone.\<close>

fun abort_op :: "error_code \<Rightarrow> op \<Rightarrow> op" where
  "abort_op err (Waiting b) = Queued b err 0"
| "abort_op err (Queued b err' n) = Queued b err' n"

definition HBS_clear :: "asio \<Rightarrow> error_code \<Rightarrow> ses \<Rightarrow> ses" where
  "HBS_clear A aborted s =
     (case ses_socket (fst s) of
        None \<Rightarrow> s
      | Some k \<Rightarrow>
          (let ec = a_close A (a_clock (snd s));
               w = (a_tick (snd s))\<lparr>a_ops := map (abort_op aborted) (a_ops (snd s))\<rparr>;
               w1 = (if ec \<noteq> 0 then handle_error ec (a_message A ec) w else w)
           in ((fst s)\<lparr>ses_socket := None\<rparr>, w1)))"

section \<open>Reading a request\<close>

text \<open>
  \<open>std::istream::read\<close> into an object of which the bytes \<open>old\<close> are the present contents.  When
  fewer bytes are left than asked for, those are stored, the stream fails, and every later read
  leaves its object alone.
\<close>

type_synonym istream = "byte list \<times> bool"

definition is_read :: "istream \<Rightarrow> byte list \<Rightarrow> byte list \<times> istream" where
  "is_read st old =
     (if \<not> snd st then (old, st)
      else if length old \<le> length (fst st)
      then (take (length old) (fst st), (drop (length old) (fst st), True))
      else (fst st @ drop (length (fst st)) old, ([], False)))"

definition parse_request :: "endian \<Rightarrow> byte list \<Rightarrow> i32 \<times> i32" where
  "parse_request e input =
     (let (m, st1) = is_read (input, True) (mem_image e (0 :: i32));
          msg = ntoh e (mem_load e m);
          (q, st2) = is_read st1 (mem_image e (0 :: i32));
          seq = ntoh e (mem_load e q)
      in (msg, seq))"

section \<open>Answering\<close>

definition response_bytes :: "endian \<Rightarrow> session \<Rightarrow> i32 \<Rightarrow> byte list" where
  "response_bytes e o1 seq =
     mem_image e (hton e (msg_code CIHB_HEARTBEAT_RESPONSE)) @
     mem_image e (hton e seq) @
     mem_image e (hton e (of_nat (length (ses_representativeIP o1)) :: i32)) @
     ses_representativeIP o1 @
     mem_image e (hton e (state_code (ses_processState o1))) @
     mem_image e (hton e (of_nat (length (ses_localIP o1)) :: i32)) @
     ses_localIP o1"

definition do_write_response :: "endian \<Rightarrow> asio \<Rightarrow> i32 \<Rightarrow> ses \<Rightarrow> ses option" where
  "do_write_response e A seq s =
     (let response = response_bytes e (fst s) seq in
      case ses_socket (fst s) of
        None \<Rightarrow> None
      | Some k \<Rightarrow>
          (case a_send A (a_clock (snd s)) of
             Inl ec \<Rightarrow> Some (fst s, handle_error ec (report A (fst s) (a_message A ec)) (a_tick (snd s)))
           | Inr n \<Rightarrow>
               (let w = (a_tick (snd s))\<lparr>a_sent := a_sent (snd s) @ [(ses_sender_endpoint (fst s), response)]\<rparr>
                in if length response \<noteq> n
                   then Some (fst s, handle_error (to_int32 (int n))
                                (report A (fst s) ''invalid send size'') w)
                   else Some (fst s, w))))"

definition handle_read_request ::
  "endian \<Rightarrow> asio \<Rightarrow> (nat \<Rightarrow> byte) \<Rightarrow> byte list \<Rightarrow> error_code \<Rightarrow> nat \<Rightarrow> ses \<Rightarrow> ses option"
where
  "handle_read_request e A junk request err bytes_recvd s =
     (if err \<noteq> 0
      then Some (fst s, handle_error err (report A (fst s) (a_message A err)) (snd s))
      else do {
        let (msg, seq) = parse_request e (take bytes_recvd request);
        s1 \<leftarrow> (if msg \<noteq> msg_code CIHB_HEARTBEAT_REQUEST
               then Some (fst s, handle_error (sint msg) (report A (fst s) ''invalid msg'') (snd s))
               else do_write_response e A seq s);
        do_read_request junk s1 })"

section \<open>What a request is, and what answers it\<close>

text \<open>
  The two reads into zero-initialised integers see the datagram as if it were padded with zeros
  to eight bytes.
\<close>

definition zero_padded :: "byte list \<Rightarrow> byte list" where
  "zero_padded d = take 8 (d @ replicate 8 0)"

definition session_reply :: "session \<Rightarrow> byte list \<Rightarrow> byte list option" where
  "session_reply o1 d =
     heartbeat_reply (ses_representativeIP o1) (ses_localIP o1) (ses_processState o1) (zero_padded d)"

lemma length_zero_padded [simp]: "length (zero_padded d) = 8"
  by (simp add: zero_padded_def)

lemma zero_padded_long: "8 \<le> length d \<Longrightarrow> zero_padded d = take 8 d"
  by (simp add: zero_padded_def)

lemma zero_padded_empty: "zero_padded [] = encode_request 0"
proof -
  have "put_int 0 = replicate 4 0"
    by (simp add: put_int_def be_image_def le_image_def map_replicate_const)
  moreover have "replicate 8 0 = replicate 4 (0 :: byte) @ replicate 4 0"
    by (simp flip: replicate_add)
  ultimately show ?thesis by (simp add: zero_padded_def encode_request_def)
qed

lemma mem_image_0: "mem_image e (0 :: i32) = replicate 4 0"
  by (simp add: mem_image_def le_image_def map_replicate_const split: endian.split)

lemma parse_request_padded:
  assumes "length input \<le> 8"
  shows "parse_request e input = (of_be (take 4 (zero_padded input)), of_be (drop 4 (zero_padded input)))"
proof -
  have net: "length bs = 4 \<Longrightarrow> ntoh e (mem_load e bs) = (of_be bs :: i32)" for bs
    by (simp add: ntoh_mem_load)
  have z: "mem_image e (0 :: i32) = replicate 4 0" by (rule mem_image_0)
  consider (empty) "length input < 4" | (part) "4 \<le> length input" "length input < 8"
    | (all) "length input = 8" using assms by linarith
  then show ?thesis
  proof cases
    case empty
    then show ?thesis
      by (simp add: parse_request_def is_read_def z net zero_padded_def min_def)
  next
    case part
    then show ?thesis
      by (simp add: parse_request_def is_read_def z net zero_padded_def min_def)
  next
    case all
    then show ?thesis
      by (simp add: parse_request_def is_read_def z net zero_padded_def)
  qed
qed

lemma response_bytes_encode:
  "response_bytes e o1 seq = encode_response
     \<lparr>hr_seq = seq, hr_representative = ses_representativeIP o1,
      hr_state = ses_processState o1, hr_local = ses_localIP o1\<rparr>"
  by (simp add: response_bytes_def encode_response_def put_string_def put_int_def mem_image_hton)

definition sends :: "asio \<Rightarrow> nat \<Rightarrow> endpoint \<Rightarrow> byte list option \<Rightarrow> (endpoint \<times> byte list) list" where
  "sends A c ep reply =
     (case reply of
        None \<Rightarrow> []
      | Some m \<Rightarrow> (case a_send A c of Inl ec \<Rightarrow> [] | Inr n \<Rightarrow> [(ep, m)]))"

text \<open>A completed receive is answered, and a new receive is started, whatever the datagram was.\<close>

lemma handle_read_request_ok:
  assumes "ses_socket o1 = Some k" and "length request = 8"
  shows "\<exists>w2. handle_read_request e A junk request 0 n (o1, w) = Some (o1, w2) \<and>
    a_ops w2 = a_ops w @ [Waiting (new_array junk 8)] \<and> a_arrived w2 = a_arrived w \<and>
    a_sent w2 = a_sent w @ sends A (a_clock w) (ses_sender_endpoint o1)
      (session_reply o1 (take n request))"
proof -
  let ?d = "take n request"
  have p: "parse_request e ?d = (of_be (take 4 (zero_padded ?d)), of_be (drop 4 (zero_padded ?d)))"
    by (rule parse_request_padded) (simp add: assms(2))
  have r: "request_seq (zero_padded ?d) =
      (if (of_be (take 4 (zero_padded ?d)) :: i32) = 0 then Some (of_be (drop 4 (zero_padded ?d)))
       else None)"
    by (simp add: request_seq_def)
  show ?thesis
    using assms(1)
    by (auto simp: handle_read_request_def p do_write_response_def do_read_request_def
        session_reply_def heartbeat_reply_def r response_bytes_encode sends_def handle_error_def
        a_tick_def Let_def split: sum.splits)
qed

lemma handle_read_request_error:
  "err \<noteq> 0 \<Longrightarrow> handle_read_request e A junk request err n (o1, w) =
     Some (o1, handle_error err (report A o1 (a_message A err)) w)"
  by (simp add: handle_read_request_def)

text \<open>After \<open>clear\<close>, a handler that reports success dereferences the null pointer.\<close>

lemma handle_read_request_cleared:
  "ses_socket o1 = None \<Longrightarrow> handle_read_request e A junk request 0 n (o1, w) = None"
  by (auto simp: handle_read_request_def do_write_response_def do_read_request_def Let_def
      split: prod.split)

section \<open>The session and the \<open>io_service\<close>, step by step\<close>

text \<open>
  A datagram arrives for a waiting operation, or the operation fails; the \<open>io_service\<close> runs the
  handler of a completed operation; the program changes the state or calls \<open>clear\<close>.
\<close>

inductive ses_step :: "endian \<Rightarrow> asio \<Rightarrow> (nat \<Rightarrow> byte) \<Rightarrow> error_code \<Rightarrow> ses \<Rightarrow> ses \<Rightarrow> bool"
  for e A junk aborted
where
  arrive: "ses_socket o1 \<noteq> None \<Longrightarrow> a_ops w = xs @ Waiting b # ys \<Longrightarrow>
     ses_step e A junk aborted (o1, w)
       (o1\<lparr>ses_sender_endpoint := ep\<rparr>,
        w\<lparr>a_ops := xs @ Queued (take 8 d @ drop (length (take 8 d)) b) 0 (length (take 8 d)) # ys,
          a_arrived := a_arrived w @ [(ep, take 8 d)]\<rparr>)"
| fail: "a_ops w = xs @ Waiting b # ys \<Longrightarrow> err \<noteq> 0 \<Longrightarrow>
     ses_step e A junk aborted (o1, w) (o1, w\<lparr>a_ops := xs @ Queued b err 0 # ys\<rparr>)"
| dispatch: "a_ops w = xs @ Queued b err n # ys \<Longrightarrow>
     handle_read_request e A junk b err n (o1, w\<lparr>a_ops := xs @ ys\<rparr>) = Some s \<Longrightarrow>
     ses_step e A junk aborted (o1, w) s"
| close: "ses_step e A junk aborted s (HBS_clear A aborted s)"
| set_state: "ses_step e A junk aborted (o1, w) (HBS_SetProcessState st o1, w)"

inductive_cases ses_stepE: "ses_step e A junk aborted s t"

inductive ses_reach :: "endian \<Rightarrow> asio \<Rightarrow> (nat \<Rightarrow> byte) \<Rightarrow> error_code \<Rightarrow> ses \<Rightarrow> ses \<Rightarrow> bool"
  for e A junk aborted s
where
  ses_start: "ses_reach e A junk aborted s s"
| ses_more: "ses_reach e A junk aborted s t \<Longrightarrow> ses_step e A junk aborted t u \<Longrightarrow>
     ses_reach e A junk aborted s u"

text \<open>
  The datagrams \<open>ms\<close> answer the datagrams \<open>ds\<close>: each of them is the reply to one of those, sent to its
  sender, none is answered twice, and the order is kept.
\<close>

definition reply_of :: "cstr \<Rightarrow> cstr \<Rightarrow> endpoint \<times> byte list \<Rightarrow> endpoint \<times> byte list \<Rightarrow> bool" where
  "reply_of rep loc x y \<longleftrightarrow> fst y = fst x \<and> (\<exists>st. heartbeat_reply rep loc st (zero_padded (snd x)) = Some (snd y))"

definition answered :: "cstr \<Rightarrow> cstr \<Rightarrow> (endpoint \<times> byte list) list \<Rightarrow> (endpoint \<times> byte list) list \<Rightarrow> bool" where
  "answered rep loc ds ms \<longleftrightarrow> (\<exists>es. subseq es ds \<and> list_all2 (reply_of rep loc) es ms)"

lemma answered_Nil: "answered rep loc ds []"
  by (auto simp: answered_def)

lemma answered_more:
  assumes "answered rep loc ds ms"
  shows "answered rep loc (ds @ xs) ms"
  using assms subseq_order.trans [OF _ subseq_rev_drop_many [of ds ds xs]] by (auto simp: answered_def)

lemma answered_snoc:
  assumes "answered rep loc ds ms" "reply_of rep loc d m"
  shows "answered rep loc (ds @ [d]) (ms @ [m])"
proof -
  obtain es where "subseq es ds" "list_all2 (reply_of rep loc) es ms" using assms(1) by (auto simp: answered_def)
  then have "subseq (es @ [d]) (ds @ [d])" "list_all2 (reply_of rep loc) (es @ [d]) (ms @ [m])"
    using assms(2) by (simp_all add: list_all2_appendI)
  then show ?thesis unfolding answered_def by (intro exI [of _ "es @ [d]"] conjI)
qed

text \<open>
  What always holds: at most one receive is outstanding, its buffer has eight bytes, and the datagrams sent
  answer those that have arrived.  When a datagram has arrived that no handler has looked at yet, it is the last one, and
  \<open>sender_endpoint_\<close> is its sender.
\<close>

fun op_sized :: "op \<Rightarrow> bool" where
  "op_sized (Waiting b) \<longleftrightarrow> length b = 8"
| "op_sized (Queued b err n) \<longleftrightarrow> length b = 8"

definition pending :: "ses \<Rightarrow> (endpoint \<times> byte list) list" where
  "pending s = (case a_ops (snd s) of
     [Queued b err n] \<Rightarrow> if err = 0 then [(ses_sender_endpoint (fst s), take n b)] else []
   | _ \<Rightarrow> [])"

definition ses_inv :: "cstr \<Rightarrow> cstr \<Rightarrow> ses \<Rightarrow> bool" where
  "ses_inv rep loc s \<longleftrightarrow> length (a_ops (snd s)) \<le> 1 \<and> (\<forall>p \<in> set (a_ops (snd s)). op_sized p) \<and>
     ses_representativeIP (fst s) = rep \<and> ses_localIP (fst s) = loc \<and>
     (\<exists>ds. a_arrived (snd s) = ds @ pending s \<and> answered rep loc ds (a_sent (snd s)))"

lemma pending_simps [simp]:
  "a_ops w = [] \<Longrightarrow> pending (o1, w) = []" "a_ops w = [Waiting b] \<Longrightarrow> pending (o1, w) = []"
  "a_ops w = [Queued b err n] \<Longrightarrow> pending (o1, w) = (if err = 0 then [(ses_sender_endpoint o1, take n b)] else [])"
  by (simp_all add: pending_def)

lemma one_op: "length (xs @ p # ys) \<le> 1 \<longleftrightarrow> xs = [] \<and> ys = []"
  by auto

lemma sends_answered:
  assumes "answered (ses_representativeIP o1) (ses_localIP o1) ds ms"
  shows "answered (ses_representativeIP o1) (ses_localIP o1) (ds @ [(ep, d)]) (ms @ sends A c ep (session_reply o1 d))"
proof -
  have "reply_of (ses_representativeIP o1) (ses_localIP o1) (ep, d) (ep, m)" if "session_reply o1 d = Some m" for m
    using that by (auto simp: reply_of_def session_reply_def)
  then show ?thesis using answered_more [OF assms] answered_snoc [OF assms]
    by (auto simp: sends_def split: option.split sum.split)
qed

lemma abort_op_sized [simp]: "op_sized (abort_op err p) = op_sized p"
  by (cases p) simp_all

lemma ses_inv_dispatch:
  assumes "ses_inv rep loc (o1, w)" and ops: "a_ops w = xs @ Queued b err n # ys"
    and h: "handle_read_request e A junk b err n (o1, w\<lparr>a_ops := xs @ ys\<rparr>) = Some s"
  shows "ses_inv rep loc s"
proof -
  have nil: "xs = []" "ys = []" "length b = 8" using assms(1) ops one_op [of xs _ ys] by (auto simp: ses_inv_def)
  then have q: "a_ops w = [Queued b err n]" using ops by simp
  obtain ds where ds: "a_arrived w = ds @ pending (o1, w)" "answered rep loc ds (a_sent w)"
    and ip: "ses_representativeIP o1 = rep" "ses_localIP o1 = loc" using assms(1) by (auto simp: ses_inv_def)
  show ?thesis
  proof (cases "err = 0")
    case False
    then have "s = (o1, handle_error err (report A o1 (a_message A err)) (w\<lparr>a_ops := []\<rparr>))"
      using h nil by (simp add: handle_read_request_error)
    then show ?thesis using ds ip False q by (simp add: ses_inv_def handle_error_def)
  next
    case True
    then obtain k where k: "ses_socket o1 = Some k"
      using h handle_read_request_cleared by (cases "ses_socket o1") auto
    obtain w2 where w2: "s = (o1, w2)" "a_ops w2 = [Waiting (new_array junk 8)]" "a_arrived w2 = a_arrived w"
        "a_sent w2 = a_sent w @ sends A (a_clock w) (ses_sender_endpoint o1) (session_reply o1 (take n b))"
      using handle_read_request_ok [OF k nil(3), of e A junk n "w\<lparr>a_ops := []\<rparr>"] h True nil by auto
    have "a_arrived w = ds @ [(ses_sender_endpoint o1, take n b)]" using ds(1) q True by simp
    then show ?thesis using sends_answered [of o1 ds "a_sent w"] ds(2) ip w2 by (simp add: ses_inv_def)
  qed
qed

lemma ses_inv_arrive:
  assumes "ses_inv rep loc (o1, w)" and "a_ops w = xs @ Waiting b # ys"
  shows "ses_inv rep loc (o1\<lparr>ses_sender_endpoint := ep\<rparr>,
      w\<lparr>a_ops := xs @ Queued (take 8 d @ drop (length (take 8 d)) b) 0 (length (take 8 d)) # ys,
        a_arrived := a_arrived w @ [(ep, take 8 d)]\<rparr>)"
proof -
  have nil: "xs = []" "ys = []" "length b = 8" using assms one_op [of xs _ ys] by (auto simp: ses_inv_def)
  then have "pending (o1, w) = []" using assms(2) by simp
  moreover have "take (min (length d) 8) d = take 8 d" by (simp add: min_def)
  ultimately show ?thesis using assms(1) nil by (simp add: ses_inv_def)
qed

lemma ses_inv_fail:
  assumes "ses_inv rep loc (o1, w)" and "a_ops w = xs @ Waiting b # ys" "err \<noteq> 0"
  shows "ses_inv rep loc (o1, w\<lparr>a_ops := xs @ Queued b err 0 # ys\<rparr>)"
proof -
  have nil: "xs = []" "ys = []" "length b = 8" using assms one_op [of xs _ ys] by (auto simp: ses_inv_def)
  then have "pending (o1, w) = []" using assms(2) by simp
  then show ?thesis using assms(1,3) nil by (simp add: ses_inv_def)
qed

lemma HBS_clear_cases:
  "HBS_clear A aborted (o1, w) = (if ses_socket o1 = None then (o1, w)
     else (o1\<lparr>ses_socket := None\<rparr>, (snd (HBS_clear A aborted (o1, w)))\<lparr>a_ops := map (abort_op aborted) (a_ops w),
       a_arrived := a_arrived w, a_sent := a_sent w\<rparr>))"
  by (auto simp: HBS_clear_def handle_error_def a_tick_def Let_def split: option.splits)

lemma ses_inv_close:
  assumes "ses_inv rep loc s" "aborted \<noteq> 0"
  shows "ses_inv rep loc (HBS_clear A aborted s)"
proof -
  obtain o1 w where s: "s = (o1, w)" by fastforce
  have one: "length (a_ops w) \<le> 1" using assms(1) s by (simp add: ses_inv_def)
  then consider "a_ops w = []" | p where "a_ops w = [p]" by (cases "a_ops w") auto
  then have "pending (o2, v\<lparr>a_ops := map (abort_op aborted) (a_ops w), a_arrived := y, a_sent := z\<rparr>) = pending (o1, w)"
    if "ses_sender_endpoint o2 = ses_sender_endpoint o1" for o2 v y z
  proof cases
    case (2 p)
    then show ?thesis using assms(2) that by (cases p) simp_all
  qed simp
  then show ?thesis using assms(1) unfolding s
    by (subst HBS_clear_cases) (simp add: ses_inv_def)
qed

lemma ses_step_inv:
  assumes "ses_step e A junk aborted s t" and "ses_inv rep loc s" "aborted \<noteq> 0"
  shows "ses_inv rep loc t"
  using assms
proof (cases rule: ses_step.cases)
  case (dispatch w xs b err n ys o1)
  then show ?thesis using assms(2) ses_inv_dispatch by blast
next
  case (arrive o1 w xs b ys ep d)
  then show ?thesis using assms(2) ses_inv_arrive by blast
next
  case (fail w xs b ys err o1)
  then show ?thesis using assms(2) ses_inv_fail by blast
next
  case close
  then show ?thesis using ses_inv_close [OF assms(2,3)] by simp
next
  case (set_state o1 w st)
  moreover have "pending (o1\<lparr>ses_processState := st\<rparr>, w) = pending (o1, w)"
    by (auto simp: pending_def split: list.split op.split)
  ultimately show ?thesis using assms(2) by (simp add: ses_inv_def HBS_SetProcessState_def)
qed

lemma ses_reach_inv:
  "ses_reach e A junk aborted s t \<Longrightarrow> ses_inv rep loc s \<Longrightarrow> aborted \<noteq> 0 \<Longrightarrow> ses_inv rep loc t"
  by (induction rule: ses_reach.induct) (auto dest: ses_step_inv)

text \<open>The error log only grows.\<close>

lemma ses_step_log:
  assumes "ses_step e A junk aborted s t"
  shows "prefix (a_log (snd s)) (a_log (snd t))"
  using assms
  by (cases rule: ses_step.cases)
    (auto simp: HBS_clear_def handle_error_def a_tick_def Let_def handle_read_request_def do_write_response_def
      do_read_request_def split: option.splits sum.splits if_splits prod.splits bind_splits)

lemma ses_reach_log: "ses_reach e A junk aborted s t \<Longrightarrow> prefix (a_log (snd s)) (a_log (snd t))"
  by (induction rule: ses_reach.induct) (auto dest: ses_step_log prefix_order.trans)

text \<open>With no receive outstanding, nothing is ever sent again.\<close>

lemma ses_step_idle:
  assumes "ses_step e A junk aborted s t" and "a_ops (snd s) = []"
  shows "a_ops (snd t) = [] \<and> a_sent (snd t) = a_sent (snd s)"
  using assms
  by (cases rule: ses_step.cases)
     (auto simp: HBS_clear_def handle_error_def a_tick_def Let_def split: option.splits)

lemma ses_reach_idle:
  "ses_reach e A junk aborted s t \<Longrightarrow> a_ops (snd s) = [] \<Longrightarrow>
     a_ops (snd t) = [] \<and> a_sent (snd t) = a_sent (snd s)"
  by (induction rule: ses_reach.induct) (auto dest: ses_step_idle)

section \<open>Starting\<close>

definition may_start :: "asio \<Rightarrow> nat \<Rightarrow> bool" where
  "may_start A c \<longleftrightarrow> a_open A c = 0 \<and> a_set_option A (c + 1) = 0 \<and> a_bind A (c + 2) = 0"

lemma HBS_start_ok:
  assumes "ses_socket o1 = Some k" and "may_start A (a_clock w)"
  shows "\<exists>w2. HBS_start A junk (o1, w) = Some (Inr (), o1\<lparr>ses_socket :=
      Some (k\<lparr>u_open := True, u_reuse := True, u_bound := Some (ses_hbPort o1)\<rparr>)\<rparr>, w2) \<and>
    a_ops w2 = a_ops w @ [Waiting (new_array junk 8)] \<and> a_sent w2 = a_sent w \<and> a_log w2 = a_log w"
  using assms by (simp add: HBS_start_def may_start_def do_read_request_def a_tick_def Let_def)

text \<open>A failed start throws, starts no receive, and leaves the error code of the first failure.\<close>

lemma HBS_start_fails:
  assumes "ses_socket o1 = Some k" and "\<not> may_start A (a_clock w)"
  shows "\<exists>ec o2 w2. HBS_start A junk (o1, w) = Some (Inl ec, o2, w2) \<and> ec \<noteq> 0 \<and>
    a_ops w2 = a_ops w \<and> a_sent w2 = a_sent w \<and>
    (\<exists>k2. ses_socket o2 = Some k2 \<and> u_bound k2 = u_bound k)"
  using assms by (auto simp: HBS_start_def may_start_def a_tick_def Let_def)

end
