(* ===== verification/Safe_String.thy ===== *)
theory Safe_String
  imports Prelude
begin

text \<open>
  \<open>CiStrLen\<close>, \<open>CiStrInit\<close>, \<open>CiStrCpy\<close> and \<open>CiStrCat\<close> (\<open>CiSafeString.cpp\<close>).  A \<open>char\<close> array is a
  list of bytes and a string in it ends at the first zero byte; a pointer that may be \<open>NULL\<close> is
  an option.  Reading or writing outside an array is \<open>None\<close>.  Lengths are assumed to fit an
  \<open>int\<close>; arrays of two gigabytes are outside the model.
\<close>

type_synonym carray = "byte list"

section \<open>The functions\<close>

fun CiStrLen :: "carray \<Rightarrow> nat option" where
  "CiStrLen [] = None"
| "CiStrLen (c # cs) = (if c = 0 then Some 0 else map_option Suc (CiStrLen cs))"

definition set_char :: "carray \<Rightarrow> int \<Rightarrow> byte \<Rightarrow> carray option" where
  "set_char a i c = (if 0 \<le> i \<and> i < int (length a) then Some (a[nat i := c]) else None)"

definition CiStrInit :: "carray \<Rightarrow> (bool \<times> carray) option" where
  "CiStrInit pszString = map_option (\<lambda>a. (True, a)) (set_char pszString 0 0)"

text \<open>
  The copy loop of both functions, from index \<open>i\<close> of the source: it runs to the end of the source
  and stores a character at \<open>off\<close> further on while there is room.  The result has the index at
  which the loop has ended.
\<close>

fun copy_loop :: "carray \<Rightarrow> carray \<Rightarrow> nat \<Rightarrow> nat \<Rightarrow> int \<Rightarrow> (carray \<times> nat) option" where
  "copy_loop dest [] off i iNDest = None"
| "copy_loop dest (c # cs) off i iNDest =
     (if c = 0 then Some (dest, i)
      else if int i + int off < iNDest then
        (case set_char dest (int i + int off) c of
           None \<Rightarrow> None
         | Some dest' \<Rightarrow> copy_loop dest' cs off (Suc i) iNDest)
      else copy_loop dest cs off (Suc i) iNDest)"

text \<open>The termination, and what is reported as the length that was tried.\<close>

definition terminate :: "carray \<Rightarrow> nat \<Rightarrow> int \<Rightarrow> (bool \<times> carray \<times> nat) option" where
  "terminate dest n iNDest =
     (if iNDest \<le> int n then map_option (\<lambda>a. (False, a, n)) (set_char dest (iNDest - 1) 0)
      else map_option (\<lambda>a. (True, a, n)) (set_char dest (int n) 0))"

definition CiStrCpy ::
  "carray option \<Rightarrow> carray option \<Rightarrow> int \<Rightarrow> (bool \<times> carray option \<times> nat) option" where
  "CiStrCpy pszDest pszSrc iNDest =
     (case (pszDest, pszSrc) of
        (_, None) \<Rightarrow> Some (False, pszDest, 0)
      | (None, Some src) \<Rightarrow> map_option (\<lambda>n. (False, None, n)) (CiStrLen src)
      | (Some dest, Some src) \<Rightarrow>
          (case copy_loop dest src 0 0 iNDest of
             None \<Rightarrow> None
           | Some (dest1, iIndex) \<Rightarrow>
               map_option (\<lambda>(r, a, n). (r, Some a, n)) (terminate dest1 iIndex iNDest)))"

definition CiStrCat ::
  "carray option \<Rightarrow> carray option \<Rightarrow> int \<Rightarrow> (bool \<times> carray option \<times> nat) option" where
  "CiStrCat pszDest pszSrc iNDest =
     (case (pszDest, pszSrc) of
        (None, None) \<Rightarrow> Some (False, None, 0)
      | (Some dest, None) \<Rightarrow> map_option (\<lambda>n. (False, Some dest, n)) (CiStrLen dest)
      | (None, Some src) \<Rightarrow> map_option (\<lambda>n. (False, None, n)) (CiStrLen src)
      | (Some dest, Some src) \<Rightarrow>
          (case CiStrLen dest of
             None \<Rightarrow> None
           | Some iDestLength \<Rightarrow>
               (case copy_loop dest src iDestLength 0 iNDest of
                  None \<Rightarrow> None
                | Some (dest1, iIndex) \<Rightarrow>
                    map_option (\<lambda>(r, a, n). (r, Some a, n))
                      (terminate dest1 (iIndex + iDestLength) iNDest))))"

section \<open>Strings in arrays\<close>

text \<open>The string an array holds, and an array that holds one.\<close>

definition text_of :: "carray \<Rightarrow> byte list" where
  "text_of a = takeWhile (\<lambda>c. c \<noteq> 0) a"

definition is_cstring :: "carray \<Rightarrow> bool" where
  "is_cstring a \<longleftrightarrow> 0 \<in> set a"

named_theorems str_simps "strings in arrays"

lemma text_of_simps [simp]:
  "text_of [] = []" "text_of (c # cs) = (if c = 0 then [] else c # text_of cs)"
  by (simp_all add: text_of_def)

lemma text_of_nonzero: "0 \<notin> set (text_of a)"
  by (auto simp: text_of_def dest: set_takeWhileD)

lemma is_cstring_Cons [simp]: "is_cstring (c # cs) \<longleftrightarrow> c = 0 \<or> is_cstring cs"
  by (auto simp: is_cstring_def)

lemma is_cstring_Nil [simp]: "\<not> is_cstring []"
  by (simp add: is_cstring_def)

lemma CiStrLen_text: "CiStrLen a = (if is_cstring a then Some (length (text_of a)) else None)"
  by (induction a) auto

lemma is_cstring_split: "is_cstring a \<longleftrightarrow> (\<exists>rest. a = text_of a @ 0 # rest)"
proof (induction a)
  case (Cons c cs)
  then show ?case by (cases "c = 0") auto
qed simp

lemma text_of_terminated: "0 \<notin> set s \<Longrightarrow> text_of (s @ 0 # rest) = s"
  by (simp add: text_of_def takeWhile_append)

lemma length_text_of: "is_cstring a \<Longrightarrow> length (text_of a) < length a"
  by (induction a) auto

text \<open>The loop copies as much of the source as there is room for and counts all of it.\<close>

lemma copy_loop_run:
  assumes "is_cstring src" and "0 \<le> n" and "n \<le> int (length dest)"
  shows "copy_loop dest src off i n =
    Some (let k = nat (n - int i - int off) in
            take (i + off) dest @ take k (text_of src) @
              drop (i + off + length (take k (text_of src))) dest,
          i + length (text_of src))"
  using assms
proof (induction dest src off i n rule: copy_loop.induct)
  case (2 dest c cs off i n)
  show ?case
  proof (cases "c = 0 \<or> n \<le> int i + int off")
    case True
    then show ?thesis using 2 by (auto simp: Let_def)
  next
    case False
    let ?d = "dest[i + off := c]"
    have b: "i + off < length dest" "nat (int i + int off) = i + off"
      and s: "set_char dest (int i + int off) c = Some ?d"
      using False "2.prems" by (auto simp: set_char_def nat_int_add)
    have k: "nat (n - int i - int off) = Suc (nat (n - int (Suc i) - int off))" using False by linarith
    have t: "take (Suc (i + off)) ?d = take (i + off) dest @ [c]"
      using b(1) by (simp add: take_Suc_conv_app_nth)
    from False "2.IH"(1) [OF _ _ s] "2.prems" s show ?thesis
      unfolding k by (simp add: Let_def t del: take_Suc)
  qed
qed simp

text \<open>Writing the final zero: the array then holds as much of \<open>t\<close> as fits.\<close>

lemma text_of_update:
  assumes "k < length a" and "0 \<notin> set (take k a)"
  shows "is_cstring (a[k := 0])" "text_of (a[k := 0]) = take k a"
proof -
  have u: "a[k := 0] = take k a @ 0 # drop (Suc k) a" using assms(1) by (rule upd_conv_take_nth_drop)
  show "is_cstring (a[k := 0])" unfolding u by (simp add: is_cstring_def)
  show "text_of (a[k := 0]) = take k a" unfolding u by (rule text_of_terminated [OF assms(2)])
qed

lemma terminate_run:
  assumes n: "0 < n" "n \<le> int (length a)" and t: "0 \<notin> set t"
    and eq: "take (min (nat n) (length t)) a = take (min (nat n) (length t)) t"
  shows "\<exists>a'. terminate a (length t) n = Some (int (length t) < n, a', length t) \<and>
    length a' = length a \<and> is_cstring a' \<and> text_of a' = take (nat n - 1) t \<and>
    drop (nat n) a' = drop (nat n) a"
proof (cases "n \<le> int (length t)")
  case True
  have k: "nat (n - 1) = nat n - 1" "nat n - 1 < length a" "nat n - 1 < nat n" using n by auto
  have "take (nat n - 1) (take (nat n) a) = take (nat n - 1) (take (nat n) t)"
    using eq True by (simp add: min_def nat_le_iff)
  then have tk: "take (nat n - 1) a = take (nat n - 1) t" by (simp add: min_def)
  then have nz: "0 \<notin> set (take (nat n - 1) a)" using t by (auto dest: in_set_takeD)
  have "terminate a (length t) n = Some (False, a[nat n - 1 := 0], length t)"
    using True n k(1) by (simp add: terminate_def set_char_def)
  then show ?thesis using text_of_update [OF k(2) nz] tk k(3) True by simp
next
  case False
  have k: "length t < length a" "length t < nat n" using False n by auto
  have tk: "take (length t) a = t" using eq False by (simp add: min_def split: if_splits)
  then have nz: "0 \<notin> set (take (length t) a)" using t by simp
  have "terminate a (length t) n = Some (True, a[length t := 0], length t)"
    using False k by (simp add: terminate_def set_char_def)
  then show ?thesis using text_of_update [OF k(1) nz] tk k(2) False by auto
qed

lemma CiStrCpy_run:
  assumes "is_cstring src" and "0 < n" "n \<le> int (length dest)"
  shows "\<exists>a. CiStrCpy (Some dest) (Some src) n =
      Some (int (length (text_of src)) < n, Some a, length (text_of src)) \<and>
    length a = length dest \<and> is_cstring a \<and> text_of a = take (nat n - 1) (text_of src) \<and>
    drop (nat n) a = drop (nat n) dest"
proof -
  let ?t = "text_of src"
  let ?s = "take (nat n) ?t"
  let ?d = "?s @ drop (length ?s) dest"
  have c: "copy_loop dest src 0 0 n = Some (?d, length ?t)"
    using copy_loop_run [of src n dest 0 0] assms by (simp add: Let_def)
  have len: "length ?d = length dest" using assms by (simp add: min_def)
  have eq: "take (min (nat n) (length ?t)) ?d = take (min (nat n) (length ?t)) ?t"
    by (cases "nat n \<le> length ?t") (simp_all add: min_def)
  have dr: "drop (nat n) ?d = drop (nat n) dest" by (simp add: drop_append min_def)
  from terminate_run [OF assms(2) _ text_of_nonzero eq] len assms(3) dr c show ?thesis
    by (auto simp: CiStrCpy_def)
qed

lemma CiStrCat_run:
  assumes "is_cstring dest" "is_cstring src" and "0 < n" "n \<le> int (length dest)"
  shows "\<exists>a. CiStrCat (Some dest) (Some src) n =
      Some (int (length (text_of dest @ text_of src)) < n, Some a, length (text_of dest @ text_of src)) \<and>
    length a = length dest \<and> is_cstring a \<and>
    text_of a = take (nat n - 1) (text_of dest @ text_of src) \<and>
    drop (nat n) a = drop (nat n) dest"
proof -
  let ?t = "text_of src" and ?u = "text_of dest"
  let ?k = "nat (n - int (length ?u))"
  let ?d = "take (length ?u) dest @ take ?k ?t @ drop (length ?u + length (take ?k ?t)) dest"
  obtain rest where dest: "dest = ?u @ 0 # rest" using assms(1) is_cstring_split by blast
  have u: "take (length ?u) dest = ?u" by (subst (2) dest) simp
  have ul: "length ?u < length dest" using assms(1) by (rule length_text_of)
  have c: "copy_loop dest src (length ?u) 0 n = Some (?d, length ?t)"
    using copy_loop_run [of src n dest "length ?u" 0] assms by (simp add: Let_def)
  have len: "length ?d = length dest" using assms(3,4) ul by (auto simp: min_def)
  have k: "?k = nat n - length ?u" by simp
  have eq: "take (min (nat n) (length (?u @ ?t))) ?d =
      take (min (nat n) (length (?u @ ?t))) (?u @ ?t)"
    unfolding u k by (cases "nat n \<le> length ?u") (auto simp: min_def)
  have dr: "drop (nat n) ?d = drop (nat n) dest"
  proof (cases "nat n \<le> length ?u")
    case True
    moreover have "?u @ drop (length ?u) dest = dest" using append_take_drop_id [of "length ?u" dest] u by simp
    ultimately have "?d = dest" using k by (simp add: u)
    then show ?thesis by simp
  next
    case False
    then show ?thesis unfolding k using ul by (simp add: u drop_append min_def)
  qed
  have nz: "0 \<notin> set (?u @ ?t)" using text_of_nonzero by simp
  have cl: "CiStrLen dest = Some (length ?u)" using assms(1) by (simp add: CiStrLen_text)
  from terminate_run [OF assms(3) _ nz eq] len assms(4) dr c cl show ?thesis
    by (auto simp: CiStrCat_def add.commute)
qed

end
