(* ===== verification/C_Text.thy ===== *)
theory C_Text
  imports Safe_String
begin

text \<open>
  The parts of the C library the time classes use on text: \<open>sprintf\<close> of integers, \<open>atoi\<close> and
  \<open>strtok_r\<close> (\<open>CiStrtok\<close> on POSIX), and the arithmetic of \<open>int\<close> and \<open>long long\<close>, where an
  overflow is undefined behaviour (\<open>None\<close>) and a narrowing conversion wraps (\<open>to_int32\<close>).
\<close>

section \<open>Checked arithmetic\<close>

definition ck_int :: "int \<Rightarrow> int option" where
  "ck_int x = (if - (2 ^ 31) \<le> x \<and> x < 2 ^ 31 then Some x else None)"

definition ck_ll :: "int \<Rightarrow> int option" where
  "ck_ll x = (if - (2 ^ 63) \<le> x \<and> x < 2 ^ 63 then Some x else None)"

text \<open>Division of integers in C rounds towards zero.\<close>

definition c_div :: "int \<Rightarrow> int \<Rightarrow> int" where
  "c_div a b = sgn a * sgn b * (\<bar>a\<bar> div \<bar>b\<bar>)"

definition c_mod :: "int \<Rightarrow> int \<Rightarrow> int" where
  "c_mod a b = a - c_div a b * b"

named_theorems c_simps "C arithmetic inside its bounds"

lemma ck_int_Some [c_simps]: "- (2 ^ 31) \<le> x \<Longrightarrow> x < 2 ^ 31 \<Longrightarrow> ck_int x = Some x"
  by (simp add: ck_int_def)

lemma ck_ll_Some [c_simps]: "- (2 ^ 63) \<le> x \<Longrightarrow> x < 2 ^ 63 \<Longrightarrow> ck_ll x = Some x"
  by (simp add: ck_ll_def)

lemma c_div_nonneg [c_simps]: "0 \<le> a \<Longrightarrow> 0 < b \<Longrightarrow> c_div a b = a div b"
  by (cases "a = 0") (simp_all add: c_div_def sgn_if)

lemma c_mod_nonneg [c_simps]: "0 \<le> a \<Longrightarrow> 0 < b \<Longrightarrow> c_mod a b = a mod b"
  by (simp add: c_mod_def c_div_nonneg minus_div_mult_eq_mod)

section \<open>Numbers as text\<close>

fun dec_nat :: "nat \<Rightarrow> byte list" where
  "dec_nat n = (if n < 10 then [of_nat (48 + n)] else dec_nat (n div 10) @ [of_nat (48 + n mod 10)])"

declare dec_nat.simps [simp del]

text \<open>\<open>%d\<close>, and \<open>%0wd\<close>, which pads with zeros after the sign to the width \<open>w\<close>.\<close>

definition fmt_d :: "int \<Rightarrow> byte list" where
  "fmt_d i = (if i < 0 then 45 # dec_nat (nat (- i)) else dec_nat (nat i))"

definition fmt_0d :: "nat \<Rightarrow> int \<Rightarrow> byte list" where
  "fmt_0d w i =
     (let ds = dec_nat (nat \<bar>i\<bar>); sg = (if i < 0 then [45] else [])
      in sg @ replicate (w - length sg - length ds) 48 @ ds)"

definition is_digit :: "byte \<Rightarrow> bool" where
  "is_digit c \<longleftrightarrow> 48 \<le> c \<and> c \<le> 57"

definition is_space :: "byte \<Rightarrow> bool" where
  "is_space c \<longleftrightarrow> c = 32 \<or> 9 \<le> c \<and> c \<le> 13"

text \<open>\<open>atoi\<close>: spaces, a sign, digits; what the digits give has to fit an \<open>int\<close>.\<close>

definition digits_value :: "byte list \<Rightarrow> int" where
  "digits_value ds = foldl (\<lambda>v c. v * 10 + (uint c - 48)) 0 ds"

definition atoi :: "byte list \<Rightarrow> int option" where
  "atoi s =
     (let s1 = dropWhile is_space s;
          neg = (s1 \<noteq> [] \<and> hd s1 = 45);
          s2 = (if s1 \<noteq> [] \<and> (hd s1 = 45 \<or> hd s1 = 43) then tl s1 else s1);
          v = digits_value (takeWhile is_digit s2)
      in ck_int (if neg then - v else v))"

text \<open>
  \<open>strtok_r\<close> on what is left of the text: it skips delimiters, cuts a token off and leaves the
  rest after the delimiter that ends it; at the end of the text it gives \<open>NULL\<close>.
\<close>

definition strtok :: "byte set \<Rightarrow> byte list \<Rightarrow> byte list option \<times> byte list" where
  "strtok delims s =
     (let s1 = dropWhile (\<lambda>c. c \<in> delims) s
      in if s1 = [] then (None, [])
         else (Some (takeWhile (\<lambda>c. c \<notin> delims) s1), tl (dropWhile (\<lambda>c. c \<notin> delims) s1)))"

text \<open>\<open>atoi\<close> of the next token; \<open>atoi(NULL)\<close> is undefined.\<close>

definition next_int :: "byte list \<Rightarrow> (int \<times> byte list) option" where
  "next_int s =
     (case strtok {58, 46} s of
        (None, rest) \<Rightarrow> None
      | (Some t, rest) \<Rightarrow> map_option (\<lambda>i. (i, rest)) (atoi t))"

section \<open>Reading back what was printed\<close>

lemma of_nat_byte: "n < 10 \<Longrightarrow> uint (of_nat (48 + n) :: byte) = 48 + int n"
  by (simp only: unsigned_of_nat) (simp add: take_bit_nat_eq_self)

lemma dec_nat_digits: "c \<in> set (dec_nat n) \<Longrightarrow> is_digit c"
proof (induction n rule: dec_nat.induct)
  case (1 n)
  have d: "is_digit (of_nat (48 + k) :: byte)" if "k < 10" for k
    using of_nat_byte [OF that] that by (simp add: is_digit_def word_le_def)
  show ?case using 1 d by (subst (asm) (2) dec_nat.simps) (auto split: if_splits)
qed

lemma dec_nat_ne [simp]: "dec_nat n \<noteq> []"
  by (subst dec_nat.simps) simp

lemma digits_value_snoc: "digits_value (ds @ [c]) = digits_value ds * 10 + (uint c - 48)"
  by (simp add: digits_value_def)

lemma digits_value_dec: "digits_value (dec_nat n) = int n"
proof (induction n rule: dec_nat.induct)
  case (1 n)
  show ?case
  proof (cases "n < 10")
    case True
    then show ?thesis using of_nat_byte [of n]
      by (subst dec_nat.simps) (simp add: digits_value_def)
  next
    case False
    have "int (n div 10) * 10 + int (n mod 10) = int n" by (simp add: zdiv_int zmod_int)
    then show ?thesis using 1 False of_nat_byte [of "n mod 10"]
      by (subst dec_nat.simps) (simp add: digits_value_snoc)
  qed
qed

lemma digit_not_special: "is_digit c \<Longrightarrow> c \<noteq> 45 \<and> c \<noteq> 43 \<and> c \<noteq> 58 \<and> c \<noteq> 46 \<and> c \<noteq> 0 \<and> \<not> is_space c"
  by (auto simp: is_digit_def is_space_def word_le_def)

lemma hd_dec_nat: "is_digit (hd (dec_nat n))"
  by (rule dec_nat_digits [OF hd_in_set]) simp

lemma takeWhile_dec [simp]: "takeWhile is_digit (dec_nat n) = dec_nat n"
  using dec_nat_digits by (simp add: takeWhile_eq_all_conv)

lemma dropWhile_dec [simp]: "dropWhile is_space (dec_nat n) = dec_nat n"
  using digit_not_special [OF hd_dec_nat, of n]
  by (cases "dec_nat n") auto

lemma atoi_dec: "int n < 2 ^ 31 \<Longrightarrow> atoi (dec_nat n) = Some (int n)"
  using digit_not_special [OF hd_dec_nat, of n]
  by (simp add: atoi_def digits_value_dec ck_int_def Let_def)

lemma atoi_minus: "int n \<le> 2 ^ 31 \<Longrightarrow> atoi (45 # dec_nat n) = Some (- int n)"
  by (simp add: atoi_def digits_value_dec ck_int_def Let_def is_space_def word_le_def)

text \<open>A token that a delimiter or the end of the text follows.\<close>

lemma strtok_token:
  assumes "t \<noteq> []" and "\<forall>c \<in> set t. c \<notin> D" and "d \<in> D"
  shows "strtok D (t @ d # rest) = (Some t, rest)" "strtok D t = (Some t, [])"
proof -
  obtain c cs where t: "t = c # cs" using assms(1) by (cases t) auto
  have skip: "dropWhile (\<lambda>c. c \<in> D) (t @ d # rest) = t @ d # rest" "dropWhile (\<lambda>c. c \<in> D) t = t"
    using assms(2) by (simp_all add: t)
  have cut: "takeWhile (\<lambda>c. c \<notin> D) (t @ d # rest) = t" "dropWhile (\<lambda>c. c \<notin> D) (t @ d # rest) = d # rest"
    using assms(2,3) by (simp_all add: takeWhile_append dropWhile_append)
  have "takeWhile (\<lambda>c. c \<notin> D) t = t" "dropWhile (\<lambda>c. c \<notin> D) t = []"
    using assms(2) by (simp_all add: takeWhile_eq_all_conv dropWhile_eq_Nil_conv)
  note all = this
  show "strtok D (t @ d # rest) = (Some t, rest)" "strtok D t = (Some t, [])"
    using assms(1) by (simp_all add: strtok_def Let_def skip cut all)
qed

lemma dec_not_delim: "\<forall>c \<in> set (dec_nat n). c \<notin> {58, 46}"
  using dec_nat_digits digit_not_special by blast

lemma next_int_dec:
  assumes "int n < 2 ^ 31"
  shows "next_int (dec_nat n @ 58 # rest) = Some (int n, rest)"
    "next_int (dec_nat n @ 46 # rest) = Some (int n, rest)"
    "next_int (dec_nat n) = Some (int n, [])"
  using strtok_token(1) [OF dec_nat_ne [of n] dec_not_delim, where d = 58 and rest = rest]
    strtok_token(1) [OF dec_nat_ne [of n] dec_not_delim, where d = 46 and rest = rest]
    strtok_token(2) [OF dec_nat_ne [of n] dec_not_delim, where d = 46] atoi_dec [OF assms]
  by (simp_all add: next_int_def)

lemma next_int_minus:
  assumes "int n \<le> 2 ^ 31"
  shows "next_int (45 # dec_nat n @ 58 # rest) = Some (- int n, rest)"
proof -
  have "\<forall>c \<in> set (45 # dec_nat n). c \<notin> {58, 46}" using dec_not_delim by simp
  from strtok_token(1) [OF _ this, of 58 rest] atoi_minus [OF assms] show ?thesis
    by (simp add: next_int_def)
qed

lemma dec_nat_length:
  "n < 10 \<Longrightarrow> length (dec_nat n) = 1" "n < 100 \<Longrightarrow> length (dec_nat n) \<le> 2"
  "n < 1000 \<Longrightarrow> length (dec_nat n) \<le> 3"
proof -
  show 1: "length (dec_nat n) = 1" if "n < 10" for n using that by (subst dec_nat.simps) simp
  show 2: "length (dec_nat n) \<le> 2" if "n < 100" for n
    using that 1 [of "n div 10"] by (subst dec_nat.simps) simp
  show "n < 1000 \<Longrightarrow> length (dec_nat n) \<le> 3"
    using 2 [of "n div 10"] by (subst dec_nat.simps) simp
qed

end
