(* ===== verification/Time_Span.thy ===== *)
theory Time_Span
  imports Complex_Main C_Text "HOL-Library.Monad_Syntax"
begin

text \<open>
  \<open>CMTimeSpan2\<close> (\<open>MTimeSpan2.h\<close>, \<open>MTimeSpan2.cpp\<close>): a signed duration in milliseconds, its
  splitting into days, hours, minutes, seconds and milliseconds, its text forms, and its
  conversion from and to frames.  \<open>long long\<close> is \<open>int\<close> with its overflow checked.  Floating-point
  arithmetic is the machine's: the conversions take it as a parameter (\<open>fpu\<close>).
\<close>

datatype CMTimeSpan2 = CMTimeSpan2 (m_llMSeconds: int)

abbreviation (input) MS_DAY :: int where "MS_DAY \<equiv> 86400000"
abbreviation (input) MS_HOUR :: int where "MS_HOUR \<equiv> 3600000"
abbreviation (input) MS_MINUTE :: int where "MS_MINUTE \<equiv> 60000"
abbreviation (input) MS_SECOND :: int where "MS_SECOND \<equiv> 1000"

section \<open>Arithmetic and comparison\<close>

definition ts_zero :: CMTimeSpan2 where
  "ts_zero = CMTimeSpan2 0"

definition ts_SetTimeSpan :: "int \<Rightarrow> CMTimeSpan2 \<Rightarrow> CMTimeSpan2" where
  "ts_SetTimeSpan llMSeconds ts = CMTimeSpan2 llMSeconds"

definition ts_GetTimeSpan :: "CMTimeSpan2 \<Rightarrow> int" where
  "ts_GetTimeSpan ts = m_llMSeconds ts"

definition ts_add :: "CMTimeSpan2 \<Rightarrow> CMTimeSpan2 \<Rightarrow> CMTimeSpan2 option" where
  "ts_add a b = map_option (\<lambda>m. ts_SetTimeSpan m ts_zero) (ck_ll (m_llMSeconds a + ts_GetTimeSpan b))"

definition ts_sub :: "CMTimeSpan2 \<Rightarrow> CMTimeSpan2 \<Rightarrow> CMTimeSpan2 option" where
  "ts_sub a b = map_option (\<lambda>m. ts_SetTimeSpan m ts_zero) (ck_ll (m_llMSeconds a - ts_GetTimeSpan b))"

definition ts_eq :: "CMTimeSpan2 \<Rightarrow> CMTimeSpan2 \<Rightarrow> bool" where
  "ts_eq a b \<longleftrightarrow> m_llMSeconds a = ts_GetTimeSpan b"

definition ts_gt :: "CMTimeSpan2 \<Rightarrow> CMTimeSpan2 \<Rightarrow> bool" where
  "ts_gt a b \<longleftrightarrow> ts_GetTimeSpan b < m_llMSeconds a"

definition ts_lt :: "CMTimeSpan2 \<Rightarrow> CMTimeSpan2 \<Rightarrow> bool" where
  "ts_lt a b \<longleftrightarrow> m_llMSeconds a < ts_GetTimeSpan b"

definition ts_le :: "CMTimeSpan2 \<Rightarrow> CMTimeSpan2 \<Rightarrow> bool" where
  "ts_le a b \<longleftrightarrow> m_llMSeconds a \<le> ts_GetTimeSpan b"

definition ts_ge :: "CMTimeSpan2 \<Rightarrow> CMTimeSpan2 \<Rightarrow> bool" where
  "ts_ge a b \<longleftrightarrow> ts_GetTimeSpan b \<le> m_llMSeconds a"

section \<open>Fields\<close>

definition ts_SetFields :: "int \<Rightarrow> int \<Rightarrow> int \<Rightarrow> int \<Rightarrow> int \<Rightarrow> CMTimeSpan2 option" where
  "ts_SetFields iDays iHours iMinutes iSeconds iMSeconds =
     map_option CMTimeSpan2
       (ck_ll (iDays * MS_DAY + iHours * MS_HOUR + iMinutes * MS_MINUTE + iSeconds * MS_SECOND +
               iMSeconds))"

text \<open>\<open>GetTimeSpan\<close> into five \<open>int\<close>s: each quotient is narrowed to an \<open>int\<close> before it is used.\<close>

definition ts_GetFields :: "CMTimeSpan2 \<Rightarrow> (int \<times> int \<times> int \<times> int \<times> int) option" where
  "ts_GetFields ts = do {
     let bMinus = m_llMSeconds ts < 0;
     ll0 \<leftarrow> (if bMinus then ck_ll (- m_llMSeconds ts) else Some (m_llMSeconds ts));
     let iDays = to_int32 (c_div ll0 MS_DAY);
     ll1 \<leftarrow> ck_ll (ll0 - iDays * MS_DAY);
     let iHours = to_int32 (c_div ll1 MS_HOUR);
     ll2 \<leftarrow> ck_ll (ll1 - iHours * MS_HOUR);
     let iMinutes = to_int32 (c_div ll2 MS_MINUTE);
     ll3 \<leftarrow> ck_ll (ll2 - iMinutes * MS_MINUTE);
     let iSeconds = to_int32 (c_div ll3 MS_SECOND);
     ll4 \<leftarrow> ck_ll (ll3 - iSeconds * MS_SECOND);
     let iMSeconds = to_int32 ll4;
     if bMinus then do {
       d \<leftarrow> ck_int (- iDays);
       h \<leftarrow> ck_int (- iHours);
       m \<leftarrow> ck_int (- iMinutes);
       s \<leftarrow> ck_int (- iSeconds);
       ms \<leftarrow> ck_int (- iMSeconds);
       Some (d, h, m, s, ms) }
     else Some (iDays, iHours, iMinutes, iSeconds, iMSeconds) }"

section \<open>Text\<close>

text \<open>Five numbers, each the next token of the text.\<close>

definition scan5 :: "byte list \<Rightarrow> (int \<times> int \<times> int \<times> int \<times> int) option" where
  "scan5 t = do {
     (a, t1) \<leftarrow> next_int t;
     (b, t2) \<leftarrow> next_int t1;
     (c, t3) \<leftarrow> next_int t2;
     (d, t4) \<leftarrow> next_int t3;
     (e, t5) \<leftarrow> next_int t4;
     Some (a, b, c, d, e) }"

text \<open>\<open>SetTimeSpan(char*)\<close>: the text is copied into 256 bytes first.\<close>

definition ts_SetText :: "(nat \<Rightarrow> byte) \<Rightarrow> carray \<Rightarrow> CMTimeSpan2 option" where
  "ts_SetText junk pszTimeSpan = do {
     (_, szTemp, _) \<leftarrow> CiStrCpy (Some (new_array junk 256)) (Some pszTimeSpan) 256;
     tmp \<leftarrow> szTemp;
     (iDays, iHours, iMinutes, iSeconds, iMSeconds) \<leftarrow> scan5 (text_of tmp);
     ts_SetFields iDays iHours iMinutes iSeconds iMSeconds }"

text \<open>Appending pieces one after the other with \<open>CiStrCat\<close>.\<close>

fun cat_pieces :: "carray \<Rightarrow> int \<Rightarrow> byte list list \<Rightarrow> carray option" where
  "cat_pieces a n [] = Some a"
| "cat_pieces a n (p # ps) =
     (case CiStrCat (Some a) (Some (p @ [0])) n of
        Some (r, Some a', k) \<Rightarrow> cat_pieces a' n ps
      | _ \<Rightarrow> None)"

text \<open>What \<open>GetTimeSpan(char**)\<close> and \<open>GetFrameTimeSpan(char**)\<close> share: the array of \<open>n\<close> bytes.\<close>

definition ts_build ::
  "(nat \<Rightarrow> byte) \<Rightarrow> bool \<Rightarrow> nat \<Rightarrow> int \<Rightarrow> int \<Rightarrow> int \<Rightarrow> int \<Rightarrow> int \<Rightarrow> carray option"
where
  "ts_build junk bMinus n d h m s f = do {
     start \<leftarrow> (if bMinus
              then do { (_, a, _) \<leftarrow> CiStrCpy (Some (new_array junk n)) (Some [45, 0]) (int n); a }
              else set_char (new_array junk n) 0 0);
     cat_pieces start (int n)
       [fmt_d d, [58], fmt_d h, [58], fmt_d m, [58], fmt_d s, [46], fmt_d f] }"

definition ts_GetText :: "(nat \<Rightarrow> byte) \<Rightarrow> CMTimeSpan2 \<Rightarrow> carray option" where
  "ts_GetText junk ts = do {
     (iDays, iHours, iMinutes, iSeconds, iMSeconds) \<leftarrow> ts_GetFields ts;
     let bMinus = m_llMSeconds ts < 0;
     if bMinus then do {
       d \<leftarrow> ck_int \<bar>iDays\<bar>; h \<leftarrow> ck_int \<bar>iHours\<bar>; m \<leftarrow> ck_int \<bar>iMinutes\<bar>; s \<leftarrow> ck_int \<bar>iSeconds\<bar>;
       ms \<leftarrow> ck_int \<bar>iMSeconds\<bar>;
       ts_build junk True 17 d h m s ms }
     else ts_build junk False 17 iDays iHours iMinutes iSeconds iMSeconds }"

text \<open>\<open>GetDurationStringforDBAPI\<close>: hours to milliseconds in an array of ten bytes; no days.\<close>

definition sprintf_into :: "carray \<Rightarrow> byte list \<Rightarrow> carray option" where
  "sprintf_into buf t = blit buf 0 (t @ [0])"

definition ts_GetDurationString :: "(nat \<Rightarrow> byte) \<Rightarrow> CMTimeSpan2 \<Rightarrow> carray option" where
  "ts_GetDurationString junk ts = do {
     (iDays, iHours, iMinutes, iSeconds, iMSeconds) \<leftarrow> ts_GetFields ts;
     h \<leftarrow> (if m_llMSeconds ts < 0 then ck_int \<bar>iHours\<bar> else Some iHours);
     m \<leftarrow> (if m_llMSeconds ts < 0 then ck_int \<bar>iMinutes\<bar> else Some iMinutes);
     s \<leftarrow> (if m_llMSeconds ts < 0 then ck_int \<bar>iSeconds\<bar> else Some iSeconds);
     ms \<leftarrow> (if m_llMSeconds ts < 0 then ck_int \<bar>iMSeconds\<bar> else Some iMSeconds);
     sprintf_into (new_array junk 10) (fmt_0d 2 h @ fmt_0d 2 m @ fmt_0d 2 s @ fmt_0d 3 ms) }"

section \<open>Frames\<close>

text \<open>
  The operations on \<open>float\<close> (\<open>'f\<close>) and \<open>double\<close> (\<open>'d\<close>) that the conversions use.
\<close>

record ('f, 'd) fpu =
  f_of_int :: "int \<Rightarrow> 'f"
  f_mul :: "'f \<Rightarrow> 'f \<Rightarrow> 'f"
  f_div :: "'f \<Rightarrow> 'f \<Rightarrow> 'f"
  f_eq :: "'f \<Rightarrow> 'f \<Rightarrow> bool"
  f_to_int :: "'f \<Rightarrow> int"
  f_to_ll :: "'f \<Rightarrow> int"
  d_of_int :: "int \<Rightarrow> 'd"
  d_of_f :: "'f \<Rightarrow> 'd"
  d_half :: 'd
  d_add :: "'d \<Rightarrow> 'd \<Rightarrow> 'd"
  d_mul :: "'d \<Rightarrow> 'd \<Rightarrow> 'd"
  d_div :: "'d \<Rightarrow> 'd \<Rightarrow> 'd"
  d_to_int :: "'d \<Rightarrow> int"

text \<open>
  The loop that looks for a power of ten which makes the rate an integer.  It ends, or the
  power overflows an \<open>int\<close>.
\<close>

function ten_power :: "('f, 'd) fpu \<Rightarrow> 'f \<Rightarrow> int \<Rightarrow> int option" where
  "ten_power F rate p =
     (if p < 1 \<or> 2 ^ 31 \<le> p then None
      else if f_eq F (f_mul F (f_of_int F p) rate) (f_of_int F (f_to_int F (f_mul F (f_of_int F p) rate)))
      then Some p else ten_power F rate (p * 10))"
  by pat_completeness auto
termination by (relation "measure (\<lambda>(F, rate, p). nat (2 ^ 31 - p))") auto

declare ten_power.simps [simp del]

definition FrameToMSecond :: "('f, 'd) fpu \<Rightarrow> int \<Rightarrow> 'f \<Rightarrow> int option" where
  "FrameToMSecond F llFrames rate = do {
     iTenPower \<leftarrow> ten_power F rate 1;
     let llQuotient = f_to_ll F (f_div F (f_of_int F llFrames) (f_mul F (f_of_int F iTenPower) rate));
     t \<leftarrow> ck_ll (llQuotient * iTenPower);
     llRemainder \<leftarrow> ck_ll (llFrames - t);
     let dFrameMSeconds = d_div F (d_of_int F 1000) (d_of_f F rate);
     u \<leftarrow> ck_ll (t * 1000);
     Some (d_to_int F (d_add F (d_of_int F u)
             (d_add F (d_mul F (d_of_int F llRemainder) dFrameMSeconds) (d_half F)))) }"

definition MSecondToFrame :: "('f, 'd) fpu \<Rightarrow> int \<Rightarrow> 'f \<Rightarrow> int option" where
  "MSecondToFrame F llMSeconds rate = do {
     iTenPower \<leftarrow> ten_power F rate 1;
     k \<leftarrow> ck_int (iTenPower * 1000);
     let llQuotient = c_div llMSeconds k;
     t \<leftarrow> ck_ll (llQuotient * k);
     llRemainder \<leftarrow> ck_ll (llMSeconds - t);
     let dFrameMSeconds = d_div F (d_of_int F 1000) (d_of_f F rate);
     u \<leftarrow> ck_ll (llQuotient * iTenPower);
     Some (d_to_int F (d_add F (d_of_f F (f_mul F (f_of_int F u) rate))
             (d_add F (d_div F (d_of_int F llRemainder) dFrameMSeconds) (d_half F)))) }"

definition ts_SetFrames :: "('f, 'd) fpu \<Rightarrow> int \<Rightarrow> 'f \<Rightarrow> CMTimeSpan2 option" where
  "ts_SetFrames F llFrames rate = map_option CMTimeSpan2 (FrameToMSecond F llFrames rate)"

definition ts_GetFrames :: "('f, 'd) fpu \<Rightarrow> CMTimeSpan2 \<Rightarrow> 'f \<Rightarrow> int option" where
  "ts_GetFrames F ts rate = MSecondToFrame F (m_llMSeconds ts) rate"

definition ts_SetFrameFields ::
  "('f, 'd) fpu \<Rightarrow> int \<Rightarrow> int \<Rightarrow> int \<Rightarrow> int \<Rightarrow> int \<Rightarrow> 'f \<Rightarrow> CMTimeSpan2 option" where
  "ts_SetFrameFields F iDays iHours iMinutes iSeconds iFrames rate = do {
     ll \<leftarrow> FrameToMSecond F iFrames rate;
     ts_SetFields iDays iHours iMinutes iSeconds (to_int32 ll) }"

definition ts_GetFrameFields ::
  "('f, 'd) fpu \<Rightarrow> CMTimeSpan2 \<Rightarrow> 'f \<Rightarrow> (int \<times> int \<times> int \<times> int \<times> int) option" where
  "ts_GetFrameFields F ts rate = do {
     (iDays, iHours, iMinutes, iSeconds, iMSeconds) \<leftarrow> ts_GetFields ts;
     ll \<leftarrow> MSecondToFrame F iMSeconds rate;
     Some (iDays, iHours, iMinutes, iSeconds, to_int32 ll) }"

definition ts_SetFrameText ::
  "('f, 'd) fpu \<Rightarrow> (nat \<Rightarrow> byte) \<Rightarrow> carray \<Rightarrow> 'f \<Rightarrow> CMTimeSpan2 option" where
  "ts_SetFrameText F junk psz rate = do {
     (_, szTemp, _) \<leftarrow> CiStrCpy (Some (new_array junk 256)) (Some psz) 256;
     tmp \<leftarrow> szTemp;
     (iDays, iHours, iMinutes, iSeconds, iFrames) \<leftarrow> scan5 (text_of tmp);
     ts_SetFrameFields F iDays iHours iMinutes iSeconds iFrames rate }"

definition ts_GetFrameText ::
  "('f, 'd) fpu \<Rightarrow> (nat \<Rightarrow> byte) \<Rightarrow> CMTimeSpan2 \<Rightarrow> 'f \<Rightarrow> carray option" where
  "ts_GetFrameText F junk ts rate = do {
     (iDays, iHours, iMinutes, iSeconds, iFrames) \<leftarrow> ts_GetFrameFields F ts rate;
     let bMinus = m_llMSeconds ts < 0;
     if bMinus then do {
       d \<leftarrow> ck_int \<bar>iDays\<bar>; h \<leftarrow> ck_int \<bar>iHours\<bar>; m \<leftarrow> ck_int \<bar>iMinutes\<bar>; s \<leftarrow> ck_int \<bar>iSeconds\<bar>;
       f \<leftarrow> ck_int \<bar>iFrames\<bar>;
       ts_build junk True 16 d h m s f }
     else ts_build junk False 16 iDays iHours iMinutes iSeconds iFrames }"

text \<open>\<open>Set\<close>: \<open>HHMMSSff\<close> at the NTSC rate \<open>r2997\<close>, or \<open>HHMMSSmmm\<close>.\<close>

definition field_at :: "byte list \<Rightarrow> nat \<Rightarrow> nat \<Rightarrow> int option" where
  "field_at t i n = atoi (take n (drop i t))"

definition ts_Set :: "('f, 'd) fpu \<Rightarrow> 'f \<Rightarrow> carray \<Rightarrow> CMTimeSpan2 \<Rightarrow> (bool \<times> CMTimeSpan2) option" where
  "ts_Set F r2997 pszTimeSpan ts = do {
     len \<leftarrow> CiStrLen pszTimeSpan;
     let t = text_of pszTimeSpan;
     if len = 8 then do {
       h \<leftarrow> field_at t 0 2;
       m \<leftarrow> field_at t 2 2;
       s \<leftarrow> field_at t 4 2;
       f \<leftarrow> field_at t 6 2;
       ll \<leftarrow> FrameToMSecond F f r2997;
       r \<leftarrow> ts_SetFields (c_div h 24) (c_mod h 24) m s (to_int32 ll);
       Some (True, r) }
     else if len = 9 then do {
       h \<leftarrow> field_at t 0 2;
       m \<leftarrow> field_at t 2 2;
       s \<leftarrow> field_at t 4 2;
       ms \<leftarrow> field_at t 6 3;
       r \<leftarrow> ts_SetFields (c_div h 24) (c_mod h 24) m s ms;
       Some (True, r) }
     else Some (False, ts) }"

text \<open>
  The other constructors.  The one from a text leaves the member uninitialised (here: \<open>garbage\<close>)
  when the text has another length.
\<close>

definition ts_of_fields :: "int \<Rightarrow> int \<Rightarrow> int \<Rightarrow> int \<Rightarrow> int \<Rightarrow> CMTimeSpan2 option" where
  "ts_of_fields iDays iHours iMinutes iSeconds iMSeconds =
     ts_SetFields iDays iHours iMinutes iSeconds iMSeconds"

definition ts_of_text :: "('f, 'd) fpu \<Rightarrow> 'f \<Rightarrow> int \<Rightarrow> carray \<Rightarrow> CMTimeSpan2 option" where
  "ts_of_text F r2997 garbage pszTimeSpan =
     map_option snd (ts_Set F r2997 pszTimeSpan (CMTimeSpan2 garbage))"

section \<open>The order\<close>

instantiation CMTimeSpan2 :: linorder
begin

definition less_eq_CMTimeSpan2 :: "CMTimeSpan2 \<Rightarrow> CMTimeSpan2 \<Rightarrow> bool" where
  "less_eq_CMTimeSpan2 a b \<longleftrightarrow> m_llMSeconds a \<le> m_llMSeconds b"

definition less_CMTimeSpan2 :: "CMTimeSpan2 \<Rightarrow> CMTimeSpan2 \<Rightarrow> bool" where
  "less_CMTimeSpan2 a b \<longleftrightarrow> m_llMSeconds a < m_llMSeconds b"

instance
  by intro_classes
     (auto simp: less_eq_CMTimeSpan2_def less_CMTimeSpan2_def intro: CMTimeSpan2.expand)

end

text \<open>The five comparison operators are the comparisons of one linear order.\<close>

lemma ts_comparisons:
  "ts_eq a b \<longleftrightarrow> a = b" "ts_lt a b \<longleftrightarrow> a < b" "ts_le a b \<longleftrightarrow> a \<le> b" "ts_gt a b \<longleftrightarrow> b < a"
  "ts_ge a b \<longleftrightarrow> b \<le> a"
  by (auto simp: ts_eq_def ts_lt_def ts_le_def ts_gt_def ts_ge_def ts_GetTimeSpan_def
      less_CMTimeSpan2_def less_eq_CMTimeSpan2_def CMTimeSpan2.expand)

lemma ts_add_sub:
  assumes "ck_ll (m_llMSeconds a) \<noteq> None" and "ts_add a b = Some c"
  shows "ts_sub c b = Some a"
  using assms
  by (auto simp: ts_add_def ts_sub_def ts_SetTimeSpan_def ts_GetTimeSpan_def ck_ll_def
      split: if_splits)

section \<open>Splitting and joining\<close>

text \<open>Any five \<open>int\<close>s fit: the sum of the fields cannot overflow a \<open>long long\<close>.\<close>

definition is_int :: "int \<Rightarrow> bool" where
  "is_int x \<longleftrightarrow> - (2 ^ 31) \<le> x \<and> x < 2 ^ 31"

lemma ts_SetFields_total:
  assumes "is_int d" "is_int h" "is_int m" "is_int s" "is_int ms"
  shows "ts_SetFields d h m s ms =
    Some (CMTimeSpan2 (d * MS_DAY + h * MS_HOUR + m * MS_MINUTE + s * MS_SECOND + ms))"
  using assms by (simp add: ts_SetFields_def ck_ll_def is_int_def)

text \<open>The magnitude of a span, split.\<close>

definition days_of :: "int \<Rightarrow> int" where "days_of a = a div MS_DAY"
definition hours_of :: "int \<Rightarrow> int" where "hours_of a = a mod MS_DAY div MS_HOUR"
definition minutes_of :: "int \<Rightarrow> int" where "minutes_of a = a mod MS_DAY mod MS_HOUR div MS_MINUTE"
definition seconds_of :: "int \<Rightarrow> int" where
  "seconds_of a = a mod MS_DAY mod MS_HOUR mod MS_MINUTE div MS_SECOND"
definition mseconds_of :: "int \<Rightarrow> int" where
  "mseconds_of a = a mod MS_DAY mod MS_HOUR mod MS_MINUTE mod MS_SECOND"

lemmas parts_defs = days_of_def hours_of_def minutes_of_def seconds_of_def mseconds_of_def

lemma parts_sum:
  "days_of a * MS_DAY + hours_of a * MS_HOUR + minutes_of a * MS_MINUTE + seconds_of a * MS_SECOND +
   mseconds_of a = a"
proof -
  have d: "x div c * c + x mod c = x" for x c :: int by (rule div_mult_mod_eq)
  show ?thesis
    using d [of a MS_DAY] d [of "a mod MS_DAY" MS_HOUR] d [of "a mod MS_DAY mod MS_HOUR" MS_MINUTE]
      d [of "a mod MS_DAY mod MS_HOUR mod MS_MINUTE" MS_SECOND]
    unfolding parts_defs by linarith
qed

lemma div_bound:
  fixes x :: int
  assumes "0 \<le> x" "x < k * c" "0 < c"
  shows "0 \<le> x div c" "x div c < k"
proof -
  show "0 \<le> x div c" using assms by (simp add: pos_imp_zdiv_nonneg_iff)
  show "x div c < k"
  proof (rule ccontr)
    assume "\<not> x div c < k"
    then have "k * c \<le> x div c * c" using assms(3) by (simp add: mult_right_mono)
    also have "\<dots> \<le> x" using assms(3) div_mult_mod_eq [of x c] pos_mod_sign [of c x] by linarith
    finally show False using assms(2) by simp
  qed
qed

lemma part_bound:
  fixes x :: int
  assumes "0 < c" "0 < k" "n = k * c"
  shows "0 \<le> x mod n div c \<and> x mod n div c < k"
  using div_bound [of "x mod n" k c] pos_mod_sign [of n x] pos_mod_bound [of n x] assms by simp

lemma parts_bounds:
  "0 \<le> hours_of a \<and> hours_of a < 24" "0 \<le> minutes_of a \<and> minutes_of a < 60"
  "0 \<le> seconds_of a \<and> seconds_of a < 60" "0 \<le> mseconds_of a \<and> mseconds_of a < 1000"
  unfolding parts_defs by (rule part_bound, simp, simp, simp)+ (rule conjI, simp, simp)

lemma days_bounds: "0 \<le> a \<Longrightarrow> a < k * MS_DAY \<Longrightarrow> 0 \<le> days_of a \<and> days_of a < k"
  unfolding days_of_def using div_bound [of a k MS_DAY] by simp

text \<open>The absolute value, as a function the arithmetic procedures do not split.\<close>

definition magnitude :: "int \<Rightarrow> int" where
  "magnitude m = \<bar>m\<bar>"

lemma magnitude_simps: "0 \<le> magnitude m" "m < 0 \<Longrightarrow> magnitude m = - m" "0 \<le> m \<Longrightarrow> magnitude m = m"
  "m = sgn m * magnitude m"
  by (simp_all add: magnitude_def abs_mult_sgn mult.commute)

lemma magnitude_0 [simp]: "magnitude 0 = 0"
  by (simp add: magnitude_def)

definition signed_parts :: "int \<Rightarrow> int \<times> int \<times> int \<times> int \<times> int" where
  "signed_parts m = (sgn m * days_of (magnitude m), sgn m * hours_of (magnitude m), sgn m * minutes_of (magnitude m),
     sgn m * seconds_of (magnitude m), sgn m * mseconds_of (magnitude m))"

text \<open>Within 2^31 days the split is exact: the narrowing conversions change nothing.\<close>

lemma split_step:
  assumes "0 \<le> x" "x < k * c" "0 < c" "k \<le> 2 ^ 31" "c \<le> 2 ^ 63"
  shows "to_int32 (c_div x c) = x div c" "ck_ll (x - x div c * c) = Some (x mod c)"
proof -
  have "0 \<le> x div c" "x div c < 2 ^ 31" using div_bound [OF assms(1-3)] assms(4) by auto
  then show "to_int32 (c_div x c) = x div c"
    using assms by (simp add: c_div_nonneg to_int32_id)
  have "0 \<le> x mod c" "x mod c < 2 ^ 63"
    using pos_mod_sign [OF assms(3), of x] pos_mod_bound [OF assms(3), of x] assms(5) by linarith+
  then show "ck_ll (x - x div c * c) = Some (x mod c)"
    by (simp only: minus_div_mult_eq_mod) (simp add: ck_ll_def)
qed

lemma mod_range: "0 < (c :: int) \<Longrightarrow> 0 \<le> x mod c \<and> x mod c < c"
  by simp

lemma split_all:
  assumes "0 \<le> a" "a < 2 ^ 31 * MS_DAY"
  obtains x1 x2 x3 where
    "to_int32 (c_div a MS_DAY) = days_of a" "ck_ll (a - days_of a * MS_DAY) = Some x1"
    "to_int32 (c_div x1 MS_HOUR) = hours_of a" "ck_ll (x1 - hours_of a * MS_HOUR) = Some x2"
    "to_int32 (c_div x2 MS_MINUTE) = minutes_of a" "ck_ll (x2 - minutes_of a * MS_MINUTE) = Some x3"
    "to_int32 (c_div x3 MS_SECOND) = seconds_of a"
    "ck_ll (x3 - seconds_of a * MS_SECOND) = Some (mseconds_of a)"
    "to_int32 (mseconds_of a) = mseconds_of a"
proof -
  define x1 where "x1 = a mod MS_DAY"
  define x2 where "x2 = x1 mod MS_HOUR"
  define x3 where "x3 = x2 mod MS_MINUTE"
  have b: "0 \<le> x1 \<and> x1 < 24 * MS_HOUR" "0 \<le> x2 \<and> x2 < 60 * MS_MINUTE" "0 \<le> x3 \<and> x3 < 60 * MS_SECOND"
    using mod_range [of MS_DAY a] mod_range [of MS_HOUR x1] mod_range [of MS_MINUTE x2]
    unfolding x1_def [symmetric] x2_def [symmetric] x3_def [symmetric] by auto
  have e: "days_of a = a div MS_DAY" "hours_of a = x1 div MS_HOUR" "minutes_of a = x2 div MS_MINUTE"
    "seconds_of a = x3 div MS_SECOND" "mseconds_of a = x3 mod MS_SECOND"
    unfolding parts_defs x1_def x2_def x3_def by (rule refl)+
  have "to_int32 (c_div a MS_DAY) = days_of a" "ck_ll (a - days_of a * MS_DAY) = Some x1"
    unfolding e x1_def by (rule split_step [OF assms], simp, simp, simp)+
  moreover have "to_int32 (c_div x1 MS_HOUR) = hours_of a" "ck_ll (x1 - hours_of a * MS_HOUR) = Some x2"
    unfolding e x2_def using b(1) by - (rule split_step [of _ 24], simp, simp, simp, simp, simp)+
  moreover have "to_int32 (c_div x2 MS_MINUTE) = minutes_of a"
    "ck_ll (x2 - minutes_of a * MS_MINUTE) = Some x3"
    unfolding e x3_def using b(2) by - (rule split_step [of _ 60], simp, simp, simp, simp, simp)+
  moreover have "to_int32 (c_div x3 MS_SECOND) = seconds_of a"
    "ck_ll (x3 - seconds_of a * MS_SECOND) = Some (mseconds_of a)"
    unfolding e using b(3) by - (rule split_step [of _ 60], simp, simp, simp, simp, simp)+
  moreover have "to_int32 (mseconds_of a) = mseconds_of a"
    using parts_bounds(4) [of a] by (simp add: to_int32_id)
  ultimately show ?thesis by (rule that)
qed

lemma ts_GetFields_run:
  assumes "magnitude m < 2 ^ 31 * MS_DAY"
  shows "ts_GetFields (CMTimeSpan2 m) = Some (signed_parts m)"
proof -
  obtain x1 x2 x3 where x:
    "to_int32 (c_div (magnitude m) MS_DAY) = days_of (magnitude m)" "ck_ll (magnitude m - days_of (magnitude m) * MS_DAY) = Some x1"
    "to_int32 (c_div x1 MS_HOUR) = hours_of (magnitude m)" "ck_ll (x1 - hours_of (magnitude m) * MS_HOUR) = Some x2"
    "to_int32 (c_div x2 MS_MINUTE) = minutes_of (magnitude m)" "ck_ll (x2 - minutes_of (magnitude m) * MS_MINUTE) = Some x3"
    "to_int32 (c_div x3 MS_SECOND) = seconds_of (magnitude m)"
    "ck_ll (x3 - seconds_of (magnitude m) * MS_SECOND) = Some (mseconds_of (magnitude m))"
    "to_int32 (mseconds_of (magnitude m)) = mseconds_of (magnitude m)"
    using split_all [OF magnitude_simps(1) assms] by blast
  show ?thesis
  proof (cases "m < 0")
    case True
    have a: "ck_ll (- m) = Some (- m)" using assms True by (simp add: ck_ll_def magnitude_simps)
    have am: "magnitude m = - m" using True by (rule magnitude_simps)
    have neg: "ck_int (- days_of (magnitude m)) = Some (- days_of (magnitude m))"
      "ck_int (- hours_of (magnitude m)) = Some (- hours_of (magnitude m))"
      "ck_int (- minutes_of (magnitude m)) = Some (- minutes_of (magnitude m))"
      "ck_int (- seconds_of (magnitude m)) = Some (- seconds_of (magnitude m))"
      "ck_int (- mseconds_of (magnitude m)) = Some (- mseconds_of (magnitude m))"
      using days_bounds [OF magnitude_simps(1) assms] parts_bounds [of "magnitude m"]
      by (simp_all add: ck_int_def)
    show ?thesis
      using True by (simp add: ts_GetFields_def a x [unfolded am] neg [unfolded am] am signed_parts_def
          Let_def)
  next
    case False
    then have mm: "magnitude m = m" by (simp add: magnitude_simps)
    note y = x [unfolded this]
    have "m = 0 \<Longrightarrow> days_of m = 0 \<and> hours_of m = 0 \<and> minutes_of m = 0 \<and> seconds_of m = 0 \<and>
        mseconds_of m = 0" by (simp add: parts_defs)
    then show ?thesis
      using False y by (cases "m = 0") (simp_all add: ts_GetFields_def signed_parts_def mm Let_def)
  qed
qed

lemma signed_parts_int:
  assumes "magnitude m < 2 ^ 31 * MS_DAY" and "signed_parts m = (d, h, mi, s, ms)"
  shows "is_int d \<and> is_int h \<and> is_int mi \<and> is_int s \<and> is_int ms"
    "d * MS_DAY + h * MS_HOUR + mi * MS_MINUTE + s * MS_SECOND + ms = m"
proof -
  define u where "u = sgn m"
  have u: "u = 1 \<or> u = - 1 \<or> u = 0" "m = u * magnitude m"
    unfolding u_def by (auto simp: sgn_if magnitude_simps)
  have k: "is_int (u * x)" if "0 \<le> x" "x < 2 ^ 31" for x
    using u(1) that by (auto simp: is_int_def)
  have e: "d = u * days_of (magnitude m)" "h = u * hours_of (magnitude m)" "mi = u * minutes_of (magnitude m)"
    "s = u * seconds_of (magnitude m)" "ms = u * mseconds_of (magnitude m)"
    using assms(2) by (simp_all add: signed_parts_def u_def)
  show "is_int d \<and> is_int h \<and> is_int mi \<and> is_int s \<and> is_int ms"
    using parts_bounds [of "magnitude m"] days_bounds [OF magnitude_simps(1) assms(1)]
    unfolding e by (intro conjI k) simp_all
  have "d * MS_DAY + h * MS_HOUR + mi * MS_MINUTE + s * MS_SECOND + ms = u * (days_of (magnitude m) * MS_DAY +
      hours_of (magnitude m) * MS_HOUR + minutes_of (magnitude m) * MS_MINUTE + seconds_of (magnitude m) * MS_SECOND + mseconds_of (magnitude m))"
    unfolding e by (simp only: distrib_left mult.assoc)
  then show "d * MS_DAY + h * MS_HOUR + mi * MS_MINUTE + s * MS_SECOND + ms = m"
    by (simp only: parts_sum flip: u(2))
qed

lemma ts_fields_round_trip:
  assumes "magnitude m < 2 ^ 31 * MS_DAY"
  shows "\<exists>d h mi s ms. ts_GetFields (CMTimeSpan2 m) = Some (d, h, mi, s, ms) \<and>
    ts_SetFields d h mi s ms = Some (CMTimeSpan2 m)"
proof -
  obtain d h mi s ms where p: "signed_parts m = (d, h, mi, s, ms)" by (cases "signed_parts m")
  from signed_parts_int [OF assms p] ts_GetFields_run [OF assms] p show ?thesis
    by (auto simp: ts_SetFields_total)
qed

section \<open>The text form\<close>

lemma text_of_piece [simp]: "0 \<notin> set p \<Longrightarrow> text_of (p @ [0]) = p" "is_cstring (p @ [0])"
  using text_of_terminated [of p "[]"] by (simp_all add: is_cstring_def)

lemma dec_nat_nonzero [simp]: "0 \<notin> set (dec_nat n)"
  by (auto dest!: dec_nat_digits dest: digit_not_special)

lemma fmt_d_nonzero [simp]: "0 \<notin> set (fmt_d i)"
  by (simp add: fmt_d_def)

lemma take_take_append: "take k (take k xs @ ys) = take k (xs @ ys)"
  by (cases "k \<le> length xs") simp_all

lemma cat_pieces_run:
  assumes "is_cstring a" "0 < n" "n \<le> int (length a)" "\<forall>p \<in> set ps. 0 \<notin> set p"
    and "length (text_of a) < nat n"
  shows "\<exists>a'. cat_pieces a n ps = Some a' \<and> is_cstring a' \<and> length a' = length a \<and>
    text_of a' = take (nat n - 1) (text_of a @ concat ps)"
  using assms
proof (induction ps arbitrary: a)
  case Nil
  then show ?case by simp
next
  case (Cons p ps)
  have p: "text_of (p @ [0]) = p" "is_cstring (p @ [0])" using Cons.prems(4) by simp_all
  obtain b where b: "CiStrCat (Some a) (Some (p @ [0])) n =
        Some (int (length (text_of a @ p)) < n, Some b, length (text_of a @ p))"
      "length b = length a" "is_cstring b" "text_of b = take (nat n - 1) (text_of a @ p)"
    using CiStrCat_run [OF Cons.prems(1) p(2) Cons.prems(2,3)] unfolding p(1) by blast
  have "length (text_of b) < nat n" using b(4) Cons.prems(2) by simp
  then obtain a' where "cat_pieces b n ps = Some a'" "is_cstring a'" "length a' = length b"
      "text_of a' = take (nat n - 1) (text_of b @ concat ps)"
    using Cons.IH [OF b(3)] Cons.prems b(2) by auto
  moreover have "take (nat n - 1) (text_of b @ concat ps) =
      take (nat n - 1) (text_of a @ concat (p # ps))"
    unfolding b(4) take_take_append by (simp only: append_assoc concat.simps)
  ultimately show ?case using b(1,2) by simp
qed

lemma ts_build_run:
  assumes "2 \<le> n"
  shows "\<exists>a. ts_build junk neg n d h m s f = Some a \<and> length a = n \<and> is_cstring a \<and>
    text_of a = take (n - 1) ((if neg then [45] else []) @ fmt_d d @ [58] @ fmt_d h @ [58] @
      fmt_d m @ [58] @ fmt_d s @ [46] @ fmt_d f)"
proof -
  let ?ps = "[fmt_d d, [58], fmt_d h, [58], fmt_d m, [58], fmt_d s, [46], fmt_d f]"
  let ?start = "if neg then Option.bind (CiStrCpy (Some (new_array junk n)) (Some [45, 0]) (int n))
      (\<lambda>(_, a, _). a) else set_char (new_array junk n) 0 0"
  obtain st where st: "?start = Some st" "length st = n" "is_cstring st"
      "text_of st = (if neg then [45] else [])"
  proof (cases neg)
    case True
    have "is_cstring [45, 0]" by simp
    from CiStrCpy_run [OF this, of "int n" "new_array junk n"] assms that True show ?thesis
      by (auto simp: take_Cons')
  next
    case False
    let ?a = "(new_array junk n)[0 := 0]"
    have "is_cstring ?a" "text_of ?a = take 0 (new_array junk n)"
      using text_of_update [of 0 "new_array junk n"] assms by simp_all
    with that [of ?a] False assms show ?thesis by (simp add: set_char_def)
  qed
  have nz: "\<forall>p \<in> set ?ps. 0 \<notin> set p" by simp
  have "\<exists>a. cat_pieces st (int n) ?ps = Some a \<and> is_cstring a \<and> length a = length st \<and>
      text_of a = take (nat (int n) - 1) (text_of st @ concat ?ps)"
    by (rule cat_pieces_run [OF st(3) _ _ nz]) (use assms st in auto)
  then show ?thesis using st assms by (auto simp: ts_build_def)
qed

definition ts_text :: "int \<Rightarrow> byte list" where
  "ts_text m = (if m < 0 then [45] else []) @ dec_nat (nat (days_of (magnitude m))) @ [58] @
     dec_nat (nat (hours_of (magnitude m))) @ [58] @ dec_nat (nat (minutes_of (magnitude m))) @ [58] @
     dec_nat (nat (seconds_of (magnitude m))) @ [46] @ dec_nat (nat (mseconds_of (magnitude m)))"

lemma ts_GetText_run:
  assumes "magnitude m < 2 ^ 31 * MS_DAY"
  shows "\<exists>a. ts_GetText junk (CMTimeSpan2 m) = Some a \<and> length a = 17 \<and> is_cstring a \<and>
    text_of a = take 16 (ts_text m)"
proof -
  let ?a = "magnitude m"
  note b = parts_bounds [of ?a] days_bounds [OF magnitude_simps(1) assms]
  have "ck_int (days_of ?a) = Some (days_of ?a)" "ck_int (hours_of ?a) = Some (hours_of ?a)"
    "ck_int (minutes_of ?a) = Some (minutes_of ?a)" "ck_int (seconds_of ?a) = Some (seconds_of ?a)"
    "ck_int (mseconds_of ?a) = Some (mseconds_of ?a)"
    using b by (simp_all add: ck_int_def)
  note ck = this
  have fmt: "fmt_d (days_of ?a) = dec_nat (nat (days_of ?a))"
    "fmt_d (hours_of ?a) = dec_nat (nat (hours_of ?a))"
    "fmt_d (minutes_of ?a) = dec_nat (nat (minutes_of ?a))"
    "fmt_d (seconds_of ?a) = dec_nat (nat (seconds_of ?a))"
    "fmt_d (mseconds_of ?a) = dec_nat (nat (mseconds_of ?a))"
    using b by (simp_all add: fmt_d_def)
  have get: "ts_GetText junk (CMTimeSpan2 m) = ts_build junk (m < 0) 17 (days_of ?a) (hours_of ?a)
      (minutes_of ?a) (seconds_of ?a) (mseconds_of ?a)"
  proof (cases "m < 0")
    case True
    have nn: "\<bar>- x\<bar> = x" if "0 \<le> x" for x :: int using that by simp
    have "sgn m = - 1" using True by simp
    then have "signed_parts m = (- days_of ?a, - hours_of ?a, - minutes_of ?a, - seconds_of ?a,
        - mseconds_of ?a)" by (simp only: signed_parts_def mult_minus1)
    then show ?thesis
      using True b ck by (simp add: ts_GetText_def ts_GetFields_run [OF assms] Let_def)
  next
    case False
    have "signed_parts m = (days_of ?a, hours_of ?a, minutes_of ?a, seconds_of ?a, mseconds_of ?a)"
    proof (cases "m = 0")
      case True
      then show ?thesis by (simp add: signed_parts_def parts_defs)
    next
      case nz: False
      then have "sgn m = 1" using False by simp
      then show ?thesis by (simp only: signed_parts_def mult_1_left)
    qed
    then show ?thesis using False by (simp add: ts_GetText_def ts_GetFields_run [OF assms] Let_def)
  qed
  show ?thesis
    using ts_build_run [of 17 junk "m < 0" "days_of ?a" "hours_of ?a" "minutes_of ?a"
        "seconds_of ?a" "mseconds_of ?a"]
    unfolding get fmt ts_text_def by simp
qed

text \<open>Spans of less than a hundred days fit the array.\<close>

lemma ts_text_fits:
  assumes "magnitude m < 100 * MS_DAY"
  shows "length (ts_text m) \<le> 16"
proof -
  let ?a = "magnitude m"
  have "nat (days_of ?a) < 100" "nat (hours_of ?a) < 100" "nat (minutes_of ?a) < 100"
    "nat (seconds_of ?a) < 100" "nat (mseconds_of ?a) < 1000"
    using parts_bounds [of ?a] days_bounds [OF magnitude_simps(1) assms] by (simp_all add: nat_less_iff)
  note l = dec_nat_length(2) [OF this(1)] dec_nat_length(2) [OF this(2)]
    dec_nat_length(2) [OF this(3)] dec_nat_length(2) [OF this(4)] dec_nat_length(3) [OF this(5)]
  have "length (ts_text m) \<le> 5 + length (dec_nat (nat (days_of ?a))) +
      length (dec_nat (nat (hours_of ?a))) + length (dec_nat (nat (minutes_of ?a))) +
      length (dec_nat (nat (seconds_of ?a))) + length (dec_nat (nat (mseconds_of ?a)))"
    by (simp add: ts_text_def)
  with l show ?thesis by linarith
qed

section \<open>Reading the text form\<close>

lemma ts_SetText_run:
  assumes "is_cstring psz" and "length (text_of psz) \<le> 255"
  shows "ts_SetText junk psz =
    Option.bind (scan5 (text_of psz)) (\<lambda>(d, h, m, s, ms). ts_SetFields d h m s ms)"
proof -
  obtain a where "CiStrCpy (Some (new_array junk 256)) (Some psz) 256 =
      Some (int (length (text_of psz)) < 256, Some a, length (text_of psz))"
      "text_of a = text_of psz"
    using CiStrCpy_run [OF assms(1), of 256 "new_array junk 256"] assms(2) by auto
  then show ?thesis by (simp add: ts_SetText_def)
qed

lemma scan5_dec:
  assumes "int h < 2 ^ 31" "int m < 2 ^ 31" "int s < 2 ^ 31" "int ms < 2 ^ 31"
    and "next_int (p @ 58 # dec_nat h @ 58 # dec_nat m @ 58 # dec_nat s @ 46 # dec_nat ms) =
      Some (d, dec_nat h @ 58 # dec_nat m @ 58 # dec_nat s @ 46 # dec_nat ms)"
  shows "scan5 (p @ 58 # dec_nat h @ 58 # dec_nat m @ 58 # dec_nat s @ 46 # dec_nat ms) =
    Some (d, int h, int m, int s, int ms)"
  using assms(5) next_int_dec(1) [OF assms(1)] next_int_dec(1) [OF assms(2)]
    next_int_dec(2) [OF assms(3)] next_int_dec(3) [OF assms(4)]
  by (simp add: scan5_def)

lemma scan5_ts_text:
  assumes "magnitude m < 2 ^ 31 * MS_DAY"
  shows "scan5 (ts_text m) = Some ((if m < 0 then - days_of (magnitude m) else days_of (magnitude m)),
    hours_of (magnitude m), minutes_of (magnitude m), seconds_of (magnitude m),
    mseconds_of (magnitude m))"
proof -
  let ?a = "magnitude m"
  note b = parts_bounds [of ?a] days_bounds [OF magnitude_simps(1) assms]
  let ?d = "nat (days_of ?a)"
  have i: "int ?d = days_of ?a" "int (nat (hours_of ?a)) = hours_of ?a"
    "int (nat (minutes_of ?a)) = minutes_of ?a" "int (nat (seconds_of ?a)) = seconds_of ?a"
    "int (nat (mseconds_of ?a)) = mseconds_of ?a" using b by simp_all
  have lt: "int (nat (hours_of ?a)) < 2 ^ 31" "int (nat (minutes_of ?a)) < 2 ^ 31"
    "int (nat (seconds_of ?a)) < 2 ^ 31" "int (nat (mseconds_of ?a)) < 2 ^ 31" "int ?d < 2 ^ 31"
    "int ?d \<le> 2 ^ 31"
    unfolding i using b by simp_all
  show ?thesis
  proof (cases "m < 0")
    case True
    have "ts_text m = (45 # dec_nat ?d) @ 58 # dec_nat (nat (hours_of ?a)) @ 58 #
        dec_nat (nat (minutes_of ?a)) @ 58 # dec_nat (nat (seconds_of ?a)) @ 46 #
        dec_nat (nat (mseconds_of ?a))" using True by (simp add: ts_text_def)
    with scan5_dec [OF lt(1-4), of "45 # dec_nat ?d" "- int ?d"] next_int_minus [OF lt(6)] i True
    show ?thesis by simp
  next
    case False
    have "ts_text m = dec_nat ?d @ 58 # dec_nat (nat (hours_of ?a)) @ 58 #
        dec_nat (nat (minutes_of ?a)) @ 58 # dec_nat (nat (seconds_of ?a)) @ 46 #
        dec_nat (nat (mseconds_of ?a))" using False by (simp add: ts_text_def)
    with scan5_dec [OF lt(1-4), of "dec_nat ?d" "int ?d"] next_int_dec(1) [OF lt(5)] i False
    show ?thesis by simp
  qed
qed

text \<open>
  What comes back from the text of a span of less than a hundred days: the span itself when it is
  not negative, but for a negative one only the days keep the sign.
\<close>

lemma ts_text_read_back:
  assumes "magnitude m < 100 * MS_DAY"
  shows "\<exists>a. ts_GetText junk (CMTimeSpan2 m) = Some a \<and> ts_SetText junk' a =
    Some (CMTimeSpan2 (if m < 0 then magnitude m - 2 * days_of (magnitude m) * MS_DAY else m))"
proof -
  let ?a = "magnitude m"
  have big: "?a < 2 ^ 31 * MS_DAY" using assms by simp
  note b = parts_bounds [of ?a] days_bounds [OF magnitude_simps(1) big]
  obtain c where c: "ts_GetText junk (CMTimeSpan2 m) = Some c" "is_cstring c"
      "text_of c = ts_text m"
    using ts_GetText_run [OF big, of junk] ts_text_fits [OF assms] by auto
  have ints: "is_int (days_of ?a)" "is_int (- days_of ?a)" "is_int (hours_of ?a)"
    "is_int (minutes_of ?a)" "is_int (seconds_of ?a)" "is_int (mseconds_of ?a)"
    using b by (simp_all add: is_int_def)
  have "length (text_of c) \<le> 255" using c(3) ts_text_fits [OF assms] by simp
  from ts_SetText_run [OF c(2) this, of junk'] c(3) scan5_ts_text [OF big]
  have "ts_SetText junk' c = ts_SetFields (if m < 0 then - days_of ?a else days_of ?a) (hours_of ?a)
      (minutes_of ?a) (seconds_of ?a) (mseconds_of ?a)" by simp
  also have "\<dots> = Some (CMTimeSpan2 (if m < 0 then ?a - 2 * days_of ?a * MS_DAY else m))"
    using ints parts_sum [of ?a] by (auto simp: ts_SetFields_total magnitude_simps)
  finally show ?thesis using c(1) by blast
qed

section \<open>Frames, with exact arithmetic\<close>

text \<open>
  Rational arithmetic in the place of the machine's: what the conversions compute when no
  rounding gets in the way, as for rates and counts that are small integers.
\<close>

definition rat_trunc :: "rat \<Rightarrow> int" where
  "rat_trunc x = (if x < 0 then \<lceil>x\<rceil> else \<lfloor>x\<rfloor>)"

definition exact_fpu :: "(rat, rat) fpu" where
  "exact_fpu =
     \<lparr>f_of_int = of_int, f_mul = (*), f_div = (/), f_eq = (=), f_to_int = rat_trunc,
      f_to_ll = rat_trunc, d_of_int = of_int, d_of_f = (\<lambda>x. x), d_half = 1 / 2, d_add = (+),
      d_mul = (*), d_div = (/), d_to_int = rat_trunc\<rparr>"

lemma rat_trunc_int [simp]: "rat_trunc (of_int n) = n"
  by (simp add: rat_trunc_def)

lemma rat_trunc_half: "0 \<le> n \<Longrightarrow> rat_trunc (of_int n + 1 / 2) = n"
proof -
  assume "0 \<le> n"
  then have "0 \<le> (of_int n :: rat)" by simp
  then show ?thesis by (simp add: rat_trunc_def floor_eq_iff)
qed

lemma ten_power_exact: "ten_power exact_fpu (of_int r) 1 = Some 1"
  by (subst ten_power.simps) (simp add: exact_fpu_def)

text \<open>Whole seconds become the right number of frames.\<close>

lemma MSecondToFrame_seconds:
  assumes "0 \<le> sec" "sec * 1000 < 2 ^ 63" "0 < r"
  shows "MSecondToFrame exact_fpu (sec * 1000) (of_int r) = Some (sec * r)"
proof -
  have "rat_trunc (of_int sec * of_int r + 1 / 2) = sec * r"
    using rat_trunc_half [of "sec * r"] assms by simp
  then show ?thesis
    using assms ten_power_exact [of r]
    by (simp add: MSecondToFrame_def exact_fpu_def Let_def ck_int_def ck_ll_def c_div_nonneg)
qed

text \<open>
  The other way the remainder is taken against the number of seconds instead of the frames in
  them, so the frames of one second become almost two seconds.
\<close>

lemma FrameToMSecond_one_second:
  assumes "2 \<le> r" "r < 2 ^ 31"
  shows "\<exists>ms. FrameToMSecond exact_fpu r (of_int r) = Some ms \<and> 1500 \<le> ms"
proof -
  let ?x = "1000 + (of_int (r - 1) * (1000 / of_int r) + 1 / 2) :: rat"
  have r: "(2 :: rat) \<le> of_int r" using assms(1) by simp
  have "of_int (r - 1) * (1000 / of_int r) = (1000 - 1000 / of_int r :: rat)"
    using r by (simp add: field_simps)
  moreover have "1000 / of_int r \<le> (500 :: rat)" using r by (simp add: field_simps)
  ultimately have x: "1500 \<le> ?x" by simp
  have "(0 :: rat) \<le> ?x" using x by linarith
  then have "rat_trunc ?x = \<lfloor>?x\<rfloor>" by (simp add: rat_trunc_def)
  moreover have "1500 \<le> \<lfloor>?x\<rfloor>" using x by (simp add: le_floor_iff)
  moreover have "FrameToMSecond exact_fpu r (of_int r) = Some (rat_trunc ?x)"
    using assms ten_power_exact [of r] rat_trunc_int [of 1]
    by (simp add: FrameToMSecond_def exact_fpu_def Let_def ck_ll_def)
  ultimately show ?thesis by simp
qed

end
