(* ===== verification/Calendar_Time.thy ===== *)
theory Calendar_Time
  imports Time_Span
begin

text \<open>
  \<open>CMTime2\<close> (\<open>MTime2.h\<close>, \<open>MTime2.cpp\<close>): a point in time in milliseconds and its text forms.
  The C library's calendar (\<open>mktime\<close>, \<open>localtime\<close>, \<open>ftime\<close>) depends on the time zone and is a
  parameter.  \<open>SetTime\<close> does not initialise \<open>tm_isdst\<close>, so what it holds is a parameter, too.
\<close>

record tm =
  tm_year :: int
  tm_mon :: int
  tm_mday :: int
  tm_hour :: int
  tm_min :: int
  tm_sec :: int
  tm_isdst :: int

record clib =
  c_mktime :: "tm \<Rightarrow> int"
  c_localtime :: "int \<Rightarrow> tm option"
  c_ftime :: "int \<times> int"

datatype CMTime2 = CMTime2 (m_llMSecond: int)

datatype mtime_case = MTIME_CASE_FRAMECOUNT | MTIME_CASE_MILLIESECOND

type_synonym fields7 = "int \<times> int \<times> int \<times> int \<times> int \<times> int \<times> int"

section \<open>Arithmetic and comparison\<close>

definition mt_now :: "clib \<Rightarrow> CMTime2 option" where
  "mt_now C = map_option CMTime2 (ck_ll (fst (c_ftime C) * 1000 + snd (c_ftime C)))"

definition mt_add_ms :: "CMTime2 \<Rightarrow> int \<Rightarrow> CMTime2 option" where
  "mt_add_ms t llMSeconds = map_option CMTime2 (ck_ll (m_llMSecond t + llMSeconds))"

definition mt_add :: "CMTime2 \<Rightarrow> CMTimeSpan2 \<Rightarrow> CMTime2 option" where
  "mt_add t ts = map_option CMTime2 (ck_ll (m_llMSecond t + ts_GetTimeSpan ts))"

definition mt_sub_ms :: "CMTime2 \<Rightarrow> int \<Rightarrow> CMTime2 option" where
  "mt_sub_ms t llMSeconds = map_option CMTime2 (ck_ll (m_llMSecond t - llMSeconds))"

definition mt_sub :: "CMTime2 \<Rightarrow> CMTimeSpan2 \<Rightarrow> CMTime2 option" where
  "mt_sub t ts = map_option CMTime2 (ck_ll (m_llMSecond t - ts_GetTimeSpan ts))"

definition mt_diff :: "CMTime2 \<Rightarrow> CMTime2 \<Rightarrow> CMTimeSpan2 option" where
  "mt_diff a b = map_option (\<lambda>m. ts_SetTimeSpan m ts_zero) (ck_ll (m_llMSecond a - m_llMSecond b))"

definition mt_eq :: "CMTime2 \<Rightarrow> CMTime2 \<Rightarrow> bool" where "mt_eq a b \<longleftrightarrow> m_llMSecond a = m_llMSecond b"
definition mt_gt :: "CMTime2 \<Rightarrow> CMTime2 \<Rightarrow> bool" where "mt_gt a b \<longleftrightarrow> m_llMSecond b < m_llMSecond a"
definition mt_lt :: "CMTime2 \<Rightarrow> CMTime2 \<Rightarrow> bool" where "mt_lt a b \<longleftrightarrow> m_llMSecond a < m_llMSecond b"
definition mt_le :: "CMTime2 \<Rightarrow> CMTime2 \<Rightarrow> bool" where "mt_le a b \<longleftrightarrow> m_llMSecond a \<le> m_llMSecond b"
definition mt_ge :: "CMTime2 \<Rightarrow> CMTime2 \<Rightarrow> bool" where "mt_ge a b \<longleftrightarrow> m_llMSecond b \<le> m_llMSecond a"

definition mt_SetTime :: "int \<Rightarrow> CMTime2 \<Rightarrow> CMTime2" where
  "mt_SetTime llMSecond t = CMTime2 llMSecond"

definition mt_GetTime :: "CMTime2 \<Rightarrow> int" where
  "mt_GetTime t = m_llMSecond t"

section \<open>Calendar fields\<close>

definition mt_SetFields :: "clib \<Rightarrow> int \<Rightarrow> fields7 \<Rightarrow> CMTime2 \<Rightarrow> (bool \<times> CMTime2) option" where
  "mt_SetFields C isdst f t =
     (case f of (iYear, iMonth, iDay, iHour, iMinute, iSecond, iMSecond) \<Rightarrow> do {
        y \<leftarrow> ck_int (iYear - 1900);
        mo \<leftarrow> ck_int (iMonth - 1);
        let tTime = c_mktime C \<lparr>tm_year = y, tm_mon = mo, tm_mday = iDay, tm_hour = iHour,
                                tm_min = iMinute, tm_sec = iSecond, tm_isdst = isdst\<rparr>;
        if tTime = - 1 then Some (False, t)
        else do { m \<leftarrow> ck_ll (tTime * 1000 + iMSecond); Some (True, CMTime2 m) } })"

text \<open>\<open>Some None\<close> when \<open>localtime\<close> fails and \<open>GetTime\<close> returns \<open>false\<close>.\<close>

definition mt_GetFields :: "clib \<Rightarrow> CMTime2 \<Rightarrow> fields7 option option" where
  "mt_GetFields C t =
     (case c_localtime C (c_div (m_llMSecond t) 1000) of
        None \<Rightarrow> Some None
      | Some p \<Rightarrow> do {
          y \<leftarrow> ck_int (tm_year p + 1900);
          mo \<leftarrow> ck_int (tm_mon p + 1);
          Some (Some (y, mo, tm_mday p, tm_hour p, tm_min p, tm_sec p,
                      to_int32 (c_mod (m_llMSecond t) 1000))) })"

definition mt_GetYear :: "clib \<Rightarrow> CMTime2 \<Rightarrow> int option" where
  "mt_GetYear C t =
     (case c_localtime C (c_div (m_llMSecond t) 1000) of
        None \<Rightarrow> Some 0 | Some p \<Rightarrow> ck_int (tm_year p + 1900))"

definition mt_GetMonth :: "clib \<Rightarrow> CMTime2 \<Rightarrow> int option" where
  "mt_GetMonth C t =
     (case c_localtime C (c_div (m_llMSecond t) 1000) of
        None \<Rightarrow> Some 0 | Some p \<Rightarrow> ck_int (tm_mon p + 1))"

section \<open>Text\<close>

definition scan7 :: "byte list \<Rightarrow> fields7 option" where
  "scan7 t = do {
     (a, t1) \<leftarrow> next_int t;
     (b, t2) \<leftarrow> next_int t1;
     (c, t3) \<leftarrow> next_int t2;
     (d, t4) \<leftarrow> next_int t3;
     (e, t5) \<leftarrow> next_int t4;
     (f, t6) \<leftarrow> next_int t5;
     (g, t7) \<leftarrow> next_int t6;
     Some (a, b, c, d, e, f, g) }"

definition mt_SetText ::
  "clib \<Rightarrow> int \<Rightarrow> (nat \<Rightarrow> byte) \<Rightarrow> carray \<Rightarrow> CMTime2 \<Rightarrow> (bool \<times> CMTime2) option" where
  "mt_SetText C isdst junk pszTime t = do {
     (_, szTemp, _) \<leftarrow> CiStrCpy (Some (new_array junk 256)) (Some pszTime) 256;
     tmp \<leftarrow> szTemp;
     f \<leftarrow> scan7 (text_of tmp);
     mt_SetFields C isdst f t }"

text \<open>\<open>"%04d:%02d:%02d:%02d:%02d:%02d:%03d"\<close> into 24 bytes.\<close>

definition time_text :: "fields7 \<Rightarrow> byte list" where
  "time_text f =
     (case f of (y, mo, d, h, mi, s, ms) \<Rightarrow>
        fmt_0d 4 y @ 58 # fmt_0d 2 mo @ 58 # fmt_0d 2 d @ 58 # fmt_0d 2 h @ 58 # fmt_0d 2 mi @
        58 # fmt_0d 2 s @ 58 # fmt_0d 3 ms)"

definition mt_GetText :: "clib \<Rightarrow> (nat \<Rightarrow> byte) \<Rightarrow> CMTime2 \<Rightarrow> carray option option" where
  "mt_GetText C junk t =
     (case mt_GetFields C t of
        None \<Rightarrow> None
      | Some None \<Rightarrow> Some None
      | Some (Some f) \<Rightarrow> map_option Some (sprintf_into (new_array junk 24) (time_text f)))"

section \<open>Frames\<close>

definition mt_SetFrameTime :: "('f, 'd) fpu \<Rightarrow> int \<Rightarrow> 'f \<Rightarrow> CMTime2 \<Rightarrow> CMTime2 option" where
  "mt_SetFrameTime F llFrame rate t = map_option (\<lambda>m. mt_SetTime m t) (FrameToMSecond F llFrame rate)"

definition mt_GetFrameTime :: "('f, 'd) fpu \<Rightarrow> CMTime2 \<Rightarrow> 'f \<Rightarrow> int option" where
  "mt_GetFrameTime F t rate = MSecondToFrame F (mt_GetTime t) rate"

definition mt_SetFrameFields ::
  "('f, 'd) fpu \<Rightarrow> clib \<Rightarrow> int \<Rightarrow> fields7 \<Rightarrow> 'f \<Rightarrow> CMTime2 \<Rightarrow> (bool \<times> CMTime2) option" where
  "mt_SetFrameFields F C isdst f rate t =
     (case f of (y, mo, d, h, mi, s, iFrame) \<Rightarrow> do {
        llMSecond \<leftarrow> FrameToMSecond F iFrame rate;
        mt_SetFields C isdst (y, mo, d, h, mi, s, to_int32 llMSecond) t })"

definition mt_GetFrameFields ::
  "('f, 'd) fpu \<Rightarrow> clib \<Rightarrow> CMTime2 \<Rightarrow> 'f \<Rightarrow> fields7 option option" where
  "mt_GetFrameFields F C t rate =
     (case mt_GetFields C t of
        None \<Rightarrow> None
      | Some None \<Rightarrow> Some None
      | Some (Some (y, mo, d, h, mi, s, iMSecond)) \<Rightarrow>
          map_option (\<lambda>n. Some (y, mo, d, h, mi, s, to_int32 n)) (MSecondToFrame F iMSecond rate))"

definition mt_SetFrameText ::
  "('f, 'd) fpu \<Rightarrow> clib \<Rightarrow> int \<Rightarrow> (nat \<Rightarrow> byte) \<Rightarrow> carray \<Rightarrow> 'f \<Rightarrow> CMTime2 \<Rightarrow> (bool \<times> CMTime2) option"
where
  "mt_SetFrameText F C isdst junk psz rate t = do {
     (_, szTemp, _) \<leftarrow> CiStrCpy (Some (new_array junk 256)) (Some psz) 256;
     tmp \<leftarrow> szTemp;
     f \<leftarrow> scan7 (text_of tmp);
     mt_SetFrameFields F C isdst f rate t }"

text \<open>The frame text is put together with \<open>CiStrCpy\<close> and \<open>CiStrCat\<close> in 23 bytes.\<close>

definition mt_GetFrameText ::
  "('f, 'd) fpu \<Rightarrow> clib \<Rightarrow> (nat \<Rightarrow> byte) \<Rightarrow> CMTime2 \<Rightarrow> 'f \<Rightarrow> carray option option" where
  "mt_GetFrameText F C junk t rate =
     (case mt_GetFrameFields F C t rate of
        None \<Rightarrow> None
      | Some None \<Rightarrow> Some None
      | Some (Some (y, mo, d, h, mi, s, f)) \<Rightarrow> do {
          (_, st, _) \<leftarrow> CiStrCpy (Some (new_array junk 23)) (Some (fmt_0d 4 y @ [0])) 23;
          a \<leftarrow> st;
          b \<leftarrow> cat_pieces a 23 [[58], fmt_0d 2 mo, [58], fmt_0d 2 d, [58], fmt_0d 2 h, [58],
                 fmt_0d 2 mi, [58], fmt_0d 2 s, [46], fmt_0d 2 f];
          Some (Some b) })"

section \<open>The database forms\<close>

text \<open>\<open>g_dFramePerSec\<close> is the literal \<open>29.97\<close>.\<close>

definition MsecToFrameCnt :: "('f, 'd) fpu \<Rightarrow> 'd \<Rightarrow> int \<Rightarrow> int" where
  "MsecToFrameCnt F g_dFramePerSec iMillieSecond =
     to_int32 (d_to_int F (d_add F (d_div F (d_mul F (d_of_int F iMillieSecond) g_dFramePerSec)
       (d_of_int F 1000)) (d_half F)))"

definition mt_GetFullString ::
  "('f, 'd) fpu \<Rightarrow> 'd \<Rightarrow> clib \<Rightarrow> (nat \<Rightarrow> byte) \<Rightarrow> mtime_case \<Rightarrow> CMTime2 \<Rightarrow> carray option option"
where
  "mt_GetFullString F g C junk iCase t =
     (case mt_GetFields C t of
        None \<Rightarrow> None
      | Some None \<Rightarrow> Some None
      | Some (Some (y, mo, d, h, mi, s, ms)) \<Rightarrow>
          map_option Some (sprintf_into (new_array junk 18)
            (fmt_0d 4 y @ fmt_0d 2 mo @ fmt_0d 2 d @ fmt_0d 2 h @ fmt_0d 2 mi @ fmt_0d 2 s @
             (case iCase of
                MTIME_CASE_FRAMECOUNT \<Rightarrow> fmt_0d 2 (MsecToFrameCnt F g ms)
              | MTIME_CASE_MILLIESECOND \<Rightarrow> fmt_0d 3 ms))))"

definition mt_Set :: "clib \<Rightarrow> int \<Rightarrow> carray \<Rightarrow> CMTime2 \<Rightarrow> (bool \<times> CMTime2) option" where
  "mt_Set C isdst pszTime t = do {
     len \<leftarrow> CiStrLen pszTime;
     if len \<noteq> 17 then Some (False, t) else do {
       let s = text_of pszTime;
       y \<leftarrow> field_at s 0 4;
       mo \<leftarrow> field_at s 4 2;
       d \<leftarrow> field_at s 6 2;
       h \<leftarrow> field_at s 8 2;
       mi \<leftarrow> field_at s 10 2;
       sec \<leftarrow> field_at s 12 2;
       ms \<leftarrow> field_at s 14 3;
       mt_SetFields C isdst (y, mo, d, h, mi, sec, ms) t } }"

text \<open>The constructor from a text; a text of another length leaves the member uninitialised.\<close>

definition mt_of_text :: "clib \<Rightarrow> int \<Rightarrow> int \<Rightarrow> carray \<Rightarrow> CMTime2 option" where
  "mt_of_text C isdst garbage pszTime = map_option snd (mt_Set C isdst pszTime (CMTime2 garbage))"

section \<open>The order and the arithmetic\<close>

instantiation CMTime2 :: linorder
begin

definition less_eq_CMTime2 :: "CMTime2 \<Rightarrow> CMTime2 \<Rightarrow> bool" where
  "less_eq_CMTime2 a b \<longleftrightarrow> m_llMSecond a \<le> m_llMSecond b"

definition less_CMTime2 :: "CMTime2 \<Rightarrow> CMTime2 \<Rightarrow> bool" where
  "less_CMTime2 a b \<longleftrightarrow> m_llMSecond a < m_llMSecond b"

instance
  by intro_classes (auto simp: less_eq_CMTime2_def less_CMTime2_def intro: CMTime2.expand)

end

lemma mt_comparisons:
  "mt_eq a b \<longleftrightarrow> a = b" "mt_lt a b \<longleftrightarrow> a < b" "mt_le a b \<longleftrightarrow> a \<le> b" "mt_gt a b \<longleftrightarrow> b < a"
  "mt_ge a b \<longleftrightarrow> b \<le> a"
  by (auto simp: mt_eq_def mt_lt_def mt_le_def mt_gt_def mt_ge_def less_CMTime2_def
      less_eq_CMTime2_def CMTime2.expand)

text \<open>A time moved by the difference of two others lands where it should.\<close>

lemma mt_diff_add:
  assumes "ck_ll (m_llMSecond a) \<noteq> None" and "mt_diff a b = Some ts"
  shows "mt_add b ts = Some a" "mt_sub a ts = Some b \<or> ck_ll (m_llMSecond b) = None"
  using assms
  by (auto simp: mt_diff_def mt_add_def mt_sub_def ts_SetTimeSpan_def ts_GetTimeSpan_def ck_ll_def
      split: if_splits)

section \<open>Reading back the text\<close>

lemma atoi_padded:
  assumes "int n < 2 ^ 31"
  shows "atoi (fmt_0d w (int n)) = Some (int n)" "\<forall>c \<in> set (fmt_0d w (int n)). is_digit c"
    "fmt_0d w (int n) \<noteq> []"
proof -
  let ?z = "replicate (w - length (dec_nat n)) (48 :: byte)"
  have t: "fmt_0d w (int n) = ?z @ dec_nat n" by (simp add: fmt_0d_def Let_def)
  have z: "is_digit 48" by (simp add: is_digit_def)
  show d: "\<forall>c \<in> set (fmt_0d w (int n)). is_digit c"
    unfolding t using z dec_nat_digits by auto
  show "fmt_0d w (int n) \<noteq> []" unfolding t by simp
  have "digits_value (replicate k 48 @ ds) = digits_value ds" for k and ds :: "byte list"
    by (induction k) (simp_all add: digits_value_def)
  then have v: "digits_value (fmt_0d w (int n)) = int n" by (simp add: t digits_value_dec)
  obtain c cs where e: "fmt_0d w (int n) = c # cs" and c: "is_digit c"
    using d \<open>fmt_0d w (int n) \<noteq> []\<close> by (cases "fmt_0d w (int n)") auto
  have "dropWhile is_space (fmt_0d w (int n)) = fmt_0d w (int n)"
    "takeWhile is_digit (fmt_0d w (int n)) = fmt_0d w (int n)"
    using d digit_not_special [OF c] by (simp_all add: e)
  then show "atoi (fmt_0d w (int n)) = Some (int n)"
    using v digit_not_special [OF c] assms by (simp add: atoi_def e Let_def ck_int_def)
qed

lemma next_int_padded:
  assumes "0 \<le> i" "i < 2 ^ 31"
  shows "next_int (fmt_0d w i @ 58 # rest) = Some (i, rest)" "next_int (fmt_0d w i) = Some (i, [])"
proof -
  obtain n where n: "i = int n" using assms(1) nonneg_int_cases by blast
  note p = atoi_padded [of n w, folded n, OF assms(2)]
  have "\<forall>c \<in> set (fmt_0d w i). c \<notin> {58, 46}" using p(2) digit_not_special by blast
  then show "next_int (fmt_0d w i @ 58 # rest) = Some (i, rest)"
    "next_int (fmt_0d w i) = Some (i, [])"
    using strtok_token [OF p(3), of "{58, 46}" 58] p(1) by (simp_all add: next_int_def)
qed

text \<open>A calendar date as \<open>localtime\<close> gives it, in a year of four digits.\<close>

definition valid_fields :: "fields7 \<Rightarrow> bool" where
  "valid_fields f \<longleftrightarrow>
     (case f of (y, mo, d, h, mi, s, ms) \<Rightarrow>
        0 \<le> y \<and> y < 10000 \<and> 0 \<le> mo \<and> mo < 100 \<and> 0 \<le> d \<and> d < 100 \<and> 0 \<le> h \<and> h < 100 \<and>
        0 \<le> mi \<and> mi < 100 \<and> 0 \<le> s \<and> s < 100 \<and> 0 \<le> ms \<and> ms < 1000)"

lemma scan7_time_text: "valid_fields f \<Longrightarrow> scan7 (time_text f) = Some f"
  by (cases f) (simp add: scan7_def time_text_def valid_fields_def next_int_padded)

lemma length_fmt_0d:
  assumes "0 \<le> i" "length (dec_nat (nat i)) \<le> w"
  shows "length (fmt_0d w i) = w"
  using assms by (simp add: fmt_0d_def Let_def)

lemma dec_nat_length4: "n < 10000 \<Longrightarrow> length (dec_nat n) \<le> 4"
  using dec_nat_length(3) [of "n div 10"] by (subst dec_nat.simps) simp

lemma length_time_text: "valid_fields f \<Longrightarrow> length (time_text f) = 23"
  using dec_nat_length4 dec_nat_length(2,3)
  by (cases f) (simp add: time_text_def valid_fields_def length_fmt_0d nat_less_iff)

lemma fmt_0d_nonzero: "0 \<le> i \<Longrightarrow> 0 \<notin> set (fmt_0d w i)"
  by (simp add: fmt_0d_def Let_def)

lemma time_text_nonzero: "valid_fields f \<Longrightarrow> 0 \<notin> set (time_text f)"
  by (cases f) (auto simp: time_text_def valid_fields_def dest: fmt_0d_nonzero)

lemma time_text_read_back:
  assumes g: "mt_GetFields C t = Some (Some f)" and v: "valid_fields f"
  shows "\<exists>a. mt_GetText C junk t = Some (Some a) \<and> length a = 24 \<and> text_of a = time_text f \<and>
    mt_SetText C isdst junk' a u = mt_SetFields C isdst f u"
proof -
  let ?a = "time_text f @ [0]"
  have "sprintf_into (new_array junk 24) (time_text f) = Some ?a"
    using length_time_text [OF v] by (simp add: sprintf_into_def blit_def)
  then have 1: "mt_GetText C junk t = Some (Some ?a)" by (simp add: mt_GetText_def g)
  have 2: "text_of ?a = time_text f" "is_cstring ?a" using time_text_nonzero [OF v] by simp_all
  obtain b where "CiStrCpy (Some (new_array junk' 256)) (Some ?a) 256 = Some (True, Some b, 23)"
      "text_of b = time_text f"
    using CiStrCpy_run [OF 2(2), of 256 "new_array junk' 256"] 2(1) length_time_text [OF v] by auto
  then have "mt_SetText C isdst junk' ?a u = mt_SetFields C isdst f u"
    by (simp add: mt_SetText_def scan7_time_text [OF v])
  with 1 2 show ?thesis using length_time_text [OF v] by auto
qed

text \<open>
  Where \<open>mktime\<close> inverts \<open>localtime\<close> at this moment whatever \<open>tm_isdst\<close> it is given, the time
  itself comes back.
\<close>

lemma time_round_trip:
  assumes "0 \<le> m_llMSecond t" "m_llMSecond t < 2 ^ 63"
    and l: "c_localtime C (m_llMSecond t div 1000) = Some p"
    and inverse: "c_mktime C (p\<lparr>tm_isdst := isdst\<rparr>) = m_llMSecond t div 1000"
    and v: "valid_fields (tm_year p + 1900, tm_mon p + 1, tm_mday p, tm_hour p, tm_min p, tm_sec p,
        m_llMSecond t mod 1000)"
  shows "\<exists>a. mt_GetText C junk t = Some (Some a) \<and> mt_SetText C isdst junk' a u = Some (True, t)"
proof -
  let ?f = "(tm_year p + 1900, tm_mon p + 1, tm_mday p, tm_hour p, tm_min p, tm_sec p,
      m_llMSecond t mod 1000)"
  have ms: "to_int32 (m_llMSecond t mod 1000) = m_llMSecond t mod 1000"
    using pos_mod_sign [of 1000 "m_llMSecond t"] pos_mod_bound [of 1000 "m_llMSecond t"]
    by (simp add: to_int32_id)
  have g: "mt_GetFields C t = Some (Some ?f)"
    using assms(1) l v ms by (simp add: mt_GetFields_def c_simps valid_fields_def ck_int_def)
  have e: "p\<lparr>tm_isdst := isdst\<rparr> = \<lparr>tm_year = tm_year p, tm_mon = tm_mon p, tm_mday = tm_mday p,
      tm_hour = tm_hour p, tm_min = tm_min p, tm_sec = tm_sec p, tm_isdst = isdst\<rparr>" by simp
  have nn: "0 \<le> m_llMSecond t div 1000"
    using assms(1) pos_imp_zdiv_nonneg_iff [of 1000 "m_llMSecond t"] by simp
  have "ck_ll (m_llMSecond t div 1000 * 1000 + m_llMSecond t mod 1000) = Some (m_llMSecond t)"
    unfolding div_mult_mod_eq using assms(1,2) by (simp add: ck_ll_def)
  moreover have "CMTime2 (m_llMSecond t) = t" by (cases t) simp
  ultimately have "mt_SetFields C isdst ?f u = Some (True, t)"
    using inverse [unfolded e] v nn
    by (simp add: mt_SetFields_def valid_fields_def ck_int_def Let_def)
  then show ?thesis using time_text_read_back [OF g v] by metis
qed

end
