(* ===== verification/Link_Queue.thy ===== *)
theory Link_Queue
  imports Main "HOL-Library.Monad_Syntax"
begin

text \<open>
  \<open>CLinkItemQueueTemplate\<close> and \<open>CLinkItemCacheTemplate\<close> (\<open>LinkedListTemplate.h\<close>): doubly linked
  queues of nodes in a heap, and a cache of free nodes on top of the queue.  The chains of nodes
  and the interface of a queue are stated here; \<open>Linked_List\<close> builds on them.

  An address is a natural number, 0 is \<open>NULL\<close>.  Following a null or freed pointer, deleting twice
  and reading an uninitialised variable are \<open>None\<close>.  The numbers of items are integers without a bound; the
  code counts them in an \<open>int\<close>, which is enough for 2147483647 nodes.  What \<open>Lock\<close> and \<open>UnLock\<close> of the mutex
  return is a parameter of the operations that call them.
\<close>

type_synonym addr = nat

record CLinkItem =
  m_pPrevious :: addr
  m_pNext :: addr
  m_pItem :: addr

type_synonym link_heap = "addr \<Rightarrow> CLinkItem option"

text \<open>The memory: the nodes, the live objects, and where the next node will be allocated.\<close>

record lmem =
  nodes :: link_heap
  objects :: "addr set"
  brk :: addr

record link_queue =
  q_pHead :: addr
  q_pTail :: addr
  q_iNItems :: int

section \<open>Access to nodes and objects\<close>

definition node_at :: "lmem \<Rightarrow> addr \<Rightarrow> CLinkItem option" where
  "node_at m p = (if p = 0 then None else nodes m p)"

definition upd_node :: "addr \<Rightarrow> (CLinkItem \<Rightarrow> CLinkItem) \<Rightarrow> lmem \<Rightarrow> lmem option" where
  "upd_node p f m = map_option (\<lambda>l. m\<lparr>nodes := (nodes m)(p \<mapsto> f l)\<rparr>) (node_at m p)"

definition new_node :: "lmem \<Rightarrow> addr \<times> lmem" where
  "new_node m =
     (brk m, m\<lparr>nodes := (nodes m)(brk m \<mapsto> \<lparr>m_pPrevious = 0, m_pNext = 0, m_pItem = 0\<rparr>),
              brk := Suc (brk m)\<rparr>)"

text \<open>\<open>delete\<close> of a null pointer does nothing.\<close>

definition delete_node :: "addr \<Rightarrow> lmem \<Rightarrow> lmem option" where
  "delete_node p m =
     (if p = 0 then Some m
      else if nodes m p = None then None else Some (m\<lparr>nodes := (nodes m)(p := None)\<rparr>))"

definition delete_object :: "addr \<Rightarrow> lmem \<Rightarrow> lmem option" where
  "delete_object p m =
     (if p = 0 then Some m
      else if p \<notin> objects m then None else Some (m\<lparr>objects := objects m - {p}\<rparr>))"

section \<open>\<open>CLinkItemQueueTemplate\<close>\<close>

definition queue_new :: link_queue where
  "queue_new = \<lparr>q_pHead = 0, q_pTail = 0, q_iNItems = 0\<rparr>"

lemma queue_new_count [simp]: "q_iNItems queue_new = 0"
  by (simp add: queue_new_def)

text \<open>The loop of the destructor; on a cyclic chain it would fault on a freed node.\<close>

partial_function (option) delete_chain :: "addr \<Rightarrow> lmem \<Rightarrow> lmem option" where
  "delete_chain p m =
     (if p = 0 then Some m
      else do {
        l \<leftarrow> node_at m p;
        m1 \<leftarrow> delete_node p m;
        delete_chain (m_pNext l) m1 })"

definition queue_destroy :: "link_queue \<Rightarrow> lmem \<Rightarrow> lmem option" where
  "queue_destroy q m = delete_chain (q_pHead q) m"

definition RawEnqueue :: "addr \<Rightarrow> link_queue \<Rightarrow> lmem \<Rightarrow> (bool \<times> link_queue \<times> lmem) option" where
  "RawEnqueue p q m =
     (if q_pHead q = 0 \<and> q_pTail q = 0 then do {
        m1 \<leftarrow> upd_node p (\<lambda>l. l\<lparr>m_pPrevious := 0\<rparr>) m;
        m2 \<leftarrow> upd_node p (\<lambda>l. l\<lparr>m_pNext := 0\<rparr>) m1;
        Some (True, q\<lparr>q_pHead := p, q_pTail := p\<rparr>, m2) }
      else do {
        m1 \<leftarrow> upd_node (q_pTail q) (\<lambda>l. l\<lparr>m_pNext := p\<rparr>) m;
        m2 \<leftarrow> upd_node p (\<lambda>l. l\<lparr>m_pPrevious := q_pTail q\<rparr>) m1;
        m3 \<leftarrow> upd_node p (\<lambda>l. l\<lparr>m_pNext := 0\<rparr>) m2;
        Some (True, q\<lparr>q_pTail := p\<rparr>, m3) })"

text \<open>The result has the value of \<open>*ppLinkItem\<close>.\<close>

definition RawDequeue :: "link_queue \<Rightarrow> lmem \<Rightarrow> ((bool \<times> addr) \<times> link_queue \<times> lmem) option" where
  "RawDequeue q m =
     (if q_pHead q = 0 then Some ((False, 0), q, m)
      else if q_pHead q = q_pTail q
      then Some ((True, q_pHead q), q\<lparr>q_pHead := 0, q_pTail := 0\<rparr>, m)
      else do {
        l \<leftarrow> node_at m (q_pHead q);
        m1 \<leftarrow> upd_node (m_pNext l) (\<lambda>l. l\<lparr>m_pPrevious := 0\<rparr>) m;
        Some ((True, q_pHead q), q\<lparr>q_pHead := m_pNext l\<rparr>, m1) })"

definition RawLookAhead :: "link_queue \<Rightarrow> bool \<times> addr" where
  "RawLookAhead q = (if q_pHead q = 0 then (False, 0) else (True, q_pHead q))"

definition RawGetNItems :: "link_queue \<Rightarrow> int" where
  "RawGetNItems q = q_iNItems q"

definition RawSetNItems :: "int \<Rightarrow> link_queue \<Rightarrow> link_queue" where
  "RawSetNItems n q = q\<lparr>q_iNItems := n\<rparr>"

definition Queue_SafeGetNItems :: "bool \<Rightarrow> bool \<Rightarrow> link_queue \<Rightarrow> int" where
  "Queue_SafeGetNItems locked unlocked q =
     (if \<not> locked then - 1 else if \<not> unlocked then - 1 else q_iNItems q)"

definition SafeEnqueue ::
  "bool \<Rightarrow> bool \<Rightarrow> addr \<Rightarrow> link_queue \<Rightarrow> lmem \<Rightarrow> (bool \<times> link_queue \<times> lmem) option" where
  "SafeEnqueue locked unlocked p q m =
     (if p = 0 \<or> \<not> locked then Some (False, q, m)
      else do {
        (_, q1, m1) \<leftarrow> RawEnqueue p q m;
        Some (unlocked, q1\<lparr>q_iNItems := q_iNItems q1 + 1\<rparr>, m1) })"

definition SafeDequeue ::
  "bool \<Rightarrow> bool \<Rightarrow> link_queue \<Rightarrow> lmem \<Rightarrow> ((bool \<times> addr option) \<times> link_queue \<times> lmem) option" where
  "SafeDequeue locked unlocked q m =
     (if \<not> locked then Some ((False, None), q, m)
      else do {
        ((ok, p), q1, m1) \<leftarrow> RawDequeue q m;
        if \<not> ok then Some ((False, Some p), q1, m1)
        else Some ((unlocked, Some p), q1\<lparr>q_iNItems := q_iNItems q1 - 1\<rparr>, m1) })"

section \<open>\<open>CLinkItemCacheTemplate\<close>\<close>

text \<open>The results of the mutex are ignored here.\<close>

definition SafeReleaseLinkItem ::
  "int \<Rightarrow> addr \<Rightarrow> link_queue \<Rightarrow> lmem \<Rightarrow> (link_queue \<times> lmem) option" where
  "SafeReleaseLinkItem m_iCacheSize p q m =
     (if p = 0 then Some (q, m)
      else if m_iCacheSize \<le> q_iNItems q then map_option (\<lambda>m1. (q, m1)) (delete_node p m)
      else do {
        (_, q1, m1) \<leftarrow> RawEnqueue p q m;
        Some (q1\<lparr>q_iNItems := q_iNItems q1 + 1\<rparr>, m1) })"

definition SafeAllocLinkItem :: "link_queue \<Rightarrow> lmem \<Rightarrow> (addr \<times> link_queue \<times> lmem) option" where
  "SafeAllocLinkItem q m = do {
     ((_, p), q1, m1) \<leftarrow> RawDequeue q m;
     if p = 0 then (let (p1, m2) = new_node m1 in Some (p1, q1, m2))
     else Some (p, q1\<lparr>q_iNItems := q_iNItems q1 - 1\<rparr>, m1) }"

definition RawReleaseLinkItem ::
  "int \<Rightarrow> addr \<Rightarrow> link_queue \<Rightarrow> lmem \<Rightarrow> (link_queue \<times> lmem) option" where
  "RawReleaseLinkItem m_iCacheSize p q m =
     (if m_iCacheSize \<le> q_iNItems q then map_option (\<lambda>m1. (q, m1)) (delete_node p m)
      else do { (_, q1, m1) \<leftarrow> RawEnqueue p q m; Some (q1, m1) })"

definition RawAllocLinkItem :: "link_queue \<Rightarrow> lmem \<Rightarrow> (addr \<times> link_queue \<times> lmem) option" where
  "RawAllocLinkItem q m = do {
     ((_, p), q1, m1) \<leftarrow> RawDequeue q m;
     if p = 0 then (let (p1, m2) = new_node m1 in Some (p1, q1, m2)) else Some (p, q1, m1) }"

section \<open>Chains of nodes\<close>

text \<open>
  A chain is a list of addresses with the objects their nodes hold.  \<open>chain h p xs n\<close>: the
  nodes of \<open>xs\<close> are linked both ways in \<open>h\<close>, \<open>p\<close> is before the first of them and \<open>n\<close> behind the
  last.
\<close>

type_synonym cells = "(addr \<times> addr) list"

definition first :: "addr \<Rightarrow> cells \<Rightarrow> addr" where
  "first n xs = (case xs of [] \<Rightarrow> n | x # _ \<Rightarrow> fst x)"

definition final :: "addr \<Rightarrow> cells \<Rightarrow> addr" where
  "final p xs = (if xs = [] then p else fst (last xs))"

lemma first_simps [simp]:
  "first n [] = n" "first n (x # xs) = fst x" "first n (xs @ ys) = first (first n ys) xs"
  by (auto simp: first_def split: list.splits)

lemma final_simps [simp]:
  "final p [] = p" "final p (x # xs) = final (fst x) xs" "final p (xs @ ys) = final (final p xs) ys"
  by (auto simp: final_def)

lemma first_in: "first n xs \<in> insert n (fst ` set xs)"
  by (cases xs) auto

lemma final_in: "final p xs \<in> insert p (fst ` set xs)"
  by (auto simp: final_def)

primrec chain :: "link_heap \<Rightarrow> addr \<Rightarrow> cells \<Rightarrow> addr \<Rightarrow> bool" where
  "chain h p [] n = True"
| "chain h p (x # xs) n =
     (fst x \<noteq> 0 \<and> h (fst x) = Some \<lparr>m_pPrevious = p, m_pNext = first n xs, m_pItem = snd x\<rparr> \<and>
      chain h (fst x) xs n)"

lemma chain_append [simp]:
  "chain h p (xs @ ys) n \<longleftrightarrow> chain h p xs (first n ys) \<and> chain h (final p xs) ys n"
  by (induction xs arbitrary: p) auto

lemma chain_other [simp]: "x \<notin> fst ` set xs \<Longrightarrow> chain (h(x := v)) p xs n = chain h p xs n"
  by (induction xs arbitrary: p) auto

lemma chain_cong: "(\<And>x. x \<in> fst ` set xs \<Longrightarrow> h' x = h x) \<Longrightarrow> chain h' p xs n = chain h p xs n"
  by (induction xs arbitrary: p) auto

lemma chain_nonzero: "chain h p xs n \<Longrightarrow> x \<in> fst ` set xs \<Longrightarrow> x \<noteq> 0"
  by (induction xs arbitrary: p) auto

lemma chain_node: "chain h p xs n \<Longrightarrow> x \<in> fst ` set xs \<Longrightarrow> \<exists>l. h x = Some l"
  by (induction xs arbitrary: p) auto

text \<open>What a queue, a cache and a list all are: a chain between two ends.\<close>

definition dll :: "link_heap \<Rightarrow> addr \<Rightarrow> addr \<Rightarrow> cells \<Rightarrow> bool" where
  "dll h a b xs \<longleftrightarrow> chain h 0 xs 0 \<and> distinct (map fst xs) \<and> a = first 0 xs \<and> b = final 0 xs"

lemma dll_Nil [simp]: "dll h a b [] \<longleftrightarrow> a = 0 \<and> b = 0"
  by (auto simp: dll_def)

lemma dll_ends:
  assumes "dll h a b xs"
  shows "a = 0 \<longleftrightarrow> xs = []" and "b = 0 \<longleftrightarrow> xs = []"
    and "a = b \<longleftrightarrow> length xs \<le> 1"
proof -
  show "a = 0 \<longleftrightarrow> xs = []" using assms by (cases xs) (auto simp: dll_def)
  show "b = 0 \<longleftrightarrow> xs = []" using assms by (cases xs rule: rev_cases) (auto simp: dll_def)
  show "a = b \<longleftrightarrow> length xs \<le> 1"
  proof (cases xs)
    case Nil
    then show ?thesis using assms by simp
  next
    case (Cons x ys)
    then show ?thesis using assms
      by (cases ys rule: rev_cases) (auto simp: dll_def)
  qed
qed

lemma dll_other [simp]: "x \<notin> fst ` set xs \<Longrightarrow> dll (h(x := v)) a b xs = dll h a b xs"
  by (simp add: dll_def)

lemma dll_cong: "(\<And>x. x \<in> fst ` set xs \<Longrightarrow> h' x = h x) \<Longrightarrow> dll h' a b xs = dll h a b xs"
  unfolding dll_def using chain_cong by metis

lemma dll_single:
  "p \<noteq> 0 \<Longrightarrow> h p = Some \<lparr>m_pPrevious = 0, m_pNext = 0, m_pItem = v\<rparr> \<Longrightarrow> dll h p p [(p, v)]"
  by (simp add: dll_def)

text \<open>The three ways the code changes a chain: at the tail, at the head, in the middle.\<close>

lemma dll_snoc:
  assumes d: "dll h a b xs" and "xs \<noteq> []" and p: "p \<noteq> 0" "p \<notin> fst ` set xs"
  shows "\<exists>k. h b = Some k \<and> b \<noteq> 0 \<and>
           dll (h(b \<mapsto> k\<lparr>m_pNext := p\<rparr>, p \<mapsto> \<lparr>m_pPrevious = b, m_pNext = 0, m_pItem = v\<rparr>))
             a p (xs @ [(p, v)])"
proof -
  obtain ys z where xs: "xs = ys @ [z]" using assms(2) by (cases xs rule: rev_cases) auto
  show ?thesis using d p by (auto simp: dll_def xs)
qed

lemma dll_tail:
  assumes d: "dll h a b (x # y # xs)"
  shows "\<exists>k. h (fst y) = Some k \<and> fst y \<noteq> 0 \<and> m_pNext (the (h a)) = fst y \<and>
           dll (h(fst y \<mapsto> k\<lparr>m_pPrevious := 0\<rparr>)) (fst y) b (y # xs)"
  using d by (auto simp: dll_def)

lemma dll_butlast:
  assumes d: "dll h a b (xs @ [y, x])"
  shows "\<exists>k. h (fst y) = Some k \<and> fst y \<noteq> 0 \<and> m_pPrevious (the (h b)) = fst y \<and>
           dll (h(fst y \<mapsto> k\<lparr>m_pNext := 0\<rparr>)) a (fst y) (xs @ [y])"
  using d by (auto simp: dll_def)

lemma dll_middle:
  assumes d: "dll h a b (xs @ [y, x, z] @ zs)"
  shows "\<exists>l k k'. h (fst x) = Some l \<and> m_pPrevious l = fst y \<and> m_pNext l = fst z \<and>
           h (fst y) = Some k \<and> h (fst z) = Some k' \<and> fst y \<noteq> 0 \<and> fst z \<noteq> 0 \<and>
           fst x \<noteq> fst y \<and> fst x \<noteq> fst z \<and> fst y \<noteq> fst z \<and>
           dll (h(fst y \<mapsto> k\<lparr>m_pNext := fst z\<rparr>, fst z \<mapsto> k'\<lparr>m_pPrevious := fst y\<rparr>)) a b
             (xs @ [y, z] @ zs)"
  using d by (auto simp: dll_def)

section \<open>The queue is a list\<close>

lemma upd_node_Some [simp]:
  "p \<noteq> 0 \<Longrightarrow> nodes m p = Some l \<Longrightarrow>
     upd_node p f m = Some (m\<lparr>nodes := (nodes m)(p \<mapsto> f l)\<rparr>)"
  by (simp add: upd_node_def node_at_def)

lemma node_at_Some [simp]: "p \<noteq> 0 \<Longrightarrow> node_at m p = nodes m p"
  by (simp add: node_at_def)

lemma node_at_null [simp]: "node_at m 0 = None"
  by (simp add: node_at_def)

lemma node_links [simp]:
  fixes l :: CLinkItem
  shows "l\<lparr>m_pPrevious := a, m_pNext := b\<rparr> = \<lparr>m_pPrevious = a, m_pNext = b, m_pItem = m_pItem l\<rparr>"
    and "l\<lparr>m_pNext := b, m_pPrevious := a\<rparr> = \<lparr>m_pPrevious = a, m_pNext = b, m_pItem = m_pItem l\<rparr>"
  by simp_all

text \<open>What an operation may have changed.\<close>

definition local_change :: "addr set \<Rightarrow> lmem \<Rightarrow> lmem \<Rightarrow> bool" where
  "local_change A m m' \<longleftrightarrow>
     (\<forall>x. x \<notin> A \<longrightarrow> nodes m' x = nodes m x) \<and> objects m' = objects m \<and> brk m \<le> brk m'"

lemma local_change_refl [simp]: "local_change A m m"
  by (simp add: local_change_def)

lemma local_change_dll:
  "local_change A m m' \<Longrightarrow> A \<inter> fst ` set xs = {} \<Longrightarrow> dll (nodes m') a b xs = dll (nodes m) a b xs"
  unfolding local_change_def by (rule dll_cong) auto

lemma local_change_mono: "local_change A m m' \<Longrightarrow> A \<subseteq> B \<Longrightarrow> local_change B m m'"
  by (auto simp: local_change_def)

lemma local_change_trans:
  "local_change A m m1 \<Longrightarrow> local_change A m1 m2 \<Longrightarrow> local_change A m m2"
  by (auto simp: local_change_def)

definition queue_rep :: "link_queue \<Rightarrow> lmem \<Rightarrow> cells \<Rightarrow> bool" where
  "queue_rep q m xs \<longleftrightarrow> dll (nodes m) (q_pHead q) (q_pTail q) xs"

lemma queue_rep_count [simp]: "queue_rep (q\<lparr>q_iNItems := n\<rparr>) m xs = queue_rep q m xs"
  by (simp add: queue_rep_def)

lemma queue_rep_new: "queue_rep queue_new m []"
  by (simp add: queue_rep_def queue_new_def)

lemma RawEnqueue_run:
  assumes q: "queue_rep q m xs" and p: "p \<noteq> 0" "p \<notin> fst ` set xs" "nodes m p = Some l"
  shows "\<exists>q' m'. RawEnqueue p q m = Some (True, q', m') \<and> queue_rep q' m' (xs @ [(p, m_pItem l)]) \<and>
           q_iNItems q' = q_iNItems q \<and> local_change (insert p (fst ` set xs)) m m'"
proof (cases "xs = []")
  case True
  then show ?thesis using q p
    by (auto simp: queue_rep_def RawEnqueue_def dll_def local_change_def)
next
  case False
  from dll_snoc [OF q [unfolded queue_rep_def] False p(1,2), of "m_pItem l"]
  obtain k where k: "nodes m (q_pTail q) = Some k" "q_pTail q \<noteq> 0"
    and d: "dll ((nodes m)(q_pTail q \<mapsto> k\<lparr>m_pNext := p\<rparr>,
              p \<mapsto> \<lparr>m_pPrevious = q_pTail q, m_pNext = 0, m_pItem = m_pItem l\<rparr>))
              (q_pHead q) p (xs @ [(p, m_pItem l)])" by blast
  have t: "q_pTail q \<in> fst ` set xs"
    using q False by (auto simp: queue_rep_def dll_def final_def)
  then have "q_pTail q \<noteq> p" using p(2) by auto
  then show ?thesis using k d p(1,3) t
    by (auto simp: queue_rep_def RawEnqueue_def local_change_def)
qed

lemma RawDequeue_run:
  assumes q: "queue_rep q m (x # xs)"
  shows "\<exists>q' m'. RawDequeue q m = Some ((True, fst x), q', m') \<and> queue_rep q' m' xs \<and>
           q_iNItems q' = q_iNItems q \<and> local_change (fst ` set xs) m m'"
proof (cases xs)
  case Nil
  then show ?thesis using q by (auto simp: queue_rep_def RawDequeue_def dll_def)
next
  case (Cons y ys)
  from dll_tail [OF q [unfolded queue_rep_def Cons]]
  obtain k where k: "nodes m (fst y) = Some k" "fst y \<noteq> 0" "m_pNext (the (nodes m (q_pHead q))) = fst y"
    and d: "dll ((nodes m)(fst y \<mapsto> k\<lparr>m_pPrevious := 0\<rparr>)) (fst y) (q_pTail q) (y # ys)" by blast
  have h: "q_pHead q \<noteq> 0" "q_pHead q \<noteq> q_pTail q" "q_pHead q = fst x"
    using dll_ends [OF q [unfolded queue_rep_def]] q Cons by (auto simp: queue_rep_def dll_def)
  obtain l where "nodes m (q_pHead q) = Some l" using q by (auto simp: queue_rep_def dll_def)
  then show ?thesis using k d h Cons
    by (auto simp: queue_rep_def RawDequeue_def local_change_def)
qed

lemma RawDequeue_empty: "queue_rep q m [] \<Longrightarrow> RawDequeue q m = Some ((False, 0), q, m)"
  by (simp add: queue_rep_def RawDequeue_def)

lemma node_live:
  "queue_rep q m xs \<Longrightarrow> p \<in> fst ` set xs \<Longrightarrow> \<exists>l. nodes m p = Some l"
  unfolding queue_rep_def dll_def using chain_node by blast

text \<open>The destructor frees every node, and only those.\<close>

lemma delete_chain_run:
  "chain (nodes m) p xs 0 \<Longrightarrow> distinct (map fst xs) \<Longrightarrow>
     delete_chain (first 0 xs) m =
       Some (m\<lparr>nodes := (\<lambda>x. if x \<in> fst ` set xs then None else nodes m x)\<rparr>)"
proof (induction xs arbitrary: p m)
  case Nil
  then show ?case by (simp add: delete_chain.simps)
next
  case (Cons x xs)
  define m1 where "m1 = m\<lparr>nodes := (nodes m)(fst x := None)\<rparr>"
  have "chain (nodes m1) (fst x) xs 0" using Cons.prems by (simp add: m1_def)
  then have "delete_chain (first 0 xs) m1 =
      Some (m1\<lparr>nodes := (\<lambda>y. if y \<in> fst ` set xs then None else nodes m1 y)\<rparr>)"
    using Cons.IH Cons.prems by simp
  moreover have "delete_chain (first 0 (x # xs)) m = delete_chain (first 0 xs) m1"
    using Cons.prems by (simp add: delete_chain.simps [of "fst x"] delete_node_def m1_def)
  moreover have "(\<lambda>y. if y \<in> fst ` set xs then None else nodes m1 y) =
      (\<lambda>y. if y \<in> fst ` set (x # xs) then None else nodes m y)"
    by (auto simp: m1_def fun_eq_iff)
  ultimately show ?case by (simp add: m1_def)
qed

text \<open>
  The interface of a queue of nodes: a client may enqueue an allocated node that is not in the
  queue, and dequeue.  The laws are those of a list.
\<close>

locale node_queue =
  fixes rep :: "'s \<Rightarrow> addr list \<Rightarrow> bool"
    and spare :: "'s \<Rightarrow> addr \<Rightarrow> bool"
    and enq :: "addr \<Rightarrow> 's \<Rightarrow> (bool \<times> 's) option"
    and deq :: "'s \<Rightarrow> (addr \<times> 's) option"
  assumes enq: "rep s xs \<Longrightarrow> spare s p \<Longrightarrow> p \<notin> set xs \<Longrightarrow>
      \<exists>s'. enq p s = Some (True, s') \<and> rep s' (xs @ [p]) \<and> (\<forall>r. spare s r \<longrightarrow> spare s' r)"
    and deq: "rep s (x # xs) \<Longrightarrow>
      \<exists>s'. deq s = Some (x, s') \<and> rep s' xs \<and> (\<forall>r. spare s r \<longrightarrow> spare s' r)"
    and deq_empty: "rep s [] \<Longrightarrow> deq s = Some (0, s)"

datatype queue_op = Enq addr | Deq

text \<open>A run of a queue gives what the dequeues gave; the specification is a list.\<close>

primrec queue_run ::
  "(addr \<Rightarrow> 's \<Rightarrow> (bool \<times> 's) option) \<Rightarrow> ('s \<Rightarrow> (addr \<times> 's) option) \<Rightarrow> queue_op list \<Rightarrow> 's \<Rightarrow>
     (addr list \<times> 's) option"
where
  "queue_run enq deq [] s = Some ([], s)"
| "queue_run enq deq (c # cs) s =
     (case c of
        Enq p \<Rightarrow> do { (_, s1) \<leftarrow> enq p s; queue_run enq deq cs s1 }
      | Deq \<Rightarrow> do {
          (p, s1) \<leftarrow> deq s;
          (ps, s2) \<leftarrow> queue_run enq deq cs s1;
          Some (p # ps, s2) })"

primrec list_run :: "queue_op list \<Rightarrow> addr list \<Rightarrow> addr list \<times> addr list" where
  "list_run [] xs = ([], xs)"
| "list_run (c # cs) xs =
     (case c of
        Enq p \<Rightarrow> list_run cs (xs @ [p])
      | Deq \<Rightarrow> (case xs of
            [] \<Rightarrow> (let r = list_run cs [] in (0 # fst r, snd r))
          | x # ys \<Rightarrow> (let r = list_run cs ys in (x # fst r, snd r))))"

text \<open>A client that never enqueues a node that is already in the queue.\<close>

primrec well_used :: "(addr \<Rightarrow> bool) \<Rightarrow> queue_op list \<Rightarrow> addr list \<Rightarrow> bool" where
  "well_used ok [] xs \<longleftrightarrow> True"
| "well_used ok (c # cs) xs \<longleftrightarrow>
     (case c of Enq p \<Rightarrow> ok p \<and> p \<notin> set xs \<and> well_used ok cs (xs @ [p])
      | Deq \<Rightarrow> well_used ok cs (tl xs))"

lemma well_used_mono: "well_used ok cs xs \<Longrightarrow> (\<And>p. ok p \<Longrightarrow> ok' p) \<Longrightarrow> well_used ok' cs xs"
  by (induction cs arbitrary: xs) (auto split: queue_op.splits)

context node_queue
begin

lemma run_is_list_run:
  "rep s xs \<Longrightarrow> well_used (spare s) cs xs \<Longrightarrow>
     \<exists>s'. queue_run enq deq cs s = Some (fst (list_run cs xs), s') \<and> rep s' (snd (list_run cs xs))"
proof (induction cs arbitrary: s xs)
  case Nil
  then show ?case by simp
next
  case (Cons c cs)
  show ?case
  proof (cases c)
    case (Enq p)
    then have u: "spare s p" "p \<notin> set xs" "well_used (spare s) cs (xs @ [p])" using Cons.prems by auto
    obtain s1 where s1: "enq p s = Some (True, s1)" "rep s1 (xs @ [p])" "\<forall>r. spare s r \<longrightarrow> spare s1 r"
      using enq [OF Cons.prems(1) u(1,2)] by auto
    have "well_used (spare s1) cs (xs @ [p])" using u(3) s1(3) by (auto intro: well_used_mono)
    from Cons.IH [OF s1(2) this] show ?thesis using Enq s1(1) by auto
  next
    case Deq
    show ?thesis
    proof (cases xs)
      case Nil
      then have "well_used (spare s) cs []" using Deq Cons.prems by simp
      from Cons.IH [OF Cons.prems(1) [unfolded Nil] this] show ?thesis
        using Deq Nil deq_empty Cons.prems by (auto simp: Let_def)
    next
      case (Cons x ys)
      obtain s1 where s1: "deq s = Some (x, s1)" "rep s1 ys" "\<forall>r. spare s r \<longrightarrow> spare s1 r"
        using deq Cons.prems(1) unfolding Cons by blast
      have "well_used (spare s) cs ys" using Deq Cons Cons.prems by simp
      then have "well_used (spare s1) cs ys" using s1(3) by (auto intro: well_used_mono)
      from Cons.IH [OF s1(2) this] show ?thesis using Deq Cons s1(1) by (auto simp: Let_def)
    qed
  qed
qed

end

text \<open>The raw interface, and the counted one behind a working mutex, are such queues.\<close>

definition raw_rep :: "link_queue \<times> lmem \<Rightarrow> addr list \<Rightarrow> bool" where
  "raw_rep s as \<longleftrightarrow> (\<exists>xs. queue_rep (fst s) (snd s) xs \<and> as = map fst xs)"

definition raw_spare :: "link_queue \<times> lmem \<Rightarrow> addr \<Rightarrow> bool" where
  "raw_spare s p \<longleftrightarrow> p \<noteq> 0 \<and> nodes (snd s) p \<noteq> None"

definition raw_enq :: "addr \<Rightarrow> link_queue \<times> lmem \<Rightarrow> (bool \<times> link_queue \<times> lmem) option" where
  "raw_enq p s = RawEnqueue p (fst s) (snd s)"

definition raw_deq :: "link_queue \<times> lmem \<Rightarrow> (addr \<times> link_queue \<times> lmem) option" where
  "raw_deq s = map_option (\<lambda>((_, p), s1). (p, s1)) (RawDequeue (fst s) (snd s))"

definition safe_rep :: "link_queue \<times> lmem \<Rightarrow> addr list \<Rightarrow> bool" where
  "safe_rep s as \<longleftrightarrow> raw_rep s as \<and> q_iNItems (fst s) = int (length as)"

definition safe_enq :: "addr \<Rightarrow> link_queue \<times> lmem \<Rightarrow> (bool \<times> link_queue \<times> lmem) option" where
  "safe_enq p s = SafeEnqueue True True p (fst s) (snd s)"

definition safe_deq :: "link_queue \<times> lmem \<Rightarrow> (addr \<times> link_queue \<times> lmem) option" where
  "safe_deq s = do {
     ((_, p), s1) \<leftarrow> SafeDequeue True True (fst s) (snd s);
     p1 \<leftarrow> p;
     Some (p1, s1) }"

lemma spare_kept:
  assumes "queue_rep q m xs" "queue_rep q' m' ys" "local_change A m m'" "A \<subseteq> fst ` set ys"
    and "raw_spare (q, m) r"
  shows "raw_spare (q', m') r"
proof (cases "r \<in> fst ` set ys")
  case True
  then show ?thesis using node_live [OF assms(2)] assms(5) by (auto simp: raw_spare_def)
next
  case False
  then have "nodes m' r = nodes m r" using assms(3,4) by (auto simp: local_change_def)
  then show ?thesis using assms(5) by (simp add: raw_spare_def)
qed

lemma raw_enq_law:
  assumes "raw_rep s as" "raw_spare s p" "p \<notin> set as"
  shows "\<exists>q m. raw_enq p s = Some (True, q, m) \<and> raw_rep (q, m) (as @ [p]) \<and>
           q_iNItems q = q_iNItems (fst s) \<and> (\<forall>r. raw_spare s r \<longrightarrow> raw_spare (q, m) r)"
proof -
  obtain xs where xs: "queue_rep (fst s) (snd s) xs" "as = map fst xs"
    using assms(1) by (auto simp: raw_rep_def)
  obtain l where l: "nodes (snd s) p = Some l" "p \<noteq> 0" using assms(2) by (auto simp: raw_spare_def)
  have n: "p \<notin> fst ` set xs" using assms(3) xs(2) by simp
  obtain q m where r: "RawEnqueue p (fst s) (snd s) = Some (True, q, m)"
    "queue_rep q m (xs @ [(p, m_pItem l)])" "q_iNItems q = q_iNItems (fst s)"
    "local_change (insert p (fst ` set xs)) (snd s) m"
    using RawEnqueue_run [OF xs(1) l(2) n l(1)] by blast
  have "raw_spare (q, m) t" if "raw_spare s t" for t
    using spare_kept [OF xs(1) r(2,4)] that by auto
  then show ?thesis using r xs(2) unfolding raw_enq_def raw_rep_def by fastforce
qed

lemma raw_deq_law:
  assumes "raw_rep s (a # as)"
  shows "\<exists>q m. RawDequeue (fst s) (snd s) = Some ((True, a), q, m) \<and> raw_rep (q, m) as \<and>
           q_iNItems q = q_iNItems (fst s) \<and> (\<forall>r. raw_spare s r \<longrightarrow> raw_spare (q, m) r)"
proof -
  obtain x xs where xs: "queue_rep (fst s) (snd s) (x # xs)" "a = fst x" "as = map fst xs"
    using assms by (auto simp: raw_rep_def)
  obtain q m where r: "RawDequeue (fst s) (snd s) = Some ((True, fst x), q, m)"
    "queue_rep q m xs" "q_iNItems q = q_iNItems (fst s)"
    "local_change (fst ` set xs) (snd s) m"
    using RawDequeue_run [OF xs(1)] by blast
  have "raw_spare (q, m) t" if "raw_spare s t" for t
    using spare_kept [OF xs(1) r(2,4)] that by auto
  then show ?thesis using r xs(2,3) unfolding raw_rep_def by fastforce
qed

lemma raw_deq_empty: "raw_rep s [] \<Longrightarrow> RawDequeue (fst s) (snd s) = Some ((False, 0), s)"
  using RawDequeue_empty [of "fst s" "snd s"] by (auto simp: raw_rep_def)

lemma raw_rep_count [simp]: "raw_rep (q\<lparr>q_iNItems := n\<rparr>, m) as = raw_rep (q, m) as"
  by (simp add: raw_rep_def)

lemma raw_spare_count [simp]: "raw_spare (q\<lparr>q_iNItems := n\<rparr>, m) r = raw_spare (q, m) r"
  by (simp add: raw_spare_def)

interpretation rawq: node_queue raw_rep raw_spare raw_enq raw_deq
proof
  fix s xs p assume "raw_rep s xs" "raw_spare s p" "p \<notin> set xs"
  then show "\<exists>s'. raw_enq p s = Some (True, s') \<and> raw_rep s' (xs @ [p]) \<and>
      (\<forall>r. raw_spare s r \<longrightarrow> raw_spare s' r)"
    using raw_enq_law by blast
next
  fix s x xs assume "raw_rep s (x # xs)"
  from raw_deq_law [OF this]
  show "\<exists>s'. raw_deq s = Some (x, s') \<and> raw_rep s' xs \<and> (\<forall>r. raw_spare s r \<longrightarrow> raw_spare s' r)"
    by (auto simp: raw_deq_def)
next
  fix s assume "raw_rep s []"
  then show "raw_deq s = Some (0, s)" by (simp add: raw_deq_def raw_deq_empty)
qed

interpretation safeq: node_queue safe_rep raw_spare safe_enq safe_deq
proof
  fix s xs p assume a: "safe_rep s xs" "raw_spare s p" "p \<notin> set xs"
  have p: "p \<noteq> 0" using a(2) by (simp add: raw_spare_def)
  obtain q m where "raw_enq p s = Some (True, q, m)" "raw_rep (q, m) (xs @ [p])"
    "q_iNItems q = int (length xs)" "\<forall>r. raw_spare s r \<longrightarrow> raw_spare (q, m) r"
    using raw_enq_law [of s xs p] a unfolding safe_rep_def by metis
  then show "\<exists>s'. safe_enq p s = Some (True, s') \<and> safe_rep s' (xs @ [p]) \<and>
      (\<forall>r. raw_spare s r \<longrightarrow> raw_spare s' r)"
    using p by (auto simp: safe_enq_def SafeEnqueue_def raw_enq_def safe_rep_def)
next
  fix s x xs assume a: "safe_rep s (x # xs)"
  obtain q m where "RawDequeue (fst s) (snd s) = Some ((True, x), q, m)" "raw_rep (q, m) xs"
    "q_iNItems q = int (length (x # xs))" "\<forall>r. raw_spare s r \<longrightarrow> raw_spare (q, m) r"
    using raw_deq_law [of s x xs] a unfolding safe_rep_def by metis
  then show "\<exists>s'. safe_deq s = Some (x, s') \<and> safe_rep s' xs \<and>
      (\<forall>r. raw_spare s r \<longrightarrow> raw_spare s' r)"
    by (auto simp: safe_deq_def SafeDequeue_def safe_rep_def)
next
  fix s assume "safe_rep s []"
  then show "safe_deq s = Some (0, s)"
    by (auto simp: safe_deq_def SafeDequeue_def safe_rep_def dest!: raw_deq_empty)
qed

section \<open>The cache\<close>

definition counted :: "link_queue \<Rightarrow> lmem \<Rightarrow> cells \<Rightarrow> bool" where
  "counted q m ys \<longleftrightarrow> queue_rep q m ys \<and> q_iNItems q = int (length ys)"

lemma SafeReleaseLinkItem_run:
  assumes c: "counted q m ys" and p: "p \<noteq> 0" "p \<notin> fst ` set ys" "nodes m p = Some l"
  shows "\<exists>q' m' ys'. SafeReleaseLinkItem k p q m = Some (q', m') \<and> counted q' m' ys' \<and>
           fst ` set ys' \<subseteq> insert p (fst ` set ys) \<and>
           (p \<in> fst ` set ys' \<or> nodes m' p = None) \<and> fst ` set ys \<subseteq> fst ` set ys' \<and>
           int (length ys') \<le> max (int (length ys)) k \<and>
           local_change (insert p (fst ` set ys)) m m'"
proof (cases "k \<le> q_iNItems q")
  case True
  have "queue_rep q (m\<lparr>nodes := (nodes m)(p := None)\<rparr>) ys"
    using c p(2) by (auto simp: counted_def queue_rep_def)
  then show ?thesis using True c p
    by (auto simp: SafeReleaseLinkItem_def delete_node_def counted_def local_change_def)
next
  case False
  obtain q' m' where r: "RawEnqueue p q m = Some (True, q', m')" "queue_rep q' m' (ys @ [(p, m_pItem l)])"
    "q_iNItems q' = q_iNItems q" "local_change (insert p (fst ` set ys)) m m'"
    using RawEnqueue_run [of q m ys p l] c p unfolding counted_def by blast
  let ?q = "q'\<lparr>q_iNItems := q_iNItems q' + 1\<rparr>" and ?ys = "ys @ [(p, m_pItem l)]"
  have "SafeReleaseLinkItem k p q m = Some (?q, m')"
    using False p(1) r(1) by (simp add: SafeReleaseLinkItem_def)
  moreover have "counted ?q m' ?ys" using r(2,3) c by (simp add: counted_def)
  moreover have "int (length ?ys) \<le> max (int (length ys)) k"
    using False c by (simp add: counted_def)
  ultimately show ?thesis using r(4) by (intro exI [of _ ?q] exI [of _ m'] exI [of _ ?ys]) auto
qed

lemma SafeAllocLinkItem_run:
  assumes c: "counted q m ys" and b: "0 < brk m" "\<forall>x \<in> fst ` set ys. x < brk m"
  shows "\<exists>p q' m' l. SafeAllocLinkItem q m = Some (p, q', m') \<and> p \<noteq> 0 \<and> nodes m' p = Some l \<and>
           counted q' m' (tl ys) \<and> p \<notin> fst ` set (tl ys) \<and> p < brk m' \<and>
           p \<in> insert (brk m) (fst ` set ys) \<and>
           local_change (insert (brk m) (fst ` set ys)) m m'"
proof (cases ys)
  case Nil
  then show ?thesis using c b RawDequeue_empty [of q m]
    by (auto simp: counted_def SafeAllocLinkItem_def new_node_def local_change_def queue_rep_def)
next
  case (Cons y zs)
  obtain q' m' where r: "RawDequeue q m = Some ((True, fst y), q', m')" "queue_rep q' m' zs"
    "q_iNItems q' = q_iNItems q" "local_change (fst ` set zs) m m'"
    using RawDequeue_run [of q m y zs] c unfolding counted_def Cons by blast
  have y: "fst y \<noteq> 0" "fst y \<notin> fst ` set zs"
    using c Cons by (auto simp: counted_def queue_rep_def dll_def)
  have n: "nodes m' (fst y) = nodes m (fst y)" using r(4) y(2) by (auto simp: local_change_def)
  moreover obtain l where "nodes m (fst y) = Some l"
    using node_live [of q m ys "fst y"] c Cons by (auto simp: counted_def)
  moreover have "brk m \<le> brk m'" using r(4) by (simp add: local_change_def)
  moreover have "local_change (insert (brk m) (fst ` set ys)) m m'"
    using r(4) by (rule local_change_mono) (auto simp: Cons)
  ultimately show ?thesis using r y b(2) c Cons
    by (auto simp: SafeAllocLinkItem_def counted_def)
qed

end
