(* ===== verification/Linked_List.thy ===== *)
theory Linked_List
  imports Link_Queue
begin

text \<open>
  \<open>CLinkedListTemplate\<close> (\<open>LinkedListTemplate.h\<close>): a doubly linked list of objects that takes its
  nodes from a cache and gives them back to it.  The lemmas relate every operation to the list of
  the objects it holds.
\<close>

section \<open>\<open>CLinkedListTemplate\<close>\<close>

record linked_list =
  m_linkItemCache :: link_queue
  m_iCacheSize :: int
  m_pHead :: addr
  m_pTail :: addr
  m_iNItems :: int

type_synonym ll = "linked_list \<times> lmem"

text \<open>The overridable \<open>GetIDOf\<close> and \<open>IsIDEqual\<close>, and their defaults.\<close>

record ids =
  GetIDOf :: "addr \<Rightarrow> nat"
  IsIDEqual :: "nat \<Rightarrow> nat \<Rightarrow> bool"

definition default_ids :: ids where
  "default_ids = \<lparr>GetIDOf = (\<lambda>p. p), IsIDEqual = (=)\<rparr>"

definition list_new :: "int \<Rightarrow> linked_list" where
  "list_new iCacheSize =
     \<lparr>m_linkItemCache = queue_new, m_iCacheSize = iCacheSize, m_pHead = 0, m_pTail = 0, m_iNItems = 0\<rparr>"

definition Link :: "addr \<Rightarrow> ll \<Rightarrow> (bool \<times> ll) option" where
  "Link p s =
     (let o1 = fst s; m = snd s in
      if p = 0 then Some (False, s)
      else if m_pHead o1 = 0 \<and> m_pTail o1 = 0 then do {
        m1 \<leftarrow> upd_node p (\<lambda>l. l\<lparr>m_pNext := 0\<rparr>) m;
        m2 \<leftarrow> upd_node p (\<lambda>l. l\<lparr>m_pPrevious := 0\<rparr>) m1;
        Some (True, o1\<lparr>m_pHead := p, m_pTail := p, m_iNItems := m_iNItems o1 + 1\<rparr>, m2) }
      else do {
        m1 \<leftarrow> upd_node (m_pTail o1) (\<lambda>l. l\<lparr>m_pNext := p\<rparr>) m;
        m2 \<leftarrow> upd_node p (\<lambda>l. l\<lparr>m_pPrevious := m_pTail o1\<rparr>) m1;
        m3 \<leftarrow> upd_node p (\<lambda>l. l\<lparr>m_pNext := 0\<rparr>) m2;
        Some (True, o1\<lparr>m_pTail := p, m_iNItems := m_iNItems o1 + 1\<rparr>, m3) })"

text \<open>The part of \<open>Unlink\<close> that takes the node out of the chain; \<open>False\<close> is an early return.\<close>

definition unlink_node :: "addr \<Rightarrow> ll \<Rightarrow> (bool \<times> ll) option" where
  "unlink_node p s =
     (let o1 = fst s; m = snd s in
      if m_pHead o1 = m_pTail o1 then
        (if m_pHead o1 = p then Some (True, o1\<lparr>m_pHead := 0, m_pTail := 0\<rparr>, m) else Some (False, s))
      else if p = m_pHead o1 then do {
        l \<leftarrow> node_at m (m_pHead o1);
        m1 \<leftarrow> upd_node (m_pHead o1) (\<lambda>l. l\<lparr>m_pNext := 0\<rparr>) m;
        m2 \<leftarrow> upd_node (m_pNext l) (\<lambda>l. l\<lparr>m_pPrevious := 0\<rparr>) m1;
        Some (True, o1\<lparr>m_pHead := m_pNext l\<rparr>, m2) }
      else if p = m_pTail o1 then do {
        l \<leftarrow> node_at m (m_pTail o1);
        m1 \<leftarrow> upd_node (m_pTail o1) (\<lambda>l. l\<lparr>m_pPrevious := 0\<rparr>) m;
        m2 \<leftarrow> upd_node (m_pPrevious l) (\<lambda>l. l\<lparr>m_pNext := 0\<rparr>) m1;
        Some (True, o1\<lparr>m_pTail := m_pPrevious l\<rparr>, m2) }
      else do {
        l \<leftarrow> node_at m p;
        m1 \<leftarrow> upd_node (m_pPrevious l) (\<lambda>k. k\<lparr>m_pNext := m_pNext l\<rparr>) m;
        l1 \<leftarrow> node_at m1 p;
        m2 \<leftarrow> upd_node (m_pNext l1) (\<lambda>k. k\<lparr>m_pPrevious := m_pPrevious l1\<rparr>) m1;
        Some (True, o1, m2) })"

definition Unlink :: "addr \<Rightarrow> ll \<Rightarrow> (bool \<times> ll) option" where
  "Unlink p s =
     (if p = 0 then Some (False, s)
      else if m_pHead (fst s) = 0 \<or> m_pTail (fst s) = 0 then Some (False, s)
      else do {
        (ok, o1, m1) \<leftarrow> unlink_node p s;
        if \<not> ok then Some (False, o1, m1)
        else do {
          (c, m2) \<leftarrow> SafeReleaseLinkItem (m_iCacheSize o1) p (m_linkItemCache o1) m1;
          Some (True, o1\<lparr>m_linkItemCache := c, m_iNItems := m_iNItems o1 - 1\<rparr>, m2) } })"

text \<open>The search loops, from a node on.\<close>

partial_function (option) find_from :: "ids \<Rightarrow> nat \<Rightarrow> lmem \<Rightarrow> addr \<Rightarrow> addr option" where
  "find_from I ulID m p =
     (if p = 0 then Some 0
      else do {
        l \<leftarrow> node_at m p;
        if IsIDEqual I (GetIDOf I (m_pItem l)) ulID then Some p
        else find_from I ulID m (m_pNext l) })"

definition FindLinkItemFromID :: "ids \<Rightarrow> nat \<Rightarrow> ll \<Rightarrow> addr option" where
  "FindLinkItemFromID I ulID s = find_from I ulID (snd s) (m_pHead (fst s))"

partial_function (option) index_from :: "addr \<Rightarrow> lmem \<Rightarrow> addr \<Rightarrow> int \<Rightarrow> int option" where
  "index_from pItem m p i =
     (if p = 0 then Some (- 1)
      else do {
        l \<leftarrow> node_at m p;
        if m_pItem l = pItem then Some i else index_from pItem m (m_pNext l) (i + 1) })"

definition FindIndex :: "addr \<Rightarrow> ll \<Rightarrow> int option" where
  "FindIndex pItem s = index_from pItem (snd s) (m_pHead (fst s)) 0"

definition FindItemFromID :: "ids \<Rightarrow> nat \<Rightarrow> ll \<Rightarrow> addr option" where
  "FindItemFromID I ulID s = do {
     p \<leftarrow> FindLinkItemFromID I ulID s;
     if p = 0 then Some 0 else map_option m_pItem (node_at (snd s) p) }"

text \<open>
  The loop of \<open>GetItem\<close>, with \<open>k\<close> steps left: it gives the node, or \<open>None\<close> inside when it has
  left the loop early with \<open>pItem = NULL\<close>.
\<close>

fun walk :: "lmem \<Rightarrow> nat \<Rightarrow> addr \<Rightarrow> addr option option" where
  "walk m 0 p = Some (Some p)"
| "walk m (Suc k) p =
     (if p = 0 then Some None else do { l \<leftarrow> node_at m p; walk m k (m_pNext l) })"

text \<open>With a negative index the loop is skipped and \<open>pItem\<close> is returned uninitialised.\<close>

definition GetItem :: "int \<Rightarrow> ll \<Rightarrow> addr option" where
  "GetItem iIndex s =
     (if m_iNItems (fst s) \<le> iIndex then Some 0
      else if iIndex < 0 then None
      else do {
        r \<leftarrow> walk (snd s) (nat iIndex) (m_pHead (fst s));
        case r of None \<Rightarrow> Some 0 | Some p \<Rightarrow> map_option m_pItem (node_at (snd s) p) })"

definition GetNItems :: "ll \<Rightarrow> int" where
  "GetNItems s = m_iNItems (fst s)"

definition AddItem :: "ids \<Rightarrow> addr \<Rightarrow> ll \<Rightarrow> (bool \<times> ll) option" where
  "AddItem I pItem s = do {
     p \<leftarrow> FindLinkItemFromID I (GetIDOf I pItem) s;
     if p \<noteq> 0 then Some (False, s)
     else do {
       (pNew, c, m1) \<leftarrow> SafeAllocLinkItem (m_linkItemCache (fst s)) (snd s);
       let o1 = (fst s)\<lparr>m_linkItemCache := c\<rparr>;
       if pNew = 0 then Some (False, o1, m1)
       else do {
         m2 \<leftarrow> upd_node pNew (\<lambda>l. l\<lparr>m_pItem := pItem\<rparr>) m1;
         Link pNew (o1, m2) } } }"

definition unlink_and_delete :: "addr \<Rightarrow> addr \<Rightarrow> bool \<Rightarrow> ll \<Rightarrow> (bool \<times> ll) option" where
  "unlink_and_delete p pItem bPreserve s = do {
     (bResult, o1, m1) \<leftarrow> Unlink p s;
     if bResult \<and> \<not> bPreserve
     then do { m2 \<leftarrow> delete_object pItem m1; Some (bResult, o1, m2) }
     else Some (bResult, o1, m1) }"

definition DeleteItem :: "ids \<Rightarrow> addr \<Rightarrow> bool \<Rightarrow> ll \<Rightarrow> (bool \<times> ll) option" where
  "DeleteItem I pItem bPreserve s = do {
     p \<leftarrow> FindLinkItemFromID I (GetIDOf I pItem) s;
     if p = 0 then Some (False, s) else unlink_and_delete p pItem bPreserve s }"

definition DeleteItemAt :: "addr \<Rightarrow> addr \<Rightarrow> bool \<Rightarrow> ll \<Rightarrow> (bool \<times> ll) option" where
  "DeleteItemAt pItem ulPosition bPreserve s =
     (if ulPosition = 0 then Some (False, s) else unlink_and_delete ulPosition pItem bPreserve s)"

definition ModifyItem :: "ids \<Rightarrow> addr \<Rightarrow> addr \<Rightarrow> bool \<Rightarrow> ll \<Rightarrow> (bool \<times> ll) option" where
  "ModifyItem I pItemBefore pItemAfter bPreserve s = do {
     p \<leftarrow> FindLinkItemFromID I (GetIDOf I pItemBefore) s;
     if p = 0 then Some (False, s)
     else do {
       m1 \<leftarrow> upd_node p (\<lambda>l. l\<lparr>m_pItem := pItemAfter\<rparr>) (snd s);
       m2 \<leftarrow> (if bPreserve then Some m1 else delete_object pItemBefore m1);
       Some (True, fst s, m2) } }"

text \<open>The loop of \<open>Clean\<close>.\<close>

partial_function (option) clean_from ::
  "bool \<Rightarrow> int \<Rightarrow> addr \<Rightarrow> link_queue \<times> lmem \<Rightarrow> (link_queue \<times> lmem) option" where
  "clean_from bPreserve cap p s =
     (if p = 0 then Some s
      else do {
        l \<leftarrow> node_at (snd s) p;
        m1 \<leftarrow> (if bPreserve then Some (snd s) else delete_object (m_pItem l) (snd s));
        s2 \<leftarrow> SafeReleaseLinkItem cap p (fst s) m1;
        clean_from bPreserve cap (m_pNext l) s2 })"

definition Clean :: "bool \<Rightarrow> ll \<Rightarrow> (bool \<times> ll) option" where
  "Clean bPreserve s = do {
     (c, m1) \<leftarrow> clean_from bPreserve (m_iCacheSize (fst s)) (m_pHead (fst s))
                 (m_linkItemCache (fst s), snd s);
     Some (True, (fst s)\<lparr>m_linkItemCache := c, m_pHead := 0, m_pTail := 0, m_iNItems := 0\<rparr>, m1) }"

text \<open>The destructor: \<open>Clean\<close>, then the destructor of the cache.\<close>

definition list_destroy :: "ll \<Rightarrow> lmem option" where
  "list_destroy s = do {
     (_, o1, m1) \<leftarrow> Clean False s;
     queue_destroy (m_linkItemCache o1) m1 }"

section \<open>Traversal\<close>

definition GetFirstPosition :: "ll \<Rightarrow> addr" where
  "GetFirstPosition s = m_pHead (fst s)"

definition GetFirstPosition2 :: "ll \<Rightarrow> (addr \<times> addr) option" where
  "GetFirstPosition2 s =
     (if m_pHead (fst s) = 0 then Some (0, 0)
      else map_option (\<lambda>l. (m_pHead (fst s), m_pNext l)) (node_at (snd s) (m_pHead (fst s))))"

definition GetLastPosition :: "ll \<Rightarrow> addr" where
  "GetLastPosition s = m_pTail (fst s)"

definition GotoNextPosition :: "addr \<Rightarrow> ll \<Rightarrow> addr option" where
  "GotoNextPosition p s = (if p = 0 then Some 0 else map_option m_pNext (node_at (snd s) p))"

definition GotoPreviousPosition :: "addr \<Rightarrow> ll \<Rightarrow> addr option" where
  "GotoPreviousPosition p s = (if p = 0 then Some 0 else map_option m_pPrevious (node_at (snd s) p))"

definition GetCurrentItem :: "addr \<Rightarrow> ll \<Rightarrow> addr option" where
  "GetCurrentItem p s = (if p = 0 then Some 0 else map_option m_pItem (node_at (snd s) p))"

definition GetCurrentItemForward :: "addr \<Rightarrow> ll \<Rightarrow> (addr \<times> addr) option" where
  "GetCurrentItemForward p s =
     (if p = 0 then Some (0, 0)
      else map_option (\<lambda>l. (m_pItem l, m_pNext l)) (node_at (snd s) p))"

definition GetCurrentItemBackward :: "addr \<Rightarrow> ll \<Rightarrow> (addr \<times> addr) option" where
  "GetCurrentItemBackward p s =
     (if p = 0 then Some (0, 0)
      else map_option (\<lambda>l. (m_pItem l, m_pPrevious l)) (node_at (snd s) p))"

text \<open>
  The loop of \<open>Concatenation\<close>: \<open>src\<close> and the destination share the memory.  The next position
  is read before the current node is taken out.
\<close>

partial_function (option) concat_from ::
  "ids \<Rightarrow> addr \<Rightarrow> addr \<Rightarrow> linked_list \<Rightarrow> linked_list \<Rightarrow> lmem \<Rightarrow>
     (bool \<times> linked_list \<times> linked_list \<times> lmem) option"
where
  "concat_from I p next dst src m =
     (if p = 0 then Some (True, dst, src, m)
      else do {
        pItem \<leftarrow> GetCurrentItem p (src, m);
        if pItem = 0 then do {
          next2 \<leftarrow> GotoNextPosition next (src, m);
          concat_from I next next2 dst src m }
        else do {
          (d, src1, m1) \<leftarrow> DeleteItem I pItem True (src, m);
          if \<not> d then Some (False, dst, src1, m1)
          else do {
            (a, dst1, m2) \<leftarrow> AddItem I pItem (dst, m1);
            if \<not> a then Some (False, dst1, src1, m2)
            else do {
              next2 \<leftarrow> GotoNextPosition next (src1, m2);
              concat_from I next next2 dst1 src1 m2 } } } })"

definition Concatenation ::
  "ids \<Rightarrow> linked_list \<Rightarrow> linked_list \<Rightarrow> lmem \<Rightarrow> (bool \<times> linked_list \<times> linked_list \<times> lmem) option"
where
  "Concatenation I dst src m = do {
     (p, next) \<leftarrow> GetFirstPosition2 (src, m);
     concat_from I p next dst src m }"

section \<open>The locking versions\<close>

text \<open>
  All of them have the same shape: without the lock they give up, when the unlock fails the
  result is lost but the effect is not.
\<close>

definition safely :: "bool \<Rightarrow> bool \<Rightarrow> 'r \<Rightarrow> (ll \<Rightarrow> ('r \<times> ll) option) \<Rightarrow> ll \<Rightarrow> ('r \<times> ll) option" where
  "safely locked unlocked failed f s =
     (if \<not> locked then Some (failed, s)
      else do { (r, s1) \<leftarrow> f s; Some (if unlocked then r else failed, s1) })"

definition reading :: "(ll \<Rightarrow> 'r option) \<Rightarrow> ll \<Rightarrow> ('r \<times> ll) option" where
  "reading f s = map_option (\<lambda>r. (r, s)) (f s)"

definition SafeFindIndex :: "bool \<Rightarrow> bool \<Rightarrow> addr \<Rightarrow> ll \<Rightarrow> (int \<times> ll) option" where
  "SafeFindIndex locked unlocked pItem = safely locked unlocked (- 1) (reading (FindIndex pItem))"

definition SafeFindItemFromID :: "bool \<Rightarrow> bool \<Rightarrow> ids \<Rightarrow> nat \<Rightarrow> ll \<Rightarrow> (addr \<times> ll) option" where
  "SafeFindItemFromID locked unlocked I ulID =
     safely locked unlocked 0 (reading (FindItemFromID I ulID))"

definition SafeGetItem :: "bool \<Rightarrow> bool \<Rightarrow> int \<Rightarrow> ll \<Rightarrow> (addr \<times> ll) option" where
  "SafeGetItem locked unlocked iIndex = safely locked unlocked 0 (reading (GetItem iIndex))"

definition SafeGetNItems :: "bool \<Rightarrow> bool \<Rightarrow> ll \<Rightarrow> (int \<times> ll) option" where
  "SafeGetNItems locked unlocked = safely locked unlocked (- 1) (reading (\<lambda>s. Some (GetNItems s)))"

definition SafeAddItem :: "bool \<Rightarrow> bool \<Rightarrow> ids \<Rightarrow> addr \<Rightarrow> ll \<Rightarrow> (bool \<times> ll) option" where
  "SafeAddItem locked unlocked I pItem = safely locked unlocked False (AddItem I pItem)"

definition SafeDeleteItem :: "bool \<Rightarrow> bool \<Rightarrow> ids \<Rightarrow> addr \<Rightarrow> bool \<Rightarrow> ll \<Rightarrow> (bool \<times> ll) option" where
  "SafeDeleteItem locked unlocked I pItem bPreserve =
     safely locked unlocked False (DeleteItem I pItem bPreserve)"

definition SafeModifyItem ::
  "bool \<Rightarrow> bool \<Rightarrow> ids \<Rightarrow> addr \<Rightarrow> addr \<Rightarrow> bool \<Rightarrow> ll \<Rightarrow> (bool \<times> ll) option" where
  "SafeModifyItem locked unlocked I pItemBefore pItemAfter bPreserve =
     safely locked unlocked False (ModifyItem I pItemBefore pItemAfter bPreserve)"

definition SafeClean :: "bool \<Rightarrow> bool \<Rightarrow> bool \<Rightarrow> ll \<Rightarrow> (bool \<times> ll) option" where
  "SafeClean locked unlocked bPreserve = safely locked unlocked False (Clean bPreserve)"

definition SafeConcatenation ::
  "bool \<Rightarrow> bool \<Rightarrow> ids \<Rightarrow> linked_list \<Rightarrow> linked_list \<Rightarrow> lmem \<Rightarrow>
     (bool \<times> linked_list \<times> linked_list \<times> lmem) option"
where
  "SafeConcatenation locked unlocked I dst src m =
     (if \<not> locked then Some (False, dst, src, m)
      else do {
        (r, dst1, src1, m1) \<leftarrow> Concatenation I dst src m;
        Some (if unlocked then r else False, dst1, src1, m1) })"

section \<open>A list in memory\<close>

text \<open>
  \<open>list_rep s xs ys\<close>: the list holds the cells \<open>xs\<close>, its cache the free nodes \<open>ys\<close>, both counts
  are right, and new nodes will be different from all of them.
\<close>

definition list_rep :: "ll \<Rightarrow> cells \<Rightarrow> cells \<Rightarrow> bool" where
  "list_rep s xs ys \<longleftrightarrow>
     dll (nodes (snd s)) (m_pHead (fst s)) (m_pTail (fst s)) xs \<and>
     counted (m_linkItemCache (fst s)) (snd s) ys \<and>
     fst ` set xs \<inter> fst ` set ys = {} \<and>
     m_iNItems (fst s) = int (length xs) \<and>
     0 < brk (snd s) \<and> (\<forall>x \<in> fst ` set xs \<union> fst ` set ys. x < brk (snd s))"

definition list_holds :: "ll \<Rightarrow> addr list \<Rightarrow> bool" where
  "list_holds s is \<longleftrightarrow> (\<exists>xs ys. list_rep s xs ys \<and> is = map snd xs)"

text \<open>The addresses a list may change: its own nodes and those that are still to be allocated.\<close>

definition owned :: "lmem \<Rightarrow> cells \<Rightarrow> cells \<Rightarrow> addr set" where
  "owned m xs ys = fst ` set xs \<union> fst ` set ys \<union> {brk m..}"

lemma list_rep_new: "0 < brk m \<Longrightarrow> list_rep (list_new k, m) [] []"
  by (simp add: list_rep_def list_new_def counted_def queue_rep_new queue_new_def)
     (simp add: queue_rep_def)

lemma list_repD:
  assumes "list_rep s xs ys"
  shows "chain (nodes (snd s)) 0 xs 0" and "distinct (map fst xs)"
    and "m_pHead (fst s) = first 0 xs" and "m_pTail (fst s) = final 0 xs"
    and "m_iNItems (fst s) = int (length xs)"
  using assms by (auto simp: list_rep_def dll_def)

subsection \<open>Searching\<close>

lemma find_from_run:
  "chain (nodes m) p xs 0 \<Longrightarrow>
     find_from I ulID m (first 0 xs) =
       Some (case List.find (\<lambda>x. IsIDEqual I (GetIDOf I (snd x)) ulID) xs of
               None \<Rightarrow> 0 | Some x \<Rightarrow> fst x)"
proof (induction xs arbitrary: p)
  case Nil
  then show ?case by (simp add: find_from.simps)
next
  case (Cons x xs)
  then show ?case using Cons.IH [of "fst x"] by (simp add: find_from.simps [of _ _ _ "fst x"])
qed

lemma FindLinkItemFromID_run:
  "list_rep s xs ys \<Longrightarrow>
     FindLinkItemFromID I ulID s =
       Some (case List.find (\<lambda>x. IsIDEqual I (GetIDOf I (snd x)) ulID) xs of
               None \<Rightarrow> 0 | Some x \<Rightarrow> fst x)"
  unfolding FindLinkItemFromID_def using find_from_run list_repD(1,3) by metis

lemma find_map_snd: "List.find P (map snd xs) = map_option snd (List.find (\<lambda>x. P (snd x)) xs)"
  by (induction xs) auto

lemma find_SomeD: "List.find P xs = Some x \<Longrightarrow> x \<in> set xs \<and> P x"
  by (induction xs) (auto split: if_splits)

lemma cell_node:
  "list_rep s xs ys \<Longrightarrow> x \<in> set xs \<Longrightarrow>
     \<exists>l. nodes (snd s) (fst x) = Some l \<and> m_pItem l = snd x \<and> fst x \<noteq> 0"
proof -
  have "chain h p xs n \<Longrightarrow> x \<in> set xs \<Longrightarrow> \<exists>l. h (fst x) = Some l \<and> m_pItem l = snd x \<and> fst x \<noteq> 0"
    for h p n by (induction xs arbitrary: p) auto
  then show "list_rep s xs ys \<Longrightarrow> x \<in> set xs \<Longrightarrow> ?thesis" using list_repD(1) by blast
qed

lemma FindItemFromID_run:
  assumes "list_holds s is"
  shows "FindItemFromID I ulID s =
     Some (case List.find (\<lambda>i. IsIDEqual I (GetIDOf I i) ulID) is of None \<Rightarrow> 0 | Some i \<Rightarrow> i)"
proof -
  obtain xs ys where r: "list_rep s xs ys" "is = map snd xs" using assms by (auto simp: list_holds_def)
  show ?thesis
  proof (cases "List.find (\<lambda>x. IsIDEqual I (GetIDOf I (snd x)) ulID) xs")
    case None
    then show ?thesis using r by (simp add: FindItemFromID_def FindLinkItemFromID_run find_map_snd)
  next
    case (Some x)
    then show ?thesis using r cell_node [OF r(1), of x] find_SomeD [OF Some]
      by (auto simp: FindItemFromID_def FindLinkItemFromID_run find_map_snd)
  qed
qed

text \<open>The position of an object in a list, or -1.\<close>

fun position :: "addr \<Rightarrow> int \<Rightarrow> addr list \<Rightarrow> int" where
  "position v i [] = - 1"
| "position v i (x # xs) = (if x = v then i else position v (i + 1) xs)"

lemma position_bounds:
  "0 \<le> i \<Longrightarrow> (position v i xs = - 1 \<longleftrightarrow> v \<notin> set xs) \<and>
     (v \<in> set xs \<longrightarrow> i \<le> position v i xs \<and> position v i xs < i + int (length xs) \<and>
        xs ! nat (position v i xs - i) = v)"
proof (induction xs arbitrary: i)
  case Nil
  then show ?case by simp
next
  case (Cons x xs)
  have IH: "(position v (i + 1) xs = - 1 \<longleftrightarrow> v \<notin> set xs) \<and>
     (v \<in> set xs \<longrightarrow> i + 1 \<le> position v (i + 1) xs \<and>
        position v (i + 1) xs < i + 1 + int (length xs) \<and>
        xs ! nat (position v (i + 1) xs - (i + 1)) = v)"
    using Cons.IH [of "i + 1"] Cons.prems by simp
  have s: "nat (position v (i + 1) xs - i) = Suc (nat (position v (i + 1) xs - (i + 1)))"
    if "i + 1 \<le> position v (i + 1) xs" using that by linarith
  show ?case using IH Cons.prems by (auto simp: s)
qed

lemma index_from_run:
  "chain (nodes m) p xs 0 \<Longrightarrow> index_from v m (first 0 xs) i = Some (position v i (map snd xs))"
proof (induction xs arbitrary: p i)
  case Nil
  then show ?case by (simp add: index_from.simps)
next
  case (Cons x xs)
  then show ?case using Cons.IH [of "fst x"] by (simp add: index_from.simps [of _ _ "fst x"])
qed

lemma FindIndex_run: "list_holds s is \<Longrightarrow> FindIndex v s = Some (position v 0 is)"
  unfolding list_holds_def FindIndex_def using index_from_run list_repD(1,3) by metis

lemma walk_run:
  "chain (nodes m) p xs 0 \<Longrightarrow> k \<le> length xs \<Longrightarrow>
     walk m k (first 0 xs) = Some (Some (first 0 (drop k xs)))"
proof (induction k arbitrary: xs p)
  case (Suc k)
  then obtain x zs where "xs = x # zs" by (cases xs) auto
  then show ?case using Suc.prems Suc.IH [of "fst x" zs] by simp
qed simp

lemma GetItem_run:
  assumes "list_holds s is"
  shows "GetItem i s =
     (if int (length is) \<le> i then Some 0 else if i < 0 then None else Some (is ! nat i))"
proof -
  obtain xs ys where r: "list_rep s xs ys" "is = map snd xs" using assms by (auto simp: list_holds_def)
  note d = list_repD [OF r(1)]
  show ?thesis
  proof (cases "0 \<le> i \<and> i < int (length xs)")
    case True
    then have k: "nat i < length xs" by auto
    then obtain zs where z: "drop (nat i) xs = xs ! nat i # zs" using Cons_nth_drop_Suc by metis
    have "walk (snd s) (nat i) (first 0 xs) = Some (Some (fst (xs ! nat i)))"
      using walk_run [OF d(1), of "nat i"] k z by simp
    then show ?thesis using True r(2) k d(3,5) cell_node [OF r(1), of "xs ! nat i"]
      by (auto simp: GetItem_def)
  next
    case False
    then show ?thesis using r(2) d(5) by (auto simp: GetItem_def)
  qed
qed


subsection \<open>Adding\<close>

lemma counted_cong:
  "local_change A m m' \<Longrightarrow> A \<inter> fst ` set ys = {} \<Longrightarrow> counted q m' ys = counted q m ys"
  unfolding counted_def queue_rep_def using local_change_dll by simp

lemma local_change_item: "nodes m p = Some l \<Longrightarrow> local_change {p} m (m\<lparr>nodes := (nodes m)(p \<mapsto> k)\<rparr>)"
  by (simp add: local_change_def)

lemma local_change_brk: "local_change A m m' \<Longrightarrow> brk m \<le> brk m'"
  by (simp add: local_change_def)

lemma local_change_objects: "local_change A m m' \<Longrightarrow> objects m' = objects m"
  by (simp add: local_change_def)

lemma Link_run:
  assumes d: "dll (nodes m) (m_pHead o1) (m_pTail o1) xs"
    and p: "p \<noteq> 0" "p \<notin> fst ` set xs" "nodes m p = Some l"
  shows "\<exists>o2 m'. Link p (o1, m) = Some (True, o2, m') \<and>
           dll (nodes m') (m_pHead o2) (m_pTail o2) (xs @ [(p, m_pItem l)]) \<and>
           m_linkItemCache o2 = m_linkItemCache o1 \<and> m_iCacheSize o2 = m_iCacheSize o1 \<and>
           m_iNItems o2 = m_iNItems o1 + 1 \<and> local_change (insert p (fst ` set xs)) m m'"
proof (cases "xs = []")
  case True
  then show ?thesis using d p by (auto simp: Link_def dll_def local_change_def)
next
  case False
  from dll_snoc [OF d False p(1,2), of "m_pItem l"]
  obtain k where k: "nodes m (m_pTail o1) = Some k" "m_pTail o1 \<noteq> 0"
    and e: "dll ((nodes m)(m_pTail o1 \<mapsto> k\<lparr>m_pNext := p\<rparr>,
              p \<mapsto> \<lparr>m_pPrevious = m_pTail o1, m_pNext = 0, m_pItem = m_pItem l\<rparr>))
              (m_pHead o1) p (xs @ [(p, m_pItem l)])" by blast
  have t: "m_pTail o1 \<in> fst ` set xs" using d False by (auto simp: dll_def final_def)
  then have "m_pTail o1 \<noteq> p" using p(2) by auto
  then show ?thesis using k e p(1,3) t by (auto simp: Link_def local_change_def)
qed

lemma snd_in: "(a, b) \<in> S \<Longrightarrow> b \<in> snd ` S"
  by force

lemma disjoint_shrink: "C \<subseteq> insert x B \<Longrightarrow> x \<notin> A \<Longrightarrow> A \<inter> B = {} \<Longrightarrow> A \<inter> C = {}"
  by blast

lemma disjoint_fresh:
  "A \<inter> B = {} \<Longrightarrow> \<forall>x \<in> A \<union> B. x < (b::nat) \<Longrightarrow>
     insert b B \<inter> A = {} \<and> (p \<in> insert b B \<longrightarrow> p \<notin> A)"
  by blast

lemma AddItem_run:
  assumes r: "list_rep s xs ys"
    and new: "List.find (\<lambda>x. IsIDEqual I (GetIDOf I (snd x)) (GetIDOf I pItem)) xs = None"
  shows "\<exists>s' p. AddItem I pItem s = Some (True, s') \<and> list_rep s' (xs @ [(p, pItem)]) (tl ys) \<and>
           p \<in> owned (snd s) xs ys \<and> local_change (owned (snd s) xs ys) (snd s) (snd s') \<and>
           m_iCacheSize (fst s') = m_iCacheSize (fst s)"
proof -
  obtain o1 m where s: "s = (o1, m)" by (cases s)
  have R: "dll (nodes m) (m_pHead o1) (m_pTail o1) xs" "counted (m_linkItemCache o1) m ys"
    "fst ` set xs \<inter> fst ` set ys = {}" "m_iNItems o1 = int (length xs)" "0 < brk m"
    "\<forall>x \<in> fst ` set xs \<union> fst ` set ys. x < brk m"
    using r by (simp_all add: list_rep_def s)
  obtain p c m1 l where a: "SafeAllocLinkItem (m_linkItemCache o1) m = Some (p, c, m1)" "p \<noteq> 0"
    "nodes m1 p = Some l" "counted c m1 (tl ys)" "p \<notin> fst ` set (tl ys)" "p < brk m1"
    "p \<in> insert (brk m) (fst ` set ys)" "local_change (insert (brk m) (fst ` set ys)) m m1"
    using SafeAllocLinkItem_run [of "m_linkItemCache o1" m ys] R(2,5,6) by blast
  define l2 where "l2 = l\<lparr>m_pItem := pItem\<rparr>"
  define m2 where "m2 = m1\<lparr>nodes := (nodes m1)(p \<mapsto> l2)\<rparr>"
  have n2: "nodes m2 p = Some l2" "m_pItem l2 = pItem" by (simp_all add: m2_def l2_def)
  have x: "p \<notin> fst ` set xs" "insert (brk m) (fst ` set ys) \<inter> fst ` set xs = {}"
    using disjoint_fresh [OF R(3)] R(6) a(7) by blast+
  have d: "dll (nodes m2) (m_pHead o1) (m_pTail o1) xs"
    using R(1) x local_change_dll [OF a(8)] by (simp add: m2_def)
  define oc where "oc = o1\<lparr>m_linkItemCache := c\<rparr>"
  have "dll (nodes m2) (m_pHead oc) (m_pTail oc) xs" using d by (simp add: oc_def)
  from Link_run [OF this a(2) x(1) n2(1)]
  obtain o2 m3 where k: "Link p (oc, m2) = Some (True, o2, m3)"
    "dll (nodes m3) (m_pHead o2) (m_pTail o2) (xs @ [(p, pItem)])"
    "m_linkItemCache o2 = c" "m_iCacheSize o2 = m_iCacheSize o1" "m_iNItems o2 = m_iNItems o1 + 1"
    "local_change (insert p (fst ` set xs)) m2 m3"
    by (auto simp: n2 oc_def)
  have run: "AddItem I pItem s = Some (True, o2, m3)"
    using new a(1,2,3) k(1)
    by (simp add: AddItem_def FindLinkItemFromID_run [OF r [unfolded s]] s Let_def l2_def m2_def oc_def)
  have t: "fst ` set (tl ys) \<subseteq> fst ` set ys" using list.set_sel(2) [of ys] by (cases ys) auto
  have "counted c m2 (tl ys)" using a(4,5) by (simp add: m2_def counted_def queue_rep_def)
  moreover have "insert p (fst ` set xs) \<inter> fst ` set (tl ys) = {}" using R(3) t a(5) by blast
  ultimately have c3: "counted c m3 (tl ys)" using counted_cong [OF k(6)] by blast
  have o: "insert (brk m) (fst ` set ys) \<subseteq> owned m xs ys" "{p} \<subseteq> owned m xs ys"
    "insert p (fst ` set xs) \<subseteq> owned m xs ys"
    using a(7) by (auto simp: owned_def)
  have "local_change (owned m xs ys) m1 m2"
    unfolding m2_def by (rule local_change_mono [OF local_change_item [OF a(3)] o(2)])
  then have L: "local_change (owned m xs ys) m m3"
    using local_change_mono [OF a(8) o(1)] local_change_mono [OF k(6) o(3)] local_change_trans
    by blast
  have b: "brk m1 \<le> brk m3" "brk m \<le> brk m1"
    using local_change_brk [OF k(6)] local_change_brk [OF a(8)] by (simp_all add: m2_def)
  have bd: "\<forall>z \<in> fst ` set (xs @ [(p, pItem)]) \<union> fst ` set (tl ys). z < brk m3"
  proof
    fix z assume "z \<in> fst ` set (xs @ [(p, pItem)]) \<union> fst ` set (tl ys)"
    then have "z = p \<or> z \<in> fst ` set xs \<union> fst ` set ys" using t by auto
    then have "z < brk m1" using R(6) a(6) b(2) by (metis order_less_le_trans)
    then show "z < brk m3" using b by simp
  qed
  have "fst ` set xs \<inter> fst ` set (tl ys) = {}" using R(3) t by blast
  then have "fst ` set (xs @ [(p, pItem)]) \<inter> fst ` set (tl ys) = {}"
    unfolding set_append image_Un Int_Un_distrib2 using a(5) by simp
  then have "list_rep (o2, m3) (xs @ [(p, pItem)]) (tl ys)"
    unfolding list_rep_def using k R(4,5) c3 b bd by auto
  then show ?thesis using run L o(2) k(4) by (auto simp: s)
qed

lemma AddItem_known:
  assumes "list_rep s xs ys"
    and "List.find (\<lambda>x. IsIDEqual I (GetIDOf I (snd x)) (GetIDOf I pItem)) xs = Some x"
  shows "AddItem I pItem s = Some (False, s)"
  using assms(2) cell_node [OF assms(1), of x] find_SomeD [OF assms(2)]
  by (auto simp: AddItem_def FindLinkItemFromID_run [OF assms(1)])

subsection \<open>Taking out\<close>

lemma upd_same: "nodes m p = Some l \<Longrightarrow> m\<lparr>nodes := (nodes m)(p \<mapsto> l)\<rparr> = m"
  by (simp add: fun_upd_idem)

lemma unlink_node_run:
  assumes d: "dll (nodes m) (m_pHead o1) (m_pTail o1) (us @ x # vs)"
  shows "\<exists>h t m'. unlink_node (fst x) (o1, m) = Some (True, o1\<lparr>m_pHead := h, m_pTail := t\<rparr>, m') \<and>
           dll (nodes m') h t (us @ vs) \<and> nodes m' (fst x) \<noteq> None \<and>
           local_change (fst ` set (us @ x # vs)) m m'"
proof -
  have a: "m_pHead o1 = first (first 0 (x # vs)) us" "m_pTail o1 = final (final 0 us) (x # vs)"
    using d by (auto simp: dll_def)
  have ends: "m_pHead o1 = m_pTail o1 \<longleftrightarrow> us = [] \<and> vs = []"
    using dll_ends(3) [OF d] by auto
  have live: "\<exists>l. nodes m (fst x) = Some l" "fst x \<noteq> 0" using d by (auto simp: dll_def)
  consider (only) "us = []" "vs = []" | (head) v ws where "us = []" "vs = v # ws"
    | (tail) u ts where "us = ts @ [u]" "vs = []"
    | (inner) u ts v ws where "us = ts @ [u]" "vs = v # ws"
    by (cases us rule: rev_cases; cases vs) auto
  then show ?thesis
  proof cases
    case only
    then show ?thesis using d live a by (auto simp: unlink_node_def)
  next
    case head
    then show ?thesis using d live a ends
      by (auto simp: unlink_node_def dll_def local_change_def)
  next
    case tail
    then show ?thesis using d live a ends
      by (auto simp: unlink_node_def dll_def local_change_def)
  next
    case inner
    have "fst x \<notin> insert (fst u) (fst ` set ts)" "fst x \<notin> insert (fst v) (fst ` set ws)"
      using d inner by (auto simp: dll_def)
    moreover have "m_pHead o1 = first (fst u) ts" "m_pTail o1 = final (fst v) ws"
      using a inner by simp_all
    ultimately have "fst x \<noteq> m_pHead o1" "fst x \<noteq> m_pTail o1"
      using first_in [of "fst u" ts] final_in [of "fst v" ws] by metis+
    then show ?thesis using inner d live ends
      by (auto simp: unlink_node_def dll_def local_change_def)
  qed
qed


lemma Unlink_run:
  assumes r: "list_rep s (us @ x # vs) ys"
  shows "\<exists>s' ys'. Unlink (fst x) s = Some (True, s') \<and> list_rep s' (us @ vs) ys' \<and>
           fst ` set ys' \<subseteq> insert (fst x) (fst ` set ys) \<and>
           (fst x \<in> fst ` set ys' \<or> nodes (snd s') (fst x) = None) \<and> fst ` set ys \<subseteq> fst ` set ys' \<and>
           int (length ys') \<le> max (int (length ys)) (m_iCacheSize (fst s)) \<and>
           local_change (owned (snd s) (us @ x # vs) ys) (snd s) (snd s') \<and>
           m_iCacheSize (fst s') = m_iCacheSize (fst s)"
proof -
  obtain o1 m where s: "s = (o1, m)" by (cases s)
  let ?xs = "us @ x # vs"
  have R: "dll (nodes m) (m_pHead o1) (m_pTail o1) ?xs" "counted (m_linkItemCache o1) m ys"
    "fst ` set ?xs \<inter> fst ` set ys = {}" "m_iNItems o1 = int (length ?xs)" "0 < brk m"
    "\<forall>x \<in> fst ` set ?xs \<union> fst ` set ys. x < brk m"
    using r unfolding list_rep_def s by simp_all
  have x: "fst x \<noteq> 0" "fst x \<notin> fst ` set (us @ vs)" using R(1) by (auto simp: dll_def)
  have ends: "m_pHead o1 \<noteq> 0" "m_pTail o1 \<noteq> 0" using dll_ends(1,2) [OF R(1)] by simp_all
  obtain h t m1 where u: "unlink_node (fst x) (o1, m) = Some (True, o1\<lparr>m_pHead := h, m_pTail := t\<rparr>, m1)"
    "dll (nodes m1) h t (us @ vs)" "nodes m1 (fst x) \<noteq> None" "local_change (fst ` set ?xs) m m1"
    using unlink_node_run [OF R(1)] by blast
  obtain l where l: "nodes m1 (fst x) = Some l" using u(3) by blast
  have c1: "counted (m_linkItemCache o1) m1 ys" using counted_cong [OF u(4) R(3)] R(2) by simp
  have y: "fst x \<notin> fst ` set ys" using R(3) by auto
  obtain c m2 ys' where q: "SafeReleaseLinkItem (m_iCacheSize o1) (fst x) (m_linkItemCache o1) m1 = Some (c, m2)"
    "counted c m2 ys'" "fst ` set ys' \<subseteq> insert (fst x) (fst ` set ys)"
    "fst x \<in> fst ` set ys' \<or> nodes m2 (fst x) = None" "fst ` set ys \<subseteq> fst ` set ys'"
    "int (length ys') \<le> max (int (length ys)) (m_iCacheSize o1)"
    "local_change (insert (fst x) (fst ` set ys)) m1 m2"
    using SafeReleaseLinkItem_run [OF c1 x(1) y l, of "m_iCacheSize o1"] by blast
  let ?o = "o1\<lparr>m_pHead := h, m_pTail := t, m_linkItemCache := c, m_iNItems := m_iNItems o1 - 1\<rparr>"
  have run: "Unlink (fst x) s = Some (True, ?o, m2)"
    using x(1) ends u(1) q(1) by (simp add: Unlink_def s)
  have dis: "insert (fst x) (fst ` set ys) \<inter> fst ` set (us @ vs) = {}"
    using R(3) x(2) by auto
  have d2: "dll (nodes m2) h t (us @ vs)" using local_change_dll [OF q(7) dis] u(2) by simp
  have b: "brk m \<le> brk m2" using local_change_brk [OF u(4)] local_change_brk [OF q(7)] by simp
  have sub: "fst ` set ?xs \<subseteq> owned m ?xs ys" "insert (fst x) (fst ` set ys) \<subseteq> owned m ?xs ys"
    by (auto simp: owned_def)
  have L: "local_change (owned m ?xs ys) m m2"
    by (rule local_change_trans [OF local_change_mono [OF u(4) sub(1)] local_change_mono [OF q(7) sub(2)]])
  have bd: "\<forall>z \<in> fst ` set (us @ vs) \<union> fst ` set ys'. z < brk m2"
  proof
    fix z assume "z \<in> fst ` set (us @ vs) \<union> fst ` set ys'"
    then have "z \<in> fst ` set ?xs \<union> fst ` set ys" using q(3) by auto
    then have "z < brk m" using R(6) by blast
    then show "z < brk m2" using b by simp
  qed
  have "fst ` set (us @ vs) \<inter> fst ` set ys' = {}" using q(3) dis by blast
  then have "list_rep (?o, m2) (us @ vs) ys'"
    unfolding list_rep_def using d2 q(2) R(4,5) b bd by simp
  then show ?thesis using run q(3-6) L by (auto simp: s)
qed

subsection \<open>Deleting and replacing\<close>

lemma list_rep_objects:
  "list_rep (o1, m\<lparr>objects := A\<rparr>) xs ys = list_rep (o1, m) xs ys"
  by (simp add: list_rep_def counted_def queue_rep_def)

text \<open>\<open>delete\<close> of an object that is live, and of \<open>NULL\<close>.\<close>

definition deleted :: "addr \<Rightarrow> addr set \<Rightarrow> addr set" where
  "deleted p A = (if p = 0 then A else A - {p})"

lemma delete_object_run [simp]:
  "p = 0 \<or> p \<in> objects m \<Longrightarrow> delete_object p m = Some (m\<lparr>objects := deleted p (objects m)\<rparr>)"
  by (auto simp: delete_object_def deleted_def)

lemma unlink_and_delete_run:
  assumes r: "list_rep s (us @ x # vs) ys" and v: "keep \<or> v = 0 \<or> v \<in> objects (snd s)"
  shows "\<exists>s' ys'. unlink_and_delete (fst x) v keep s = Some (True, s') \<and> list_rep s' (us @ vs) ys' \<and>
           fst ` set ys' \<subseteq> insert (fst x) (fst ` set ys) \<and>
           objects (snd s') = (if keep then objects (snd s) else deleted v (objects (snd s))) \<and>
           (keep \<longrightarrow> local_change (owned (snd s) (us @ x # vs) ys) (snd s) (snd s'))"
proof -
  obtain o2 m2 ys' where u: "Unlink (fst x) s = Some (True, o2, m2)" "list_rep (o2, m2) (us @ vs) ys'"
    "fst ` set ys' \<subseteq> insert (fst x) (fst ` set ys)"
    "local_change (owned (snd s) (us @ x # vs) ys) (snd s) m2"
    using Unlink_run [OF r] by fastforce
  have o: "objects m2 = objects (snd s)" using u(4) by (rule local_change_objects)
  show ?thesis
  proof (cases keep)
    case True
    then show ?thesis using u o by (auto simp: unlink_and_delete_def)
  next
    case False
    then have "delete_object v m2 = Some (m2\<lparr>objects := deleted v (objects m2)\<rparr>)" using v o by simp
    then have "unlink_and_delete (fst x) v keep s =
        Some (True, o2, m2\<lparr>objects := deleted v (objects m2)\<rparr>)"
      using u(1) False by (simp add: unlink_and_delete_def)
    moreover have "list_rep (o2, m2\<lparr>objects := deleted v (objects m2)\<rparr>) (us @ vs) ys'"
      using u(2) by (simp add: list_rep_objects)
    ultimately show ?thesis using u(3) o False by auto
  qed
qed

text \<open>Taking the first match out of a list.\<close>

fun without_first :: "('a \<Rightarrow> bool) \<Rightarrow> 'a list \<Rightarrow> 'a list" where
  "without_first P [] = []"
| "without_first P (x # xs) = (if P x then xs else x # without_first P xs)"

lemma find_split:
  "List.find P xs = Some x \<Longrightarrow>
     \<exists>us vs. xs = us @ x # vs \<and> without_first P xs = us @ vs \<and> (\<forall>u \<in> set us. \<not> P u)"
proof (induction xs)
  case (Cons a xs)
  show ?case
  proof (cases "P a")
    case True
    then show ?thesis using Cons.prems by (intro exI [of _ "[]"] exI [of _ xs]) auto
  next
    case False
    then obtain us vs where "xs = us @ x # vs" "without_first P xs = us @ vs" "\<forall>u \<in> set us. \<not> P u"
      using Cons by auto
    then show ?thesis using False by (intro exI [of _ "a # us"] exI [of _ vs]) auto
  qed
qed simp

lemma without_first_map:
  "without_first P (map f xs) = map f (without_first (\<lambda>x. P (f x)) xs)"
  by (induction xs) auto

lemma DeleteItem_run:
  assumes r: "list_rep s xs ys" and v: "keep \<or> v = 0 \<or> v \<in> objects (snd s)"
    and f: "List.find (\<lambda>x. IsIDEqual I (GetIDOf I (snd x)) (GetIDOf I v)) xs = Some x"
  shows "\<exists>s' ys'. DeleteItem I v keep s = Some (True, s') \<and>
           list_rep s' (without_first (\<lambda>x. IsIDEqual I (GetIDOf I (snd x)) (GetIDOf I v)) xs) ys' \<and>
           fst ` set ys' \<subseteq> insert (fst x) (fst ` set ys) \<and>
           objects (snd s') = (if keep then objects (snd s) else deleted v (objects (snd s))) \<and>
           (keep \<longrightarrow> local_change (owned (snd s) xs ys) (snd s) (snd s'))"
proof -
  obtain us vs where u: "xs = us @ x # vs"
    "without_first (\<lambda>x. IsIDEqual I (GetIDOf I (snd x)) (GetIDOf I v)) xs = us @ vs"
    using find_split [OF f] by blast
  have "fst x \<noteq> 0" using cell_node [OF r, of x] u(1) by auto
  then have run: "DeleteItem I v keep s = unlink_and_delete (fst x) v keep s"
    by (simp add: DeleteItem_def FindLinkItemFromID_run [OF r] f)
  show ?thesis using unlink_and_delete_run [OF r [unfolded u(1)] v, folded u(1)]
    unfolding run u(2) .
qed

lemma DeleteItem_unknown:
  assumes "list_rep s xs ys"
    and "List.find (\<lambda>x. IsIDEqual I (GetIDOf I (snd x)) (GetIDOf I v)) xs = None"
  shows "DeleteItem I v keep s = Some (False, s)"
  using assms(2) by (simp add: DeleteItem_def FindLinkItemFromID_run [OF assms(1)])


lemma chain_set_item:
  "chain h p (us @ x # vs) n \<Longrightarrow> distinct (map fst (us @ x # vs)) \<Longrightarrow>
     \<exists>l. h (fst x) = Some l \<and>
       chain (h(fst x \<mapsto> l\<lparr>m_pItem := v\<rparr>)) p (us @ (fst x, v) # vs) n"
  by auto

lemma ModifyItem_run:
  assumes r: "list_rep s xs ys" and v: "keep \<or> v = 0 \<or> v \<in> objects (snd s)"
    and f: "List.find (\<lambda>x. IsIDEqual I (GetIDOf I (snd x)) (GetIDOf I v)) xs = Some x"
  shows "\<exists>s' us vs. ModifyItem I v w keep s = Some (True, s') \<and>
           xs = us @ x # vs \<and> (\<forall>u \<in> set us. \<not> IsIDEqual I (GetIDOf I (snd u)) (GetIDOf I v)) \<and>
           list_rep s' (us @ (fst x, w) # vs) ys \<and>
           objects (snd s') = (if keep then objects (snd s) else deleted v (objects (snd s)))"
proof -
  obtain o1 m where s: "s = (o1, m)" by (cases s)
  obtain us vs where u: "xs = us @ x # vs"
    "\<forall>u \<in> set us. \<not> IsIDEqual I (GetIDOf I (snd u)) (GetIDOf I v)"
    using find_split [OF f] by blast
  let ?xs = "us @ (fst x, w) # vs"
  have R: "dll (nodes m) (m_pHead o1) (m_pTail o1) xs" "counted (m_linkItemCache o1) m ys"
    "fst ` set xs \<inter> fst ` set ys = {}" "m_iNItems o1 = int (length xs)" "0 < brk m"
    "\<forall>x \<in> fst ` set xs \<union> fst ` set ys. x < brk m"
    using r unfolding list_rep_def s by simp_all
  have x: "fst x \<noteq> 0" using cell_node [OF r, of x] u(1) by auto
  obtain l where l: "nodes m (fst x) = Some l"
    "chain ((nodes m)(fst x \<mapsto> l\<lparr>m_pItem := w\<rparr>)) 0 ?xs 0"
    using chain_set_item [of "nodes m" 0 us x vs 0 w] R(1) unfolding u(1) dll_def by blast
  define m1 where "m1 = m\<lparr>nodes := (nodes m)(fst x \<mapsto> l\<lparr>m_pItem := w\<rparr>)\<rparr>"
  have set_eq: "fst ` set ?xs = fst ` set xs" by (simp add: u(1))
  have "dll (nodes m1) (m_pHead o1) (m_pTail o1) ?xs"
    using R(1) l(2) by (auto simp: dll_def m1_def u(1))
  moreover have "counted (m_linkItemCache o1) m1 ys"
    using R(2,3) by (auto simp: m1_def u(1) counted_def queue_rep_def)
  ultimately have rep: "list_rep (o1, m1) ?xs ys"
    using R(3-6) unfolding list_rep_def set_eq by (simp add: m1_def u(1))
  have fnd: "FindLinkItemFromID I (GetIDOf I v) (o1, m) = Some (fst x)"
    using FindLinkItemFromID_run [OF r] f by (simp add: s)
  show ?thesis
  proof (cases keep)
    case True
    then have "ModifyItem I v w keep s = Some (True, o1, m1)"
      using x l(1) fnd by (simp add: ModifyItem_def s m1_def)
    then show ?thesis using u rep True by (fastforce simp: s m1_def)
  next
    case False
    then have "ModifyItem I v w keep s = Some (True, o1, m1\<lparr>objects := deleted v (objects m)\<rparr>)"
      using x l(1) fnd v by (simp add: ModifyItem_def s m1_def)
    moreover have "list_rep (o1, m1\<lparr>objects := deleted v (objects m)\<rparr>) ?xs ys"
      using rep by (simp add: list_rep_objects)
    ultimately show ?thesis using u False by (fastforce simp: s m1_def)
  qed
qed

subsection \<open>Emptying\<close>

lemma counted_objects [simp]: "counted q (m\<lparr>objects := A\<rparr>) ys = counted q m ys"
  by (simp add: counted_def queue_rep_def)

lemma clean_from_run:
  assumes "chain (nodes m) p xs 0" "distinct (map fst xs)" "counted q m ys"
    "fst ` set xs \<inter> fst ` set ys = {}"
    and "keep \<or> distinct (map snd xs) \<and> 0 \<notin> snd ` set xs \<and> snd ` set xs \<subseteq> objects m"
  shows "\<exists>q' m' ys'. clean_from keep k (first 0 xs) (q, m) = Some (q', m') \<and> counted q' m' ys' \<and>
           fst ` set ys' \<subseteq> fst ` set xs \<union> fst ` set ys \<and> fst ` set ys \<subseteq> fst ` set ys' \<and>
           (\<forall>a \<in> fst ` set xs. a \<in> fst ` set ys' \<or> nodes m' a = None) \<and>
           int (length ys') \<le> max (int (length ys)) k \<and>
           objects m' = (if keep then objects m else objects m - snd ` set xs) \<and> brk m \<le> brk m' \<and>
           (\<forall>a. a \<notin> fst ` set xs \<union> fst ` set ys \<longrightarrow> nodes m' a = nodes m a)"
  using assms
proof (induction xs arbitrary: p q m ys)
  case Nil
  then show ?case by (auto simp: clean_from.simps)
next
  case (Cons x xs)
  define m1 where "m1 = (if keep then m else m\<lparr>objects := deleted (snd x) (objects m)\<rparr>)"
  have n1: "nodes m1 = nodes m" "brk m1 = brk m" by (simp_all add: m1_def)
  have x: "fst x \<noteq> 0" "nodes m1 (fst x) = Some \<lparr>m_pPrevious = p, m_pNext = first 0 xs, m_pItem = snd x\<rparr>"
    "fst x \<notin> fst ` set ys" "fst x \<notin> fst ` set xs"
    using Cons.prems by (auto simp: n1)
  have o1: "objects m1 = (if keep then objects m else objects m - {snd x})"
    using Cons.prems(5) by (auto simp: m1_def deleted_def)
  have c1: "counted q m1 ys" using Cons.prems(3) by (simp add: m1_def)
  obtain q2 m2 ys2 where r: "SafeReleaseLinkItem k (fst x) q m1 = Some (q2, m2)" "counted q2 m2 ys2"
    "fst ` set ys2 \<subseteq> insert (fst x) (fst ` set ys)"
    "fst x \<in> fst ` set ys2 \<or> nodes m2 (fst x) = None" "fst ` set ys \<subseteq> fst ` set ys2"
    "int (length ys2) \<le> max (int (length ys)) k"
    "local_change (insert (fst x) (fst ` set ys)) m1 m2"
    using SafeReleaseLinkItem_run [OF c1 x(1,3,2), of k] by blast
  have step: "clean_from keep k (first 0 (x # xs)) (q, m) = clean_from keep k (first 0 xs) (q2, m2)"
  proof -
    have "delete_object (snd x) m = Some m1" if "\<not> keep"
      using Cons.prems(5) that by (auto simp: m1_def)
    then show ?thesis using x(1,2) r(1)
      by (cases keep) (simp_all add: clean_from.simps [of _ _ "fst x"] n1 m1_def)
  qed
  have out: "nodes m2 a = nodes m a" if "a \<notin> insert (fst x) (fst ` set ys)" for a
    using r(7) that by (simp add: local_change_def n1)
  have p1: "chain (nodes m2) (fst x) xs 0"
  proof -
    have "fst ` set xs \<inter> insert (fst x) (fst ` set ys) = {}" using x(4) Cons.prems(4) by simp
    then have "nodes m2 a = nodes m a" if "a \<in> fst ` set xs" for a
      using out [of a] that by blast
    then show ?thesis using Cons.prems(1) chain_cong [of xs "nodes m2" "nodes m" "fst x" 0] by simp
  qed
  have o2: "objects m2 = objects m1" "brk m \<le> brk m2"
    using r(7) by (simp_all add: local_change_def n1)
  have "fst ` set xs \<inter> fst ` set ys = {}" using Cons.prems(4) by simp
  then have "fst ` set xs \<inter> fst ` set ys2 = {}" by (rule disjoint_shrink [OF r(3) x(4)])
  moreover have "keep \<or> distinct (map snd xs) \<and> 0 \<notin> snd ` set xs \<and> snd ` set xs \<subseteq> objects m2"
    using Cons.prems(5) o1 o2 by (auto dest: snd_in)
  moreover have "distinct (map fst xs)" using Cons.prems(2) by simp
  ultimately obtain q' m' ys' where I: "clean_from keep k (first 0 xs) (q2, m2) = Some (q', m')"
    "counted q' m' ys'" "fst ` set ys' \<subseteq> fst ` set xs \<union> fst ` set ys2" "fst ` set ys2 \<subseteq> fst ` set ys'"
    "\<forall>a \<in> fst ` set xs. a \<in> fst ` set ys' \<or> nodes m' a = None"
    "int (length ys') \<le> max (int (length ys2)) k"
    "objects m' = (if keep then objects m2 else objects m2 - snd ` set xs)" "brk m2 \<le> brk m'"
    "\<forall>a. a \<notin> fst ` set xs \<union> fst ` set ys2 \<longrightarrow> nodes m' a = nodes m2 a"
    using Cons.IH [OF p1 _ r(2)] by metis
  have hd: "fst x \<in> fst ` set ys' \<or> nodes m' (fst x) = None"
  proof (cases "fst x \<in> fst ` set ys2")
    case True
    then show ?thesis using I(4) by blast
  next
    case False
    then have "nodes m' (fst x) = nodes m2 (fst x)" using I(9) x(4) by simp
    then show ?thesis using r(4) False by simp
  qed
  have "fst ` set ys' \<subseteq> fst ` set (x # xs) \<union> fst ` set ys" using I(3) r(3) by auto
  moreover have "fst ` set ys \<subseteq> fst ` set ys'" using I(4) r(5) by blast
  moreover have "\<forall>a \<in> fst ` set (x # xs). a \<in> fst ` set ys' \<or> nodes m' a = None"
    using I(5) hd by simp
  moreover have "int (length ys') \<le> max (int (length ys)) k" using I(6) r(6) by linarith
  moreover have "objects m' = (if keep then objects m else objects m - snd ` set (x # xs))"
    using I(7) o1 o2 by auto
  moreover have "brk m \<le> brk m'" using I(8) o2 by simp
  moreover have "nodes m' a = nodes m a" if "a \<notin> fst ` set (x # xs) \<union> fst ` set ys" for a
  proof -
    have "a \<notin> fst ` set xs" "a \<notin> fst ` set ys2" "a \<notin> insert (fst x) (fst ` set ys)"
      using that r(3) by auto
    then show ?thesis using I(9) out [of a] by simp
  qed
  ultimately show ?case using step I(1,2) by auto
qed


lemma Clean_run:
  assumes r: "list_rep s xs ys"
    and o: "keep \<or> distinct (map snd xs) \<and> 0 \<notin> snd ` set xs \<and> snd ` set xs \<subseteq> objects (snd s)"
  shows "\<exists>s' ys'. Clean keep s = Some (True, s') \<and> list_rep s' [] ys' \<and>
           (\<forall>a \<in> fst ` set xs \<union> fst ` set ys. a \<in> fst ` set ys' \<or> nodes (snd s') a = None) \<and>
           objects (snd s') = (if keep then objects (snd s) else objects (snd s) - snd ` set xs)"
proof -
  obtain o1 m where s: "s = (o1, m)" by (cases s)
  have R: "chain (nodes m) 0 xs 0" "distinct (map fst xs)" "m_pHead o1 = first 0 xs"
    "counted (m_linkItemCache o1) m ys" "fst ` set xs \<inter> fst ` set ys = {}" "0 < brk m"
    "\<forall>x \<in> fst ` set xs \<union> fst ` set ys. x < brk m"
    using r by (simp_all add: list_rep_def s dll_def)
  have o': "keep \<or> distinct (map snd xs) \<and> 0 \<notin> snd ` set xs \<and> snd ` set xs \<subseteq> objects m"
    using o by (simp only: s snd_conv)
  obtain c m1 ys' where q: "clean_from keep (m_iCacheSize o1) (first 0 xs) (m_linkItemCache o1, m) = Some (c, m1)"
    "counted c m1 ys'" "fst ` set ys' \<subseteq> fst ` set xs \<union> fst ` set ys" "fst ` set ys \<subseteq> fst ` set ys'"
    "\<forall>a \<in> fst ` set xs. a \<in> fst ` set ys' \<or> nodes m1 a = None"
    "objects m1 = (if keep then objects m else objects m - snd ` set xs)" "brk m \<le> brk m1"
    using clean_from_run [OF R(1,2,4,5) o', of "m_iCacheSize o1"] by metis
  let ?o = "o1\<lparr>m_linkItemCache := c, m_pHead := 0, m_pTail := 0, m_iNItems := 0\<rparr>"
  have "Clean keep s = Some (True, ?o, m1)" using q(1) R(3) by (simp add: Clean_def s)
  moreover have "\<forall>b \<in> fst ` set ys'. b < brk m1"
  proof
    fix b assume "b \<in> fst ` set ys'"
    then have "b < brk m" using q(3) R(7) by (metis subsetD)
    then show "b < brk m1" using q(7) by simp
  qed
  ultimately have "Clean keep s = Some (True, ?o, m1)" "list_rep (?o, m1) [] ys'"
    using q(2,7) R(6) by (simp_all add: list_rep_def)
  moreover have "\<forall>a \<in> fst ` set xs \<union> fst ` set ys. a \<in> fst ` set ys' \<or> nodes m1 a = None"
    using q(4,5) by (metis UnE subsetD)
  moreover have "objects m1 = (if keep then objects (snd s) else objects (snd s) - snd ` set xs)"
    using q(6) by (simp add: s)
  ultimately show ?thesis
    by (intro exI [of _ "(?o, m1)"] exI [of _ ys']) simp
qed

text \<open>The destructor frees every node and every object of the list: nothing leaks.\<close>

lemma list_destroy_run:
  assumes r: "list_rep s xs ys"
    and o: "distinct (map snd xs)" "0 \<notin> snd ` set xs" "snd ` set xs \<subseteq> objects (snd s)"
  shows "\<exists>m. list_destroy s = Some m \<and> objects m = objects (snd s) - snd ` set xs \<and>
           (\<forall>a \<in> fst ` set xs \<union> fst ` set ys. nodes m a = None)"
proof -
  obtain o1 m1 ys' where c: "Clean False s = Some (True, o1, m1)" "list_rep (o1, m1) [] ys'"
    "\<forall>a \<in> fst ` set xs \<union> fst ` set ys. a \<in> fst ` set ys' \<or> nodes m1 a = None"
    "objects m1 = objects (snd s) - snd ` set xs"
    using Clean_run [OF r, of False] o by fastforce
  have "queue_rep (m_linkItemCache o1) m1 ys'" using c(2) by (simp add: list_rep_def counted_def)
  then have y: "chain (nodes m1) 0 ys' 0" "distinct (map fst ys')"
    "q_pHead (m_linkItemCache o1) = first 0 ys'"
    by (auto simp: queue_rep_def dll_def)
  show ?thesis
    using c(1,3,4) delete_chain_run [OF y(1,2)] y(3) by (auto simp: list_destroy_def queue_destroy_def)
qed

subsection \<open>Concatenation\<close>

text \<open>Two lists with disjoint nodes in one memory; an operation on one leaves the other alone.\<close>

lemma list_rep_bound:
  "list_rep (o1, m) xs ys \<Longrightarrow> \<forall>b \<in> fst ` set xs \<union> fst ` set ys. b < brk m"
  by (simp add: list_rep_def)

lemma list_rep_frame:
  assumes "list_rep (o1, m) xs ys" "local_change A m m'" "A \<inter> (fst ` set xs \<union> fst ` set ys) = {}"
  shows "list_rep (o1, m') xs ys"
proof -
  have "dll (nodes m') a b xs = dll (nodes m) a b xs" for a b
    using assms(2,3) by (intro local_change_dll) auto
  moreover have "counted q m' ys = counted q m ys" for q
    using assms(2,3) by (intro counted_cong) auto
  moreover have "brk m \<le> brk m'" using assms(2) by (rule local_change_brk)
  moreover have "\<forall>b \<in> fst ` set xs \<union> fst ` set ys. b < brk m'"
    using list_rep_bound [OF assms(1)] \<open>brk m \<le> brk m'\<close> order_less_le_trans by blast
  ultimately show ?thesis using assms(1) unfolding list_rep_def fst_conv snd_conv by simp
qed

lemma owned_disjoint:
  assumes "list_rep (o1, m) xs ys" "(fst ` set xs \<union> fst ` set ys) \<inter> B = {}"
    "\<forall>b \<in> B. b < brk m"
  shows "owned m xs ys \<inter> B = {}"
  using assms(2,3) by (force simp: owned_def)

lemma GotoNext_run:
  "list_rep (o1, m) (us @ x # vs) ys \<Longrightarrow> GotoNextPosition (fst x) (o1, m) = Some (first 0 vs)"
  by (auto simp: GotoNextPosition_def list_rep_def dll_def)

text \<open>
  With plain identities (the defaults of the class), non-null objects and no object in both
  lists, everything is moved, in order.
\<close>

lemma concat_from_run:
  assumes "list_rep (dst, m) xs ys" "list_rep (src, m) us zs"
    and "(fst ` set xs \<union> fst ` set ys) \<inter> (fst ` set us \<union> fst ` set zs) = {}"
    and "distinct (map snd us)" "0 \<notin> snd ` set us" "snd ` set us \<inter> snd ` set xs = {}"
  shows "\<exists>dst' src' m' ys' zs' ws.
           concat_from default_ids (first 0 us) (first 0 (tl us)) dst src m = Some (True, dst', src', m') \<and>
           list_rep (dst', m') (xs @ ws) ys' \<and> list_rep (src', m') [] zs' \<and> map snd ws = map snd us \<and>
           objects m' = objects m"
  using assms
proof (induction us arbitrary: dst src m xs ys zs)
  case Nil
  then show ?case by (auto simp: concat_from.simps)
next
  case (Cons u us)
  let ?A = "fst ` set xs \<union> fst ` set ys" and ?B = "fst ` set (u # us) \<union> fst ` set zs"
  have idE: "IsIDEqual default_ids = (=)" "GetIDOf default_ids = (\<lambda>p. p)" by (auto simp: default_ids_def)
  have u: "fst u \<noteq> 0" "snd u \<noteq> 0" "\<exists>l. nodes m (fst u) = Some l \<and> m_pItem l = snd u"
    using cell_node [OF Cons.prems(2), of u] Cons.prems(5) by auto
  have "List.find (\<lambda>x. IsIDEqual default_ids (GetIDOf default_ids (snd x)) (GetIDOf default_ids (snd u)))
      (u # us) = Some u" by (simp add: idE)
  from DeleteItem_run [OF Cons.prems(2) _ this, of True]
  obtain src1 m1 zs1 where d: "DeleteItem default_ids (snd u) True (src, m) = Some (True, src1, m1)"
    "list_rep (src1, m1) us zs1" "fst ` set zs1 \<subseteq> insert (fst u) (fst ` set zs)" "objects m1 = objects m"
    "local_change (owned m (u # us) zs) m m1"
    by (auto simp: idE)
  note bA = list_rep_bound [OF Cons.prems(1)]
  have dA: "owned m (u # us) zs \<inter> ?A = {}"
    using owned_disjoint [OF Cons.prems(2) _ bA] Cons.prems(3) by blast
  have l1: "list_rep (dst, m1) xs ys" by (rule list_rep_frame [OF Cons.prems(1) d(5) dA])
  have "snd u \<notin> snd ` set xs" using Cons.prems(6) by auto
  then have "List.find (\<lambda>x. IsIDEqual default_ids (GetIDOf default_ids (snd x)) (GetIDOf default_ids (snd u)))
      xs = None" by (auto simp: idE find_None_iff dest: snd_in)
  from AddItem_run [OF l1 this]
  obtain dst2 m2 p where a: "AddItem default_ids (snd u) (dst, m1) = Some (True, dst2, m2)"
    "list_rep (dst2, m2) (xs @ [(p, snd u)]) (tl ys)" "p \<in> owned m1 xs ys"
    "local_change (owned m1 xs ys) m1 m2"
    by auto
  have B1: "fst ` set us \<union> fst ` set zs1 \<subseteq> ?B" using d(3) by auto
  note b1 = list_rep_bound [OF d(2)]
  have dB: "owned m1 xs ys \<inter> (fst ` set us \<union> fst ` set zs1) = {}"
    using owned_disjoint [OF l1 _ b1] Cons.prems(3) B1 by blast
  have l2: "list_rep (src1, m2) us zs1" by (rule list_rep_frame [OF d(2) a(4) dB])
  have t: "fst ` set (tl ys) \<subseteq> fst ` set ys" by (cases ys) auto
  have dis: "(fst ` set (xs @ [(p, snd u)]) \<union> fst ` set (tl ys)) \<inter> (fst ` set us \<union> fst ` set zs1) = {}"
  proof -
    have "fst ` set (xs @ [(p, snd u)]) \<union> fst ` set (tl ys) \<subseteq> owned m1 xs ys"
      using t a(3) by (auto simp: owned_def)
    then show ?thesis using dB by blast
  qed
  have nx: "GotoNextPosition (first 0 us) (src1, m2) = Some (first 0 (tl us))"
  proof (cases us)
    case Nil
    then show ?thesis by (simp add: GotoNextPosition_def)
  next
    case (Cons v vs)
    then show ?thesis using GotoNext_run [of src1 m2 "[]" v vs zs1] l2 by simp
  qed
  have items: "snd ` set us \<inter> snd ` set (xs @ [(p, snd u)]) = {}" using Cons.prems(4,6) by auto
  have step: "concat_from default_ids (first 0 (u # us)) (first 0 (tl (u # us))) dst src m =
      concat_from default_ids (first 0 us) (first 0 (tl us)) dst2 src1 m2"
    using u d(1) a(1) nx by (auto simp: concat_from.simps [of _ "fst u"] GetCurrentItem_def)
  obtain dst' src' m' ys' zs' ws where
    "concat_from default_ids (first 0 us) (first 0 (tl us)) dst2 src1 m2 = Some (True, dst', src', m')"
    "list_rep (dst', m') ((xs @ [(p, snd u)]) @ ws) ys'" "list_rep (src', m') [] zs'"
    "map snd ws = map snd us" "objects m' = objects m2"
    using Cons.IH [OF a(2) l2 dis _ _ items] Cons.prems(4,5) by auto
  moreover have "objects m2 = objects m" using local_change_objects [OF a(4)] d(4) by simp
  ultimately show ?case using step
    by (intro exI [of _ dst'] exI [of _ src'] exI [of _ m'] exI [of _ ys'] exI [of _ zs']
        exI [of _ "(p, snd u) # ws"]) simp
qed


section \<open>The interface of an object list\<close>

text \<open>
  What a client relies on: identities decide what is the same object, an object is added at the
  end and at most once, deleting takes out the first match, positions count from zero.
\<close>

definition known :: "(addr \<Rightarrow> addr \<Rightarrow> bool) \<Rightarrow> addr \<Rightarrow> addr list \<Rightarrow> bool" where
  "known same v xs \<longleftrightarrow> (\<exists>x \<in> set xs. same x v)"

locale object_list =
  fixes rep :: "'s \<Rightarrow> addr list \<Rightarrow> bool"
    and same :: "addr \<Rightarrow> addr \<Rightarrow> bool"
    and add :: "addr \<Rightarrow> 's \<Rightarrow> (bool \<times> 's) option"
    and del :: "addr \<Rightarrow> 's \<Rightarrow> (bool \<times> 's) option"
    and item :: "int \<Rightarrow> 's \<Rightarrow> addr option"
    and index :: "addr \<Rightarrow> 's \<Rightarrow> int option"
    and num :: "'s \<Rightarrow> int"
  assumes add: "rep s xs \<Longrightarrow>
      \<exists>s'. add v s = Some (\<not> known same v xs, s') \<and>
           rep s' (if known same v xs then xs else xs @ [v])"
    and del: "rep s xs \<Longrightarrow>
      \<exists>s'. del v s = Some (known same v xs, s') \<and> rep s' (without_first (\<lambda>x. same x v) xs)"
    and item: "rep s xs \<Longrightarrow> 0 \<le> i \<Longrightarrow>
      item i s = Some (if i < int (length xs) then xs ! nat i else 0)"
    and index: "rep s xs \<Longrightarrow> index v s = Some (position v 0 xs)"
    and num: "rep s xs \<Longrightarrow> num s = int (length xs)"

datatype list_op = Add addr | Remove addr | Item int | Index addr | Count
datatype list_out = Done bool | Object addr | Number int

primrec list_step ::
  "(addr \<Rightarrow> 's \<Rightarrow> (bool \<times> 's) option) \<Rightarrow> (addr \<Rightarrow> 's \<Rightarrow> (bool \<times> 's) option) \<Rightarrow>
   (int \<Rightarrow> 's \<Rightarrow> addr option) \<Rightarrow> (addr \<Rightarrow> 's \<Rightarrow> int option) \<Rightarrow> ('s \<Rightarrow> int) \<Rightarrow>
   list_op \<Rightarrow> 's \<Rightarrow> (list_out \<times> 's) option"
where
  "list_step add del item index num (Add v) s = map_option (\<lambda>(b, s1). (Done b, s1)) (add v s)"
| "list_step add del item index num (Remove v) s = map_option (\<lambda>(b, s1). (Done b, s1)) (del v s)"
| "list_step add del item index num (Item i) s = map_option (\<lambda>p. (Object p, s)) (item i s)"
| "list_step add del item index num (Index v) s = map_option (\<lambda>i. (Number i, s)) (index v s)"
| "list_step add del item index num Count s = Some (Number (num s), s)"

primrec run_steps :: "(list_op \<Rightarrow> 's \<Rightarrow> (list_out \<times> 's) option) \<Rightarrow> list_op list \<Rightarrow> 's \<Rightarrow>
    (list_out list \<times> 's) option"
where
  "run_steps step [] s = Some ([], s)"
| "run_steps step (c # cs) s = do {
     (r, s1) \<leftarrow> step c s;
     (rs, s2) \<leftarrow> run_steps step cs s1;
     Some (r # rs, s2) }"

text \<open>The same operations on a list.\<close>

primrec spec_step :: "(addr \<Rightarrow> addr \<Rightarrow> bool) \<Rightarrow> list_op \<Rightarrow> addr list \<Rightarrow> list_out \<times> addr list" where
  "spec_step same (Add v) xs =
     (Done (\<not> known same v xs), if known same v xs then xs else xs @ [v])"
| "spec_step same (Remove v) xs = (Done (known same v xs), without_first (\<lambda>x. same x v) xs)"
| "spec_step same (Item i) xs = (Object (if i < int (length xs) then xs ! nat i else 0), xs)"
| "spec_step same (Index v) xs = (Number (position v 0 xs), xs)"
| "spec_step same Count xs = (Number (int (length xs)), xs)"

primrec spec_run :: "(addr \<Rightarrow> addr \<Rightarrow> bool) \<Rightarrow> list_op list \<Rightarrow> addr list \<Rightarrow> list_out list \<times> addr list" where
  "spec_run same [] xs = ([], xs)"
| "spec_run same (c # cs) xs =
     (let r = spec_step same c xs; t = spec_run same cs (snd r) in (fst r # fst t, snd t))"

text \<open>A negative position is undefined behaviour; the clients of the lemma never use one.\<close>

primrec index_ok :: "list_op \<Rightarrow> bool" where
  "index_ok (Add v) = True"
| "index_ok (Remove v) = True"
| "index_ok (Item i) = (0 \<le> i)"
| "index_ok (Index v) = True"
| "index_ok Count = True"

lemma without_first_set: "set (without_first P xs) \<subseteq> set xs"
  by (induction xs) auto

lemma without_first_sorted_wrt: "sorted_wrt R xs \<Longrightarrow> sorted_wrt R (without_first P xs)"
proof (induction xs)
  case (Cons x xs)
  then show ?case using without_first_set [of P xs] by auto
qed simp

lemma spec_run_unique:
  "sorted_wrt (\<lambda>x y. \<not> same x y) xs \<Longrightarrow> sorted_wrt (\<lambda>x y. \<not> same x y) (snd (spec_run same cs xs))"
proof (induction cs arbitrary: xs)
  case (Cons c cs)
  have "sorted_wrt (\<lambda>x y. \<not> same x y) (snd (spec_step same c xs))"
    using Cons.prems by (cases c) (auto simp: sorted_wrt_append known_def without_first_sorted_wrt)
  then show ?case using Cons.IH by (simp add: Let_def)
qed simp

context object_list
begin

lemma step_refines:
  assumes "rep s xs" "index_ok c"
  shows "\<exists>s'. list_step add del item index num c s = Some (fst (spec_step same c xs), s') \<and>
           rep s' (snd (spec_step same c xs))"
  using assms add [OF assms(1)] del [OF assms(1)] item [OF assms(1)] index [OF assms(1)]
    num [OF assms(1)]
  by (cases c) fastforce+

lemma run_refines:
  "rep s xs \<Longrightarrow> list_all index_ok cs \<Longrightarrow>
     \<exists>s'. run_steps (list_step add del item index num) cs s = Some (fst (spec_run same cs xs), s') \<and>
          rep s' (snd (spec_run same cs xs))"
proof (induction cs arbitrary: s xs)
  case (Cons c cs)
  then obtain s1 where s1: "list_step add del item index num c s = Some (fst (spec_step same c xs), s1)"
    "rep s1 (snd (spec_step same c xs))" using step_refines [of s xs c] by auto
  from Cons.IH [OF this(2)] Cons.prems(2) obtain s2 where
    "run_steps (list_step add del item index num) cs s1 =
       Some (fst (spec_run same cs (snd (spec_step same c xs))), s2)"
    "rep s2 (snd (spec_run same cs (snd (spec_step same c xs))))" by auto
  then show ?case using s1(1) by (auto simp: Let_def)
qed simp

end

text \<open>The class provides it, for every choice of identities.\<close>

definition same_id :: "ids \<Rightarrow> addr \<Rightarrow> addr \<Rightarrow> bool" where
  "same_id I x v = IsIDEqual I (GetIDOf I x) (GetIDOf I v)"

lemma known_find:
  "known (same_id I) v (map snd xs) \<longleftrightarrow>
     List.find (\<lambda>x. IsIDEqual I (GetIDOf I (snd x)) (GetIDOf I v)) xs \<noteq> None"
  by (induction xs) (auto simp: known_def same_id_def)

lemma AddItem_refines:
  assumes "list_holds s is"
  shows "\<exists>s'. AddItem I v s = Some (\<not> known (same_id I) v is, s') \<and>
           list_holds s' (if known (same_id I) v is then is else is @ [v])"
proof -
  obtain xs ys where r: "list_rep s xs ys" "is = map snd xs" using assms by (auto simp: list_holds_def)
  show ?thesis
  proof (cases "known (same_id I) v is")
    case True
    then obtain x where "List.find (\<lambda>x. IsIDEqual I (GetIDOf I (snd x)) (GetIDOf I v)) xs = Some x"
      using known_find [of I v xs] by (auto simp: r(2))
    then show ?thesis using AddItem_known [OF r(1)] assms True by auto
  next
    case False
    then have "List.find (\<lambda>x. IsIDEqual I (GetIDOf I (snd x)) (GetIDOf I v)) xs = None"
      using known_find [of I v xs] unfolding r(2) by blast
    from AddItem_run [OF r(1) this] obtain s' p where
      "AddItem I v s = Some (True, s')" "list_rep s' (xs @ [(p, v)]) (tl ys)" by blast
    then show ?thesis using False r(2) unfolding list_holds_def by fastforce
  qed
qed

lemma DeleteItem_refines:
  assumes "list_holds s is" "keep \<or> v = 0 \<or> v \<in> objects (snd s)"
  shows "\<exists>s'. DeleteItem I v keep s = Some (known (same_id I) v is, s') \<and>
           list_holds s' (without_first (\<lambda>x. same_id I x v) is) \<and>
           objects (snd s') =
             (if keep \<or> \<not> known (same_id I) v is then objects (snd s) else deleted v (objects (snd s)))"
proof -
  obtain xs ys where r: "list_rep s xs ys" "is = map snd xs" using assms by (auto simp: list_holds_def)
  have w: "without_first (\<lambda>x. same_id I x v) is =
      map snd (without_first (\<lambda>x. IsIDEqual I (GetIDOf I (snd x)) (GetIDOf I v)) xs)"
    by (simp add: r(2) without_first_map same_id_def)
  show ?thesis
  proof (cases "known (same_id I) v is")
    case True
    then obtain x where "List.find (\<lambda>x. IsIDEqual I (GetIDOf I (snd x)) (GetIDOf I v)) xs = Some x"
      using known_find [of I v xs] by (auto simp: r(2))
    from DeleteItem_run [OF r(1) assms(2) this] show ?thesis
      using True unfolding list_holds_def w by metis
  next
    case False
    then have n: "List.find (\<lambda>x. IsIDEqual I (GetIDOf I (snd x)) (GetIDOf I v)) xs = None"
      using known_find [of I v xs] unfolding r(2) by blast
    have "without_first P zs = zs" if "\<forall>z \<in> set zs. \<not> P z" for P and zs :: "addr list"
      using that by (induction zs) auto
    then have "without_first (\<lambda>x. same_id I x v) is = is" using False by (auto simp: known_def)
    then show ?thesis using DeleteItem_unknown [OF r(1) n] assms(1) False by simp
  qed
qed

interpretation clist: object_list list_holds "same_id I" "AddItem I"
    "\<lambda>v. DeleteItem I v True" GetItem FindIndex GetNItems for I
proof
  fix s xs v assume "list_holds s xs"
  then show "\<exists>s'. AddItem I v s = Some (\<not> known (same_id I) v xs, s') \<and>
      list_holds s' (if known (same_id I) v xs then xs else xs @ [v])"
    by (rule AddItem_refines)
next
  fix s xs v assume "list_holds s xs"
  then show "\<exists>s'. DeleteItem I v True s = Some (known (same_id I) v xs, s') \<and>
      list_holds s' (without_first (\<lambda>x. same_id I x v) xs)"
    using DeleteItem_refines [of s xs True] by blast
next
  fix s xs and i :: int assume "list_holds s xs" "0 \<le> i"
  then show "GetItem i s = Some (if i < int (length xs) then xs ! nat i else 0)"
    by (simp add: GetItem_run)
next
  fix s xs v assume "list_holds s xs"
  then show "FindIndex v s = Some (position v 0 xs)" by (rule FindIndex_run)
next
  fix s xs assume "list_holds s xs"
  then show "GetNItems s = int (length xs)"
    by (auto simp: list_holds_def list_rep_def GetNItems_def)
qed


lemma GetFirstPosition2_run:
  assumes "list_rep (src, m) us zs"
  shows "GetFirstPosition2 (src, m) = Some (first 0 us, first 0 (tl us))"
proof (cases us)
  case Nil
  then show ?thesis using list_repD(3) [OF assms] by (simp add: GetFirstPosition2_def)
next
  case (Cons u vs)
  then show ?thesis using list_repD(1,3) [OF assms] by (auto simp: GetFirstPosition2_def)
qed

text \<open>
  An object whose identity the destination already has is taken out of the source and then
  refused: it is in neither list.
\<close>

lemma Concatenation_drops:
  assumes dst: "list_rep (dst, m) xs ys" and src: "list_rep (src, m) (u # us) zs"
    and dis: "(fst ` set xs \<union> fst ` set ys) \<inter> (fst ` set (u # us) \<union> fst ` set zs) = {}"
    and u: "snd u \<noteq> 0" "same_id I (snd u) (snd u)" "known (same_id I) (snd u) (map snd xs)"
  shows "\<exists>src' m'. Concatenation I dst src m = Some (False, dst, src', m') \<and>
           list_holds (dst, m') (map snd xs) \<and> list_holds (src', m') (map snd us) \<and>
           objects m' = objects m"
proof -
  have "List.find (\<lambda>x. IsIDEqual I (GetIDOf I (snd x)) (GetIDOf I (snd u))) (u # us) = Some u"
    using u(2) by (simp add: same_id_def)
  from DeleteItem_run [OF src _ this, of True]
  obtain src1 m1 zs1 where d: "DeleteItem I (snd u) True (src, m) = Some (True, src1, m1)"
    "list_rep (src1, m1) us zs1" "objects m1 = objects m"
    "local_change (owned m (u # us) zs) m m1"
    using u(2) by (auto simp: same_id_def)
  have "owned m (u # us) zs \<inter> (fst ` set xs \<union> fst ` set ys) = {}"
    using owned_disjoint [OF src _ list_rep_bound [OF dst]] dis by blast
  then have l1: "list_rep (dst, m1) xs ys" by (rule list_rep_frame [OF dst d(4)])
  obtain x where "List.find (\<lambda>x. IsIDEqual I (GetIDOf I (snd x)) (GetIDOf I (snd u))) xs = Some x"
    using known_find [of I "snd u" xs] u(3) by auto
  note a = AddItem_known [OF l1 this]
  obtain l where l: "nodes m (fst u) = Some l" "m_pItem l = snd u" "fst u \<noteq> 0"
    using cell_node [OF src, of u] by auto
  then have "Concatenation I dst src m = Some (False, dst, src1, m1)"
    using u(1) d(1) a
    by (simp add: Concatenation_def GetFirstPosition2_run [OF src] concat_from.simps [of _ "fst u"]
        GetCurrentItem_def)
  then show ?thesis using l1 d(2,3) unfolding list_holds_def by blast
qed

text \<open>A release through the raw interface is not counted, so the cache's limit never takes effect.\<close>

lemma RawReleaseLinkItem_run:
  assumes "queue_rep q m ys" "q_iNItems q < k" "p \<noteq> 0" "p \<notin> fst ` set ys" "nodes m p = Some l"
  shows "\<exists>q' m'. RawReleaseLinkItem k p q m = Some (q', m') \<and>
           queue_rep q' m' (ys @ [(p, m_pItem l)]) \<and> q_iNItems q' = q_iNItems q \<and>
           (\<forall>a. nodes m a \<noteq> None \<longrightarrow> nodes m' a \<noteq> None)"
proof -
  obtain q' m' where r: "RawEnqueue p q m = Some (True, q', m')" "queue_rep q' m' (ys @ [(p, m_pItem l)])"
    "q_iNItems q' = q_iNItems q" "local_change (insert p (fst ` set ys)) m m'"
    using RawEnqueue_run [OF assms(1,3,4,5)] by blast
  have "nodes m' a \<noteq> None" if "nodes m a \<noteq> None" for a
  proof (cases "a \<in> insert p (fst ` set ys)")
    case True
    then have "a \<in> fst ` set (ys @ [(p, m_pItem l)])" by auto
    then show ?thesis using node_live [OF r(2)] by blast
  next
    case False
    then show ?thesis using r(4) that by (simp add: local_change_def)
  qed
  then show ?thesis using r assms(2) by (auto simp: RawReleaseLinkItem_def)
qed

primrec raw_release_all :: "int \<Rightarrow> addr list \<Rightarrow> link_queue \<times> lmem \<Rightarrow> (link_queue \<times> lmem) option" where
  "raw_release_all k [] s = Some s"
| "raw_release_all k (p # ps) s = do {
     s1 \<leftarrow> RawReleaseLinkItem k p (fst s) (snd s);
     raw_release_all k ps s1 }"

lemma raw_release_all_run:
  "queue_rep q m ys \<Longrightarrow> q_iNItems q < k \<Longrightarrow> distinct (map fst ys @ ps) \<Longrightarrow>
     \<forall>p \<in> set ps. p \<noteq> 0 \<and> nodes m p \<noteq> None \<Longrightarrow>
     \<exists>q' m' zs. raw_release_all k ps (q, m) = Some (q', m') \<and> queue_rep q' m' zs \<and>
       map fst zs = map fst ys @ ps \<and> q_iNItems q' = q_iNItems q"
proof (induction ps arbitrary: q m ys)
  case (Cons p ps)
  obtain l where l: "p \<noteq> 0" "nodes m p = Some l" using Cons.prems(4) by auto
  have "p \<notin> fst ` set ys" using Cons.prems(3) by auto
  from RawReleaseLinkItem_run [OF Cons.prems(1,2) l(1) this l(2)]
  obtain q1 m1 where r: "RawReleaseLinkItem k p q m = Some (q1, m1)"
    "queue_rep q1 m1 (ys @ [(p, m_pItem l)])" "q_iNItems q1 = q_iNItems q"
    "\<forall>a. nodes m a \<noteq> None \<longrightarrow> nodes m1 a \<noteq> None" by blast
  have "distinct (map fst (ys @ [(p, m_pItem l)]) @ ps)" "q_iNItems q1 < k"
    "\<forall>p \<in> set ps. p \<noteq> 0 \<and> nodes m1 p \<noteq> None"
    using Cons.prems r(3,4) by auto
  with Cons.IH [OF r(2)] obtain q' m' zs where
    "raw_release_all k ps (q1, m1) = Some (q', m')" "queue_rep q' m' zs"
    "map fst zs = map fst (ys @ [(p, m_pItem l)]) @ ps" "q_iNItems q' = q_iNItems q1" by blast
  then show ?case using r(1,3) by auto
qed auto

end
