(* ===== verification/Ring.thy ===== *)
theory Ring
  imports Prelude "HOL-Library.Monad_Syntax"
begin

text \<open>
  The ring buffers of \<open>CCiSocket\<close> (\<open>CiSocket.h\<close>, \<open>CiSocket.cpp\<close>).  A socket has two of them, with
  the same four members each (\<open>m_pSendBuffer\<close>, \<open>m_iSendBufferSize\<close>, \<open>m_iSendStartPtr\<close>,
  \<open>m_iSendEndPtr\<close> and the same with \<open>Recv\<close>), so they are one record here.  What a ring holds is a
  list of bytes (\<open>ring_data\<close>); the lemmas relate every operation to it.

  \<open>None\<close> is undefined behaviour: a copy outside a block of memory.  A caller's buffer of \<open>n\<close>
  bytes is a list of length \<open>n\<close>.
\<close>

section \<open>Memory\<close>

text \<open>Which allocations succeed, and what fresh memory holds.\<close>

record heap =
  h_ok :: "nat \<Rightarrow> bool"
  h_junk :: "nat \<Rightarrow> byte"

definition c_malloc :: "heap \<Rightarrow> int \<Rightarrow> byte list option" where
  "c_malloc H n = (if 0 \<le> n \<and> h_ok H (nat n) then Some (new_array (h_junk H) (nat n)) else None)"

text \<open>\<open>realloc\<close> keeps what fits; on \<open>NULL\<close> it is \<open>malloc\<close>.\<close>

definition c_realloc :: "heap \<Rightarrow> byte list option \<Rightarrow> nat \<Rightarrow> byte list option" where
  "c_realloc H p n =
     (let old = (case p of None \<Rightarrow> [] | Some b \<Rightarrow> b) in
      if h_ok H n then Some (take n old @ drop (length old) (new_array (h_junk H) n)) else None)"

text \<open>\<open>memcpy\<close> and \<open>memmove\<close> into and out of a block, at an \<open>int\<close> position.\<close>

definition put_at :: "byte list \<Rightarrow> int \<Rightarrow> byte list \<Rightarrow> byte list option" where
  "put_at b i xs = (if i < 0 then None else blit b (nat i) xs)"

definition get_at :: "byte list \<Rightarrow> int \<Rightarrow> int \<Rightarrow> byte list option" where
  "get_at b i n = (if i < 0 \<or> n < 0 then None else slice_of b (nat i) (nat n))"

section \<open>The ring\<close>

record ring =
  r_buf :: "byte list option"
  r_size :: int
  r_start :: int
  r_end :: int

text \<open>\<open>GetCurrentRecvDataSize\<close>, \<open>GetRemainSendDataSize\<close>.\<close>

definition ring_used :: "ring \<Rightarrow> int" where
  "ring_used r =
     (if r_end r > r_start r then r_end r - r_start r
      else if r_end r < r_start r then r_size r - (r_start r - r_end r)
      else 0)"

text \<open>\<open>RemainingRecvBufferSize\<close>, \<open>RemainingSendBufferSize\<close>: the \<open>int\<close> becomes a \<open>size_t\<close>.\<close>

definition ring_remaining :: "ring \<Rightarrow> int" where
  "ring_remaining r = (r_size r - ring_used r) mod 2 ^ 64"

text \<open>\<open>PrepareRecvBuffer\<close>, \<open>PrepareSendBuffer\<close>.\<close>

definition ring_prepare :: "heap \<Rightarrow> nat \<Rightarrow> ring \<Rightarrow> (bool \<times> ring) option" where
  "ring_prepare H sz r =
     (if int sz < ring_remaining r then Some (True, r)
      else (let need_size = (int sz - ring_remaining r + 1) mod 2 ^ 64;
                new_buffer_size = (r_size r + need_size) mod 2 ^ 64 in
        case c_realloc H (r_buf r) (nat new_buffer_size) of
          None \<Rightarrow> Some (False, r)
        | Some new_buffer \<Rightarrow>
            (let r1 = r\<lparr>r_size := to_int32 new_buffer_size, r_buf := Some new_buffer\<rparr> in
             if r_end r1 < r_start r1 then do {
               src \<leftarrow> get_at new_buffer (r_start r1) need_size;
               b \<leftarrow> put_at new_buffer (r_start r1 + need_size) src;
               Some (True, r1\<lparr>r_buf := Some b, r_start := to_int32 (r_start r1 + need_size)\<rparr>) }
             else Some (True, r1))))"

text \<open>
  \<open>WriteNToBuffer\<close>: the result has what is stored in \<open>*pnwritten\<close>, if anything.
  \<open>ring_store\<close> is the part behind the call of \<open>PrepareSendBuffer\<close>.
\<close>

definition ring_store :: "byte list \<Rightarrow> ring \<Rightarrow> ((bool \<times> nat option) \<times> ring) option" where
  "ring_store bs r0 =
     (let r1 = (if r_start r0 = r_end r0 then r0\<lparr>r_start := 0, r_end := 0\<rparr> else r0);
          n = int (length bs) in
      if r_start r1 > r_end r1 \<and> r_start r1 - r_end r1 > n then do {
        b \<leftarrow> r_buf r1;
        b1 \<leftarrow> put_at b (r_end r1) bs;
        Some ((True, Some (length bs)), r1\<lparr>r_buf := Some b1, r_end := r_end r1 + n\<rparr>) }
      else if r_start r1 \<le> r_end r1 \<and> r_size r1 - (r_end r1 - r_start r1) > n then
        (if r_size r1 - r_end r1 \<ge> n then do {
           b \<leftarrow> r_buf r1;
           b1 \<leftarrow> put_at b (r_end r1) bs;
           Some ((True, Some (length bs)), r1\<lparr>r_buf := Some b1,
             r_end := if r_end r1 + n = r_size r1 then 0 else r_end r1 + n\<rparr>) }
         else do {
           b \<leftarrow> r_buf r1;
           xs \<leftarrow> get_at bs 0 (r_size r1 - r_end r1);
           b1 \<leftarrow> put_at b (r_end r1) xs;
           ys \<leftarrow> get_at bs (r_size r1 - r_end r1) (n - (r_size r1 - r_end r1));
           b2 \<leftarrow> put_at b1 0 ys;
           Some ((True, Some (length bs)),
                 r1\<lparr>r_buf := Some b2, r_end := n - (r_size r1 - r_end r1)\<rparr>) })
      else Some ((False, None), r1))"

definition ring_put :: "heap \<Rightarrow> byte list \<Rightarrow> ring \<Rightarrow> ((bool \<times> nat option) \<times> ring) option" where
  "ring_put H bs r = do {
     (ok, r0) \<leftarrow> ring_prepare H (length bs) r;
     if \<not> ok then Some ((False, None), r0) else ring_store bs r0 }"

text \<open>\<open>ReadN\<close>: the bytes copied to the caller, if any.\<close>

definition ring_get :: "int \<Rightarrow> ring \<Rightarrow> ((bool \<times> byte list option) \<times> ring) option" where
  "ring_get n r =
     (if r_end r > r_start r \<and> r_end r - r_start r \<ge> n then do {
        b \<leftarrow> r_buf r;
        xs \<leftarrow> get_at b (r_start r) n;
        Some ((True, Some xs), r\<lparr>r_start := r_start r + n\<rparr>) }
      else if r_end r < r_start r \<and> r_size r - (r_start r - r_end r) \<ge> n then
        (if r_size r - r_start r \<ge> n then do {
           b \<leftarrow> r_buf r;
           xs \<leftarrow> get_at b (r_start r) n;
           let s1 = r_start r + n;
           Some ((True, Some xs), r\<lparr>r_start := if s1 = r_size r then 0 else s1\<rparr>) }
         else do {
           let k = r_size r - r_start r;
           b \<leftarrow> r_buf r;
           xs \<leftarrow> get_at b (r_start r) k;
           ys \<leftarrow> get_at b 0 (n - k);
           Some ((True, Some (xs @ ys)), r\<lparr>r_start := n - k\<rparr>) })
      else Some ((False, None), r))"

text \<open>\<open>LookAheadN\<close> and, with four bytes, \<open>LookAheadInt32\<close>.\<close>

definition ring_peek :: "int \<Rightarrow> int \<Rightarrow> ring \<Rightarrow> (bool \<times> byte list option) option" where
  "ring_peek n off r =
     (if r_end r > r_start r \<and> r_end r - r_start r \<ge> off + n then do {
        b \<leftarrow> r_buf r;
        xs \<leftarrow> get_at b (r_start r + off) n;
        Some (True, Some xs) }
      else if r_end r < r_start r \<and> r_size r - (r_start r - r_end r) \<ge> off + n then
        (let k = r_size r - (r_start r + off) in
         if k \<ge> n then do {
           b \<leftarrow> r_buf r;
           xs \<leftarrow> get_at b (r_start r + off) n;
           Some (True, Some xs) }
         else if k > 0 then do {
           b \<leftarrow> r_buf r;
           xs \<leftarrow> get_at b (r_start r + off) k;
           ys \<leftarrow> get_at b 0 (n - k);
           Some (True, Some (xs @ ys)) }
         else do {
           b \<leftarrow> r_buf r;
           xs \<leftarrow> get_at b (r_start r + off - r_size r) n;
           Some (True, Some xs) })
      else Some (False, None))"

section \<open>What a ring holds\<close>

text \<open>One byte always stays free, so equal positions mean that the ring is empty.\<close>

definition ring_ok :: "ring \<Rightarrow> bool" where
  "ring_ok r \<longleftrightarrow>
     (\<exists>b. r_buf r = Some b \<and> r_size r = int (length b) \<and> length b < 2 ^ 31 \<and>
        0 \<le> r_start r \<and> r_start r < r_size r \<and> 0 \<le> r_end r \<and> r_end r < r_size r)"

definition ring_bytes :: "byte list \<Rightarrow> nat \<Rightarrow> nat \<Rightarrow> byte list" where
  "ring_bytes b s e = (if s \<le> e then take (e - s) (drop s b) else drop s b @ take e b)"

definition ring_data :: "ring \<Rightarrow> byte list" where
  "ring_data r =
     (case r_buf r of None \<Rightarrow> [] | Some b \<Rightarrow> ring_bytes b (nat (r_start r)) (nat (r_end r)))"

text \<open>A ring in order, with its members as natural numbers.\<close>

definition mk_ring :: "byte list \<Rightarrow> nat \<Rightarrow> nat \<Rightarrow> ring" where
  "mk_ring b s e = \<lparr>r_buf = Some b, r_size = int (length b), r_start = int s, r_end = int e\<rparr>"

lemma mk_ring_sel [simp]:
  "r_buf (mk_ring b s e) = Some b" "r_size (mk_ring b s e) = int (length b)"
  "r_start (mk_ring b s e) = int s" "r_end (mk_ring b s e) = int e"
  by (simp_all add: mk_ring_def)

lemma ring_data_mk [simp]: "ring_data (mk_ring b s e) = ring_bytes b s e"
  by (simp add: ring_data_def)

lemma ring_ok_mk:
  "ring_ok (mk_ring b s e) \<longleftrightarrow> length b < 2 ^ 31 \<and> s < length b \<and> e < length b"
  by (auto simp: ring_ok_def)

lemma ring_ok_cases:
  assumes "ring_ok r"
  shows "\<exists>b s e. r = mk_ring b s e \<and> length b < 2 ^ 31 \<and> s < length b \<and> e < length b"
proof -
  obtain b where b: "r_buf r = Some b" "r_size r = int (length b)" "length b < 2 ^ 31"
    "0 \<le> r_start r" "r_start r < r_size r" "0 \<le> r_end r" "r_end r < r_size r"
    using assms by (auto simp: ring_ok_def)
  have "r = mk_ring b (nat (r_start r)) (nat (r_end r))"
    using b by (intro ring.equality) simp_all
  moreover have "nat (r_start r) < length b" "nat (r_end r) < length b" using b by simp_all
  ultimately show ?thesis using b(3) by blast
qed

lemma nat_int_minus [simp]: "nat (int a - int b) = a - b"
  by simp


lemma length_ring_bytes:
  "s < length b \<Longrightarrow> e < length b \<Longrightarrow>
     length (ring_bytes b s e) = (if s \<le> e then e - s else length b - s + e)"
  by (simp add: ring_bytes_def)

lemma ring_bytes_less: "s < length b \<Longrightarrow> e < length b \<Longrightarrow> length (ring_bytes b s e) < length b"
  by (auto simp: length_ring_bytes)

lemma ring_used_mk:
  "s < length b \<Longrightarrow> e < length b \<Longrightarrow>
     ring_used (mk_ring b s e) = int (length (ring_bytes b s e))"
  by (auto simp: ring_used_def length_ring_bytes)

lemma ring_remaining_mk:
  assumes "length b < 2 ^ 31" "s < length b" "e < length b"
  shows "ring_remaining (mk_ring b s e) = int (length b - length (ring_bytes b s e))"
proof -
  have l: "length (ring_bytes b s e) < length b" using ring_bytes_less assms by simp
  then have "0 \<le> int (length b) - int (length (ring_bytes b s e))"
    "int (length b) - int (length (ring_bytes b s e)) < 2 ^ 64" using assms by simp_all
  then show ?thesis using l by (simp add: ring_remaining_def ring_used_mk assms of_nat_diff)
qed

lemma get_at_Some [simp]: "get_at b (int i) (int n) = slice_of b i n"
  by (simp add: get_at_def)

lemma put_at_Some [simp]: "put_at b (int i) xs = blit b i xs"
  by (simp add: put_at_def)

lemma put_at_0 [simp]: "put_at b 0 xs = blit b 0 xs"
  by (simp add: put_at_def)

lemma get_at_0 [simp]: "get_at b 0 (int n) = slice_of b 0 n"
  by (simp add: get_at_def)

lemma get_at_minus: "n \<le> m \<Longrightarrow> get_at b (int i) (int m - int n) = slice_of b i (m - n)"
  "n \<le> m \<Longrightarrow> get_at b 0 (int m - int n) = slice_of b 0 (m - n)"
  by (simp_all add: get_at_def)

section \<open>Taking bytes out\<close>

lemma ring_get_mk:
  assumes "s < length b" "e < length b" "n \<le> length (ring_bytes b s e)" "ring_bytes b s e \<noteq> []"
  shows "\<exists>s'. ring_get (int n) (mk_ring b s e) =
      Some ((True, Some (take n (ring_bytes b s e))), mk_ring b s' e) \<and>
    s' < length b \<and> ring_bytes b s' e = drop n (ring_bytes b s e)"
proof (cases "s < e")
  case True
  then have n: "n \<le> e - s" "s + n \<le> e" "s + n \<le> length b" "s + n < length b"
    using assms by (simp_all add: length_ring_bytes)
  have "ring_get (int n) (mk_ring b s e) = Some ((True, Some (take n (drop s b))), mk_ring b (s + n) e)"
    using True n by (simp add: ring_get_def slice_of_Some mk_ring_def)
  moreover have "take n (drop s b) = take n (ring_bytes b s e)"
    using True n by (simp add: ring_bytes_def min_def)
  moreover have "ring_bytes b (s + n) e = drop n (ring_bytes b s e)"
    using True n by (simp add: ring_bytes_def drop_take add.commute)
  ultimately show ?thesis using n by auto
next
  case False
  then have se: "e < s" using assms by (cases "s = e") (simp_all add: ring_bytes_def)
  then have d: "ring_bytes b s e = drop s b @ take e b" by (simp add: ring_bytes_def)
  have n: "n \<le> length b - s + e" using assms se by (simp add: length_ring_bytes)
  show ?thesis
  proof (cases "n \<le> length b - s")
    case True
    let ?s = "if s + n = length b then 0 else s + n"
    have c: "(int s < int e) = False" "(int e < int s) = True"
      "(int n \<le> int (length b) - (int s - int e)) = True" "(int n \<le> int (length b) - int s) = True"
      using True se n assms(1) by auto
    have "slice_of b s n = Some (take n (drop s b))" using True assms(1) by (simp add: slice_of_Some)
    then have "ring_get (int n) (mk_ring b s e) = Some ((True, Some (take n (drop s b))),
        (mk_ring b s e)\<lparr>r_start := if int s + int n = int (length b) then 0 else int s + int n\<rparr>)"
      by (simp only: ring_get_def mk_ring_sel c Let_def get_at_Some) simp
    moreover have "(mk_ring b s e)\<lparr>r_start := if int s + int n = int (length b) then 0 else int s + int n\<rparr>
        = mk_ring b ?s e"
      by (auto simp: mk_ring_def simp flip: of_nat_add)
    moreover have "take n (drop s b) = take n (ring_bytes b s e)" using True unfolding d by simp
    ultimately have "ring_get (int n) (mk_ring b s e) =
        Some ((True, Some (take n (ring_bytes b s e))), mk_ring b ?s e)"
      by (simp only:)
    moreover have "ring_bytes b ?s e = drop n (ring_bytes b s e)"
      using True se assms(1) unfolding d by (auto simp: ring_bytes_def add.commute)
    moreover have "?s < length b" using True assms(1) by auto
    ultimately show ?thesis by blast
  next
    case False
    let ?k = "length b - s"
    have k: "int (length b) - int s = int ?k" "?k < n" "n - ?k \<le> e" using False n assms(1) by auto
    have c: "(int s < int e) = False" "(int e < int s) = True"
      "(int n \<le> int (length b) - (int s - int e)) = True" "(int n \<le> int ?k) = False"
      using False se n assms(1) k by auto
    have "slice_of b s ?k = Some (drop s b)" "slice_of b 0 (n - ?k) = Some (take (n - ?k) b)"
      using k assms(1,2) by (simp_all add: slice_of_Some)
    then have "ring_get (int n) (mk_ring b s e) =
        Some ((True, Some (drop s b @ take (n - ?k) b)), (mk_ring b s e)\<lparr>r_start := int (n - ?k)\<rparr>)"
      using k(2) by (simp only: ring_get_def mk_ring_sel k(1) c Let_def)
        (simp add: get_at_minus of_nat_diff del: of_nat_le_iff)
    then have "ring_get (int n) (mk_ring b s e) =
        Some ((True, Some (drop s b @ take (n - ?k) b)), mk_ring b (n - ?k) e)"
      by (simp add: mk_ring_def)
    moreover have "drop s b @ take (n - ?k) b = take n (ring_bytes b s e)"
      using k unfolding d by (simp add: min_def)
    moreover have "ring_bytes b (n - ?k) e = drop n (ring_bytes b s e)"
      using k unfolding d by (simp add: ring_bytes_def drop_take)
    ultimately show ?thesis using k se assms(2) by (intro exI [of _ "n - ?k"]) simp
  qed
qed

lemma ring_get_refused:
  assumes "s < length b" "e < length b" "length (ring_bytes b s e) < n \<or> ring_bytes b s e = []"
  shows "ring_get (int n) (mk_ring b s e) = Some ((False, None), mk_ring b s e)"
proof -
  have e: "ring_bytes b s e = [] \<longleftrightarrow> s = e"
    using assms(1,2) by (auto simp: ring_bytes_def)
  show ?thesis using assms e by (auto simp: ring_get_def length_ring_bytes split: if_splits)
qed

lemma ring_peek_mk:
  assumes "s < length b" "e < length b" "off + n \<le> length (ring_bytes b s e)" "ring_bytes b s e \<noteq> []"
  shows "ring_peek (int n) (int off) (mk_ring b s e) =
    Some (True, Some (take n (drop off (ring_bytes b s e))))"
proof (cases "s < e")
  case True
  then have n: "off + n \<le> e - s" using assms by (simp add: length_ring_bytes)
  have i: "int s + int off = int (s + off)" by simp
  have "take n (drop (s + off) b) = take n (drop off (ring_bytes b s e))"
    using True n by (simp add: ring_bytes_def drop_take min_def add.commute)
  then show ?thesis using True n assms(2)
    by (simp add: ring_peek_def i slice_of_Some del: of_nat_add)
next
  case False
  then have se: "e < s" using assms by (cases "s = e") (simp_all add: ring_bytes_def)
  then have d: "ring_bytes b s e = drop s b @ take e b" by (simp add: ring_bytes_def)
  have n: "off + n \<le> length b - s + e" using assms se by (simp add: length_ring_bytes)
  have i: "int s + int off = int (s + off)" by simp
  consider (one) "s + off + n \<le> length b" | (two) "s + off < length b" "length b < s + off + n"
    | (three) "length b \<le> s + off" "length b < s + off + n" by linarith
  then show ?thesis
  proof cases
    case one
    have "take n (drop (s + off) b) = take n (drop off (ring_bytes b s e))"
      using one unfolding d by (simp add: add.commute)
    then show ?thesis using one se n assms(1)
      by (simp add: ring_peek_def i slice_of_Some del: of_nat_add)
  next
    case two
    let ?k = "length b - (s + off)"
    have k: "int (length b) - int (s + off) = int ?k" "?k < n" "0 < ?k" "n - ?k \<le> e"
      using two n by auto
    have t: "drop (s + off) b @ take (n - ?k) b = take n (drop off (ring_bytes b s e))"
      using two k unfolding d by (simp add: add.commute min_def)
    have c: "(int n \<le> int ?k) = False" "(0 < int ?k) = True" "(int s < int e) = False"
      "(int e < int s) = True" "(int off + int n \<le> int (length b) - (int s - int e)) = True"
      using two n se assms(1) k by auto
    have g: "slice_of b (s + off) ?k = Some (drop (s + off) b)"
      using two by (simp_all add: slice_of_Some)
    have "get_at b 0 (int n - int ?k) = slice_of b 0 (n - ?k)"
      using k(2) by (intro get_at_minus) simp
    moreover have "slice_of b 0 (n - ?k) = Some (take (n - ?k) b)"
      using k(4) assms(2) by (subst slice_of_Some) simp_all
    ultimately have g': "get_at b 0 (int n - int ?k) = Some (take (n - ?k) b)" by simp
    show ?thesis
      by (simp only: ring_peek_def mk_ring_sel i k(1) Let_def get_at_Some c g g')
        (simp only: g g' t [symmetric] if_True if_False bind.simps HOL.simp_thms)
  next
    case three
    let ?p = "s + off - length b"
    have k: "int (s + off) - int (length b) = int ?p" "?p + n \<le> e"
      using three n assms(1) by auto
    have "off - (length b - s) = ?p" using assms(1) by simp
    moreover have "n \<le> e - ?p" "length b - s \<le> off" using k(2) three(1) by linarith+
    ultimately have t: "take n (drop ?p b) = take n (drop off (ring_bytes b s e))"
      unfolding d by (simp add: drop_take min_def)
    have c: "(int n \<le> int (length b) - int (s + off)) = False"
      "(0 < int (length b) - int (s + off)) = False" "(int s < int e) = False" "(int e < int s) = True"
      "(int off + int n \<le> int (length b) - (int s - int e)) = True"
      using three n se assms(1) by auto
    have g: "slice_of b ?p n = Some (take n (drop ?p b))"
      using k(2) assms(2) by (simp add: slice_of_Some)
    show ?thesis
      by (simp only: ring_peek_def mk_ring_sel i k(1) Let_def get_at_Some c)
        (simp only: g t bind.simps if_True if_False HOL.simp_thms)
  qed
qed


section \<open>Putting bytes in\<close>

lemma blit_fit: "i + length xs \<le> length b \<Longrightarrow> blit b i xs = Some (take i b @ xs @ drop (i + length xs) b)"
  by (simp add: blit_def)

text \<open>Bytes written behind the end, up to the end of the block at most.\<close>

lemma ring_bytes_extend:
  assumes "s < length b" "e < length b" "length (ring_bytes b s e) + length xs < length b"
    and fit: "e + length xs \<le> length b"
  shows "ring_bytes (take e b @ xs @ drop (e + length xs) b) s
      (if e + length xs = length b then 0 else e + length xs) = ring_bytes b s e @ xs"
proof (cases "e < s")
  case True
  have "e + length xs < s" using assms True by (simp add: length_ring_bytes)
  then show ?thesis using assms by (simp add: ring_bytes_def)
next
  case False
  show ?thesis
  proof (cases "e + length xs = length b")
    case True
    then have "0 < s" using assms False by (simp add: length_ring_bytes)
    then show ?thesis using True False fit by (simp add: ring_bytes_def drop_take)
  next
    case neq: False
    then show ?thesis using False fit by (simp add: ring_bytes_def drop_take)
  qed
qed

lemma ring_store_mk:
  assumes "s < length b" "e < length b" "length (ring_bytes b s e) + length bs < length b"
  shows "\<exists>b' s' e'. ring_store bs (mk_ring b s e) = Some ((True, Some (length bs)), mk_ring b' s' e') \<and>
    length b' = length b \<and> s' < length b \<and> e' < length b \<and>
    ring_bytes b' s' e' = ring_bytes b s e @ bs"
proof -
  let ?n = "length bs"
  consider (empty) "s = e" | (wrapped) "e < s" | (room) "s < e" "e + ?n \<le> length b"
    | (split) "s < e" "length b < e + ?n" by linarith
  then show ?thesis
  proof cases
    case empty
    have n: "?n < length b" using assms by (simp add: empty length_ring_bytes)
    let ?b = "bs @ drop ?n b"
    have c: "(int ?n = int (length b)) = False" using n by simp
    have "ring_store bs (mk_ring b s e) = Some ((True, Some ?n), mk_ring ?b 0 ?n)"
      using n empty by (simp add: ring_store_def blit_fit mk_ring_def Let_def)
    moreover have "ring_bytes ?b 0 ?n = ring_bytes b s e @ bs" by (simp add: empty ring_bytes_def)
    ultimately show ?thesis using n by (intro exI [of _ ?b] exI [of _ 0] exI [of _ ?n]) auto
  next
    case wrapped
    have n: "e + ?n < s" using assms wrapped by (simp add: length_ring_bytes)
    let ?b = "take e b @ bs @ drop (e + ?n) b"
    have l: "length ?b = length b" using n assms by simp
    have c: "(int s = int e) = False" "(int e < int s) = True" "(int ?n < int s - int e) = True"
      using n by auto
    have "blit b e bs = Some ?b" using n assms by (intro blit_fit) simp
    then have "ring_store bs (mk_ring b s e) =
        Some ((True, Some ?n), (mk_ring b s e)\<lparr>r_buf := Some ?b, r_end := int e + int ?n\<rparr>)"
      by (simp only: ring_store_def mk_ring_sel Let_def c if_False if_True simp_thms bind.simps put_at_Some)
    moreover have "(mk_ring b s e)\<lparr>r_buf := Some ?b, r_end := int e + int ?n\<rparr> = mk_ring ?b s (e + ?n)"
      using l by (simp add: mk_ring_def)
    moreover have "ring_bytes ?b s (e + ?n) = ring_bytes b s e @ bs"
      using ring_bytes_extend [OF assms] n assms(1) by simp
    ultimately show ?thesis using n assms l
      by (intro exI [of _ ?b] exI [of _ s] exI [of _ "e + ?n"]) (simp only: simp_thms; simp)
  next
    case room
    have n: "e - s + ?n < length b" using assms room by (simp add: length_ring_bytes)
    let ?b = "take e b @ bs @ drop (e + ?n) b" and ?e = "if e + ?n = length b then 0 else e + ?n"
    have l: "length ?b = length b" using room by simp
    have c: "(int s = int e) = False" "(int e < int s) = False" "(int s \<le> int e) = True"
      "(int ?n < int (length b) - (int e - int s)) = True" "(int ?n \<le> int (length b) - int e) = True"
      using room n by auto
    have "blit b e bs = Some ?b" using room by (intro blit_fit) simp
    then have "ring_store bs (mk_ring b s e) = Some ((True, Some ?n), (mk_ring b s e)\<lparr>r_buf := Some ?b,
        r_end := if int e + int ?n = int (length b) then 0 else int e + int ?n\<rparr>)"
      by (simp only: ring_store_def mk_ring_sel Let_def c if_False if_True simp_thms bind.simps put_at_Some)
    moreover have "(mk_ring b s e)\<lparr>r_buf := Some ?b,
        r_end := if int e + int ?n = int (length b) then 0 else int e + int ?n\<rparr> = mk_ring ?b s ?e"
      using l by (simp add: mk_ring_def flip: of_nat_add)
    moreover have "ring_bytes ?b s ?e = ring_bytes b s e @ bs"
      by (rule ring_bytes_extend [OF assms room(2)])
    moreover have "?e < length b" using room by auto
    ultimately show ?thesis using assms(1) l by metis
  next
    case split
    have n: "e - s + ?n < length b" using assms split by (simp add: length_ring_bytes)
    let ?k = "length b - e"
    have k: "?k < ?n" "int (length b) - int e = int ?k" "?n - ?k < s" "?n - ?k < e"
      using split n assms(2) by auto
    let ?b1 = "take e b @ take ?k bs" and ?b = "drop ?k bs @ drop (?n - ?k) (take e b @ take ?k bs)"
    have l: "length ?b1 = length b" "length ?b = length b" using k split assms by auto
    have c: "(int s = int e) = False" "(int e < int s) = False" "(int s \<le> int e) = True"
      "(int ?n < int (length b) - (int e - int s)) = True" "(int ?n \<le> int ?k) = False"
      using split n k(1) by auto
    have g1: "get_at bs 0 (int ?k) = Some (take ?k bs)" using k(1) by (simp add: slice_of_Some)
    have g2: "get_at bs (int ?k) (int ?n - int ?k) = Some (drop ?k bs)"
      using k(1) by (subst get_at_minus) (simp_all add: slice_of_Some)
    have p1: "blit b e (take ?k bs) = Some ?b1"
      using k(1) assms(2) by (subst blit_fit) (simp_all add: min_def)
    have p2: "blit ?b1 0 (drop ?k bs) = Some ?b" using l(1) k by (subst blit_fit) simp_all
    have "ring_store bs (mk_ring b s e) = Some ((True, Some ?n),
        (mk_ring b s e)\<lparr>r_buf := Some ?b, r_end := int ?n - int ?k\<rparr>)"
      by (simp only: ring_store_def mk_ring_sel Let_def c k(2) if_False if_True simp_thms bind.simps
          put_at_Some put_at_0 g1 g2 p1 p2)
    moreover have "(mk_ring b s e)\<lparr>r_buf := Some ?b, r_end := int ?n - int ?k\<rparr> = mk_ring ?b s (?n - ?k)"
      unfolding mk_ring_def l(2) using k(1) by (simp add: of_nat_diff)
    moreover have "ring_bytes ?b s (?n - ?k) = ring_bytes b s e @ bs"
    proof -
      have "drop s ?b = drop s ?b1" using k by (simp add: add.commute)
      moreover have "take (?n - ?k) ?b = drop ?k bs" by simp
      moreover have "drop s ?b1 = take (e - s) (drop s b) @ take ?k bs"
        using split(1) assms(2) by (simp add: drop_take min_def)
      moreover have "\<not> s \<le> ?n - ?k" using k by simp
      ultimately show ?thesis using split(1) by (simp add: ring_bytes_def)
    qed
    moreover have "?n - ?k < length b" using k assms by simp
    ultimately show ?thesis using assms(1) l(2) by metis
  qed
qed


section \<open>Growing\<close>

lemma ring_prepare_room:
  assumes "length b < 2 ^ 31" "s < length b" "e < length b" "length (ring_bytes b s e) + n < length b"
  shows "ring_prepare H n (mk_ring b s e) = Some (True, mk_ring b s e)"
  using assms by (simp add: ring_prepare_def ring_remaining_mk)

text \<open>The sizes \<open>Prepare...Buffer\<close> computes when there is no room.\<close>

lemma ring_prepare_sizes_big:
  assumes "length b < 2 ^ 31" "s < length b" "e < length b"
    and full: "length b \<le> length (ring_bytes b s e) + n"
    and small: "length (ring_bytes b s e) + n + 1 < 2 ^ 33"
  shows "(int n < ring_remaining (mk_ring b s e)) = False"
    and "(int n - ring_remaining (mk_ring b s e) + 1) mod 2 ^ 64 =
      int (length (ring_bytes b s e) + n + 1 - length b)"
    and "(int (length b) + int (length (ring_bytes b s e) + n + 1 - length b)) mod 2 ^ 64 =
      int (length (ring_bytes b s e) + n + 1)"
proof -
  let ?u = "length (ring_bytes b s e)"
  have u: "?u < length b" using ring_bytes_less assms by simp
  have r: "ring_remaining (mk_ring b s e) = int (length b - ?u)" using ring_remaining_mk assms by simp
  show "(int n < ring_remaining (mk_ring b s e)) = False" using full u by (simp add: r)
  have k: "int n - int (length b - ?u) + 1 = int (?u + n + 1 - length b)" using full u by simp
  have "int (?u + n + 1 - length b) < 2 ^ 64" "int (length b) + int (?u + n + 1 - length b) < 2 ^ 64"
    using small full by simp_all
  then show "(int n - ring_remaining (mk_ring b s e) + 1) mod 2 ^ 64 = int (?u + n + 1 - length b)"
    "(int (length b) + int (?u + n + 1 - length b)) mod 2 ^ 64 = int (?u + n + 1)"
    using full unfolding r k by simp_all
qed

lemma ring_prepare_sizes:
  assumes "length b < 2 ^ 31" "s < length b" "e < length b"
    "length b \<le> length (ring_bytes b s e) + n" "length (ring_bytes b s e) + n + 1 < 2 ^ 31"
  shows "(int n < ring_remaining (mk_ring b s e)) = False"
    and "(int n - ring_remaining (mk_ring b s e) + 1) mod 2 ^ 64 =
      int (length (ring_bytes b s e) + n + 1 - length b)"
    and "(int (length b) + int (length (ring_bytes b s e) + n + 1 - length b)) mod 2 ^ 64 =
      int (length (ring_bytes b s e) + n + 1)"
proof -
  have "length (ring_bytes b s e) + n + 1 < 2 ^ 33" using assms(5) by simp
  note big = ring_prepare_sizes_big [OF assms(1-4) this]
  show "(int n < ring_remaining (mk_ring b s e)) = False"
    "(int n - ring_remaining (mk_ring b s e) + 1) mod 2 ^ 64 =
      int (length (ring_bytes b s e) + n + 1 - length b)"
    "(int (length b) + int (length (ring_bytes b s e) + n + 1 - length b)) mod 2 ^ 64 =
      int (length (ring_bytes b s e) + n + 1)"
    by (rule big)+
qed

lemma ring_prepare_refused:
  assumes "length b < 2 ^ 31" "s < length b" "e < length b"
    "length b \<le> length (ring_bytes b s e) + n" "length (ring_bytes b s e) + n + 1 < 2 ^ 33"
    "\<not> h_ok H (length (ring_bytes b s e) + n + 1)"
  shows "ring_prepare H n (mk_ring b s e) = Some (False, mk_ring b s e)"
  using assms(6)
  by (simp only: ring_prepare_def ring_prepare_sizes_big [OF assms(1-5)] mk_ring_sel Let_def
      c_realloc_def nat_int if_False option.case)

definition grown :: "heap \<Rightarrow> byte list \<Rightarrow> nat \<Rightarrow> byte list" where
  "grown H b n = b @ drop (length b) (new_array (h_junk H) n)"

lemma length_grown [simp]: "length b \<le> n \<Longrightarrow> length (grown H b n) = n"
  by (simp add: grown_def)

lemma c_realloc_grown:
  "h_ok H n \<Longrightarrow> length b \<le> n \<Longrightarrow> c_realloc H (Some b) n = Some (grown H b n)"
  by (simp add: c_realloc_def grown_def Let_def)

text \<open>Growing works while what is held is not wrapped around the end.\<close>

lemma ring_prepare_grow:
  assumes "length b < 2 ^ 31" "s < length b" "e < length b"
    "length b \<le> length (ring_bytes b s e) + n" "length (ring_bytes b s e) + n + 1 < 2 ^ 31"
    "h_ok H (length (ring_bytes b s e) + n + 1)" and se: "s \<le> e"
  shows "ring_prepare H n (mk_ring b s e) =
    Some (True, mk_ring (grown H b (length (ring_bytes b s e) + n + 1)) s e)"
proof -
  let ?N = "length (ring_bytes b s e) + n + 1"
  have a: "c_realloc H (Some b) ?N = Some (grown H b ?N)"
    using assms(4,6) by (intro c_realloc_grown) simp_all
  have "to_int32 (int ?N) = int ?N" using assms(5) by (intro to_int32_id) simp_all
  moreover have "(int e < int s) = False" using se by simp
  moreover have "length (grown H b ?N) = ?N" using assms(4) by simp
  ultimately show ?thesis using se
    by (simp only: ring_prepare_def ring_prepare_sizes [OF assms(1-5)] mk_ring_sel Let_def
        nat_int if_False option.case a) (simp add: mk_ring_def)
qed

text \<open>
  When it is wrapped, the tail has to be moved up by \<open>need_size\<close>; but what is moved is
  \<open>need_size\<close> bytes and not the length of the tail, so with a tail shorter than that the
  move reads on and writes behind the end of the new block.
\<close>

lemma ring_prepare_overrun:
  assumes "length b < 2 ^ 31" "s < length b" "e < length b"
    "length b \<le> length (ring_bytes b s e) + n" "length (ring_bytes b s e) + n + 1 < 2 ^ 31"
    "h_ok H (length (ring_bytes b s e) + n + 1)" and se: "e < s"
    and short: "length b < s + (length (ring_bytes b s e) + n + 1 - length b)"
  shows "ring_prepare H n (mk_ring b s e) = None"
proof -
  let ?N = "length (ring_bytes b s e) + n + 1"
  let ?k = "?N - length b" and ?g = "grown H b ?N"
  have a: "c_realloc H (Some b) ?N = Some ?g" using assms(4,6) by (intro c_realloc_grown) simp_all
  have g: "length ?g = ?N" using assms(4) by simp
  have c: "(int e < int s) = True" using se by simp
  have i: "int s + int ?k = int (s + ?k)" by simp
  have N: "?N = length b + ?k" using assms(4) by simp
  have p: "put_at ?g (int (s + ?k)) xs = None" if "length xs = ?k" for xs
  proof -
    have "\<not> s + ?k + length xs \<le> length ?g" using that short g N by linarith
    then show ?thesis unfolding put_at_Some blit_def by (simp only: if_False)
  qed
  have l: "length xs = ?k" if "get_at ?g (int s) (int ?k) = Some xs" for xs
    using that unfolding get_at_Some by (auto simp: slice_of_def split: if_splits)
  have "Option.bind (get_at ?g (int s) (int ?k)) (\<lambda>src. Option.bind (put_at ?g (int s + int ?k) src) f) = None"
    for f :: "byte list \<Rightarrow> (bool \<times> ring) option"
  proof (cases "get_at ?g (int s) (int ?k)")
    case None
    then show ?thesis by (simp only: bind.simps)
  next
    case (Some xs)
    from p [OF l [OF Some]] show ?thesis unfolding Some i by (simp only: bind.simps)
  qed
  then show ?thesis
    by (simp only: ring_prepare_def ring_prepare_sizes [OF assms(1-5)] mk_ring_sel Let_def nat_int
        if_False option.case a) (simp only: mk_ring_def ring.select_convs ring.update_convs ring.ext_inject
        c if_True)
qed


section \<open>The operations on what a ring holds\<close>

lemma ring_get_ok:
  assumes "ring_ok r" "0 \<le> n"
  shows "if ring_data r \<noteq> [] \<and> n \<le> int (length (ring_data r))
    then \<exists>r'. ring_get n r = Some ((True, Some (take (nat n) (ring_data r))), r') \<and> ring_ok r' \<and>
           ring_data r' = drop (nat n) (ring_data r) \<and> r_size r' = r_size r
    else ring_get n r = Some ((False, None), r)"
proof -
  obtain b s e where r: "r = mk_ring b s e" "length b < 2 ^ 31" "s < length b" "e < length b"
    using ring_ok_cases [OF assms(1)] by blast
  obtain k where k: "n = int k" using assms(2) nonneg_int_cases by blast
  show ?thesis
  proof (cases "ring_data r \<noteq> [] \<and> n \<le> int (length (ring_data r))")
    case True
    then have "k \<le> length (ring_bytes b s e)" "ring_bytes b s e \<noteq> []" by (simp_all add: r(1) k)
    from ring_get_mk [OF r(3,4) this] obtain s' where
      "ring_get (int k) (mk_ring b s e) = Some ((True, Some (take k (ring_bytes b s e))), mk_ring b s' e)"
      "s' < length b" "ring_bytes b s' e = drop k (ring_bytes b s e)" by blast
    then show ?thesis using True r(2,4) by (simp add: r(1) k ring_ok_mk)
  next
    case False
    then show ?thesis using ring_get_refused [OF r(3,4), of k] by (auto simp: r(1) k)
  qed
qed

lemma ring_peek_ok:
  assumes "ring_ok r" "0 \<le> n" "0 \<le> off" "ring_data r \<noteq> []" "off + n \<le> int (length (ring_data r))"
  shows "ring_peek n off r = Some (True, Some (take (nat n) (drop (nat off) (ring_data r))))"
proof -
  obtain b s e where r: "r = mk_ring b s e" "s < length b" "e < length b"
    using ring_ok_cases [OF assms(1)] by blast
  obtain k j where k: "n = int k" "off = int j" using assms(2,3) nonneg_int_cases by metis
  have "j + k \<le> length (ring_bytes b s e)" "ring_bytes b s e \<noteq> []"
    using assms(4,5) by (simp_all add: r(1) k)
  from ring_peek_mk [OF r(2,3) this] show ?thesis by (simp add: r(1) k)
qed

text \<open>When a ring takes \<open>n\<close> more bytes: there is room, or it can grow and is not wrapped.\<close>

definition ring_accepts :: "heap \<Rightarrow> nat \<Rightarrow> ring \<Rightarrow> bool" where
  "ring_accepts H n r \<longleftrightarrow>
     int (length (ring_data r) + n) < r_size r \<or>
     r_start r \<le> r_end r \<and> length (ring_data r) + n + 1 < 2 ^ 31 \<and>
     h_ok H (length (ring_data r) + n + 1)"

lemma ring_prepare_ok:
  assumes "ring_ok r" "ring_accepts H n r"
  shows "\<exists>r'. ring_prepare H n r = Some (True, r') \<and> ring_ok r' \<and> ring_data r' = ring_data r \<and>
    int (length (ring_data r) + n) < r_size r' \<and> r_size r \<le> r_size r' \<and> r_start r' = r_start r"
proof -
  obtain b s e where r: "r = mk_ring b s e" "length b < 2 ^ 31" "s < length b" "e < length b"
    using ring_ok_cases [OF assms(1)] by blast
  show ?thesis
  proof (cases "length (ring_bytes b s e) + n < length b")
    case True
    then show ?thesis using ring_prepare_room [OF r(2-4) True] r by (auto simp: ring_ok_mk)
  next
    case False
    let ?N = "length (ring_bytes b s e) + n + 1"
    have g: "length b \<le> length (ring_bytes b s e) + n" "?N < 2 ^ 31" "h_ok H ?N" "s \<le> e"
      using False assms(2) by (auto simp: ring_accepts_def r(1))
    have "ring_bytes (grown H b ?N) s e = ring_bytes b s e"
      using g(4) r(4) by (simp add: ring_bytes_def grown_def)
    moreover have "length (grown H b ?N) = ?N" using g(1) by simp
    ultimately show ?thesis using ring_prepare_grow [OF r(2-4) g(1-4)] g r
      by (auto simp: ring_ok_mk)
  qed
qed

lemma ring_put_ok:
  assumes "ring_ok r" "ring_accepts H (length bs) r"
  shows "\<exists>r'. ring_put H bs r = Some ((True, Some (length bs)), r') \<and> ring_ok r' \<and>
    ring_data r' = ring_data r @ bs"
proof -
  obtain r1 where r1: "ring_prepare H (length bs) r = Some (True, r1)" "ring_ok r1"
    "ring_data r1 = ring_data r" "int (length (ring_data r) + length bs) < r_size r1"
    using ring_prepare_ok [OF assms] by blast
  obtain b s e where b: "r1 = mk_ring b s e" "length b < 2 ^ 31" "s < length b" "e < length b"
    using ring_ok_cases [OF r1(2)] by blast
  have "length (ring_bytes b s e) + length bs < length b" using r1(3,4) by (simp add: b(1))
  from ring_store_mk [OF b(3,4) this] obtain b' s' e' where
    "ring_store bs (mk_ring b s e) = Some ((True, Some (length bs)), mk_ring b' s' e')"
    "length b' = length b" "s' < length b" "e' < length b" "ring_bytes b' s' e' = ring_bytes b s e @ bs"
    by blast
  then show ?thesis using r1(1,3) b(2) by (auto simp: ring_put_def b(1) ring_ok_mk)
qed

lemma ring_put_refused:
  assumes "ring_ok r" "r_size r \<le> int (length (ring_data r) + length bs)"
    "length (ring_data r) + length bs + 1 < 2 ^ 31" "\<not> h_ok H (length (ring_data r) + length bs + 1)"
  shows "ring_put H bs r = Some ((False, None), r)"
proof -
  obtain b s e where r: "r = mk_ring b s e" "length b < 2 ^ 31" "s < length b" "e < length b"
    using ring_ok_cases [OF assms(1)] by blast
  have "length b \<le> length (ring_bytes b s e) + length bs" using assms(2) by (simp add: r(1))
  from ring_prepare_refused [OF r(2-4) this] assms(3,4) show ?thesis
    by (simp add: ring_put_def r(1))
qed

text \<open>What growing a wrapped ring does.\<close>

lemma ring_put_overrun:
  assumes "ring_ok r" "r_end r < r_start r" "length (ring_data r) + length bs + 1 < 2 ^ 31"
    "h_ok H (length (ring_data r) + length bs + 1)" "r_size r \<le> int (length (ring_data r) + length bs)"
    and short: "r_size r - r_start r < int (length (ring_data r) + length bs + 1) - r_size r"
  shows "ring_put H bs r = None"
proof -
  obtain b s e where r: "r = mk_ring b s e" "length b < 2 ^ 31" "s < length b" "e < length b"
    using ring_ok_cases [OF assms(1)] by blast
  have "length b \<le> length (ring_bytes b s e) + length bs" "e < s"
    "length b < s + (length (ring_bytes b s e) + length bs + 1 - length b)"
    using assms(2,5) short r(3) by (auto simp: r(1))
  then have "ring_prepare H (length bs) r = None"
    using ring_prepare_overrun [OF r(2-4)] assms(3,4) by (simp add: r(1))
  then show ?thesis by (simp add: ring_put_def)
qed

end
