(* ===== verification/Net_Io.thy ===== *)
theory Net_Io
  imports Kernel "HOL-Library.Monad_Syntax"
begin

text \<open>
  What \<open>NetUtil.cpp\<close> and \<open>CiSocket.cpp\<close> have in common: the system calls the heartbeat library
  does not use, loops around \<open>poll\<close>, \<open>recv\<close> and \<open>send\<close>, and integers on the wire.

  A read of \<open>n\<close> bytes gives its result, what it stores in \<open>*nread\<close> if it does, and the bytes that
  arrived at the caller's buffer.  A caller's buffer that is written from is a list of bytes, as long
  as the \<open>ntowrite\<close> that comes with it.
  \<open>None\<close> is a loop that does not end, or undefined behaviour.
\<close>

type_synonym read_res = "bool \<times> int option \<times> byte list"
type_synonym write_res = "bool \<times> int option"

section \<open>More system calls\<close>

text \<open>
  \<open>fcntl\<close>, \<open>ioctl(FIONBIO)\<close>, \<open>connect\<close>, \<open>listen\<close>, \<open>accept\<close>, \<open>getsockopt\<close>, the addresses of the two
  ends of a connection, and the text form of an address.  An address is the bit pattern of
  \<open>sin_addr\<close>, a port that of \<open>sin_port\<close>.  \<open>n_parse\<close> is \<open>inet_pton\<close> (\<open>None\<close>: not 1),
  \<open>n_addr\<close> is \<open>inet_addr\<close> and \<open>n_text\<close> is \<open>inet_ntoa\<close>.
\<close>

record net_calls =
  n_getfl :: "nat \<Rightarrow> bool"
  n_setfl :: "nat \<Rightarrow> bool"
  n_connect :: "nat \<Rightarrow> errno option"
  n_listen :: "nat \<Rightarrow> bool"
  n_accept :: "nat \<Rightarrow> (fd \<times> i32 \<times> i16) option"
  n_so_error :: "nat \<Rightarrow> i32 option"
  n_buf_size :: "nat \<Rightarrow> i32 option"
  n_local :: "nat \<Rightarrow> (i32 \<times> i16) option"
  n_peer :: "nat \<Rightarrow> (i32 \<times> i16) option"
  n_parse :: "cstr \<Rightarrow> i32 option"
  n_addr :: "cstr \<Rightarrow> i32"
  n_text :: "i32 \<Rightarrow> cstr"

definition sys_set_nonblock :: "net_calls \<Rightarrow> fd \<Rightarrow> bool \<Rightarrow> world \<Rightarrow> bool \<times> world" where
  "sys_set_nonblock N s on w =
     (if n_setfl N (clock w) then (True, (tick w)\<lparr>nonblock := nonblock w @ [(s, on)]\<rparr>)
      else (False, tick w))"

definition sys_connect :: "net_calls \<Rightarrow> fd \<Rightarrow> i32 \<Rightarrow> i16 \<Rightarrow> world \<Rightarrow> errno option \<times> world" where
  "sys_connect N s addr port w =
     (n_connect N (clock w),
      if n_connect N (clock w) \<in> {None, Some CI_EINPROGRESS, Some CI_EWOULDBLOCK}
      then (tick w)\<lparr>conns := conns w @ [(s, addr, port)]\<rparr> else tick w)"

definition sys_listen :: "net_calls \<Rightarrow> fd \<Rightarrow> int \<Rightarrow> world \<Rightarrow> bool \<times> world" where
  "sys_listen N s n w =
     (if n_listen N (clock w) then (True, (tick w)\<lparr>listening := listening w @ [(s, n)]\<rparr>)
      else (False, tick w))"

text \<open>A call that only asks.\<close>

definition sys_ask :: "(nat \<Rightarrow> 'b) \<Rightarrow> world \<Rightarrow> 'b \<times> world" where
  "sys_ask f w = (f (clock w), tick w)"

section \<open>Waiting for one descriptor\<close>

text \<open>The \<open>do ... while\<close> around \<open>poll\<close>: again after a signal; the result is that of the last call.\<close>

partial_function (option) poll_one :: "kernel \<Rightarrow> fd \<Rightarrow> events \<Rightarrow> world \<Rightarrow> (int \<times> world) option" where
  "poll_one K s ev w =
     (case k_poll K (clock w) of
        PollFail e \<Rightarrow> if e = CI_EINTR then poll_one K s ev (tick w) else Some (- 1, tick w)
      | PollReady r \<Rightarrow>
          Some (fst (poll_array r 1 [\<lparr>pfd = s, pevents = ev, prevents = 0\<rparr>]), tick w))"

definition write_events :: events where
  "write_events = POLLOUT OR POLLWRNORM OR POLLWRBAND"

section \<open>Receiving\<close>

text \<open>\<open>recv\<close> until there is nothing left to read, the connection ends or an error comes.\<close>

function recv_loop :: "kernel \<Rightarrow> nat \<Rightarrow> world \<Rightarrow> (errno option \<times> byte list) \<times> world" where
  "recv_loop K n w =
     (if n = 0 then ((None, []), w)
      else case sys_recv K n w of
          (Inl e, w1) \<Rightarrow> ((Some e, []), w1)
        | (Inr bs, w1) \<Rightarrow>
            if bs = [] then ((None, []), w1)
            else (case recv_loop K (n - length bs) w1 of ((e, cs), w2) \<Rightarrow> ((e, bs @ cs), w2)))"
  by pat_completeness auto
termination
  by (relation "measure (\<lambda>(K, n, w). n)") (auto simp: sys_recv_def split: recv_res.splits)

declare recv_loop.simps [simp del]

text \<open>
  The same with a \<open>poll\<close> before each \<open>recv\<close>.  The first component is \<open>False\<close> when the function
  returns \<open>false\<close> from inside the loop.
\<close>

partial_function (option) recv_timed ::
  "kernel \<Rightarrow> fd \<Rightarrow> nat \<Rightarrow> world \<Rightarrow> ((bool \<times> byte list) \<times> world) option" where
  "recv_timed K s n w =
     (if n = 0 then Some ((True, []), w)
      else do {
        (k, w1) \<leftarrow> poll_one K s read_events w;
        if k < 0 then Some ((False, []), w1)
        else if k = 0 then Some ((True, []), w1)
        else (case sys_recv K n w1 of
            (Inl e, w2) \<Rightarrow> Some ((False, []), w2)
          | (Inr bs, w2) \<Rightarrow>
              if bs = [] then Some ((True, []), w2)
              else do {
                (r, w3) \<leftarrow> recv_timed K s (n - length bs) w2;
                Some ((fst r, bs @ snd r), w3) }) })"

definition read_n_timed ::
  "kernel \<Rightarrow> fd \<Rightarrow> int \<Rightarrow> world \<Rightarrow> (read_res \<times> world) option" where
  "read_n_timed K s ntoread w = do {
     ((ok, bs), w1) \<leftarrow> recv_timed K s (nat ntoread) w;
     Some (if \<not> ok then (False, None, bs)
           else (int (length bs) = ntoread, Some (int (length bs)), bs), w1) }"

section \<open>Sending\<close>

text \<open>\<open>send\<close> until everything is sent, nothing is taken or an error comes; what is left over.\<close>

function send_loop :: "kernel \<Rightarrow> byte list \<Rightarrow> world \<Rightarrow> (errno option \<times> byte list) \<times> world" where
  "send_loop K bs w =
     (if bs = [] then ((None, []), w)
      else case sys_send K bs w of
          (Inl e, w1) \<Rightarrow> ((Some e, bs), w1)
        | (Inr n, w1) \<Rightarrow> if n = 0 then ((None, bs), w1) else send_loop K (drop n bs) w1)"
  by pat_completeness auto
termination
  by (relation "measure (\<lambda>(K, bs, w). length bs)") (auto simp: sys_send_def split: send_res.splits)

declare send_loop.simps [simp del]

text \<open>
  With a \<open>poll\<close> before each \<open>send\<close>.  \<open>brk\<close> tells whether the loop ends when \<open>send\<close> takes nothing,
  which it does in one of the two places that have it.
\<close>

partial_function (option) send_timed ::
  "bool \<Rightarrow> kernel \<Rightarrow> fd \<Rightarrow> byte list \<Rightarrow> world \<Rightarrow> ((bool \<times> byte list) \<times> world) option" where
  "send_timed brk K s bs w =
     (if bs = [] then Some ((True, []), w)
      else do {
        (k, w1) \<leftarrow> poll_one K s write_events w;
        if k < 0 then Some ((False, bs), w1)
        else if k = 0 then Some ((True, bs), w1)
        else (case sys_send K bs w1 of
            (Inl e, w2) \<Rightarrow> Some ((False, bs), w2)
          | (Inr n, w2) \<Rightarrow>
              if n = 0 \<and> brk then Some ((True, bs), w2) else send_timed brk K s (drop n bs) w2) })"

definition write_n_timed ::
  "bool \<Rightarrow> kernel \<Rightarrow> fd \<Rightarrow> byte list \<Rightarrow> world \<Rightarrow> (write_res \<times> world) option" where
  "write_n_timed brk K s bs w = do {
     ((ok, rest), w1) \<leftarrow> send_timed brk K s bs w;
     Some (if \<not> ok then (False, None)
           else (rest = [], Some (int (length bs) - int (length rest))), w1) }"

section \<open>Integers on the wire\<close>

text \<open>
  Reading an integer: a failed or short read leaves the caller's variable alone.  The same for
  every way to read, so the way is an argument.
\<close>

definition recv_image ::
  "nat \<Rightarrow> (int \<Rightarrow> 's \<Rightarrow> (read_res \<times> 's) option) \<Rightarrow> 's \<Rightarrow> (byte list option \<times> 's) option" where
  "recv_image n rd s = do {
     ((ok, k, bs), s1) \<leftarrow> rd (int n) s;
     Some (if ok \<and> k = Some (int n) then Some bs else None, s1) }"

definition recv_int ::
  "endian \<Rightarrow> (int \<Rightarrow> 's \<Rightarrow> (read_res \<times> 's) option) \<Rightarrow> 's \<Rightarrow> ('a::len word option \<times> 's) option" where
  "recv_int e rd s = do {
     (b, s1) \<leftarrow> recv_image (LENGTH('a) div 8) rd s;
     Some (map_option (\<lambda>bs. ntoh e (mem_load e bs)) b, s1) }"

text \<open>64 bits are swapped by hand, byte by byte, where \<open>ntohl(1)\<close> is not 1.\<close>

definition swap64 :: "endian \<Rightarrow> i64 \<Rightarrow> i64" where
  "swap64 e w = (if ntoh e (1 :: i32) \<noteq> 1 then mem_load e (rev (mem_image e w)) else w)"

definition recv_int64 ::
  "endian \<Rightarrow> (int \<Rightarrow> 's \<Rightarrow> (read_res \<times> 's) option) \<Rightarrow> 's \<Rightarrow> (i64 option \<times> 's) option" where
  "recv_int64 e rd s = do {
     (b, s1) \<leftarrow> recv_image 8 rd s;
     Some (map_option (\<lambda>bs. swap64 e (mem_load e bs)) b, s1) }"

definition recv_int8 ::
  "(int \<Rightarrow> 's \<Rightarrow> (read_res \<times> 's) option) \<Rightarrow> 's \<Rightarrow> (byte option \<times> 's) option" where
  "recv_int8 rd s = do {
     (b, s1) \<leftarrow> recv_image 1 rd s;
     Some (map_option hd b, s1) }"

text \<open>Writing one.  A short write is a failure, but what was written stays written.\<close>

definition send_image ::
  "(byte list \<Rightarrow> 's \<Rightarrow> (write_res \<times> 's) option) \<Rightarrow> byte list \<Rightarrow> 's \<Rightarrow> (bool \<times> 's) option" where
  "send_image wr bs s = do {
     ((ok, n), s1) \<leftarrow> wr bs s;
     Some (ok \<and> n = Some (int (length bs)), s1) }"

definition send_int ::
  "endian \<Rightarrow> (byte list \<Rightarrow> 's \<Rightarrow> (write_res \<times> 's) option) \<Rightarrow> 'a::len word \<Rightarrow> 's \<Rightarrow>
     (bool \<times> 's) option" where
  "send_int e wr w = send_image wr (mem_image e (hton e w))"

definition send_int64 ::
  "endian \<Rightarrow> (byte list \<Rightarrow> 's \<Rightarrow> (write_res \<times> 's) option) \<Rightarrow> i64 \<Rightarrow> 's \<Rightarrow> (bool \<times> 's) option" where
  "send_int64 e wr w = send_image wr (mem_image e (swap64 e w))"

text \<open>
  16 bits as the functions of \<open>NetUtil.cpp\<close> write them: \<open>htons\<close> is stored in an \<open>int\<close>, of which the
  first two bytes are sent.
\<close>

definition send_int16_of_int ::
  "endian \<Rightarrow> (byte list \<Rightarrow> 's \<Rightarrow> (write_res \<times> 's) option) \<Rightarrow> i16 \<Rightarrow> 's \<Rightarrow> (bool \<times> 's) option" where
  "send_int16_of_int e wr w = send_image wr (take 2 (mem_image e (ucast (hton e w) :: i32)))"


section \<open>What the loops do\<close>

text \<open>A wait only takes time.\<close>

definition waited :: "world \<Rightarrow> world \<Rightarrow> bool" where
  "waited w w' \<longleftrightarrow> (\<exists>n. w' = w\<lparr>clock := clock w + n\<rparr>)"

lemma waited_refl [intro, simp]: "waited w w"
  by (auto simp: waited_def intro: exI [of _ 0])

lemma waited_tick [intro, simp]: "waited w (tick w)"
  by (auto simp: waited_def tick_def intro: exI [of _ 1])

lemma waited_trans [trans]: "waited w1 w2 \<Longrightarrow> waited w2 w3 \<Longrightarrow> waited w1 w3"
  by (auto simp: waited_def add.assoc)

lemma waited_keeps:
  assumes "waited w w'"
  shows "instream w' = instream w" "outstream w' = outstream w" "closed_fds w' = closed_fds w"
    "clock w \<le> clock w'" "conns w' = conns w" "bound w' = bound w" "sent w' = sent w"
  using assms by (auto simp: waited_def)

lemma poll_one_result:
  assumes "poll_one K s ev w = Some (k, w')"
  shows "waited w w' \<and> - 1 \<le> k \<and> k \<le> 1"
proof -
  let ?P = "\<lambda>K s ev w x. waited w (snd x) \<and> - 1 \<le> fst x \<and> fst x \<le> (1 :: int)"
  have "?P K s ev w (k, w')"
  proof (rule poll_one.raw_induct [where P = ?P, OF _ assms])
    fix f K s ev w x
    assume IH: "\<And>K s ev w x. f K s ev w = Some x \<Longrightarrow> ?P K s ev w x"
      and eq: "(case k_poll K (clock w) of
          PollFail e \<Rightarrow> if e = CI_EINTR then f K s ev (tick w) else Some (- 1, tick w)
        | PollReady r \<Rightarrow>
            Some (fst (poll_array r 1 [\<lparr>pfd = s, pevents = ev, prevents = 0\<rparr>]), tick w)) = Some x"
    note n = poll_array_nonneg [of _ 1 "[\<lparr>pfd = s, pevents = ev, prevents = 0\<rparr>]"]
      poll_array_le [of _ 1 "[\<lparr>pfd = s, pevents = ev, prevents = 0\<rparr>]"]
    show "?P K s ev w x"
    proof (cases "k_poll K (clock w)")
      case (PollFail e)
      then show ?thesis using eq IH [of K s ev "tick w" x] waited_trans [OF waited_tick]
        by (auto split: if_splits)
    next
      case (PollReady r)
      then show ?thesis using eq n [of r] by auto
    qed
  qed
  then show ?thesis by simp
qed

text \<open>Signals stop some time.\<close>

definition signals_end :: "kernel \<Rightarrow> bool" where
  "signals_end K \<longleftrightarrow> (\<forall>t. \<exists>n. k_poll K (t + n) \<noteq> PollFail CI_EINTR)"

lemma poll_one_returns:
  assumes "signals_end K"
  shows "\<exists>k w'. poll_one K s ev w = Some (k, w')"
proof -
  obtain n where "k_poll K (clock w + n) \<noteq> PollFail CI_EINTR"
    using assms by (auto simp: signals_end_def)
  then show ?thesis
  proof (induction n arbitrary: w)
    case 0
    then show ?case
      by (cases "k_poll K (clock w)") (auto simp: poll_one.simps [of K s ev w])
  next
    case (Suc n)
    from Suc.IH [of "tick w"] Suc.prems show ?case
      by (cases "k_poll K (clock w)") (auto simp: poll_one.simps [of K s ev w])
  qed
qed

text \<open>What arrived is what was taken out of the connection.\<close>

definition took :: "byte list \<Rightarrow> world \<Rightarrow> world \<Rightarrow> bool" where
  "took bs w w' \<longleftrightarrow> instream w' = instream w @ bs \<and> outstream w' = outstream w"

definition gave :: "byte list \<Rightarrow> world \<Rightarrow> world \<Rightarrow> bool" where
  "gave bs w w' \<longleftrightarrow> outstream w' = outstream w @ bs \<and> instream w' = instream w"

lemma took_Nil [simp]: "took [] w w" and gave_Nil [simp]: "gave [] w w"
  by (simp_all add: took_def gave_def)

lemma took_trans: "took xs w1 w2 \<Longrightarrow> took ys w2 w3 \<Longrightarrow> took (xs @ ys) w1 w3"
  by (simp add: took_def)

lemma gave_trans: "gave xs w1 w2 \<Longrightarrow> gave ys w2 w3 \<Longrightarrow> gave (xs @ ys) w1 w3"
  by (simp add: gave_def)

lemma waited_took: "waited w w' \<Longrightarrow> took [] w w'" and waited_gave: "waited w w' \<Longrightarrow> gave [] w w'"
  using waited_keeps by (simp_all add: took_def gave_def)

lemma sys_recv_took:
  "sys_recv K n w = (Inr bs, w') \<Longrightarrow> took bs w w' \<and> length bs \<le> n"
  "sys_recv K n w = (Inl e, w') \<Longrightarrow> took [] w w'"
  by (auto simp: sys_recv_def took_def split: recv_res.splits)

lemma sys_send_gave:
  "sys_send K bs w = (Inr n, w') \<Longrightarrow> gave (take n bs) w w' \<and> n \<le> length bs"
  "sys_send K bs w = (Inl e, w') \<Longrightarrow> gave [] w w'"
  by (auto simp: sys_send_def gave_def min_def split: send_res.splits)

lemma recv_loop_took: "recv_loop K n w = ((e, bs), w') \<Longrightarrow> took bs w w' \<and> length bs \<le> n"
proof (induction K n w arbitrary: e bs w' rule: recv_loop.induct)
  case (1 K n w)
  show ?case
  proof (cases "n = 0")
    case True
    then show ?thesis using 1(2) by (auto simp: recv_loop.simps [of K 0 w])
  next
    case False
    obtain r w1 where r: "sys_recv K n w = (r, w1)" by fastforce
    show ?thesis
    proof (cases r)
      case (Inl e1)
      then show ?thesis using 1(2) False r sys_recv_took(2) [of K n w e1 w1]
        by (simp add: recv_loop.simps [of K n w])
    next
      case (Inr xs)
      note t = sys_recv_took(1) [OF r [unfolded Inr]]
      show ?thesis
      proof (cases "xs = []")
        case True
        then show ?thesis using 1(2) False r t Inr by (simp add: recv_loop.simps [of K n w])
      next
        case xs: False
        obtain e2 cs w2 where l: "recv_loop K (n - length xs) w1 = ((e2, cs), w2)"
          by (metis surj_pair)
        from 1(1) [OF False r [symmetric] Inr xs l] have "took cs w1 w2" "length cs \<le> n - length xs"
          by auto
        then show ?thesis using 1(2) False r t Inr xs l took_trans
          by (auto simp: recv_loop.simps [of K n w])
      qed
    qed
  qed
qed

lemma send_loop_gave:
  "send_loop K bs w = ((e, rest), w') \<Longrightarrow> \<exists>xs. bs = xs @ rest \<and> gave xs w w' \<and> (e \<noteq> None \<longrightarrow> rest \<noteq> [])"
proof (induction K bs w arbitrary: rule: send_loop.induct)
  case (1 K bs w)
  show ?case
  proof (cases "bs = []")
    case True
    then show ?thesis using 1(2) by (auto simp: send_loop.simps [of K "[]" w])
  next
    case False
    obtain r w1 where r: "sys_send K bs w = (r, w1)" by fastforce
    show ?thesis
    proof (cases r)
      case (Inl e1)
      then show ?thesis using 1(2) False r sys_send_gave(2) [of K bs w e1 w1]
        by (simp add: send_loop.simps [of K bs w])
    next
      case (Inr n)
      note t = sys_send_gave(1) [OF r [unfolded Inr]]
      show ?thesis
      proof (cases "n = 0")
        case True
        then show ?thesis using 1(2) False r t Inr by (simp add: send_loop.simps [of K bs w])
      next
        case n: False
        have l: "send_loop K (drop n bs) w1 = ((e, rest), w')"
          using 1(2) False r Inr n by (simp add: send_loop.simps [of K bs w])
        from 1(1) [OF False r [symmetric] Inr n l] obtain xs where
          "drop n bs = xs @ rest" "gave xs w1 w'" "e \<noteq> None \<longrightarrow> rest \<noteq> []" by blast
        then show ?thesis using gave_trans [of "take n bs" w w1 xs w'] t
          by (metis append_assoc append_take_drop_id)
      qed
    qed
  qed
qed


text \<open>The loops with a \<open>poll\<close>: by induction on what is left.\<close>

lemma recv_timed_took:
  "recv_timed K s n w = Some ((ok, bs), w') \<Longrightarrow> took bs w w' \<and> length bs \<le> n"
proof (induction n arbitrary: w ok bs w' rule: less_induct)
  case (less n)
  note eq = less.prems [unfolded recv_timed.simps [of K s n w]]
  show ?case
  proof (cases "n = 0")
    case True
    then show ?thesis using eq by simp
  next
    case False
    then obtain k w1 where k: "poll_one K s read_events w = Some (k, w1)"
      using eq by (auto split: bind_splits)
    note t1 = waited_took [OF poll_one_result [OF k, THEN conjunct1]]
    obtain r w2 where r: "sys_recv K n w1 = (r, w2)" by fastforce
    consider (stop) "k \<le> 0" | (err) e where "0 < k" "r = Inl e" | (got) xs where "0 < k" "r = Inr xs"
      by (cases r; cases "k \<le> 0") auto
    then show ?thesis
    proof cases
      case stop
      then show ?thesis using eq False t1 by (auto simp: k split: if_splits)
    next
      case err
      then show ?thesis using eq False t1 sys_recv_took(2) [of K n w1 e w2] took_trans [OF t1]
        by (auto simp: k r)
    next
      case got
      note t2 = sys_recv_took(1) [OF r [unfolded got(2)]]
      show ?thesis
      proof (cases "xs = []")
        case True
        then show ?thesis using eq False got r t2 took_trans [OF t1] by (auto simp: k)
      next
        case xs: False
        then obtain ok3 cs w3 where l: "recv_timed K s (n - length xs) w2 = Some ((ok3, cs), w3)"
          using eq False got r by (auto simp: k split: bind_splits)
        have "n - length xs < n" using False xs by (cases xs) auto
        from less.IH [OF this l] have "took cs w2 w3" "length cs \<le> n - length xs" by auto
        then show ?thesis using eq False got r xs l t2 took_trans [OF t1] took_trans [of xs w1 w2 cs w3]
          by (auto simp: k)
      qed
    qed
  qed
qed

lemma recv_timed_returns:
  assumes "signals_end K"
  shows "\<exists>r w'. recv_timed K s n w = Some (r, w')"
proof (induction n arbitrary: w rule: less_induct)
  case (less n)
  obtain k w1 where k: "poll_one K s read_events w = Some (k, w1)"
    using poll_one_returns [OF assms] by blast
  obtain r w2 where r: "sys_recv K n w1 = (r, w2)" by fastforce
  show ?case
  proof (cases "n \<noteq> 0 \<and> 0 < k \<and> (\<exists>xs. r = Inr xs \<and> xs \<noteq> [])")
    case True
    then obtain xs where xs: "r = Inr xs" "xs \<noteq> []" "n \<noteq> 0" "0 < k" by blast
    then have "n - length xs < n" by (cases xs) auto
    from less.IH [OF this, of w2] show ?thesis using xs k r
      by (auto simp: recv_timed.simps [of K s n w])
  next
    case False
    then show ?thesis using k r by (cases r) (auto simp: recv_timed.simps [of K s n w])
  qed
qed

text \<open>\<open>send\<close> is documented to take at least one byte of what it is given, or to fail.\<close>

definition sends_progress :: "kernel \<Rightarrow> bool" where
  "sends_progress K \<longleftrightarrow> (\<forall>t n. k_send K t = SendOk n \<longrightarrow> 0 < n)"

lemma sys_send_progress:
  "sends_progress K \<Longrightarrow> sys_send K bs w = (Inr n, w') \<Longrightarrow> bs \<noteq> [] \<Longrightarrow> 0 < n"
  by (auto simp: sends_progress_def sys_send_def split: send_res.splits)

lemma send_timed_gave:
  assumes "send_timed brk K s bs w = Some ((ok, rest), w')"
  shows "\<exists>xs. bs = xs @ rest \<and> gave xs w w'"
proof -
  let ?P = "\<lambda>brk K s bs w x. \<exists>xs. bs = xs @ snd (fst x) \<and> gave xs w (snd x)"
  have "?P brk K s bs w ((ok, rest), w')"
  proof (rule send_timed.raw_induct [where P = ?P, OF _ assms])
    fix f brk K s bs w x
    assume IH: "\<And>brk K s bs w x. f brk K s bs w = Some x \<Longrightarrow> ?P brk K s bs w x"
      and eq: "(if bs = [] then Some ((True, []), w)
        else do {
          (k, w1) \<leftarrow> poll_one K s write_events w;
          if k < 0 then Some ((False, bs), w1)
          else if k = 0 then Some ((True, bs), w1)
          else (case sys_send K bs w1 of
              (Inl e, w2) \<Rightarrow> Some ((False, bs), w2)
            | (Inr n, w2) \<Rightarrow>
                if n = 0 \<and> brk then Some ((True, bs), w2) else f brk K s (drop n bs) w2) }) = Some x"
    show "?P brk K s bs w x"
    proof (cases "bs = []")
      case True
      then show ?thesis using eq by auto
    next
      case False
      then obtain k w1 where k: "poll_one K s write_events w = Some (k, w1)"
        using eq by (auto split: bind_splits)
      note t1 = waited_gave [OF poll_one_result [OF k, THEN conjunct1]]
      obtain r w2 where r: "sys_send K bs w1 = (r, w2)" by fastforce
      consider (stop) "k \<le> 0" | (err) e where "0 < k" "r = Inl e" | (got) n where "0 < k" "r = Inr n"
        by (cases r; cases "k \<le> 0") auto
      then show ?thesis
      proof cases
        case stop
        then show ?thesis using eq False t1 by (auto simp: k split: if_splits)
      next
        case err
        then show ?thesis using eq False gave_trans [OF t1] sys_send_gave(2) [of K bs w1 e w2]
          by (auto simp: k r)
      next
        case got
        note t2 = sys_send_gave(1) [OF r [unfolded got(2)]]
        show ?thesis
        proof (cases "n = 0 \<and> brk")
          case True
          then show ?thesis using eq False got r t2 gave_trans [OF t1] by (auto simp: k)
        next
          case n: False
          then have "f brk K s (drop n bs) w2 = Some x" using eq False got r by (auto simp: k split: if_splits)
          from IH [OF this] obtain ys where "drop n bs = ys @ snd (fst x)" "gave ys w2 (snd x)" by blast
          then show ?thesis
            using gave_trans [OF t1, of "take n bs"] t2 gave_trans [of "take n bs" w w2 ys "snd x"]
            by (metis append_assoc append_take_drop_id append_Nil)
        qed
      qed
    qed
  qed
  then show ?thesis by simp
qed

lemma send_timed_returns:
  assumes "signals_end K" and "brk \<or> sends_progress K"
  shows "\<exists>r w'. send_timed brk K s bs w = Some (r, w')"
proof (induction bs arbitrary: w rule: length_induct)
  case (1 bs)
  obtain k w1 where k: "poll_one K s write_events w = Some (k, w1)"
    using poll_one_returns [OF assms(1)] by blast
  obtain r w2 where r: "sys_send K bs w1 = (r, w2)" by fastforce
  show ?case
  proof (cases "bs \<noteq> [] \<and> 0 < k \<and> (\<exists>n. r = Inr n \<and> 0 < n)")
    case True
    then obtain n where n: "r = Inr n" "0 < n" "bs \<noteq> []" "0 < k" by blast
    then have "length (drop n bs) < length bs" by simp
    with 1 have "\<exists>r w'. send_timed brk K s (drop n bs) w2 = Some (r, w')" by blast
    then show ?thesis using n k r by (auto simp: send_timed.simps [of brk K s bs w])
  next
    case False
    then show ?thesis using k r assms(2) sys_send_progress [of K bs w1 _ w2]
      by (cases r) (auto simp: send_timed.simps [of brk K s bs w])
  qed
qed

lemma image_of_short_in_int:
  "take 2 (mem_image e (ucast (hton e w) :: i32)) =
     (case e of LittleEndian \<Rightarrow> be_image (w :: i16) | BigEndian \<Rightarrow> [0, 0])"
proof -
  have d: "(ucast (drop_bit n (ucast v :: i32)) :: byte) = ucast (drop_bit n v)" for n and v :: i16
    by (rule bit_word_eqI) (auto simp: bit_simps dest: bit_imp_le_length)
  have z: "(ucast (drop_bit n v) :: byte) = 0" if "16 \<le> n" for n and v :: i16
    using that by (intro bit_word_eqI) (auto simp: bit_simps dest: bit_imp_le_length)
  have u: "[0..<LENGTH(32) div 8] = [0, 1, 2, 3]" "[0..<LENGTH(16) div 8] = [0, 1]"
    by (simp_all add: upt_rec)
  have le: "le_image (ucast v :: i32) = le_image v @ [0, 0]" for v :: i16
    unfolding le_image_def u d by (simp add: z)
  have "length (rev (le_image w)) * 8 = LENGTH(16)" by simp
  from le_image_of_le [OF this] have "le_image (hton LittleEndian w) = be_image w"
    by (simp add: hton_def be_image_def)
  moreover have "length (le_image (hton LittleEndian w)) = 2" by simp
  ultimately show ?thesis
    by (cases e) (simp_all add: mem_image_def le)
qed

section \<open>Sources and sinks of bytes\<close>

text \<open>
  What the integer functions need to know of the function they read with: a successful read of
  \<open>n\<close> bytes stores the count and has taken exactly those bytes.  \<open>taken s bs s'\<close> says what that
  means for the source at hand.
\<close>

locale byte_source =
  fixes rd :: "int \<Rightarrow> 's \<Rightarrow> (read_res \<times> 's) option"
    and taken :: "'s \<Rightarrow> byte list \<Rightarrow> 's \<Rightarrow> bool"
  assumes rd_success: "rd n s = Some ((True, Some n, bs), s') \<Longrightarrow> 0 \<le> n \<Longrightarrow>
    int (length bs) = n \<and> taken s bs s'"
begin

lemma recv_image_taken:
  "recv_image n rd s = Some (Some bs, s') \<Longrightarrow> length bs = n \<and> taken s bs s'"
  by (auto simp: recv_image_def split: bind_splits if_splits dest!: rd_success)

lemma recv_int_taken:
  assumes "recv_int e rd s = Some (Some (w :: 'a::len word), s')" and "8 dvd LENGTH('a)"
  shows "taken s (be_image w) s'"
proof -
  obtain bs where b: "recv_image (LENGTH('a) div 8) rd s = Some (Some bs, s')"
    "w = ntoh e (mem_load e bs)"
    using assms(1) by (auto simp: recv_int_def split: bind_splits)
  from recv_image_taken [OF b(1)] have l: "length bs * 8 = LENGTH('a)" "taken s bs s'"
    using assms(2) by simp_all
  then have "w = of_be bs" by (simp add: b(2) ntoh_mem_load)
  then show ?thesis using l be_image_of_be [OF l(1)] by simp
qed

lemma recv_int64_taken:
  assumes "recv_int64 e rd s = Some (Some w, s')"
  shows "taken s (be_image w) s'"
proof -
  obtain bs where b: "recv_image 8 rd s = Some (Some bs, s')" "w = swap64 e (mem_load e bs)"
    using assms by (auto simp: recv_int64_def split: bind_splits)
  from recv_image_taken [OF b(1)] have l: "length bs * 8 = LENGTH(64)" "taken s bs s'" by simp_all
  have "w = of_be bs"
  proof (cases e)
    case LittleEndian
    have "ntoh LittleEndian (1 :: i32) \<noteq> 1" by code_simp
    then show ?thesis using LittleEndian l(1)
      by (simp add: b(2) swap64_def mem_load_def mem_image_def le_image_of_le of_be_def)
  next
    case BigEndian
    then show ?thesis by (simp add: b(2) swap64_def ntoh_def mem_load_def of_be_def)
  qed
  then show ?thesis using l be_image_of_be [OF l(1)] by simp
qed

lemma recv_int8_taken: "recv_int8 rd s = Some (Some b, s') \<Longrightarrow> taken s [b] s'"
  by (auto simp: recv_int8_def length_Suc_conv split: bind_splits dest!: recv_image_taken)

end

text \<open>The same for writing: a successful write of a whole buffer has handed over exactly that.\<close>

locale byte_sink =
  fixes wr :: "byte list \<Rightarrow> 's \<Rightarrow> (write_res \<times> 's) option"
    and given :: "'s \<Rightarrow> byte list \<Rightarrow> 's \<Rightarrow> bool"
  assumes wr_success: "wr bs s = Some ((True, Some (int (length bs))), s') \<Longrightarrow> given s bs s'"
begin

lemma send_image_given: "send_image wr bs s = Some (True, s') \<Longrightarrow> given s bs s'"
  by (auto simp: send_image_def split: bind_splits dest!: wr_success)

lemma send_int_given:
  "send_int e wr (w :: 'a::len word) s = Some (True, s') \<Longrightarrow> 8 dvd LENGTH('a) \<Longrightarrow> given s (be_image w) s'"
  using send_image_given by (fastforce simp: send_int_def mem_image_hton)

lemma send_int64_given:
  assumes "send_int64 e wr w s = Some (True, s')"
  shows "given s (be_image w) s'"
proof -
  have "mem_image e (swap64 e w) = be_image w"
  proof (cases e)
    case LittleEndian
    have "ntoh LittleEndian (1 :: i32) \<noteq> 1" by code_simp
    then show ?thesis using LittleEndian
      by (simp add: swap64_def mem_load_def mem_image_def be_image_def le_image_of_le)
  next
    case BigEndian
    then show ?thesis by (simp add: swap64_def ntoh_def mem_image_def be_image_def)
  qed
  then show ?thesis using send_image_given [of "be_image w"] assms by (simp add: send_int64_def)
qed

text \<open>The 16 bit functions of \<open>NetUtil.cpp\<close>: right on a little-endian host, zero on the other.\<close>

lemma send_int16_of_int_given:
  "send_int16_of_int e wr w s = Some (True, s') \<Longrightarrow>
     given s (case e of LittleEndian \<Rightarrow> be_image w | BigEndian \<Rightarrow> [0, 0]) s'"
  using send_image_given by (fastforce simp: send_int16_of_int_def image_of_short_in_int)

end

end
