(* ===== verification/Net_Util.thy ===== *)
theory Net_Util
  imports Net_Io
begin

text \<open>
  The socket functions of \<open>CiUtils/Src/NetUtil.cpp\<close> (POSIX branches).  Functions that exist in
  \<open>legacy_support.cpp\<close> too have the suffix \<open>_ci\<close>.  An out parameter is part of the result; it is
  \<open>None\<close> where the function leaves it alone.  A stream is the one connection of the \<open>world\<close>, so
  the reads and writes of a stream do not look at the descriptor.
\<close>

section \<open>Sockets\<close>

definition nu_disconnect_ci :: "kernel \<Rightarrow> fd \<Rightarrow> world \<Rightarrow> bool \<times> world" where
  "nu_disconnect_ci K sock w = sys_close K sock w"

definition nu_create_tcp_socket :: "kernel \<Rightarrow> world \<Rightarrow> fd option \<times> world" where
  "nu_create_tcp_socket K w =
     (let (sock, w1) = sys_socket K w in (if sock < 0 then None else Some sock, w1))"

definition nu_create_udp_socket_ci :: "kernel \<Rightarrow> world \<Rightarrow> fd option \<times> world" where
  "nu_create_udp_socket_ci K w =
     (let (sock, w1) = sys_socket K w in (if sock < 0 then None else Some sock, w1))"

definition nu_bind_ci :: "endian \<Rightarrow> kernel \<Rightarrow> fd \<Rightarrow> i16 \<Rightarrow> world \<Rightarrow> bool \<times> world" where
  "nu_bind_ci e K sock port w = sys_bind K sock (hton e 0) (hton e port) w"

definition nu_set_keep_alive_ci :: "kernel \<Rightarrow> fd \<Rightarrow> bool \<Rightarrow> world \<Rightarrow> bool \<times> world" where
  "nu_set_keep_alive_ci K sock bEnable w =
     sys_setsockopt K sock SO_KEEPALIVE (if bEnable then 1 else 0) w"

definition nu_set_reuse_addr_ci :: "kernel \<Rightarrow> fd \<Rightarrow> bool \<Rightarrow> world \<Rightarrow> bool \<times> world" where
  "nu_set_reuse_addr_ci K sock bEnable w =
     sys_setsockopt K sock SO_REUSEADDR (if bEnable then 1 else 0) w"

definition nu_set_send_timeout :: "kernel \<Rightarrow> fd \<Rightarrow> i32 \<Rightarrow> world \<Rightarrow> bool \<times> world" where
  "nu_set_send_timeout K sock sec w = sys_setsockopt K sock SO_SNDTIMEO sec w"

definition nu_set_recv_timeout :: "kernel \<Rightarrow> fd \<Rightarrow> i32 \<Rightarrow> world \<Rightarrow> bool \<times> world" where
  "nu_set_recv_timeout K sock sec w = sys_setsockopt K sock SO_RCVTIMEO sec w"

definition nu_set_revbuf :: "kernel \<Rightarrow> fd \<Rightarrow> i32 \<Rightarrow> world \<Rightarrow> bool \<times> world" where
  "nu_set_revbuf K sock n w = sys_setsockopt K sock SO_RCVBUF n w"

definition nu_set_sndbuf :: "kernel \<Rightarrow> fd \<Rightarrow> i32 \<Rightarrow> world \<Rightarrow> bool \<times> world" where
  "nu_set_sndbuf K sock n w = sys_setsockopt K sock SO_SNDBUF n w"

definition nu_get_rcvbuf :: "net_calls \<Rightarrow> world \<Rightarrow> i32 option \<times> world" where
  "nu_get_rcvbuf N w = sys_ask (n_buf_size N) w"

definition nu_get_sndbuf :: "net_calls \<Rightarrow> world \<Rightarrow> i32 option \<times> world" where
  "nu_get_sndbuf N w = sys_ask (n_buf_size N) w"

text \<open>
  A socket that listens: the address is the given one unless that is empty or \<open>0.0.0.0\<close>.  After
  a failure of \<open>setsockopt\<close>, \<open>bind\<close> or \<open>listen\<close> the socket is closed.
\<close>

definition CI_MAX_IP_ADDRESS_LENGTH :: nat where
  "CI_MAX_IP_ADDRESS_LENGTH = 32"

definition any_text :: cstr where
  "any_text = [48, 46, 48, 46, 48, 46, 48]"

definition nu_create_listen_socket ::
  "endian \<Rightarrow> kernel \<Rightarrow> net_calls \<Rightarrow> i16 \<Rightarrow> int \<Rightarrow> cstr \<Rightarrow> world \<Rightarrow> fd option \<times> world" where
  "nu_create_listen_socket e K N port listen_queue listen_ipaddr w =
     (let (sock, w1) = sys_socket K w in
      if sock < 0 then (None, w1) else
      let addr = (if listen_ipaddr \<noteq> [] \<and> listen_ipaddr \<noteq> any_text
                  then n_addr N (take CI_MAX_IP_ADDRESS_LENGTH listen_ipaddr) else hton e 0);
          (reuse, w2) = sys_setsockopt K sock SO_REUSEADDR 1 w1 in
      if \<not> reuse then (None, snd (nu_disconnect_ci K sock w2)) else
      let w3 = snd (nu_set_keep_alive_ci K sock True w2);
          (bnd, w4) = sys_bind K sock addr (hton e port) w3 in
      if \<not> bnd then (None, snd (nu_disconnect_ci K sock w4)) else
      let (lst, w5) = sys_listen N sock listen_queue w4 in
      if \<not> lst then (None, snd (nu_disconnect_ci K sock w5)) else (Some sock, w5))"

definition nu_connect ::
  "endian \<Rightarrow> kernel \<Rightarrow> net_calls \<Rightarrow> fd \<Rightarrow> cstr \<Rightarrow> i16 \<Rightarrow> world \<Rightarrow> bool \<times> world" where
  "nu_connect e K N sock dest_addr port w =
     (let w1 = snd (sys_setsockopt K sock (SO_LINGER 5) 1 w) in
      case n_parse N dest_addr of
        None \<Rightarrow> (False, w1)
      | Some addr \<Rightarrow>
          (let (err, w2) = sys_connect N sock addr (hton e port) w1 in (err = None, w2)))"

text \<open>The event mask of the two functions that wait for a connection.\<close>

definition connect_events :: events where
  "connect_events = write_events OR 0x008"

text \<open>The wait that follows a \<open>connect\<close> in progress, up to the question for the socket's error.\<close>

definition connect_wait ::
  "kernel \<Rightarrow> net_calls \<Rightarrow> fd \<Rightarrow> errno \<Rightarrow> world \<Rightarrow> (bool \<times> world) option" where
  "connect_wait K N sock err w =
     (if err \<noteq> CI_EWOULDBLOCK \<and> err \<noteq> CI_EINPROGRESS then Some (False, w)
      else do {
        (k, w1) \<leftarrow> poll_one K sock connect_events w;
        if k \<le> 0 then Some (False, w1)
        else (let (se, w2) = sys_ask (n_so_error N) w1 in Some (se = Some 0, w2)) })"

definition nu_NonBlockConnect ::
  "endian \<Rightarrow> kernel \<Rightarrow> net_calls \<Rightarrow> fd \<Rightarrow> cstr \<Rightarrow> int \<Rightarrow> world \<Rightarrow> (bool \<times> world) option" where
  "nu_NonBlockConnect e K N sock dest_addr port w =
     (let w1 = snd (sys_setsockopt K sock (SO_LINGER 5) 1 w);
          (nb, w2) = sys_set_nonblock N sock True w1 in
      if \<not> nb then Some (False, w2) else
      case n_parse N dest_addr of
        None \<Rightarrow> Some (False, w2)
      | Some addr \<Rightarrow>
          (let (err, w3) = sys_connect N sock addr (hton e (word_of_int port)) w2 in do {
             (ok, w4) \<leftarrow> (case err of None \<Rightarrow> Some (True, w3) | Some er \<Rightarrow> connect_wait K N sock er w3);
             if \<not> ok then Some (False, w4) else Some (sys_set_nonblock N sock False w4) }))"

section \<open>Addresses\<close>

text \<open>\<open>strcpy\<close> of an address text into a caller's array of \<open>room\<close> bytes.\<close>

definition text_out :: "nat \<Rightarrow> cstr \<Rightarrow> cstr option" where
  "text_out room t = (if length t < room then Some t else None)"

text \<open>A null pointer for the client's address or port means that the caller does not want it.\<close>

definition nu_accept ::
  "endian \<Rightarrow> net_calls \<Rightarrow> nat option \<Rightarrow> bool \<Rightarrow> world \<Rightarrow>
     ((fd \<times> cstr option \<times> i16 option) option \<times> world) option" where
  "nu_accept e N ip_room want_port w =
     (case sys_ask (n_accept N) w of
        (None, w1) \<Rightarrow> Some (None, w1)
      | (Some (sock, addr, port), w1) \<Rightarrow>
          if sock < 0 then Some (None, w1)
          else do {
            ip \<leftarrow> (case ip_room of None \<Rightarrow> Some None | Some room \<Rightarrow>
                      map_option Some (text_out room (n_text N addr)));
            Some (Some (sock, ip, if want_port then Some (ntoh e port) else None), w1) })"

definition nu_get_local_ip_address ::
  "net_calls \<Rightarrow> nat \<Rightarrow> world \<Rightarrow> (cstr option \<times> world) option" where
  "nu_get_local_ip_address N room w =
     (case sys_ask (n_local N) w of
        (None, w1) \<Rightarrow> Some (None, w1)
      | (Some (addr, port), w1) \<Rightarrow> do { t \<leftarrow> text_out room (n_text N addr); Some (Some t, w1) })"

definition nu_get_local_port_number ::
  "endian \<Rightarrow> net_calls \<Rightarrow> world \<Rightarrow> i16 option \<times> world" where
  "nu_get_local_port_number e N w =
     (let (r, w1) = sys_ask (n_local N) w in (map_option (\<lambda>(addr, port). ntoh e port) r, w1))"

definition nu_get_peer_ip_address ::
  "net_calls \<Rightarrow> nat \<Rightarrow> world \<Rightarrow> (cstr option \<times> world) option" where
  "nu_get_peer_ip_address N room w =
     (case sys_ask (n_peer N) w of
        (None, w1) \<Rightarrow> Some (None, w1)
      | (Some (addr, port), w1) \<Rightarrow> do { t \<leftarrow> text_out room (n_text N addr); Some (Some t, w1) })"

definition nu_get_address ::
  "endian \<Rightarrow> net_calls \<Rightarrow> i32 \<times> i16 \<Rightarrow> nat option \<Rightarrow> (cstr \<times> i16) option option" where
  "nu_get_address e N sa ip_room =
     (case ip_room of
        None \<Rightarrow> Some None
      | Some room \<Rightarrow> do { t \<leftarrow> text_out room (n_text N (fst sa)); Some (Some (t, ntoh e (snd sa))) })"

section \<open>Bytes\<close>

text \<open>A socket address as it lies in memory: the port and the address.\<close>

definition addr_image :: "endian \<Rightarrow> i32 \<Rightarrow> i16 \<Rightarrow> sockaddr" where
  "addr_image e addr port = mem_image e port @ mem_image e addr"

definition nu_sendto ::
  "endian \<Rightarrow> kernel \<Rightarrow> net_calls \<Rightarrow> fd \<Rightarrow> cstr \<Rightarrow> i16 \<Rightarrow> byte list \<Rightarrow> world \<Rightarrow> (write_res \<times> world) option" where
  "nu_sendto e K N sock dest_addr port bs w =
     (case n_parse N dest_addr of
        None \<Rightarrow> Some ((False, None), w)
      | Some addr \<Rightarrow>
          (case sys_sendto K sock (addr_image e addr (hton e port)) bs w of
             (Inl er, w1) \<Rightarrow> Some ((False, Some (- 1)), w1)
           | (Inr n, w1) \<Rightarrow> Some ((True, Some (int n)), w1)))"

definition nu_recvfrom :: "kernel \<Rightarrow> int \<Rightarrow> world \<Rightarrow> (read_res \<times> world) option" where
  "nu_recvfrom K ntoread w =
     (case sys_recvfrom K (nat (ntoread mod 2 ^ 64)) w of
        (RecvErr er, w1) \<Rightarrow> Some ((False, None, []), w1)
      | (Recvd a bs, w1) \<Rightarrow> Some ((True, Some (int (length bs)), bs), w1))"

definition nu_readn :: "kernel \<Rightarrow> int \<Rightarrow> world \<Rightarrow> (read_res \<times> world) option" where
  "nu_readn K ntoread w =
     (let ((err, bs), w1) = recv_loop K (nat ntoread) w in
      if err \<noteq> None then Some ((False, None, bs), w1)
      else Some ((True, Some (int (length bs)), bs), w1))"

definition nu_writen :: "kernel \<Rightarrow> byte list \<Rightarrow> world \<Rightarrow> (write_res \<times> world) option" where
  "nu_writen K bs w =
     (let ((err, rest), w1) = send_loop K bs w in
      if err \<noteq> None then Some ((False, None), w1)
      else Some ((True, Some (int (length bs) - int (length rest))), w1))"

definition nu_readn_async :: "kernel \<Rightarrow> fd \<Rightarrow> int \<Rightarrow> world \<Rightarrow> (read_res \<times> world) option" where
  "nu_readn_async K sock ntoread w = read_n_timed K sock ntoread w"

definition nu_writen_async :: "kernel \<Rightarrow> fd \<Rightarrow> byte list \<Rightarrow> world \<Rightarrow> (write_res \<times> world) option" where
  "nu_writen_async K sock bs w = write_n_timed True K sock bs w"

section \<open>Integers\<close>

type_synonym 'b reads = "world \<Rightarrow> ('b option \<times> world) option"
type_synonym writes = "world \<Rightarrow> (bool \<times> world) option"

definition nu_read_int8 :: "kernel \<Rightarrow> byte reads" where
  "nu_read_int8 K = recv_int8 (nu_readn K)"
definition nu_read_int16 :: "endian \<Rightarrow> kernel \<Rightarrow> i16 reads" where
  "nu_read_int16 e K = recv_int e (nu_readn K)"
definition nu_read_int32 :: "endian \<Rightarrow> kernel \<Rightarrow> i32 reads" where
  "nu_read_int32 e K = recv_int e (nu_readn K)"
definition nu_read_int64 :: "endian \<Rightarrow> kernel \<Rightarrow> i64 reads" where
  "nu_read_int64 e K = recv_int64 e (nu_readn K)"

definition nu_write_int8 :: "kernel \<Rightarrow> byte \<Rightarrow> writes" where
  "nu_write_int8 K b = send_image (nu_writen K) [b]"
definition nu_write_int16 :: "endian \<Rightarrow> kernel \<Rightarrow> i16 \<Rightarrow> writes" where
  "nu_write_int16 e K = send_int16_of_int e (nu_writen K)"
definition nu_write_int32 :: "endian \<Rightarrow> kernel \<Rightarrow> i32 \<Rightarrow> writes" where
  "nu_write_int32 e K = send_int e (nu_writen K)"
definition nu_write_int64 :: "endian \<Rightarrow> kernel \<Rightarrow> i64 \<Rightarrow> writes" where
  "nu_write_int64 e K = send_int64 e (nu_writen K)"

definition nu_read_int8_async :: "kernel \<Rightarrow> fd \<Rightarrow> byte reads" where
  "nu_read_int8_async K s = recv_int8 (nu_readn_async K s)"
definition nu_read_int16_async :: "endian \<Rightarrow> kernel \<Rightarrow> fd \<Rightarrow> i16 reads" where
  "nu_read_int16_async e K s = recv_int e (nu_readn_async K s)"
definition nu_read_int32_async :: "endian \<Rightarrow> kernel \<Rightarrow> fd \<Rightarrow> i32 reads" where
  "nu_read_int32_async e K s = recv_int e (nu_readn_async K s)"
definition nu_read_int64_async :: "endian \<Rightarrow> kernel \<Rightarrow> fd \<Rightarrow> i64 reads" where
  "nu_read_int64_async e K s = recv_int64 e (nu_readn_async K s)"

definition nu_write_int8_async :: "kernel \<Rightarrow> fd \<Rightarrow> byte \<Rightarrow> writes" where
  "nu_write_int8_async K s b = send_image (nu_writen_async K s) [b]"
definition nu_write_int16_async :: "endian \<Rightarrow> kernel \<Rightarrow> fd \<Rightarrow> i16 \<Rightarrow> writes" where
  "nu_write_int16_async e K s = send_int16_of_int e (nu_writen_async K s)"
definition nu_write_int32_async :: "endian \<Rightarrow> kernel \<Rightarrow> fd \<Rightarrow> i32 \<Rightarrow> writes" where
  "nu_write_int32_async e K s = send_int e (nu_writen_async K s)"
definition nu_write_int64_async :: "endian \<Rightarrow> kernel \<Rightarrow> fd \<Rightarrow> i64 \<Rightarrow> writes" where
  "nu_write_int64_async e K s = send_int64 e (nu_writen_async K s)"

text \<open>One integer per datagram.\<close>

definition nu_udp_read_int8 :: "kernel \<Rightarrow> byte reads" where
  "nu_udp_read_int8 K = recv_int8 (nu_recvfrom K)"
definition nu_udp_read_int16 :: "endian \<Rightarrow> kernel \<Rightarrow> i16 reads" where
  "nu_udp_read_int16 e K = recv_int e (nu_recvfrom K)"
definition nu_udp_read_int32 :: "endian \<Rightarrow> kernel \<Rightarrow> i32 reads" where
  "nu_udp_read_int32 e K = recv_int e (nu_recvfrom K)"
definition nu_udp_read_int64 :: "endian \<Rightarrow> kernel \<Rightarrow> i64 reads" where
  "nu_udp_read_int64 e K = recv_int64 e (nu_recvfrom K)"

definition nu_udp_write_int8 ::
  "endian \<Rightarrow> kernel \<Rightarrow> net_calls \<Rightarrow> fd \<Rightarrow> byte \<Rightarrow> cstr \<Rightarrow> i16 \<Rightarrow> writes" where
  "nu_udp_write_int8 e K N s b dest_addr port = send_image (nu_sendto e K N s dest_addr port) [b]"
definition nu_udp_write_int16 ::
  "endian \<Rightarrow> kernel \<Rightarrow> net_calls \<Rightarrow> fd \<Rightarrow> i16 \<Rightarrow> cstr \<Rightarrow> i16 \<Rightarrow> writes" where
  "nu_udp_write_int16 e K N s n dest_addr port =
     send_int16_of_int e (nu_sendto e K N s dest_addr port) n"
definition nu_udp_write_int32 ::
  "endian \<Rightarrow> kernel \<Rightarrow> net_calls \<Rightarrow> fd \<Rightarrow> i32 \<Rightarrow> cstr \<Rightarrow> i16 \<Rightarrow> writes" where
  "nu_udp_write_int32 e K N s n dest_addr port = send_int e (nu_sendto e K N s dest_addr port) n"
definition nu_udp_write_int64 ::
  "endian \<Rightarrow> kernel \<Rightarrow> net_calls \<Rightarrow> fd \<Rightarrow> i64 \<Rightarrow> cstr \<Rightarrow> i16 \<Rightarrow> writes" where
  "nu_udp_write_int64 e K N s n dest_addr port = send_int64 e (nu_sendto e K N s dest_addr port) n"


section \<open>The functions as sources and sinks\<close>

lemma read_n_timed_success:
  assumes "read_n_timed K s n w = Some ((True, k, bs), w')"
  shows "int (length bs) = n \<and> k = Some n \<and> took bs w w'"
proof -
  obtain ok xs w1 where r: "recv_timed K s (nat n) w = Some ((ok, xs), w1)"
    using assms by (auto simp: read_n_timed_def split: bind_splits)
  from recv_timed_took [OF r] show ?thesis
    using assms r by (auto simp: read_n_timed_def split: if_splits)
qed

lemma write_n_timed_success:
  assumes "write_n_timed brk K s bs w = Some ((True, k), w')"
  shows "k = Some (int (length bs)) \<and> gave bs w w'"
proof -
  obtain ok rest w1 where r: "send_timed brk K s bs w = Some ((ok, rest), w1)"
    using assms by (auto simp: write_n_timed_def split: bind_splits)
  from send_timed_gave [OF r] show ?thesis
    using assms r by (auto simp: write_n_timed_def split: if_splits)
qed

interpretation readn: byte_source "nu_readn K" "\<lambda>w bs w'. took bs w w'" for K
proof
  fix n w bs w'
  assume a: "nu_readn K n w = Some ((True, Some n, bs), w')" "0 \<le> n"
  then have "recv_loop K (nat n) w = ((None, bs), w')" "int (length bs) = n"
    by (auto simp: nu_readn_def split: prod.splits if_splits)
  then show "int (length bs) = n \<and> took bs w w'" using recv_loop_took by blast
qed

interpretation readn_async: byte_source "nu_readn_async K s" "\<lambda>w bs w'. took bs w w'" for K s
  by unfold_locales (auto simp: nu_readn_async_def dest: read_n_timed_success)

interpretation recvfrom: byte_source "nu_recvfrom K"
  "\<lambda>w bs w'. \<exists>a d. k_recv K (clock w) = RecvData a d \<and> bs = take (length bs) d" for K
  by unfold_locales
    (auto simp: nu_recvfrom_def sys_recvfrom_def split: recv_res.splits)

interpretation writen: byte_sink "nu_writen K" "\<lambda>w bs w'. gave bs w w'" for K
proof
  fix bs w w'
  assume a: "nu_writen K bs w = Some ((True, Some (int (length bs))), w')"
  then have "send_loop K bs w = ((None, []), w')"
    by (auto simp: nu_writen_def split: prod.splits if_splits)
  from send_loop_gave [OF this] show "gave bs w w'" by auto
qed

interpretation writen_async: byte_sink "nu_writen_async K s" "\<lambda>w bs w'. gave bs w w'" for K s
  by unfold_locales (auto simp: nu_writen_async_def dest: write_n_timed_success)

interpretation sendto: byte_sink "nu_sendto e K N s dest_addr port"
  "\<lambda>w bs w'. \<exists>a. n_parse N dest_addr = Some a \<and>
     sent w' = sent w @ [(s, addr_image e a (hton e port), bs)]" for e K N s dest_addr port
  by unfold_locales
    (auto simp: nu_sendto_def sys_sendto_def split: option.splits send_res.splits)

text \<open>What the integer functions do to a stream.\<close>

lemmas nu_read_took =
  readn.recv_int8_taken [folded nu_read_int8_def] readn.recv_int64_taken [folded nu_read_int64_def]
  readn.recv_int_taken [where 'a = 16, folded nu_read_int16_def, OF _ dvd_widths(1)]
  readn.recv_int_taken [where 'a = 32, folded nu_read_int32_def, OF _ dvd_widths(2)]
  readn_async.recv_int8_taken [folded nu_read_int8_async_def]
  readn_async.recv_int64_taken [folded nu_read_int64_async_def]
  readn_async.recv_int_taken [where 'a = 16, folded nu_read_int16_async_def, OF _ dvd_widths(1)]
  readn_async.recv_int_taken [where 'a = 32, folded nu_read_int32_async_def, OF _ dvd_widths(2)]

lemmas nu_write_gave =
  writen.send_image_given [where bs = "[b]" for b, folded nu_write_int8_def]
  writen.send_int64_given [folded nu_write_int64_def]
  writen.send_int16_of_int_given [folded nu_write_int16_def]
  writen.send_int_given [where 'a = 32, folded nu_write_int32_def, OF _ dvd_widths(2)]
  writen_async.send_image_given [where bs = "[b]" for b, folded nu_write_int8_async_def]
  writen_async.send_int64_given [folded nu_write_int64_async_def]
  writen_async.send_int16_of_int_given [folded nu_write_int16_async_def]
  writen_async.send_int_given [where 'a = 32, folded nu_write_int32_async_def, OF _ dvd_widths(2)]

text \<open>
  Two ends of one connection: the receiver has read all that was sent before, and the network
  delivers a prefix of what is sent.
\<close>

definition delivered :: "world \<Rightarrow> world \<Rightarrow> bool" where
  "delivered w u \<longleftrightarrow> (\<exists>more rest. outstream w @ more = instream u @ rest)"

lemma delivered_same:
  assumes "gave xs w w'" "took ys u u'" "instream u = outstream w" "delivered w' u'"
    and "length xs = length ys"
  shows "ys = xs \<and> instream u' = outstream w'"
proof -
  obtain more rest where "outstream w @ xs @ more = outstream w @ ys @ rest"
    using assms(1-4) by (auto simp: gave_def took_def delivered_def)
  then have "xs = ys" using assms(5) by simp
  then show ?thesis using assms(1-3) by (simp add: gave_def took_def)
qed

lemma delivered_int:
  assumes "gave (be_image v) w w'" "took (be_image x) u u'" "instream u = outstream w" "delivered w' u'"
    and "8 dvd LENGTH('a::len)"
  shows "(x :: 'a word) = v \<and> instream u' = outstream w'"
  using delivered_same [OF assms(1-4)] of_be_be_image [OF assms(5)] by (metis length_be_image)

end
