(* ===== verification/Ci_Socket.thy ===== *)
theory Ci_Socket
  imports Ring Net_Util
begin

text \<open>
  \<open>CCiSocket\<close> of \<open>CiUtils/Src/CiSocket.cpp\<close> (POSIX branches): a non-blocking socket with a ring
  buffer in each direction.  An operation maps the object and the world to its result and both;
  \<open>None\<close> is undefined behaviour or a loop that does not end.  A read gives the bytes it stores in
  the caller's buffer, as in \<open>Net_Io\<close>.  What \<open>GetLastError\<close> returns is the error of the last call;
  the assignment to \<open>errno\<close> when \<open>WriteNFlush\<close> gives up is not modelled.
\<close>

section \<open>The object\<close>

datatype CCiSocketType_t = CI_SOCKET_TCP | CI_SOCKET_UDP

record cisocket =
  m_iSocket :: fd
  m_socketType :: CCiSocketType_t
  m_iConnectTimeOutMillieSec :: int
  m_iSendTimeOutMillieSec :: int
  m_iRecvTimeOutMillieSec :: int
  m_send :: ring
  m_recv :: ring

type_synonym sock_state = "cisocket \<times> world"

abbreviation CI_INVALID_SOCKET :: fd where
  "CI_INVALID_SOCKET \<equiv> - 1"

definition CI_SOCKET_BUFFER_SIZE :: int where
  "CI_SOCKET_BUFFER_SIZE = 100 * 1024"

definition GetSocketType :: "cisocket \<Rightarrow> CCiSocketType_t" where
  "GetSocketType c = m_socketType c"

definition SetAcceptSocket :: "fd \<Rightarrow> cisocket \<Rightarrow> cisocket" where
  "SetAcceptSocket s c = c\<lparr>m_iSocket := s\<rparr>"

definition IsValidSocket :: "cisocket \<Rightarrow> bool" where
  "IsValidSocket c \<longleftrightarrow> m_iSocket c \<noteq> CI_INVALID_SOCKET"

definition SetConnectTimeOut :: "int \<Rightarrow> cisocket \<Rightarrow> cisocket" where
  "SetConnectTimeOut ms c = c\<lparr>m_iConnectTimeOutMillieSec := ms\<rparr>"

definition SetSendTimeOut :: "int \<Rightarrow> cisocket \<Rightarrow> cisocket" where
  "SetSendTimeOut ms c = c\<lparr>m_iSendTimeOutMillieSec := ms\<rparr>"

definition SetRecvTimeOut :: "int \<Rightarrow> cisocket \<Rightarrow> cisocket" where
  "SetRecvTimeOut ms c = c\<lparr>m_iRecvTimeOutMillieSec := ms\<rparr>"

definition GetSendTimeOut :: "cisocket \<Rightarrow> int" where
  "GetSendTimeOut c = m_iSendTimeOutMillieSec c"

definition GetRecvTimeOut :: "cisocket \<Rightarrow> int" where
  "GetRecvTimeOut c = m_iRecvTimeOutMillieSec c"

definition SetNonBlockSocket :: "net_calls \<Rightarrow> sock_state \<Rightarrow> bool \<times> sock_state" where
  "SetNonBlockSocket N s =
     (let (got, w1) = sys_ask (n_getfl N) (snd s) in
      if \<not> got then (False, fst s, w1)
      else (let (ok, w2) = sys_set_nonblock N (m_iSocket (fst s)) True w1 in (ok, fst s, w2)))"

definition CiSocket_Initialize ::
  "net_calls \<Rightarrow> fd \<Rightarrow> CCiSocketType_t \<Rightarrow> sock_state \<Rightarrow> bool \<times> sock_state" where
  "CiSocket_Initialize N sock ty s =
     (let c1 = (fst s)\<lparr>m_iSocket := sock, m_socketType := ty\<rparr>;
          (c2, w2) = (if m_iSocket c1 \<noteq> CI_INVALID_SOCKET then snd (SetNonBlockSocket N (c1, snd s))
                      else (c1, snd s)) in
      (True, c2\<lparr>m_iConnectTimeOutMillieSec := 2 * 1000, m_iSendTimeOutMillieSec := 2 * 1000,
                m_iRecvTimeOutMillieSec := 3 * 1000,
                m_send := (m_send c2)\<lparr>r_start := 0, r_end := 0\<rparr>,
                m_recv := (m_recv c2)\<lparr>r_start := 0, r_end := 0\<rparr>\<rparr>, w2))"

text \<open>The constructors build the object in memory that holds \<open>c0\<close>.\<close>

definition CCiSocket_accepted ::
  "heap \<Rightarrow> net_calls \<Rightarrow> cisocket \<Rightarrow> fd \<Rightarrow> CCiSocketType_t \<Rightarrow> int \<Rightarrow> int \<Rightarrow> world \<Rightarrow> sock_state" where
  "CCiSocket_accepted H N c0 sock ty nsend nrecv w =
     (let (ok, c1, w1) = CiSocket_Initialize N sock ty (c0, w) in
      (c1\<lparr>m_send := (m_send c1)\<lparr>r_size := nsend, r_buf := c_malloc H nsend\<rparr>,
          m_recv := (m_recv c1)\<lparr>r_size := nrecv, r_buf := c_malloc H nrecv\<rparr>\<rparr>, w1))"

definition CCiSocket_client ::
  "heap \<Rightarrow> net_calls \<Rightarrow> cisocket \<Rightarrow> CCiSocketType_t \<Rightarrow> int \<Rightarrow> int \<Rightarrow> world \<Rightarrow> sock_state" where
  "CCiSocket_client H N c0 ty nsend nrecv w =
     (let (ok, c1, w1) = CiSocket_Initialize N CI_INVALID_SOCKET ty (c0, w) in
      (c1\<lparr>m_send := (m_send c1)\<lparr>r_size := nsend, r_buf := c_malloc H nsend\<rparr>,
          m_recv := (m_recv c1)\<lparr>r_size := nrecv, r_buf := c_malloc H nrecv\<rparr>\<rparr>, w1))"

definition CiSocket_Disconnect :: "kernel \<Rightarrow> sock_state \<Rightarrow> bool \<times> sock_state" where
  "CiSocket_Disconnect K s =
     (if m_iSocket (fst s) = CI_INVALID_SOCKET then (True, s)
      else (let (ret, w1) = nu_disconnect_ci K (m_iSocket (fst s)) (snd s) in
            (ret, (fst s)\<lparr>m_iSocket := CI_INVALID_SOCKET\<rparr>, w1)))"

definition CiSocket_Finalize :: "kernel \<Rightarrow> sock_state \<Rightarrow> bool \<times> sock_state" where
  "CiSocket_Finalize K s =
     (if m_iSocket (fst s) = CI_INVALID_SOCKET then (True, s) else CiSocket_Disconnect K s)"

definition CCiSocket_destroy :: "kernel \<Rightarrow> sock_state \<Rightarrow> sock_state" where
  "CCiSocket_destroy K s =
     (let (ok, c1, w1) = CiSocket_Finalize K s in
      (c1\<lparr>m_send := (m_send c1)\<lparr>r_buf := None\<rparr>, m_recv := (m_recv c1)\<lparr>r_buf := None\<rparr>\<rparr>, w1))"

section \<open>Connecting\<close>

text \<open>The two \<open>setsockopt\<close> calls for the buffers of the kernel, if the caller wants them.\<close>

definition set_kernel_buffers :: "kernel \<Rightarrow> fd \<Rightarrow> int \<Rightarrow> world \<Rightarrow> bool \<times> world" where
  "set_kernel_buffers K sock n w =
     (if n > 0 then
        (let (rcv, w1) = sys_setsockopt K sock SO_RCVBUF (word_of_int n) w in
         if \<not> rcv then (False, w1) else sys_setsockopt K sock SO_SNDBUF (word_of_int n) w1)
      else (True, w))"

text \<open>
  \<open>Connect\<close>.  The source address is \<open>None\<close> for a null pointer; a text that is no address leaves the
  zeros of the \<open>memset\<close>, and whether \<open>bind\<close> succeeds is not looked at.
\<close>

definition CiSocket_Connect ::
  "endian \<Rightarrow> kernel \<Rightarrow> net_calls \<Rightarrow> cstr \<Rightarrow> i16 \<Rightarrow> cstr option \<Rightarrow> int \<Rightarrow> sock_state \<Rightarrow>
     (bool \<times> sock_state) option" where
  "CiSocket_Connect e K N server port source bufsize s =
     (let (sock, w1) = sys_socket K (snd s); c1 = (fst s)\<lparr>m_iSocket := sock\<rparr> in
      if sock < 0 then Some (False, c1, w1) else
      let (nb, c2, w2) = SetNonBlockSocket N (c1, w1) in
      if \<not> nb then Some (False, c2, w2) else
      let w3 = snd (sys_setsockopt K sock (SO_LINGER 0) 1 w2);
          (bufs, w4) = set_kernel_buffers K sock bufsize w3 in
      if \<not> bufs then Some (False, c2, w4) else
      let w5 = (case source of
                  None \<Rightarrow> w4
                | Some a \<Rightarrow> if length a > 0
                    then snd (sys_bind K sock (case n_parse N a of None \<Rightarrow> 0 | Some x \<Rightarrow> x) (hton e 0) w4)
                    else w4) in
      case n_parse N server of
        None \<Rightarrow> Some (False, c2, w5)
      | Some addr \<Rightarrow>
          (let (err, w6) = sys_connect N sock addr (hton e port) w5 in
           case err of
             None \<Rightarrow> Some (True, c2, w6)
           | Some er \<Rightarrow> do {
               (ok, w7) \<leftarrow> connect_wait K N sock er w6;
               if ok then Some (True, c2, w7)
               else Some (False, snd (CiSocket_Disconnect K (c2, w7))) }))"

definition GetPeerIP :: "net_calls \<Rightarrow> sock_state \<Rightarrow> cstr \<times> sock_state" where
  "GetPeerIP N s =
     (case sys_ask (n_peer N) (snd s) of
        (None, w1) \<Rightarrow> ([], fst s, w1)
      | (Some (addr, port), w1) \<Rightarrow> (n_text N addr, fst s, w1))"

section \<open>With a time limit\<close>

text \<open>The source's name with a suffix stands for the default arguments and overloads.\<close>

definition WriteNWithTimeOut :: "kernel \<Rightarrow> byte list \<Rightarrow> sock_state \<Rightarrow> (write_res \<times> sock_state) option" where
  "WriteNWithTimeOut K bs s = do {
     (r, w1) \<leftarrow> write_n_timed False K (m_iSocket (fst s)) bs (snd s);
     Some (r, fst s, w1) }"

definition ReadNWithTimeOut :: "kernel \<Rightarrow> int \<Rightarrow> sock_state \<Rightarrow> (read_res \<times> sock_state) option" where
  "ReadNWithTimeOut K ntoread s = do {
     (r, w1) \<leftarrow> read_n_timed K (m_iSocket (fst s)) ntoread (snd s);
     Some (r, fst s, w1) }"

type_synonym sock_writes = "sock_state \<Rightarrow> (bool \<times> sock_state) option"
type_synonym 'b sock_reads = "sock_state \<Rightarrow> ('b option \<times> sock_state) option"

definition WriteInt16WithTimeOut :: "endian \<Rightarrow> kernel \<Rightarrow> i16 \<Rightarrow> sock_writes" where
  "WriteInt16WithTimeOut e K = send_int e (WriteNWithTimeOut K)"
definition WriteInt32WithTimeOut :: "endian \<Rightarrow> kernel \<Rightarrow> i32 \<Rightarrow> sock_writes" where
  "WriteInt32WithTimeOut e K = send_int e (WriteNWithTimeOut K)"
definition WriteInt64WithTimeOut :: "endian \<Rightarrow> kernel \<Rightarrow> i64 \<Rightarrow> sock_writes" where
  "WriteInt64WithTimeOut e K = send_int64 e (WriteNWithTimeOut K)"

definition ReadInt16WithTimeOut :: "endian \<Rightarrow> kernel \<Rightarrow> i16 sock_reads" where
  "ReadInt16WithTimeOut e K = recv_int e (ReadNWithTimeOut K)"
definition ReadInt32WithTimeOut :: "endian \<Rightarrow> kernel \<Rightarrow> i32 sock_reads" where
  "ReadInt32WithTimeOut e K = recv_int e (ReadNWithTimeOut K)"
definition ReadInt64WithTimeOut :: "endian \<Rightarrow> kernel \<Rightarrow> i64 sock_reads" where
  "ReadInt64WithTimeOut e K = recv_int64 e (ReadNWithTimeOut K)"

text \<open>
  \<open>strstr\<close>: both texts end at their first zero byte; a block without one is read beyond its end.
\<close>

fun str_find :: "cstr \<Rightarrow> cstr \<Rightarrow> nat option" where
  "str_find p [] = (if p = [] then Some 0 else None)"
| "str_find p (c # cs) = (if take (length p) (c # cs) = p then Some 0 else map_option Suc (str_find p cs))"

definition c_strstr :: "byte list \<Rightarrow> cstr \<Rightarrow> nat option option" where
  "c_strstr mem p = (if 0 \<in> set mem then Some (str_find p (takeWhile (\<lambda>c. c \<noteq> 0) mem)) else None)"

text \<open>
  \<open>ReadPatternWithTimeOut\<close> searches the caller's buffer, of which \<open>mem\<close> is the content, after each
  \<open>recv\<close>.  The loop gives whether it ended normally, what is left to read and whether it found
  the pattern.
\<close>

partial_function (option) pattern_loop ::
  "kernel \<Rightarrow> fd \<Rightarrow> cstr \<Rightarrow> nat \<Rightarrow> nat \<Rightarrow> byte list \<Rightarrow> world \<Rightarrow>
     ((bool \<times> nat \<times> bool \<times> byte list) \<times> world) option" where
  "pattern_loop K s p n pos mem w =
     (if n = 0 then Some ((True, 0, False, mem), w)
      else do {
        (k, w1) \<leftarrow> poll_one K s read_events w;
        if k < 0 then Some ((False, n, False, mem), w1)
        else if k = 0 then Some ((True, n, False, mem), w1)
        else (case sys_recv K n w1 of
            (Inl e, w2) \<Rightarrow> Some ((False, n, False, mem), w2)
          | (Inr bs, w2) \<Rightarrow>
              if bs = [] then Some ((True, n, False, mem), w2)
              else do {
                mem1 \<leftarrow> blit mem pos bs;
                found \<leftarrow> c_strstr mem1 p;
                if found \<noteq> None then Some ((True, n - length bs, True, mem1), w2)
                else pattern_loop K s p (n - length bs) (pos + length bs) mem1 w2 }) })"

definition ReadPatternWithTimeOut ::
  "kernel \<Rightarrow> cstr \<Rightarrow> int \<Rightarrow> byte list \<Rightarrow> sock_state \<Rightarrow>
     ((bool \<times> int option \<times> byte list) \<times> sock_state) option" where
  "ReadPatternWithTimeOut K p readsize mem s = do {
     ((ok, left, found, mem1), w1) \<leftarrow>
       pattern_loop K (m_iSocket (fst s)) p (nat readsize) 0 mem (snd s);
     Some (if \<not> ok then (False, None, mem1)
           else (found, Some (int (nat readsize) - int left), mem1), fst s, w1) }"


section \<open>Reading from the buffer\<close>

definition GetCurrentRecvDataSize :: "cisocket \<Rightarrow> int" where
  "GetCurrentRecvDataSize c = ring_used (m_recv c)"

definition RemainingRecvBufferSize :: "cisocket \<Rightarrow> int" where
  "RemainingRecvBufferSize c = ring_remaining (m_recv c)"

definition PrepareRecvBuffer :: "heap \<Rightarrow> nat \<Rightarrow> cisocket \<Rightarrow> (bool \<times> cisocket) option" where
  "PrepareRecvBuffer H sz c = do {
     (ok, r) \<leftarrow> ring_prepare H sz (m_recv c);
     Some (ok, c\<lparr>m_recv := r\<rparr>) }"

definition ReadN :: "int \<Rightarrow> sock_state \<Rightarrow> (read_res \<times> sock_state) option" where
  "ReadN ntoread s = do {
     ((ok, x), r) \<leftarrow> ring_get ntoread (m_recv (fst s));
     Some (case x of None \<Rightarrow> (ok, None, []) | Some bs \<Rightarrow> (ok, Some ntoread, bs),
           (fst s)\<lparr>m_recv := r\<rparr>, snd s) }"

definition LookAheadN :: "int \<Rightarrow> int \<Rightarrow> cisocket \<Rightarrow> (bool \<times> byte list option) option" where
  "LookAheadN ntoread off c = ring_peek ntoread off (m_recv c)"

definition LookAheadInt32 :: "endian \<Rightarrow> int \<Rightarrow> cisocket \<Rightarrow> (bool \<times> i32 option) option" where
  "LookAheadInt32 e off c = do {
     (ok, x) \<leftarrow> ring_peek 4 off (m_recv c);
     Some (ok, map_option (\<lambda>bs. ntoh e (mem_load e bs)) x) }"

definition ReadInt16 :: "endian \<Rightarrow> i16 sock_reads" where
  "ReadInt16 e = recv_int e ReadN"
definition ReadInt32 :: "endian \<Rightarrow> i32 sock_reads" where
  "ReadInt32 e = recv_int e ReadN"
definition ReadInt64 :: "endian \<Rightarrow> i64 sock_reads" where
  "ReadInt64 e = recv_int64 e ReadN"

text \<open>
  The search for a text: contiguous data is searched in place, with a zero byte written behind it,
  wrapped data in a copy.
\<close>

definition StrExistInReadBuffer :: "cstr option \<Rightarrow> cisocket \<Rightarrow> (int \<times> cisocket) option" where
  "StrExistInReadBuffer pStr c =
     (let r = m_recv c; pos = (\<lambda>x. case x of None \<Rightarrow> - 1 | Some i \<Rightarrow> int i) in
      case (r_buf r, pStr) of
        (Some b, Some p) \<Rightarrow>
          if r_start r < r_end r then do {
            b1 \<leftarrow> put_at b (r_end r) [0];
            tail \<leftarrow> get_at b1 (r_start r) (int (length b1) - r_start r);
            x \<leftarrow> c_strstr tail p;
            Some (pos x, c\<lparr>m_recv := r\<lparr>r_buf := Some b1\<rparr>\<rparr>) }
          else if r_start r > r_end r then do {
            xs \<leftarrow> get_at b (r_start r) (r_size r - r_start r);
            ys \<leftarrow> get_at b 0 (r_end r);
            x \<leftarrow> c_strstr (xs @ ys @ [0]) p;
            Some (pos x, c) }
          else Some (- 1, c)
      | _ \<Rightarrow> Some (- 1, c))"

section \<open>From the network to the buffer\<close>

text \<open>
  The two receive loops.  They share a body, apart from the wrap of the end position; the first
  component is what the function returns from inside the loop.
\<close>

function recv_into ::
  "bool \<Rightarrow> kernel \<Rightarrow> int \<Rightarrow> int \<Rightarrow> ring \<Rightarrow> world \<Rightarrow> (bool option \<times> ring \<times> world) option" where
  "recv_into wrap K ptr nleft r w =
     (if nleft \<le> 0 then Some (None, r, w)
      else case sys_recv K (nat nleft) w of
          (Inl e, w1) \<Rightarrow> Some (Some (e = CI_EWOULDBLOCK), r, w1)
        | (Inr bs, w1) \<Rightarrow>
            if bs = [] then Some (None, r, w1)
            else do {
              b \<leftarrow> r_buf r;
              b1 \<leftarrow> put_at b ptr bs;
              let n = int (length bs); en = r_end r + n in
              recv_into wrap K (ptr + n) (nleft - n)
                (r\<lparr>r_buf := Some b1, r_end := if wrap \<and> en = r_size r then 0 else en\<rparr>) w1 })"
  by pat_completeness auto
termination
  by (relation "measure (\<lambda>(wrap, K, ptr, nleft, r, w). nat nleft)") auto

declare recv_into.simps [simp del]

definition ReadFromNetworkToBuffer :: "kernel \<Rightarrow> sock_state \<Rightarrow> (bool \<times> sock_state) option" where
  "ReadFromNetworkToBuffer K s =
     (let r0 = m_recv (fst s);
          r1 = (if r_end r0 = r_size r0 then r0\<lparr>r_end := 0\<rparr> else r0);
          (r2, nleft) =
            (if r_start r1 < r_end r1 then
               (r1, r_size r1 - r_end r1 - (if r_start r1 = 0 then 1 else 0))
             else if r_start r1 > r_end r1 then (r1, r_start r1 - r_end r1 - 1)
             else (r1\<lparr>r_start := 0, r_end := 0\<rparr>, r_size r1 - 1)) in
      do {
        (ret, r3, w1) \<leftarrow> recv_into True K (r_end r2) nleft r2 (snd s);
        Some (case ret of None \<Rightarrow> True | Some b \<Rightarrow> b, (fst s)\<lparr>m_recv := r3\<rparr>, w1) })"

text \<open>The overload with the largest number of bytes to read, an \<open>int\<close> that becomes a \<open>size_t\<close>.\<close>

definition ReadFromNetworkToBuffer_max ::
  "heap \<Rightarrow> kernel \<Rightarrow> int \<Rightarrow> sock_state \<Rightarrow> (bool \<times> sock_state) option" where
  "ReadFromNetworkToBuffer_max H K iReadSize s = do {
     (ok, c0) \<leftarrow> PrepareRecvBuffer H (nat (iReadSize mod 2 ^ 64)) (fst s);
     if \<not> ok then Some (False, c0, snd s) else
     (let r0 = m_recv c0;
          r1 = (if r_end r0 = r_size r0 then r0\<lparr>r_end := 0\<rparr> else r0);
          (r2, nleft, nleft2) =
            (if r_start r1 < r_end r1 then
               (let n = r_size r1 - r_end r1 - (if r_start r1 = 0 then 1 else 0) in
                if n > iReadSize then (r1, iReadSize, 0) else (r1, n, iReadSize - n))
             else if r_start r1 > r_end r1 then (r1, iReadSize, 0)
             else (r1\<lparr>r_start := 0, r_end := 0\<rparr>, iReadSize, 0)) in
      do {
        (ret, r3, w1) \<leftarrow> recv_into True K (r_end r2) nleft r2 (snd s);
        case ret of Some b \<Rightarrow> Some (b, c0\<lparr>m_recv := r3\<rparr>, w1)
        | None \<Rightarrow> do {
            (ret2, r4, w2) \<leftarrow> recv_into False K 0 nleft2 r3 w1;
            Some (case ret2 of None \<Rightarrow> True | Some b \<Rightarrow> b, c0\<lparr>m_recv := r4\<rparr>, w2) } }) }"

section \<open>Writing\<close>

definition GetRemainSendDataSize :: "cisocket \<Rightarrow> int" where
  "GetRemainSendDataSize c = ring_used (m_send c)"

definition RemainingSendBufferSize :: "cisocket \<Rightarrow> int" where
  "RemainingSendBufferSize c = ring_remaining (m_send c)"

definition PrepareSendBuffer :: "heap \<Rightarrow> nat \<Rightarrow> cisocket \<Rightarrow> (bool \<times> cisocket) option" where
  "PrepareSendBuffer H sz c = do {
     (ok, r) \<leftarrow> ring_prepare H sz (m_send c);
     Some (ok, c\<lparr>m_send := r\<rparr>) }"

definition WriteNToBuffer :: "heap \<Rightarrow> byte list \<Rightarrow> cisocket \<Rightarrow> (write_res \<times> cisocket) option" where
  "WriteNToBuffer H bs c = do {
     (ok, c0) \<leftarrow> PrepareSendBuffer H (length bs) c;
     if \<not> ok then Some ((False, None), c0)
     else do {
       ((st, n), r) \<leftarrow> ring_store bs (m_send c0);
       Some ((st, map_option int n), c0\<lparr>m_send := r\<rparr>) } }"

text \<open>The send loop of \<open>WriteFromBufferToNetwork\<close>, from the position \<open>ptr\<close> in the block.\<close>

partial_function (option) drain ::
  "kernel \<Rightarrow> int \<Rightarrow> int \<Rightarrow> ring \<Rightarrow> world \<Rightarrow> (bool \<times> ring \<times> world) option" where
  "drain K ptr nleft r w =
     (if nleft \<le> 0 then Some (True, r, w)
      else do {
        b \<leftarrow> r_buf r;
        xs \<leftarrow> get_at b ptr nleft;
        (case sys_send K xs w of
           (Inl e, w1) \<Rightarrow> Some (e = CI_EWOULDBLOCK, r, w1)
         | (Inr n, w1) \<Rightarrow>
             drain K (ptr + int n) (nleft - int n)
               (r\<lparr>r_start := if r_start r + int n = r_size r then 0 else r_start r + int n\<rparr>) w1) })"

definition WriteFromBufferToNetwork :: "kernel \<Rightarrow> sock_state \<Rightarrow> (bool \<times> sock_state) option" where
  "WriteFromBufferToNetwork K s =
     (let r = m_send (fst s) in
      if GetRemainSendDataSize (fst s) = 0 then Some (True, s)
      else do {
        (ok, r1, w1) \<leftarrow> drain K (r_start r)
          (if r_end r > r_start r then r_end r - r_start r
           else if r_end r < r_start r then r_size r - r_start r else 0) r (snd s);
        Some (ok, (fst s)\<lparr>m_send := r1\<rparr>, w1) })"

definition WriteN :: "heap \<Rightarrow> kernel \<Rightarrow> byte list \<Rightarrow> sock_state \<Rightarrow> (write_res \<times> sock_state) option" where
  "WriteN H K bs s = do {
     (ok, s1) \<leftarrow> (if GetRemainSendDataSize (fst s) > 0 then WriteFromBufferToNetwork K s else Some (True, s));
     if \<not> ok then Some ((False, None), s1)
     else if GetRemainSendDataSize (fst s1) > 0 then do {
       (r, c2) \<leftarrow> WriteNToBuffer H bs (fst s1);
       Some (r, c2, snd s1) }
     else
       (case send_loop K bs (snd s1) of
          ((Some e, rest), w2) \<Rightarrow>
            if e = CI_EWOULDBLOCK then do {
              ((st, n), c2) \<leftarrow> WriteNToBuffer H rest (fst s1);
              Some (if st then (True, Some (int (length bs))) else (False, n), c2, w2) }
            else Some ((False, None), fst s1, w2)
        | ((None, rest), w2) \<Rightarrow>
            Some ((rest = [], Some (int (length bs) - int (length rest))), fst s1, w2)) }"

definition WriteInt16 :: "endian \<Rightarrow> heap \<Rightarrow> kernel \<Rightarrow> i16 \<Rightarrow> sock_writes" where
  "WriteInt16 e H K = send_int e (WriteN H K)"
definition WriteInt32 :: "endian \<Rightarrow> heap \<Rightarrow> kernel \<Rightarrow> i32 \<Rightarrow> sock_writes" where
  "WriteInt32 e H K = send_int e (WriteN H K)"
definition WriteInt64 :: "endian \<Rightarrow> heap \<Rightarrow> kernel \<Rightarrow> i64 \<Rightarrow> sock_writes" where
  "WriteInt64 e H K = send_int64 e (WriteN H K)"

text \<open>
  \<open>WriteNFlush\<close> tries again after a pause when \<open>send\<close> would block, and gives up when that happened
  more than 3000 times in a row.  The pause, and the \<open>errno\<close> that it leaves for the caller when it gives up, are
  not modelled.
\<close>

partial_function (option) flush_loop ::
  "kernel \<Rightarrow> nat \<Rightarrow> byte list \<Rightarrow> world \<Rightarrow> ((bool \<times> byte list) \<times> world) option" where
  "flush_loop K iCount bs w =
     (if bs = [] then Some ((True, []), w)
      else case sys_send K bs w of
          (Inl e, w1) \<Rightarrow>
            if e \<noteq> CI_EWOULDBLOCK then Some ((False, bs), w1)
            else if iCount + 1 > 3000 then Some ((False, bs), w1)
            else flush_loop K (iCount + 1) bs w1
        | (Inr n, w1) \<Rightarrow> flush_loop K 0 (drop n bs) w1)"

definition WriteNFlush :: "kernel \<Rightarrow> byte list \<Rightarrow> sock_state \<Rightarrow> (write_res \<times> sock_state) option" where
  "WriteNFlush K bs s = do {
     ((ok, rest), w1) \<leftarrow> flush_loop K 0 bs (snd s);
     Some (if ok then (True, Some (int (length bs) - int (length rest))) else (False, None), fst s, w1) }"

definition GetBufferClon :: "cisocket \<Rightarrow> cisocket \<Rightarrow> (bool \<times> cisocket) option" where
  "GetBufferClon rhs c =
     (if r_size (m_send c) \<noteq> r_size (m_send rhs) \<or> r_size (m_recv c) \<noteq> r_size (m_recv rhs)
      then Some (False, c)
      else do {
        sb \<leftarrow> r_buf (m_send c); sb' \<leftarrow> r_buf (m_send rhs);
        xs \<leftarrow> get_at sb' 0 (r_size (m_send c)); sb1 \<leftarrow> put_at sb 0 xs;
        rb \<leftarrow> r_buf (m_recv c); rb' \<leftarrow> r_buf (m_recv rhs);
        ys \<leftarrow> get_at rb' 0 (r_size (m_recv c)); rb1 \<leftarrow> put_at rb 0 ys;
        Some (True, c\<lparr>m_send := (m_send c)\<lparr>r_buf := Some sb1, r_start := r_start (m_send rhs),
                                          r_end := r_end (m_send rhs)\<rparr>,
                      m_recv := (m_recv c)\<lparr>r_buf := Some rb1, r_start := r_start (m_recv rhs),
                                          r_end := r_end (m_recv rhs)\<rparr>\<rparr>) })"


section \<open>Receiving keeps the order of the bytes\<close>

text \<open>One receive of \<open>xs\<close> at the end position, which may come to lie at the end of the block.\<close>

lemma recv_step:
  assumes "s < length b" "e < length b" "length (ring_bytes b s e) + length xs < length b"
    "e + length xs \<le> length b" "wrap \<or> e + length xs < length b"
  obtains b' where "put_at b (int e) xs = Some b'" "length b' = length b"
    "(mk_ring b s e)\<lparr>r_buf := Some b', r_end := if wrap \<and> int e + int (length xs) = int (length b) then 0
       else int e + int (length xs)\<rparr> = mk_ring b' s (if e + length xs = length b then 0 else e + length xs)"
    "ring_bytes b' s (if e + length xs = length b then 0 else e + length xs) = ring_bytes b s e @ xs"
proof
  let ?b = "take e b @ xs @ drop (e + length xs) b"
  show "put_at b (int e) xs = Some ?b" using blit_fit [OF assms(4)] by simp
  show l: "length ?b = length b" using assms(4) by simp
  show "ring_bytes ?b s (if e + length xs = length b then 0 else e + length xs) = ring_bytes b s e @ xs"
    by (rule ring_bytes_extend [OF assms(1-4)])
  show "(mk_ring b s e)\<lparr>r_buf := Some ?b, r_end := if wrap \<and> int e + int (length xs) = int (length b) then 0
       else int e + int (length xs)\<rparr> = mk_ring ?b s (if e + length xs = length b then 0 else e + length xs)"
    using assms(5) l by (auto simp: mk_ring_def simp flip: of_nat_add)
qed

lemma recv_into_0: "recv_into wrap K ptr 0 r w = Some (None, r, w)"
  by (simp add: recv_into.simps [of wrap K ptr 0])

lemma recv_into_ok:
  assumes "s < length b" "e < length b" "length (ring_bytes b s e) + n < length b"
    "e + n \<le> length b" "wrap \<or> e + n < length b"
  shows "\<exists>ret b' e' w' xs. recv_into wrap K (int e) (int n) (mk_ring b s e) w = Some (ret, mk_ring b' s e', w') \<and>
    length b' = length b \<and> e' < length b \<and> ring_bytes b' s e' = ring_bytes b s e @ xs \<and> took xs w w' \<and>
    clock w \<le> clock w' \<and>
    (ret = None \<longrightarrow> e' = (if e + n = length b then 0 else e + n) \<and> length xs = n \<or>
       (\<exists>t a. t < clock w' \<and> k_recv K t = RecvData a []))"
  using assms
proof (induction n arbitrary: b e w rule: less_induct)
  case (less n)
  show ?case
  proof (cases "n = 0")
    case True
    then show ?thesis using less.prems
      by (intro exI [of _ None] exI [of _ b] exI [of _ e] exI [of _ w] exI [of _ "[]"])
        (simp add: recv_into.simps [of wrap K "int e" 0])
  next
    case n: False
    obtain r w1 where r: "sys_recv K n w = (r, w1)" by fastforce
    have t1: "clock w1 = Suc (clock w)" using r by (auto simp: sys_recv_def split: recv_res.splits)
    have c: "(int n \<le> 0) = False" "nat (int n) = n" using n by simp_all
    note unf = recv_into.simps [of wrap K "int e" "int n" "mk_ring b s e" w] c r if_False prod.case
    consider (err) er where "r = Inl er" | (eof) "r = Inr []" | (got) xs where "r = Inr xs" "xs \<noteq> []"
      by (cases r) auto
    then show ?thesis
    proof cases
      case err
      have "recv_into wrap K (int e) (int n) (mk_ring b s e) w =
          Some (Some (er = CI_EWOULDBLOCK), mk_ring b s e, w1)"
        by (simp only: unf err sum.case)
      then show ?thesis using less.prems t1 sys_recv_took(2) [OF r [unfolded err]]
        by (intro exI [of _ "Some (er = CI_EWOULDBLOCK)"] exI [of _ b] exI [of _ e] exI [of _ w1]
            exI [of _ "[]"]) simp
    next
      case eof
      have "recv_into wrap K (int e) (int n) (mk_ring b s e) w = Some (None, mk_ring b s e, w1)"
        by (simp only: unf eof sum.case if_True simp_thms)
      moreover have "\<exists>a. k_recv K (clock w) = RecvData a []"
        using r n eof by (auto simp: sys_recv_def split: recv_res.splits)
      then have "\<exists>t a. t < clock w1 \<and> k_recv K t = RecvData a []" using t1 by auto
      ultimately show ?thesis using less.prems t1 sys_recv_took(1) [OF r [unfolded eof]]
        by (intro exI [of _ None] exI [of _ b] exI [of _ e] exI [of _ w1] exI [of _ "[]"]) simp
    next
      case got
      note t = sys_recv_took(1) [OF r [unfolded got(1)]]
      let ?m = "n - length xs" and ?e = "if e + length xs = length b then 0 else e + length xs"
      have f: "length (ring_bytes b s e) + length xs < length b" "e + length xs \<le> length b"
        "wrap \<or> e + length xs < length b" using less.prems t by auto
      from recv_step [OF less.prems(1,2) f] obtain b' where b': "put_at b (int e) xs = Some b'"
        "length b' = length b"
        "(mk_ring b s e)\<lparr>r_buf := Some b', r_end := if wrap \<and> int e + int (length xs) = int (length b) then 0
           else int e + int (length xs)\<rparr> = mk_ring b' s ?e"
        "ring_bytes b' s ?e = ring_bytes b s e @ xs" by blast
      have i: "int e + int (length xs) = int (e + length xs)" "int n - int (length xs) = int ?m"
        using t by auto
      have step: "recv_into wrap K (int e) (int n) (mk_ring b s e) w =
          recv_into wrap K (int (e + length xs)) (int ?m) (mk_ring b' s ?e) w1"
        using b'(3) got(2)
        by (simp only: unf got(1) sum.case if_False simp_thms mk_ring_sel bind.simps b'(1) Let_def i)
      show ?thesis
      proof (cases "?m = 0")
        case True
        have "?e < length b" using f(2) less.prems(1) by auto
        moreover have "recv_into wrap K (int (e + length xs)) (int ?m) (mk_ring b' s ?e) w1 =
            Some (None, mk_ring b' s ?e, w1)"
          by (simp only: True semiring_1_class.of_nat_0 recv_into_0)
        moreover have "length xs = n" using True t by simp
        ultimately show ?thesis using step b' t t1
          by (intro exI [of _ None] exI [of _ b'] exI [of _ ?e] exI [of _ w1] exI [of _ xs]) simp
      next
        case False
        have e: "?e = e + length xs" "?e < length b'" "?m < n"
          using False less.prems(4) b'(2) got(2) by auto
        have p: "s < length b'" "length (ring_bytes b' s ?e) + ?m < length b'" "?e + ?m \<le> length b'"
          "wrap \<or> ?e + ?m < length b'" "?e + ?m = e + n"
          using less.prems b'(2,4) t e by (auto simp: b'(4))
        from less.IH [OF e(3) p(1) e(2) p(2-4), of w1] obtain ret c e2 w2 ys where ih:
          "recv_into wrap K (int ?e) (int ?m) (mk_ring b' s ?e) w1 = Some (ret, mk_ring c s e2, w2)"
          "length c = length b'" "e2 < length b'" "ring_bytes c s e2 = ring_bytes b' s ?e @ ys"
          "took ys w1 w2" "clock w1 \<le> clock w2"
          "ret = None \<longrightarrow> e2 = (if ?e + ?m = length b' then 0 else ?e + ?m) \<and> length ys = ?m \<or>
             (\<exists>t a. t < clock w2 \<and> k_recv K t = RecvData a [])"
          by (elim exE conjE) blast
        have "recv_into wrap K (int e) (int n) (mk_ring b s e) w = Some (ret, mk_ring c s e2, w2)"
          using ih(1) unfolding step by (simp only: e(1))
        moreover have "ring_bytes c s e2 = ring_bytes b s e @ xs @ ys" by (simp add: ih(4) b'(4))
        moreover have "length xs + ?m = n" using t by simp
        then have "ret = None \<longrightarrow> e2 = (if e + n = length b then 0 else e + n) \<and> length (xs @ ys) = n \<or>
             (\<exists>t a. t < clock w2 \<and> k_recv K t = RecvData a [])"
          using ih(7) unfolding p(5) b'(2) by (metis length_append)
        moreover have "took (xs @ ys) w w2" using took_trans t ih(5) by blast
        ultimately show ?thesis using ih(2,3,6) b'(2) t1
          by (intro exI [of _ ret] exI [of _ c] exI [of _ e2] exI [of _ w2] exI [of _ "xs @ ys"]) simp
      qed
    qed
  qed
qed


text \<open>The state of the receiving side.\<close>

definition recv_ok :: "sock_state \<Rightarrow> bool" where
  "recv_ok s \<longleftrightarrow> ring_ok (m_recv (fst s))"

abbreviation recv_data :: "sock_state \<Rightarrow> byte list" where
  "recv_data s \<equiv> ring_data (m_recv (fst s))"

lemma recv_into_result:
  assumes "s < length b" "e < length b" "length (ring_bytes b s e) + n < length b" "e + n \<le> length b"
    "length b < 2 ^ 31"
  shows "\<exists>ret r w' xs. recv_into True K (int e) (int n) (mk_ring b s e) w = Some (ret, r, w') \<and>
    ring_ok r \<and> r_size r = int (length b) \<and> ring_data r = ring_bytes b s e @ xs \<and> took xs w w'"
proof -
  from recv_into_ok [OF assms(1-4), of True K w] obtain ret b' e' w' xs where
    "recv_into True K (int e) (int n) (mk_ring b s e) w = Some (ret, mk_ring b' s e', w')"
    "length b' = length b" "e' < length b" "ring_bytes b' s e' = ring_bytes b s e @ xs" "took xs w w'"
    by blast
  then show ?thesis using assms by (fastforce simp: ring_ok_mk)
qed

text \<open>
  \<open>ReadFromNetworkToBuffer\<close> never leaves the block, and what it takes out of the connection is
  appended to what the buffer holds.
\<close>

lemma ReadFromNetworkToBuffer_ok:
  assumes "recv_ok s"
  shows "\<exists>ok s' xs. ReadFromNetworkToBuffer K s = Some (ok, s') \<and> recv_ok s' \<and>
    recv_data s' = recv_data s @ xs \<and> took xs (snd s) (snd s') \<and>
    r_size (m_recv (fst s')) = r_size (m_recv (fst s)) \<and>
    fst s' = (fst s)\<lparr>m_recv := m_recv (fst s')\<rparr>"
proof -
  obtain b st e where r: "m_recv (fst s) = mk_ring b st e" "length b < 2 ^ 31" "st < length b" "e < length b"
    using ring_ok_cases [OF assms [unfolded recv_ok_def]] by blast
  have ne: "(int e = int (length b)) = False" using r(4) by simp
  note unf = ReadFromNetworkToBuffer_def r(1) mk_ring_sel Let_def ne if_False
  have run: ?thesis if "ReadFromNetworkToBuffer K s = do {
        (ret, r3, w1) \<leftarrow> recv_into True K (int e') (int n) (mk_ring b s' e') (snd s);
        Some (case ret of None \<Rightarrow> True | Some b \<Rightarrow> b, (fst s)\<lparr>m_recv := r3\<rparr>, w1) }"
      "s' < length b" "e' < length b" "length (ring_bytes b s' e') + n < length b" "e' + n \<le> length b"
      "ring_bytes b s' e' = ring_bytes b st e" for s' e' n
    using recv_into_result [OF that(2-5) r(2), of K "snd s"] that(1,6) r(1)
    by (auto simp: recv_ok_def)
  consider (apart) "st < e" | (wrapped) "e < st" | (empty) "st = e" by linarith
  then show ?thesis
  proof cases
    case apart
    let ?n = "length b - e - (if st = 0 then 1 else 0)"
    have i: "int (length b) - int e - (if int st = 0 then 1 else 0) = int ?n" using r(4) by auto
    have c: "(int st < int e) = True" using apart by simp
    show ?thesis
      by (rule run [of e ?n st]) (use apart r in \<open>simp_all only: unf c if_True prod.case i\<close>,
          use apart r in \<open>auto simp: length_ring_bytes\<close>)
  next
    case wrapped
    let ?n = "st - e - 1"
    have i: "int st - int e - 1 = int ?n" using wrapped by simp
    have c: "(int st < int e) = False" "(int e < int st) = True" using wrapped by simp_all
    show ?thesis
      by (rule run [of e ?n st]) (use wrapped r in \<open>simp_all only: unf c if_True if_False prod.case i\<close>,
          use wrapped r in \<open>auto simp: length_ring_bytes\<close>)
  next
    case empty
    let ?n = "length b - 1"
    have i: "int (length b) - 1 = int ?n" using r(3) by simp
    have c: "(int e < int e) = False" by simp
    have m: "(mk_ring b e e)\<lparr>r_start := 0, r_end := 0\<rparr> = mk_ring b 0 0" by (simp add: mk_ring_def)
    show ?thesis
      by (rule run [of 0 ?n 0]) (use empty r in \<open>simp_all only: unf c if_False prod.case i m semiring_1_class.of_nat_0\<close>,
          use empty r in \<open>auto simp: ring_bytes_def\<close>)
  qed
qed


text \<open>
  The overload with two receive loops relies on the end of a stream being final: otherwise, as on a
  datagram socket, bytes that come after an empty read are stored in the wrong place.
\<close>

definition eof_final :: "kernel \<Rightarrow> bool" where
  "eof_final K \<longleftrightarrow> (\<forall>t a u. k_recv K t = RecvData a [] \<longrightarrow> t \<le> u \<longrightarrow> (\<exists>a'. k_recv K u = RecvData a' []))"

lemma recv_into_eof:
  assumes "eof_final K" "k_recv K t = RecvData a []" "t < clock w"
  shows "\<exists>w'. recv_into wrap K ptr n r w = Some (None, r, w') \<and> took [] w w'"
proof -
  obtain a' where "k_recv K (clock w) = RecvData a' []"
    using assms unfolding eof_final_def by (meson less_imp_le)
  then have "sys_recv K m w = (Inr [], tick w)" for m by (simp add: sys_recv_def)
  then show ?thesis by (simp add: recv_into.simps [of wrap K ptr n r w] took_def)
qed

lemma recv_into_twice:
  assumes "s < length b" "e < length b" "length (ring_bytes b s e) + (m + k) < length b" "length b < 2 ^ 31"
    "e + m \<le> length b" "k = 0 \<or> e + m = length b" "eof_final K"
  shows "\<exists>ok r w' xs. do {
      (ret, r3, w1) \<leftarrow> recv_into True K (int e) (int m) (mk_ring b s e) w;
      case ret of Some ok \<Rightarrow> Some (ok, c\<lparr>m_recv := r3\<rparr>, w1)
      | None \<Rightarrow> do {
          (ret2, r4, w2) \<leftarrow> recv_into False K 0 (int k) r3 w1;
          Some (case ret2 of None \<Rightarrow> True | Some ok \<Rightarrow> ok, c\<lparr>m_recv := r4\<rparr>, w2) } } =
      Some (ok, c\<lparr>m_recv := r\<rparr>, w') \<and>
    ring_ok r \<and> r_size r = int (length b) \<and> ring_data r = ring_bytes b s e @ xs \<and> took xs w w'"
    (is "\<exists>ok r w' xs. ?run = _ \<and> _")
proof -
  have "length (ring_bytes b s e) + m < length b" using assms(3) by simp
  from recv_into_ok [OF assms(1,2) this assms(5) disjI1 [OF TrueI], of K w] obtain ret b' e' w1 xs where
    1: "recv_into True K (int e) (int m) (mk_ring b s e) w = Some (ret, mk_ring b' s e', w1)"
    "length b' = length b" "e' < length b" "ring_bytes b' s e' = ring_bytes b s e @ xs" "took xs w w1"
    "ret = None \<longrightarrow> e' = (if e + m = length b then 0 else e + m) \<and> length xs = m \<or>
       (\<exists>t a. t < clock w1 \<and> k_recv K t = RecvData a [])" by (elim exE conjE) blast
  have ok: "ring_ok (mk_ring b' s e')" using 1(2,3) assms(1,4) by (simp add: ring_ok_mk)
  show ?thesis
  proof (cases ret)
    case (Some x)
    then have "?run = Some (x, c\<lparr>m_recv := mk_ring b' s e'\<rparr>, w1)" by (simp add: 1(1))
    then show ?thesis using 1 ok by (metis mk_ring_sel(2) ring_data_mk)
  next
    case None
    have run: "?run = do { (ret2, r4, w2) \<leftarrow> recv_into False K 0 (int k) (mk_ring b' s e') w1;
        Some (case ret2 of None \<Rightarrow> True | Some ok \<Rightarrow> ok, c\<lparr>m_recv := r4\<rparr>, w2) }"
      by (simp add: 1(1) None)
    have stop: ?thesis if "recv_into False K 0 (int k) (mk_ring b' s e') w1 = Some (None, mk_ring b' s e', w2)"
        "took [] w1 w2" for w2
    proof -
      have "?run = Some (True, c\<lparr>m_recv := mk_ring b' s e'\<rparr>, w2)" by (simp add: run that(1))
      moreover have "took xs w w2" using took_trans [OF 1(5) that(2)] by simp
      ultimately show ?thesis using 1(2,4) ok by (metis mk_ring_sel(2) ring_data_mk)
    qed
    consider (eof) t a where "t < clock w1" "k_recv K t = RecvData a []" | (none) "k = 0"
      | (more) "0 < k" "e' = 0" "length xs = m"
      using 1(6) None assms(6) by (metis gr0I)
    then show ?thesis
    proof cases
      case eof
      from recv_into_eof [OF assms(7) eof(2,1)] show ?thesis using stop by blast
    next
      case none
      then show ?thesis using stop [of w1] recv_into_0 by simp
    next
      case more
      have p: "s < length b'" "(0 :: nat) < length b'" "length (ring_bytes b' s 0) + k < length b'"
        "0 + k \<le> length b'" "False \<or> 0 + k < length b'"
        using assms 1 more by auto
      from recv_into_ok [OF p, of K w1] obtain ret2 b2 e2 w2 ys where
        2: "recv_into False K (int 0) (int k) (mk_ring b' s 0) w1 = Some (ret2, mk_ring b2 s e2, w2)"
        "length b2 = length b'" "e2 < length b'" "ring_bytes b2 s e2 = ring_bytes b' s 0 @ ys" "took ys w1 w2"
        by (elim exE conjE) blast
      have "?run = Some (case ret2 of None \<Rightarrow> True | Some ok \<Rightarrow> ok, c\<lparr>m_recv := mk_ring b2 s e2\<rparr>, w2)"
        using 2(1) by (simp add: run more(2))
      moreover have "ring_ok (mk_ring b2 s e2)" "r_size (mk_ring b2 s e2) = int (length b)"
        "ring_data (mk_ring b2 s e2) = ring_bytes b s e @ xs @ ys"
        using 1 2 assms more by (simp_all add: ring_ok_mk)
      ultimately show ?thesis using took_trans [OF 1(5) 2(5)] by metis
    qed
  qed
qed

lemma ReadFromNetworkToBuffer_max_ok:
  assumes "recv_ok s" "eof_final K" "ring_accepts H n (m_recv (fst s))" "n < 2 ^ 31"
  shows "\<exists>ok s' xs. ReadFromNetworkToBuffer_max H K (int n) s = Some (ok, s') \<and> recv_ok s' \<and>
    recv_data s' = recv_data s @ xs \<and> took xs (snd s) (snd s')"
proof -
  obtain r where r: "ring_prepare H n (m_recv (fst s)) = Some (True, r)" "ring_ok r"
    "ring_data r = recv_data s" "int (length (recv_data s) + n) < r_size r"
    using ring_prepare_ok [OF assms(1) [unfolded recv_ok_def] assms(3)] by blast
  obtain b st e where b: "r = mk_ring b st e" "length b < 2 ^ 31" "st < length b" "e < length b"
    using ring_ok_cases [OF r(2)] by blast
  let ?c = "(fst s)\<lparr>m_recv := mk_ring b st e\<rparr>"
  have room: "length (ring_bytes b st e) + n < length b" using r(3,4) by (simp add: b(1))
  have p: "nat (int n mod 2 ^ 64) = n" using assms(4) by simp
  have ne: "(int e = int (length b)) = False" using b(4) by simp
  have sel: "m_recv ((fst s)\<lparr>m_recv := r1\<rparr>) = r1" "(fst s)\<lparr>m_recv := r1, m_recv := r2\<rparr> = (fst s)\<lparr>m_recv := r2\<rparr>"
    for r1 r2 by simp_all
  note unf = ReadFromNetworkToBuffer_max_def p PrepareRecvBuffer_def r(1) b(1) bind.simps prod.case
    sel mk_ring_sel Let_def ne simp_thms if_False
  have run: ?thesis if "ReadFromNetworkToBuffer_max H K (int n) s = do {
        (ret, r3, w1) \<leftarrow> recv_into True K (int e') (int m) (mk_ring b s' e') (snd s);
        case ret of Some ok \<Rightarrow> Some (ok, ?c\<lparr>m_recv := r3\<rparr>, w1)
        | None \<Rightarrow> do {
            (ret2, r4, w2) \<leftarrow> recv_into False K 0 (int k) r3 w1;
            Some (case ret2 of None \<Rightarrow> True | Some ok \<Rightarrow> ok, ?c\<lparr>m_recv := r4\<rparr>, w2) } }"
      "s' < length b" "e' < length b" "m + k = n" "e' + m \<le> length b" "k = 0 \<or> e' + m = length b"
      "ring_bytes b s' e' = ring_bytes b st e" for s' e' m k
  proof -
    have "length (ring_bytes b s' e') + (m + k) < length b" using room that by simp
    from recv_into_twice [OF that(2,3) this b(2) that(5,6) assms(2), of "snd s" ?c] that(1,7)
    show ?thesis using r(3) by (auto simp: recv_ok_def b(1))
  qed
  consider (apart) "st < e" | (wrapped) "e < st" | (empty) "st = e" by linarith
  then show ?thesis
  proof cases
    case apart
    define m where "m = length b - e - (if st = 0 then 1 else 0)"
    have i: "int (length b) - int e - (if int st = 0 then 1 else 0) = int m" using b(4) by (auto simp: m_def)
    have c: "(int st < int e) = True" using apart by simp
    have u: "e - st + n < length b" using room apart b by (simp add: length_ring_bytes)
    have m: "e + m \<le> length b" using b(4) by (simp add: m_def)
    show ?thesis
    proof (cases "n < m")
      case True
      have c2: "(int n < int m) = True" using True by simp
      have "ReadFromNetworkToBuffer_max H K (int n) s = do {
        (ret, r3, w1) \<leftarrow> recv_into True K (int e) (int n) (mk_ring b st e) (snd s);
        case ret of Some ok \<Rightarrow> Some (ok, ?c\<lparr>m_recv := r3\<rparr>, w1)
        | None \<Rightarrow> do {
            (ret2, r4, w2) \<leftarrow> recv_into False K 0 (int 0) r3 w1;
            Some (case ret2 of None \<Rightarrow> True | Some ok \<Rightarrow> ok, ?c\<lparr>m_recv := r4\<rparr>, w2) } }"
        by (simp only: unf c c2 if_True i semiring_1_class.of_nat_0)
      from run [OF this b(3,4)] True m show ?thesis by simp
    next
      case False
      then obtain k where n: "n = m + k" using le_Suc_ex by fastforce
      have c2: "(int n < int m) = False" "int n - int m = int k" using n by auto
      have k: "k = 0 \<or> e + m = length b" using n u apart b(4) by (auto simp: m_def)
      have "ReadFromNetworkToBuffer_max H K (int n) s = do {
        (ret, r3, w1) \<leftarrow> recv_into True K (int e) (int m) (mk_ring b st e) (snd s);
        case ret of Some ok \<Rightarrow> Some (ok, ?c\<lparr>m_recv := r3\<rparr>, w1)
        | None \<Rightarrow> do {
            (ret2, r4, w2) \<leftarrow> recv_into False K 0 (int k) r3 w1;
            Some (case ret2 of None \<Rightarrow> True | Some ok \<Rightarrow> ok, ?c\<lparr>m_recv := r4\<rparr>, w2) } }"
        by (simp only: unf c c2 if_True i)
      from run [OF this b(3,4) n [symmetric] m k refl] show ?thesis .
    qed
  next
    case wrapped
    have c: "(int st < int e) = False" "(int e < int st) = True" using wrapped by simp_all
    have u: "e + n \<le> length b" using room wrapped b by (simp add: length_ring_bytes)
    show ?thesis
      by (rule run [of e n st 0]) (use wrapped b in \<open>simp_all only: unf c if_True semiring_1_class.of_nat_0\<close>,
          use wrapped b u in auto)
  next
    case empty
    have c: "(int e < int e) = False" by simp
    have m: "(mk_ring b e e)\<lparr>r_start := 0, r_end := 0\<rparr> = mk_ring b 0 0" by (simp add: mk_ring_def)
    show ?thesis
      by (rule run [of 0 n 0 0]) (use empty b in \<open>simp_all only: unf c m semiring_1_class.of_nat_0\<close>,
          use empty b room in \<open>auto simp: ring_bytes_def\<close>)
  qed
qed


text \<open>\<open>ReadN\<close> hands out the oldest bytes, or none.\<close>

lemma ReadN_ok:
  assumes "recv_ok s" "0 \<le> n"
  shows "if recv_data s \<noteq> [] \<and> n \<le> int (length (recv_data s))
    then \<exists>s'. ReadN n s = Some ((True, Some n, take (nat n) (recv_data s)), s') \<and> recv_ok s' \<and>
           recv_data s' = drop (nat n) (recv_data s) \<and> snd s' = snd s
    else ReadN n s = Some ((False, None, []), s)"
proof -
  note g = ring_get_ok [OF assms(1) [unfolded recv_ok_def] assms(2)]
  have u: "(fst s)\<lparr>m_recv := m_recv (fst s)\<rparr> = fst s" by simp
  show ?thesis
  proof (cases "recv_data s \<noteq> [] \<and> n \<le> int (length (recv_data s))")
    case True
    then obtain r' where "ring_get n (m_recv (fst s)) = Some ((True, Some (take (nat n) (recv_data s))), r')"
      "ring_ok r'" "ring_data r' = drop (nat n) (recv_data s)" using g by (auto split: if_splits)
    then show ?thesis using True by (auto simp: ReadN_def recv_ok_def)
  next
    case False
    then have "ring_get n (m_recv (fst s)) = Some ((False, None), m_recv (fst s))" using g by metis
    then show ?thesis using False by (auto simp: ReadN_def u)
  qed
qed

text \<open>
  What an application does with a socket it reads from: it fills the buffer and takes bytes out of
  it, in any order.  The list collects the bytes it got.
\<close>

inductive reads :: "kernel \<Rightarrow> sock_state \<Rightarrow> byte list \<Rightarrow> sock_state \<Rightarrow> bool" for K s where
  start: "reads K s [] s"
| fill: "reads K s xs t \<Longrightarrow> ReadFromNetworkToBuffer K t = Some (ok, u) \<Longrightarrow> reads K s xs u"
| take: "reads K s xs t \<Longrightarrow> 0 \<le> n \<Longrightarrow> ReadN n t = Some ((True, k, bs), u) \<Longrightarrow> reads K s (xs @ bs) u"
| refused: "reads K s xs t \<Longrightarrow> 0 \<le> n \<Longrightarrow> ReadN n t = Some ((False, k, bs), u) \<Longrightarrow> reads K s xs u"

lemma reads_in_order:
  assumes "reads K s xs t" "recv_ok s"
  shows "recv_ok t \<and> (\<exists>ys. took ys (snd s) (snd t) \<and> recv_data s @ ys = xs @ recv_data t)"
  using assms
proof (induction rule: reads.induct)
  case start
  then show ?case by (auto intro: exI [of _ "[]"])
next
  case (fill xs t ok u)
  then obtain ys where ys: "recv_ok t" "took ys (snd s) (snd t)" "recv_data s @ ys = xs @ recv_data t" by blast
  from ReadFromNetworkToBuffer_ok [OF ys(1), of K] fill(2) obtain zs where
    "recv_ok u" "recv_data u = recv_data t @ zs" "took zs (snd t) (snd u)" by auto
  then show ?case using took_trans [OF ys(2)] ys(3) by (metis append_assoc)
next
  case (take xs t n k bs u)
  then obtain ys where ys: "recv_ok t" "took ys (snd s) (snd t)" "recv_data s @ ys = xs @ recv_data t" by blast
  from ReadN_ok [OF ys(1) take(2)] take(3) have "recv_ok u" "recv_data t = bs @ recv_data u" "snd u = snd t"
    by (auto split: if_splits)
  then show ?case using ys by (metis append_assoc)
next
  case (refused xs t n k bs u)
  then show ?case using ReadN_ok [of t n] by (auto split: if_splits)
qed

text \<open>The buffer and the timed reads as sources of bytes.\<close>

lemma get_at_length: "get_at b i n = Some xs \<Longrightarrow> int (length xs) = n"
  by (auto simp: get_at_def slice_of_def split: if_splits)

lemma ring_get_length:
  assumes "ring_get n r = Some ((True, Some xs), r')"
  shows "int (length xs) = n"
  using assms unfolding ring_get_def
  by (auto simp: Let_def dest!: get_at_length split: bind_splits if_splits)

interpretation buffered: byte_source ReadN
  "\<lambda>s bs s'. recv_ok s \<longrightarrow> recv_ok s' \<and> recv_data s = bs @ recv_data s' \<and> snd s' = snd s"
proof
  fix n s bs s'
  assume a: "ReadN n s = Some ((True, Some n, bs), s')" "0 \<le> n"
  then have "int (length bs) = n"
    by (auto simp: ReadN_def dest!: ring_get_length split: bind_splits option.splits)
  moreover have "recv_ok s' \<and> recv_data s = bs @ recv_data s' \<and> snd s' = snd s" if "recv_ok s"
    using ReadN_ok [OF that a(2)] a(1) by (auto split: if_splits)
  ultimately show "int (length bs) = n \<and>
    (recv_ok s \<longrightarrow> recv_ok s' \<and> recv_data s = bs @ recv_data s' \<and> snd s' = snd s)" by blast
qed

interpretation read_timed: byte_source "ReadNWithTimeOut K" "\<lambda>s bs s'. took bs (snd s) (snd s')" for K
  by unfold_locales (auto simp: ReadNWithTimeOut_def split: bind_splits dest!: read_n_timed_success)

interpretation write_timed: byte_sink "WriteNWithTimeOut K" "\<lambda>s bs s'. gave bs (snd s) (snd s')" for K
  by unfold_locales (auto simp: WriteNWithTimeOut_def split: bind_splits dest!: write_n_timed_success)

text \<open>An integer whose image comes next is read.\<close>

lemma recv_image_ReadN:
  assumes "recv_ok s" "recv_data s = bs @ rest" "bs \<noteq> []"
  shows "\<exists>s'. recv_image (length bs) ReadN s = Some (Some bs, s') \<and> recv_ok s' \<and> recv_data s' = rest"
proof -
  have "recv_data s \<noteq> [] \<and> int (length bs) \<le> int (length (recv_data s))" using assms(2,3) by simp
  then obtain s' where "ReadN (int (length bs)) s = Some ((True, Some (int (length bs)), bs), s')"
    "recv_ok s'" "recv_data s' = rest"
    using ReadN_ok [OF assms(1), of "int (length bs)"] assms(2) by (auto split: if_splits)
  then show ?thesis by (simp add: recv_image_def)
qed

lemma recv_int_ReadN:
  assumes "recv_ok s" "recv_data s = be_image (v :: 'a::len word) @ rest" "8 dvd LENGTH('a)"
  shows "\<exists>s'. recv_int e ReadN s = Some (Some v, s') \<and> recv_ok s' \<and> recv_data s' = rest"
proof -
  have l: "length (be_image v) * 8 = LENGTH('a)" using assms(3) by simp
  then have "be_image v \<noteq> []" by (metis len_not_eq_0 list.size(3) mult_zero_left)
  from recv_image_ReadN [OF assms(1,2) this] obtain s' where
    s': "recv_image (LENGTH('a) div 8) ReadN s = Some (Some (be_image v), s')" "recv_ok s'" "recv_data s' = rest"
    by auto
  have "ntoh e (mem_load e (be_image v) :: 'a word) = v"
    using ntoh_mem_load [OF l] of_be_be_image [OF assms(3), of v] by simp
  then show ?thesis using s' by (simp add: recv_int_def)
qed

lemma recv_int64_ReadN:
  assumes "recv_ok s" "recv_data s = be_image v @ rest"
  shows "\<exists>s'. recv_int64 e ReadN s = Some (Some v, s') \<and> recv_ok s' \<and> recv_data s' = rest"
proof -
  have "length (be_image v) = 8" by simp
  then have "be_image v \<noteq> []" by (metis list.size(3) zero_neq_numeral)
  then obtain s' where s': "recv_image 8 ReadN s = Some (Some (be_image v), s')" "recv_ok s'" "recv_data s' = rest"
    using recv_image_ReadN [OF assms] by auto
  then obtain w where w: "recv_int64 e ReadN s = Some (Some w, s')" by (simp add: recv_int64_def)
  have "be_image w = be_image v"
    using buffered.recv_int64_taken [OF w] assms s'(3) by auto
  then have "w = v" by (metis of_be_be_image dvd_widths(3))
  then show ?thesis using w s' by simp
qed

end
