(* ===== verification/Socket_Send.thy ===== *)
theory Socket_Send
  imports Ci_Socket
begin

text \<open>
  The sending side of \<open>CCiSocket\<close>: what \<open>WriteN\<close> and its helpers promise, integers written and
  read back, the bound of \<open>WriteNFlush\<close>, and what \<open>Connect\<close> leaves behind; and the search for a
  text in the receive buffer.
\<close>

section \<open>The send buffer\<close>

definition send_ok :: "sock_state \<Rightarrow> bool" where
  "send_ok s \<longleftrightarrow> ring_ok (m_send (fst s))"

abbreviation send_data :: "sock_state \<Rightarrow> byte list" where
  "send_data s \<equiv> ring_data (m_send (fst s))"

text \<open>All that was handed to the socket: what is on the wire and what still waits.\<close>

definition outgoing :: "sock_state \<Rightarrow> byte list" where
  "outgoing s = outstream (snd s) @ send_data s"

lemma ring_used_ok: "ring_ok r \<Longrightarrow> ring_used r = int (length (ring_data r))"
  using ring_ok_cases ring_used_mk by fastforce

lemma WriteNToBuffer_ring_put:
  "WriteNToBuffer H bs c = map_option (\<lambda>((st, n), r). ((st, map_option int n), c\<lparr>m_send := r\<rparr>))
     (ring_put H bs (m_send c))"
proof -
  have sel: "m_send (c\<lparr>m_send := r\<rparr>) = r" "c\<lparr>m_send := r, m_send := r2\<rparr> = c\<lparr>m_send := r2\<rparr>" for r r2
    by simp_all
  show ?thesis
  proof (cases "ring_prepare H (length bs) (m_send c)")
    case None
    then show ?thesis by (simp add: WriteNToBuffer_def PrepareSendBuffer_def ring_put_def)
  next
    case (Some p)
    obtain ok r where p: "p = (ok, r)" by fastforce
    then show ?thesis using Some
      by (cases ok; cases "ring_store bs r")
         (auto simp: WriteNToBuffer_def PrepareSendBuffer_def ring_put_def sel)
  qed
qed

text \<open>
  Room without growing is \<open>m\<close> bytes; \<open>send_room\<close> also allows a buffer that is not wrapped to grow.
\<close>

definition send_room :: "heap \<Rightarrow> nat \<Rightarrow> ring \<Rightarrow> bool" where
  "send_room H m r \<longleftrightarrow>
     int (length (ring_data r) + m) < r_size r \<or>
     r_start r \<le> r_end r \<and> length (ring_data r) + m + 1 < 2 ^ 31 \<and>
     (\<forall>j \<le> length (ring_data r) + m + 1. h_ok H j)"

lemma send_room_accepts: "send_room H m r \<Longrightarrow> n \<le> m \<Longrightarrow> ring_accepts H n r"
  by (auto simp: send_room_def ring_accepts_def)

lemma drain_0: "drain K ptr 0 r w = Some (True, r, w)"
  by (simp add: drain.simps [of K ptr 0])

lemma ring_bytes_sent:
  assumes "st < length b" "e < length b" "k \<le> (if st \<le> e then e - st else length b - st)"
  shows "ring_bytes b st e = take k (drop st b) @ ring_bytes b (if st + k = length b then 0 else st + k) e"
proof (cases "st \<le> e")
  case True
  then have k: "e - st = k + (e - (st + k))" "st + k \<noteq> length b" "st + k \<le> e" using assms by auto
  have "take (k + (e - (st + k))) (drop st b) = take k (drop st b) @ take (e - (st + k)) (drop (k + st) b)"
    by (simp only: take_add drop_drop)
  then have "take (e - st) (drop st b) = take k (drop st b) @ take (e - (st + k)) (drop (st + k) b)"
    using k(1) by (simp only: add.commute [of k st])
  then show ?thesis using True k(2,3) by (simp add: ring_bytes_def)
next
  case False
  have "drop st b = take k (drop st b) @ drop (st + k) b"
    by (metis append_take_drop_id drop_drop add.commute)
  then show ?thesis using False assms by (auto simp: ring_bytes_def)
qed

lemma drain_ok:
  assumes "sends_progress K" "st < length b" "e < length b" "n = (if st \<le> e then e - st else length b - st)"
  shows "\<exists>ok st' w' xs. drain K (int st) (int n) (mk_ring b st e) w = Some (ok, mk_ring b st' e, w') \<and>
    st' < length b \<and> ring_bytes b st e = xs @ ring_bytes b st' e \<and> gave xs w w' \<and> (st \<le> e \<longrightarrow> st' \<le> e)"
  using assms(2-4)
proof (induction n arbitrary: st w rule: less_induct)
  case (less n)
  show ?case
  proof (cases "n = 0")
    case True
    then show ?thesis using less.prems drain_0
      by (intro exI [of _ True] exI [of _ st] exI [of _ w] exI [of _ "[]"]) simp
  next
    case n: False
    let ?xs = "take n (drop st b)"
    have fit: "st + n \<le> length b" using less.prems by auto
    have l: "length ?xs = n" using fit by simp
    obtain r w1 where r: "sys_send K ?xs w = (r, w1)" by fastforce
    have g: "get_at b (int st) (int n) = Some ?xs" using fit by (simp add: slice_of_Some)
    have c: "(int n \<le> 0) = False" using n by simp
    note unf = drain.simps [of K "int st" "int n" "mk_ring b st e" w] c mk_ring_sel g r if_False bind.simps prod.case
    show ?thesis
    proof (cases r)
      case (Inl er)
      have "drain K (int st) (int n) (mk_ring b st e) w = Some (er = CI_EWOULDBLOCK, mk_ring b st e, w1)"
        by (simp only: unf Inl sum.case)
      then show ?thesis using less.prems sys_send_gave(2) [OF r [unfolded Inl]]
        by (intro exI [of _ "er = CI_EWOULDBLOCK"] exI [of _ st] exI [of _ w1] exI [of _ "[]"]) simp
    next
      case (Inr k)
      have k: "0 < k" "k \<le> n" "gave (take k ?xs) w w1"
        using sys_send_gave(1) [OF r [unfolded Inr]] sys_send_progress [OF assms(1) r [unfolded Inr]] n l
        by (auto simp del: take_take)
      let ?st = "if st + k = length b then 0 else st + k"
      have i: "int st + int k = int (st + k)" "int n - int k = int (n - k)" using k by auto
      have m: "(mk_ring b st e)\<lparr>r_start := if int (st + k) = int (length b) then 0 else int (st + k)\<rparr> =
          mk_ring b ?st e"
        by (simp only: of_nat_eq_iff) (simp add: mk_ring_def)
      have step: "drain K (int st) (int n) (mk_ring b st e) w =
          drain K (int (st + k)) (int (n - k)) (mk_ring b ?st e) w1"
        by (simp only: unf Inr sum.case i m)
      have "take k ?xs = take k (drop st b)" using k(2) by (simp add: min_def)
      then have data: "ring_bytes b st e = take k ?xs @ ring_bytes b ?st e"
        using ring_bytes_sent [OF less.prems(1,2), of k] k(2) less.prems(3) by simp
      have st: "?st < length b" "st \<le> e \<longrightarrow> ?st \<le> e"
        using fit k(2) less.prems by (auto split: if_splits)
      show ?thesis
      proof (cases "n - k = 0")
        case True
        have "drain K (int st) (int n) (mk_ring b st e) w = Some (True, mk_ring b ?st e, w1)"
          unfolding step True by (simp only: semiring_1_class.of_nat_0 drain_0)
        then show ?thesis using data k(3) st
          by (intro exI [of _ True] exI [of _ ?st] exI [of _ w1] exI [of _ "take k ?xs"]) (simp only: simp_thms)
      next
        case False
        have p: "?st = st + k" "n - k < n" "?st < length b"
          "n - k = (if ?st \<le> e then e - ?st else length b - ?st)"
          using False k less.prems by (auto split: if_splits)
        from less.IH [OF p(2,3) less.prems(2) p(4), of w1] obtain ok st' w' ys where ih:
          "drain K (int ?st) (int (n - k)) (mk_ring b ?st e) w1 = Some (ok, mk_ring b st' e, w')"
          "st' < length b" "ring_bytes b ?st e = ys @ ring_bytes b st' e" "gave ys w1 w'"
          "?st \<le> e \<longrightarrow> st' \<le> e" by (elim exE conjE) blast
        have "drain K (int st) (int n) (mk_ring b st e) w = Some (ok, mk_ring b st' e, w')"
          using ih(1) unfolding step by (simp only: p(1))
        moreover have "st \<le> e \<longrightarrow> st' \<le> e" using ih(5) st(2) by blast
        ultimately show ?thesis using data ih gave_trans [OF k(3) ih(4)]
          by (intro exI [of _ ok] exI [of _ st'] exI [of _ w'] exI [of _ "take k ?xs @ ys"]) simp
      qed
    qed
  qed
qed


lemma WriteFromBufferToNetwork_ok:
  assumes "sends_progress K" "send_ok s"
  shows "\<exists>ok s' xs. WriteFromBufferToNetwork K s = Some (ok, s') \<and> send_ok s' \<and>
    send_data s = xs @ send_data s' \<and> gave xs (snd s) (snd s') \<and>
    r_size (m_send (fst s')) = r_size (m_send (fst s)) \<and>
    (r_start (m_send (fst s)) \<le> r_end (m_send (fst s)) \<longrightarrow> r_start (m_send (fst s')) \<le> r_end (m_send (fst s')))
    \<and> (fst s' = (fst s)\<lparr>m_send := m_send (fst s')\<rparr>)"
proof -
  obtain b st e where r: "m_send (fst s) = mk_ring b st e" "length b < 2 ^ 31" "st < length b" "e < length b"
    using ring_ok_cases [OF assms(2) [unfolded send_ok_def]] by blast
  have used: "ring_used (mk_ring b st e) = int (length (ring_bytes b st e))" using ring_used_mk r by simp
  show ?thesis
  proof (cases "st = e")
    case True
    then have "WriteFromBufferToNetwork K s = Some (True, s)"
      using r used by (simp add: WriteFromBufferToNetwork_def GetRemainSendDataSize_def ring_bytes_def)
    then show ?thesis using assms(2) by (intro exI [of _ True] exI [of _ s] exI [of _ "[]"]) simp
  next
    case False
    let ?n = "if st \<le> e then e - st else length b - st"
    have i: "(if int e > int st then int e - int st else if int e < int st then int (length b) - int st else 0) = int ?n"
      using False r(3) by auto
    have ne: "(int (length (ring_bytes b st e)) = 0) = False"
      using False r by (auto simp: length_ring_bytes)
    from drain_ok [OF assms(1) r(3,4) refl, of "snd s"] obtain ok st' w' xs where d:
      "drain K (int st) (int ?n) (mk_ring b st e) (snd s) = Some (ok, mk_ring b st' e, w')"
      "st' < length b" "ring_bytes b st e = xs @ ring_bytes b st' e" "gave xs (snd s) w'" "st \<le> e \<longrightarrow> st' \<le> e"
      by (elim exE conjE) blast
    have "WriteFromBufferToNetwork K s = Some (ok, (fst s)\<lparr>m_send := mk_ring b st' e\<rparr>, w')"
      by (simp only: WriteFromBufferToNetwork_def GetRemainSendDataSize_def r(1) used ne if_False Let_def
          mk_ring_sel i d(1) bind.simps prod.case)
    then show ?thesis using d r by (auto simp: send_ok_def ring_ok_mk)
  qed
qed

lemma WriteNToBuffer_ok:
  assumes "ring_ok (m_send c)" "ring_accepts H (length bs) (m_send c)"
  shows "\<exists>r. WriteNToBuffer H bs c = Some ((True, Some (int (length bs))), c\<lparr>m_send := r\<rparr>) \<and>
    ring_ok r \<and> ring_data r = ring_data (m_send c) @ bs"
  using ring_put_ok [OF assms] by (auto simp: WriteNToBuffer_ring_put)

text \<open>
  \<open>WriteN\<close>: whatever it returns, what it accepted is a prefix of the caller's bytes, in order behind
  everything accepted before; when it returns true, that is all of them.
\<close>

lemma WriteN_ok:
  assumes "sends_progress K" "send_ok s" "send_room H (length bs) (m_send (fst s))"
  shows "\<exists>ok n s' xs rest. WriteN H K bs s = Some ((ok, n), s') \<and> bs = xs @ rest \<and>
    send_ok s' \<and> outgoing s' = outgoing s @ xs \<and> instream (snd s') = instream (snd s) \<and>
    (ok \<longrightarrow> rest = [] \<and> n = Some (int (length bs)))"
proof -
  have flush: "\<exists>ok s1. (if GetRemainSendDataSize (fst s) > 0 then WriteFromBufferToNetwork K s
      else Some (True, s)) = Some (ok, s1) \<and> send_ok s1 \<and> outgoing s1 = outgoing s \<and>
      send_room H (length bs) (m_send (fst s1)) \<and> instream (snd s1) = instream (snd s)"
  proof (cases "GetRemainSendDataSize (fst s) > 0")
    case False
    then show ?thesis using assms by simp
  next
    case True
    obtain ok s1 xs where f: "WriteFromBufferToNetwork K s = Some (ok, s1)" "send_ok s1"
      "send_data s = xs @ send_data s1" "gave xs (snd s) (snd s1)"
      "r_size (m_send (fst s1)) = r_size (m_send (fst s))"
      "r_start (m_send (fst s)) \<le> r_end (m_send (fst s)) \<longrightarrow> r_start (m_send (fst s1)) \<le> r_end (m_send (fst s1))"
      using WriteFromBufferToNetwork_ok [OF assms(1,2)] by blast
    have "length (send_data s1) \<le> length (send_data s)" using f(3) by simp
    then have "send_room H (length bs) (m_send (fst s1))"
      using assms(3) f(5,6) unfolding send_room_def by auto
    moreover have "outgoing s1 = outgoing s" using f(3,4) by (simp add: outgoing_def gave_def)
    moreover have "instream (snd s1) = instream (snd s)" using f(4) by (simp add: gave_def)
    ultimately show ?thesis using True f(1,2) by simp
  qed
  then obtain ok s1 where s1: "(if GetRemainSendDataSize (fst s) > 0 then WriteFromBufferToNetwork K s
      else Some (True, s)) = Some (ok, s1)" "send_ok s1" "outgoing s1 = outgoing s"
    "send_room H (length bs) (m_send (fst s1))" "instream (snd s1) = instream (snd s)" by blast
  have put: "\<exists>r. WriteNToBuffer H rest (fst s1) = Some ((True, Some (int (length rest))), (fst s1)\<lparr>m_send := r\<rparr>) \<and>
      ring_ok r \<and> ring_data r = send_data s1 @ rest" if "length rest \<le> length bs" for rest
    using WriteNToBuffer_ok [of "fst s1" H rest] send_room_accepts [OF s1(4) that] s1(2)
    by (simp add: send_ok_def)
  note unf = WriteN_def s1(1) bind.simps prod.case
  show ?thesis
  proof (cases "ok \<and> GetRemainSendDataSize (fst s1) \<le> 0")
    case False
    then show ?thesis
    proof (cases ok)
      case True
      then have c: "(GetRemainSendDataSize (fst s1) > 0) = True" "(\<not> ok) = False" using False by auto
      obtain r where r: "WriteNToBuffer H bs (fst s1) =
          Some ((True, Some (int (length bs))), (fst s1)\<lparr>m_send := r\<rparr>)" "ring_ok r"
        "ring_data r = send_data s1 @ bs" using put [OF order_refl] by blast
      have "WriteN H K bs s = Some ((True, Some (int (length bs))), (fst s1)\<lparr>m_send := r\<rparr>, snd s1)"
        by (simp only: unf c if_True if_False r(1))
      moreover have "outgoing ((fst s1)\<lparr>m_send := r\<rparr>, snd s1) = outgoing s @ bs"
        using s1(3) r(3) by (simp add: outgoing_def)
      ultimately show ?thesis using r(2) s1(5)
        by (intro exI [of _ True] exI [of _ "Some (int (length bs))"] exI [of _ "((fst s1)\<lparr>m_send := r\<rparr>, snd s1)"]
            exI [of _ bs] exI [of _ "[]"]) (simp add: send_ok_def)
    next
      case False
      then show ?thesis using s1
        by (intro exI [of _ False] exI [of _ None] exI [of _ s1] exI [of _ "[]"] exI [of _ bs]) (simp add: unf)
    qed
  next
    case True
    then have c: "(GetRemainSendDataSize (fst s1) > 0) = False" "(\<not> ok) = False" by auto
    have empty: "send_data s1 = []"
      using True s1(2) ring_used_ok by (auto simp: GetRemainSendDataSize_def send_ok_def)
    obtain err rest w2 where l: "send_loop K bs (snd s1) = ((err, rest), w2)" by (metis surj_pair)
    from send_loop_gave [OF l] obtain xs where xs: "bs = xs @ rest" "gave xs (snd s1) w2"
      "err \<noteq> None \<longrightarrow> rest \<noteq> []" by blast
    have out: "outgoing (fst s1, w2) = outgoing s @ xs" "instream w2 = instream (snd s)"
      using s1(3,5) xs(2) empty by (simp_all add: outgoing_def gave_def)
    have same: "send_ok (fst s1, w2)" using s1(2) by (simp add: send_ok_def)
    note unf' = unf c if_True if_False l
    consider (sent) "err = None" | (block) "err = Some CI_EWOULDBLOCK"
      | (fail) er where "err = Some er" "er \<noteq> CI_EWOULDBLOCK" by (cases err) auto
    then show ?thesis
    proof cases
      case sent
      have "WriteN H K bs s = Some ((rest = [], Some (int (length bs) - int (length rest))), fst s1, w2)"
        by (simp only: unf' sent option.case)
      then show ?thesis using xs(1) out same
        by (intro exI [of _ "rest = []"] exI [of _ "Some (int (length bs) - int (length rest))"]
            exI [of _ "(fst s1, w2)"] exI [of _ xs] exI [of _ rest]) simp
    next
      case block
      obtain r where r: "WriteNToBuffer H rest (fst s1) =
          Some ((True, Some (int (length rest))), (fst s1)\<lparr>m_send := r\<rparr>)" "ring_ok r"
        "ring_data r = send_data s1 @ rest" using put [of rest] xs(1) by auto
      have "WriteN H K bs s = Some ((True, Some (int (length bs))), (fst s1)\<lparr>m_send := r\<rparr>, w2)"
        by (simp only: unf' block option.case r(1) simp_thms)
      moreover have "outgoing ((fst s1)\<lparr>m_send := r\<rparr>, w2) = outgoing s @ bs"
        using out(1) r(3) xs(1) empty by (simp add: outgoing_def)
      ultimately show ?thesis using r(2) out(2)
        by (intro exI [of _ True] exI [of _ "Some (int (length bs))"] exI [of _ "((fst s1)\<lparr>m_send := r\<rparr>, w2)"]
            exI [of _ bs] exI [of _ "[]"]) (simp add: send_ok_def)
    next
      case fail
      have "WriteN H K bs s = Some ((False, None), fst s1, w2)"
        by (simp only: unf' fail option.case simp_thms)
      then show ?thesis using xs(1) out same
        by (intro exI [of _ False] exI [of _ None] exI [of _ "(fst s1, w2)"] exI [of _ xs] exI [of _ rest]) simp
    qed
  qed
qed


section \<open>Integers from one host to another\<close>

interpretation buffered_out: byte_sink "WriteN H K"
  "\<lambda>s bs s'. sends_progress K \<and> send_ok s \<and> send_room H (length bs) (m_send (fst s)) \<longrightarrow>
     send_ok s' \<and> outgoing s' = outgoing s @ bs" for H K
proof
  fix bs s s'
  assume w: "WriteN H K bs s = Some ((True, Some (int (length bs))), s')"
  show "sends_progress K \<and> send_ok s \<and> send_room H (length bs) (m_send (fst s)) \<longrightarrow>
     send_ok s' \<and> outgoing s' = outgoing s @ bs"
    using WriteN_ok [of K s H bs] w by auto
qed

text \<open>Room for what a message needs, in a buffer that does not have to grow.\<close>

definition fits :: "nat \<Rightarrow> sock_state \<Rightarrow> bool" where
  "fits n s \<longleftrightarrow> int (length (send_data s) + n) < r_size (m_send (fst s))"

lemma fits_room: "fits n s \<Longrightarrow> m \<le> n \<Longrightarrow> send_room H m (m_send (fst s))"
  by (auto simp: fits_def send_room_def)

lemma WriteInt16_gave:
  assumes "WriteInt16 e H K v s = Some (True, s')" "sends_progress K" "send_ok s"
    "send_room H 2 (m_send (fst s))"
  shows "send_ok s' \<and> outgoing s' = outgoing s @ be_image v"
  using buffered_out.send_int_given [OF assms(1) [unfolded WriteInt16_def] dvd_widths(1)] assms(2-4) by simp

lemma WriteInt32_gave:
  assumes "WriteInt32 e H K v s = Some (True, s')" "sends_progress K" "send_ok s"
    "send_room H 4 (m_send (fst s))"
  shows "send_ok s' \<and> outgoing s' = outgoing s @ be_image v"
  using buffered_out.send_int_given [OF assms(1) [unfolded WriteInt32_def] dvd_widths(2)] assms(2-4) by simp

lemma WriteInt64_gave:
  assumes "WriteInt64 e H K v s = Some (True, s')" "sends_progress K" "send_ok s"
    "send_room H 8 (m_send (fst s))"
  shows "send_ok s' \<and> outgoing s' = outgoing s @ be_image v"
  using buffered_out.send_int64_given [OF assms(1) [unfolded WriteInt64_def]] assms(2-4) by simp

lemma ReadInt_takes:
  assumes "recv_ok t"
  shows "recv_data t = be_image v16 @ rest \<Longrightarrow>
      \<exists>t'. ReadInt16 e t = Some (Some v16, t') \<and> recv_ok t' \<and> recv_data t' = rest"
    "recv_data t = be_image v32 @ rest \<Longrightarrow>
      \<exists>t'. ReadInt32 e t = Some (Some v32, t') \<and> recv_ok t' \<and> recv_data t' = rest"
    "recv_data t = be_image v64 @ rest \<Longrightarrow>
      \<exists>t'. ReadInt64 e t = Some (Some v64, t') \<and> recv_ok t' \<and> recv_data t' = rest"
  using recv_int_ReadN [OF assms, where 'a = 16, OF _ dvd_widths(1)]
    recv_int_ReadN [OF assms, where 'a = 32, OF _ dvd_widths(2)] recv_int64_ReadN [OF assms]
  by (simp_all add: ReadInt16_def ReadInt32_def ReadInt64_def)

section \<open>The bound of WriteNFlush\<close>

text \<open>
  Each byte costs at most 3000 refusals and one success, the last refusal included.
\<close>

lemma flush_loop_returns:
  assumes "sends_progress K" "c \<le> 3000"
  shows "\<exists>ok rest w' xs. flush_loop K c bs w = Some ((ok, rest), w') \<and> bs = xs @ rest \<and> gave xs w w' \<and>
    (ok \<longrightarrow> rest = []) \<and>
    (if bs = [] then clock w' = clock w else clock w' + c \<le> clock w + 3001 * length bs)"
  using assms(2)
proof (induction "3001 * length bs - c" arbitrary: bs c w rule: less_induct)
  case less
  show ?case
  proof (cases "bs = []")
    case True
    then show ?thesis by (simp add: flush_loop.simps [of K c "[]"])
  next
    case False
    then have l: "3001 \<le> 3001 * length bs" by (cases bs) auto
    obtain r w1 where r: "sys_send K bs w = (r, w1)" by fastforce
    have t: "clock w1 = Suc (clock w)" using r by (auto simp: sys_send_def split: send_res.splits)
    note unf = flush_loop.simps [of K c bs w] r prod.case
    have result: ?thesis if "flush_loop K c bs w = Some ((ok, rest), w')" "bs = xs @ rest" "gave xs w w'"
      "ok \<longrightarrow> rest = []" "clock w' + c \<le> clock w + 3001 * length bs" for ok rest w' xs
    proof -
      have "if bs = [] then clock w' = clock w else clock w' + c \<le> clock w + 3001 * length bs"
        using that(5) False by simp
      with that(1-4) show ?thesis by blast
    qed
    consider (err) e where "r = Inl e" "e \<noteq> CI_EWOULDBLOCK \<or> c = 3000"
      | (again) "r = Inl CI_EWOULDBLOCK" "c < 3000" | (some) n where "r = Inr n"
      using less.prems by (cases r) force+
    then show ?thesis
    proof cases
      case err
      have "flush_loop K c bs w = Some ((False, bs), w1)" using err False by (auto simp: unf)
      then show ?thesis using sys_send_gave(2) [OF r [unfolded err(1)]] t l less.prems False
        by (intro result [of False bs w1 "[]"]) simp_all
    next
      case again
      have step: "flush_loop K c bs w = flush_loop K (c + 1) bs w1" using again False by (simp add: unf)
      have "3001 * length bs - (c + 1) < 3001 * length bs - c" "c + 1 \<le> 3000"
        using again(2) l by auto
      from less.hyps [OF this, of w1] obtain ok rest w' xs where ih:
        "flush_loop K (c + 1) bs w1 = Some ((ok, rest), w')" "bs = xs @ rest" "gave xs w1 w'"
        "ok \<longrightarrow> rest = []"
        "if bs = [] then clock w' = clock w1 else clock w' + (c + 1) \<le> clock w1 + 3001 * length bs"
        by (elim exE conjE) blast
      have "clock w' + c \<le> clock w + 3001 * length bs" using ih(5) False t by simp
      moreover have "gave xs w w'" using gave_trans [OF sys_send_gave(2) [OF r [unfolded again(1)]] ih(3)] by simp
      ultimately show ?thesis using ih(1,2,4) step by (intro result [of ok rest w' xs]) simp_all
    next
      case some
      have n: "0 < n" "n \<le> length bs" "gave (take n bs) w w1"
        using sys_send_progress [OF assms(1) r [unfolded some] False] sys_send_gave(1) [OF r [unfolded some]]
        by auto
      have step: "flush_loop K c bs w = flush_loop K 0 (drop n bs) w1" using some False by (simp add: unf)
      have m: "3001 * length (drop n bs) + 3001 \<le> 3001 * length bs"
        using n by (simp add: right_diff_distrib')
      then have "3001 * length (drop n bs) - 0 < 3001 * length bs - c" using less.prems by linarith
      from less.hyps [OF this le0, of w1] obtain ok rest w' xs where ih:
        "flush_loop K 0 (drop n bs) w1 = Some ((ok, rest), w')" "drop n bs = xs @ rest" "gave xs w1 w'"
        "ok \<longrightarrow> rest = []"
        "if drop n bs = [] then clock w' = clock w1 else clock w' + 0 \<le> clock w1 + 3001 * length (drop n bs)"
        by (elim exE conjE) blast
      have "bs = (take n bs @ xs) @ rest" using ih(2) by (metis append_assoc append_take_drop_id)
      moreover have "clock w' + c \<le> clock w + 3001 * length bs"
        using ih(5) m t less.prems by (simp split: if_splits)
      ultimately show ?thesis using ih(1,4) step gave_trans [OF n(3) ih(3)]
        by (intro result [of ok rest w' "take n bs @ xs"]) simp_all
    qed
  qed
qed

section \<open>What a connection attempt leaves behind\<close>

lemma connect_wait_keeps:
  assumes "connect_wait K N s er w = Some (ok, w')"
  shows "closed_fds w' = closed_fds w \<and> conns w' = conns w \<and> clock w \<le> clock w'"
proof (cases "er \<noteq> CI_EWOULDBLOCK \<and> er \<noteq> CI_EINPROGRESS")
  case True
  then show ?thesis using assms by (simp add: connect_wait_def)
next
  case False
  then obtain k w1 where k: "poll_one K s connect_events w = Some (k, w1)"
    using assms by (auto simp: connect_wait_def split: bind_splits)
  have "w' = w1 \<or> w' = tick w1"
    using assms False k by (auto simp: connect_wait_def sys_ask_def Let_def split: if_splits)
  then show ?thesis using waited_keeps [OF poll_one_result [OF k, THEN conjunct1]] by auto
qed

lemma connect_wait_returns:
  assumes "signals_end K"
  shows "\<exists>ok w'. connect_wait K N s er w = Some (ok, w')"
  using poll_one_returns [OF assms, of s connect_events w]
  by (auto simp: connect_wait_def sys_ask_def Let_def)


text \<open>The calls before \<open>connect\<close> close nothing and connect nothing.\<close>

definition quiet :: "world \<Rightarrow> world \<Rightarrow> bool" where
  "quiet w w' \<longleftrightarrow> closed_fds w' = closed_fds w \<and> conns w' = conns w"

lemma quiet_refl [simp]: "quiet w w"
  by (simp add: quiet_def)

lemma quiet_trans: "quiet w1 w2 \<Longrightarrow> quiet w2 w3 \<Longrightarrow> quiet w1 w3"
  by (simp add: quiet_def)

lemma quiet_calls [simp]:
  "quiet w (snd (sys_socket K w))" "quiet w (snd (sys_setsockopt K s opt v w))"
  "quiet w (snd (sys_bind K s addr port w))" "quiet w (snd (set_kernel_buffers K s n w))"
  "quiet w (snd (snd (SetNonBlockSocket N (c, w))))" "fst (snd (SetNonBlockSocket N (c, w))) = c"
  by (auto simp: quiet_def sys_simps set_kernel_buffers_def SetNonBlockSocket_def sys_ask_def
      sys_set_nonblock_def Let_def split: prod.splits if_splits)

text \<open>The part of \<open>Connect\<close> before the call of \<open>connect\<close>, as one step.\<close>

lemma Connect_cases:
  fixes s :: sock_state and K :: kernel
  defines "sock \<equiv> k_socket K (clock (snd s))" and "c \<equiv> (fst s)\<lparr>m_iSocket := k_socket K (clock (snd s))\<rparr>"
  shows "(\<exists>w. CiSocket_Connect e K N server port source n s = Some (False, c, w) \<and> quiet (snd s) w) \<or>
    (\<exists>w addr. 0 \<le> sock \<and> quiet (snd s) w \<and> n_parse N server = Some addr \<and>
      CiSocket_Connect e K N server port source n s =
        (let (err, w6) = sys_connect N sock addr (hton e port) w in
           case err of
             None \<Rightarrow> Some (True, c, w6)
           | Some er \<Rightarrow> do {
               (ok, w7) \<leftarrow> connect_wait K N sock er w6;
               if ok then Some (True, c, w7)
               else Some (False, snd (CiSocket_Disconnect K (c, w7))) }))"
proof -
  obtain w1 where 1: "sys_socket K (snd s) = (sock, w1)" "quiet (snd s) w1"
    using quiet_calls(1) [where K = K and w = "snd s"] by (simp add: sys_socket_def sock_def)
  obtain nb w2 where 2: "SetNonBlockSocket N (c, w1) = (nb, c, w2)" "quiet w1 w2"
    using quiet_calls(5,6) [where N = N and c = c and w = w1] by (metis prod.collapse)
  define w3 where "w3 = snd (sys_setsockopt K sock (SO_LINGER 0) 1 w2)"
  obtain bufs w4 where 4: "set_kernel_buffers K sock n w3 = (bufs, w4)" "quiet w3 w4"
    using quiet_calls(4) [where K = K and w = w3] by (metis prod.collapse)
  define w5 where "w5 = (case source of None \<Rightarrow> w4
      | Some a \<Rightarrow> if length a > 0
          then snd (sys_bind K sock (case n_parse N a of None \<Rightarrow> 0 | Some x \<Rightarrow> x) (hton e 0) w4) else w4)"
  have q: "quiet (snd s) w2" "quiet (snd s) w4" "quiet (snd s) w5"
    using 1(2) 2(2) 4(2) quiet_calls(2) [where K = K and w = w2] quiet_calls(3) [where K = K and w = w4]
    by (auto simp: w3_def w5_def quiet_def split: option.splits)
  have c: "(fst s)\<lparr>m_iSocket := sock\<rparr> = c" by (simp add: c_def sock_def)
  note unf = CiSocket_Connect_def 1(1) c 2(1) Let_def prod.case
    w3_def [symmetric] 4(1) w5_def [symmetric]
  consider (early) "sock < 0 \<or> \<not> nb \<or> \<not> bufs \<or> n_parse N server = None"
    | (on) addr where "0 \<le> sock" "nb" "bufs" "n_parse N server = Some addr" by (metis linorder_not_less option.exhaust)
  then show ?thesis
  proof cases
    case early
    then have "\<exists>w. CiSocket_Connect e K N server port source n s = Some (False, c, w) \<and> quiet (snd s) w"
      using 1(2) q by (auto simp: unf split: option.splits)
    then show ?thesis by blast
  next
    case on
    then have "(sock < 0) = False" "(\<not> nb) = False" "(\<not> bufs) = False" by auto
    then show ?thesis using on(1,4) q(3)
      by (intro disjI2 exI [of _ w5] exI [of _ addr] conjI) (simp_all only: unf if_False option.case)
  qed
qed


lemma Connect_result:
  assumes "CiSocket_Connect e K N server port source n s = Some (ok, s')"
  shows "if ok
    then IsValidSocket (fst s') \<and> m_iSocket (fst s') = k_socket K (clock (snd s)) \<and>
      closed_fds (snd s') = closed_fds (snd s) \<and>
      (\<exists>addr. n_parse N server = Some addr \<and>
         conns (snd s') = conns (snd s) @ [(k_socket K (clock (snd s)), addr, hton e port)])
    else m_iSocket (fst s') = k_socket K (clock (snd s)) \<and> quiet (snd s) (snd s') \<or>
      \<not> IsValidSocket (fst s') \<and> 0 \<le> k_socket K (clock (snd s)) \<and>
      closed_fds (snd s') = closed_fds (snd s) @ [k_socket K (clock (snd s))]"
proof -
  let ?sock = "k_socket K (clock (snd s))" and ?c = "(fst s)\<lparr>m_iSocket := k_socket K (clock (snd s))\<rparr>"
  from Connect_cases [of e K N server port source n s] consider
    (early) w where "CiSocket_Connect e K N server port source n s = Some (False, ?c, w)" "quiet (snd s) w"
  | (on) w addr where "0 \<le> ?sock" "quiet (snd s) w" "n_parse N server = Some addr"
      "CiSocket_Connect e K N server port source n s =
        (let (err, w6) = sys_connect N ?sock addr (hton e port) w in
           case err of
             None \<Rightarrow> Some (True, ?c, w6)
           | Some er \<Rightarrow> do {
               (ok, w7) \<leftarrow> connect_wait K N ?sock er w6;
               if ok then Some (True, ?c, w7)
               else Some (False, snd (CiSocket_Disconnect K (?c, w7))) })"
    by (elim disjE exE conjE) blast+
  then show ?thesis
  proof cases
    case early
    then show ?thesis using assms by auto
  next
    case on
    obtain err w6 where e: "sys_connect N ?sock addr (hton e port) w = (err, w6)" by fastforce
    have v: "?sock \<noteq> - 1" using on(1) by simp
    note u = assms [unfolded on(4) e Let_def prod.case]
    have w6: "closed_fds w6 = closed_fds (snd s)" "err = None \<or> err = Some CI_EINPROGRESS \<or> err = Some CI_EWOULDBLOCK \<Longrightarrow>
        conns w6 = conns (snd s) @ [(?sock, addr, hton e port)]"
      using e on(2) by (auto simp: sys_connect_def quiet_def split: if_splits)
    show ?thesis
    proof (cases err)
      case None
      then show ?thesis using u w6 v on(3) by (auto simp: IsValidSocket_def)
    next
      case (Some er)
      then obtain k w7 where k: "connect_wait K N ?sock er w6 = Some (k, w7)"
        using u by (auto split: bind_splits)
      note kp = connect_wait_keeps [OF k]
      show ?thesis
      proof (cases k)
        case True
        then have "err = Some CI_EINPROGRESS \<or> err = Some CI_EWOULDBLOCK"
          using k Some by (auto simp: connect_wait_def split: if_splits)
        then show ?thesis using u Some k True w6 kp v on(3) by (auto simp: IsValidSocket_def)
      next
        case False
        then show ?thesis using u Some k w6 kp v on(1)
          by (auto simp: IsValidSocket_def CiSocket_Disconnect_def nu_disconnect_ci_def sys_close_def)
      qed
    qed
  qed
qed

lemma Connect_returns:
  assumes "signals_end K"
  shows "\<exists>ok s'. CiSocket_Connect e K N server port source n s = Some (ok, s')"
  using Connect_cases [of e K N server port source n s]
proof (elim disjE exE conjE)
  fix w addr
  let ?sock = "k_socket K (clock (snd s))" and ?c = "(fst s)\<lparr>m_iSocket := k_socket K (clock (snd s))\<rparr>"
  assume u: "CiSocket_Connect e K N server port source n s =
        (let (err, w6) = sys_connect N ?sock addr (hton e port) w in
           case err of
             None \<Rightarrow> Some (True, ?c, w6)
           | Some er \<Rightarrow> do {
               (ok, w7) \<leftarrow> connect_wait K N ?sock er w6;
               if ok then Some (True, ?c, w7)
               else Some (False, snd (CiSocket_Disconnect K (?c, w7))) })"
  obtain err w6 where e: "sys_connect N ?sock addr (hton e port) w = (err, w6)" by fastforce
  show ?thesis
  proof (cases err)
    case None
    then show ?thesis by (simp add: u e)
  next
    case (Some er)
    obtain ok w7 where "connect_wait K N ?sock er w6 = Some (ok, w7)"
      using connect_wait_returns [OF assms] by blast
    then show ?thesis unfolding u by (cases ok) (auto simp: e Some)
  qed
qed blast


section \<open>Searching the receive buffer\<close>

lemma str_find_spec:
  "str_find p xs = Some i \<Longrightarrow> take (length p) (drop i xs) = p \<and> i \<le> length xs \<and>
     (\<forall>j < i. take (length p) (drop j xs) \<noteq> p)"
  "str_find p xs = None \<Longrightarrow> take (length p) (drop j xs) \<noteq> p"
proof -
  show "str_find p xs = Some i \<Longrightarrow> take (length p) (drop i xs) = p \<and> i \<le> length xs \<and>
     (\<forall>j < i. take (length p) (drop j xs) \<noteq> p)"
  proof (induction p xs arbitrary: i rule: str_find.induct)
    case (2 p c cs)
    then show ?case by (auto simp: less_Suc_eq_0_disj split: if_splits)
  qed (auto split: if_splits)
  show "str_find p xs = None \<Longrightarrow> take (length p) (drop j xs) \<noteq> p"
  proof (induction p xs arbitrary: j rule: str_find.induct)
    case (2 p c cs)
    then show ?case by (cases j) (auto split: if_splits)
  qed (auto split: if_splits)
qed

lemma c_strstr_terminated:
  assumes "0 \<notin> set xs"
  shows "c_strstr (xs @ 0 # rest) p = Some (str_find p xs)"
proof -
  have "takeWhile (\<lambda>c. c \<noteq> 0) (xs @ 0 # rest) = xs" using assms by (induction xs) auto
  then show ?thesis by (simp add: c_strstr_def)
qed

lemma StrExist_ok:
  assumes "recv_ok s" "recv_data s \<noteq> []" "0 \<notin> set (recv_data s)"
  shows "\<exists>c. StrExistInReadBuffer (Some p) (fst s) =
      Some (case str_find p (recv_data s) of None \<Rightarrow> - 1 | Some i \<Rightarrow> int i, c) \<and>
    ring_ok (m_recv c) \<and> ring_data (m_recv c) = recv_data s"
proof -
  obtain b st e where r: "m_recv (fst s) = mk_ring b st e" "length b < 2 ^ 31" "st < length b" "e < length b"
    using ring_ok_cases [OF assms(1) [unfolded recv_ok_def]] by blast
  have "st \<noteq> e" using assms(2) by (auto simp: r(1) ring_bytes_def)
  then consider (apart) "st < e" | (wrapped) "e < st" by linarith
  then show ?thesis
  proof cases
    case apart
    let ?b = "take e b @ [0] @ drop (e + 1) b"
    have data: "ring_bytes b st e = take (e - st) (drop st b)" using apart by (simp add: ring_bytes_def)
    have p1: "put_at b (int e) [0] = Some ?b" using r(4) by (simp add: blit_fit)
    have l: "length ?b = length b" using r(4) by simp
    have g: "get_at ?b (int st) (int (length ?b) - int st) = Some (drop st ?b)"
    proof -
      have "get_at ?b (int st) (int (length ?b) - int st) = slice_of ?b st (length ?b - st)"
        by (rule get_at_minus) (use l r(3) in simp)
      also have "\<dots> = Some (drop st ?b)" using l r(3) by (subst slice_of_Some) simp_all
      finally show ?thesis .
    qed
    have "drop st ?b = ring_bytes b st e @ 0 # drop (e + 1) b"
      using apart r(4) unfolding data by (simp add: drop_take)
    then have f: "c_strstr (drop st ?b) p = Some (str_find p (recv_data s))"
      using c_strstr_terminated assms(3) by (simp add: r(1))
    have c: "(int st < int e) = True" using apart by simp
    have m: "(mk_ring b st e)\<lparr>r_buf := Some ?b\<rparr> = mk_ring ?b st e"
      unfolding mk_ring_def l by simp
    have "StrExistInReadBuffer (Some p) (fst s) =
      Some (case str_find p (recv_data s) of None \<Rightarrow> - 1 | Some i \<Rightarrow> int i,
            (fst s)\<lparr>m_recv := mk_ring ?b st e\<rparr>)"
      unfolding StrExistInReadBuffer_def r(1)
      by (simp only: mk_ring_sel Let_def option.case prod.case c if_True bind.simps p1 g)
         (simp only: f [unfolded r(1)] bind.simps m)
    moreover have "ring_bytes ?b st e = ring_bytes b st e"
      using apart r(4) by (simp add: ring_bytes_def drop_take)
    moreover have "ring_ok (mk_ring ?b st e)" unfolding ring_ok_mk l using r by simp
    moreover have "m_recv ((fst s)\<lparr>m_recv := mk_ring ?b st e\<rparr>) = mk_ring ?b st e" by simp
    ultimately show ?thesis unfolding r(1) ring_data_mk
      by (intro exI [of _ "(fst s)\<lparr>m_recv := mk_ring ?b st e\<rparr>"] conjI) (simp_all only: ring_data_mk)
  next
    case wrapped
    have data: "ring_bytes b st e = drop st b @ take e b" using wrapped by (simp add: ring_bytes_def)
    have g: "get_at b (int st) (int (length b) - int st) = Some (drop st b)"
      using r(3) by (subst get_at_minus) (simp_all add: slice_of_Some)
    have g2: "get_at b 0 (int e) = Some (take e b)" using r(4) by (simp add: slice_of_Some)
    have f: "c_strstr (drop st b @ take e b @ [0]) p = Some (str_find p (ring_bytes b st e))"
      using c_strstr_terminated [of "ring_bytes b st e" "[]" p] assms(3) by (simp add: r(1) data)
    have c: "(int st < int e) = False" "(int e < int st) = True" using wrapped by simp_all
    have "StrExistInReadBuffer (Some p) (fst s) =
      Some (case str_find p (ring_bytes b st e) of None \<Rightarrow> - 1 | Some i \<Rightarrow> int i, fst s)"
      unfolding StrExistInReadBuffer_def r(1)
      by (simp only: mk_ring_sel Let_def option.case prod.case c if_True if_False bind.simps g g2 f)
    then show ?thesis using assms(1) by (simp add: r(1) recv_ok_def)
  qed
qed

section \<open>A write that the kernel takes at once\<close>

lemma WriteN_at_once:
  assumes "send_ok s" "send_data s = []" "bs \<noteq> []" "k_send K (clock (snd s)) = SendOk n" "length bs \<le> n"
  shows "WriteN H K bs s = Some ((True, Some (int (length bs))), fst s,
    (tick (snd s))\<lparr>outstream := outstream (snd s) @ bs\<rparr>)"
proof -
  have z: "ring_used (m_send (fst s)) = 0" using assms(1,2) ring_used_ok by (simp add: send_ok_def)
  have "sys_send K bs (snd s) = (Inr (length bs), (tick (snd s))\<lparr>outstream := outstream (snd s) @ bs\<rparr>)"
    using assms(4,5) by (simp add: sys_send_def min_def)
  then have "send_loop K bs (snd s) = ((None, []), (tick (snd s))\<lparr>outstream := outstream (snd s) @ bs\<rparr>)"
    using assms(3) by (simp add: send_loop.simps [of K bs] send_loop.simps [of K "[]"])
  then show ?thesis by (simp add: WriteN_def GetRemainSendDataSize_def z)
qed

lemma nu_writen_at_once:
  assumes "bs \<noteq> []" "k_send K (clock w) = SendOk n" "length bs \<le> n"
  shows "nu_writen K bs w = Some ((True, Some (int (length bs))), (tick w)\<lparr>outstream := outstream w @ bs\<rparr>)"
proof -
  have "sys_send K bs w = (Inr (length bs), (tick w)\<lparr>outstream := outstream w @ bs\<rparr>)"
    using assms(2,3) by (simp add: sys_send_def min_def)
  then show ?thesis using assms(1)
    by (simp add: nu_writen_def send_loop.simps [of K bs] send_loop.simps [of K "[]"])
qed

end
