(* ===== verification/Ci_Frames.thy ===== *)
theory Ci_Frames
  imports Socket_Send
begin

text \<open>
  The messages of \<open>CNetworkThread\<close> in \<open>CiUtils/Src/NetworkThread.cpp\<close>: a frame is a message code
  of four bytes, the size of the body in four bytes, and the body, both integers in network order.
  \<open>ReceiveIntMessage\<close> reads from the network no further than the end of the frame, and takes the
  code out of the buffer when all of the frame is there; the size and the body are left to
  \<open>OnMessage\<close>.  The lemmas say that a connection's bytes are cut into frames exactly.
\<close>

section \<open>\<open>ReceiveIntMessage\<close>\<close>

datatype ReceiveIntMessageResult_t =
    RECEIVE_INT_MESSAGE_FALSE | RECEIVE_INT_MESSAGE_TRUE | RECEIVE_INT_MESSAGE_INTERIM

text \<open>
  The part that completes the header.  The first component of the result is what
  \<open>ReceiveIntMessage\<close> returns from inside of it, the second \<open>isReceiveHeader\<close>.
\<close>

definition receive_header ::
  "heap \<Rightarrow> kernel \<Rightarrow> sock_state \<Rightarrow>
     ((ReceiveIntMessageResult_t option \<times> bool) \<times> sock_state) option" where
  "receive_header H K s =
     (let iRecvDataSize = GetCurrentRecvDataSize (fst s) in
      if iRecvDataSize < 8 then do {
        (ok, s1) \<leftarrow> ReadFromNetworkToBuffer_max H K (8 - iRecvDataSize) s;
        let n = GetCurrentRecvDataSize (fst s1);
        Some (if \<not> ok then (Some RECEIVE_INT_MESSAGE_FALSE, False)
              else if n = iRecvDataSize then (Some RECEIVE_INT_MESSAGE_FALSE, False)
              else if n < 8 then (Some RECEIVE_INT_MESSAGE_INTERIM, False)
              else (None, True), s1) }
      else Some ((None, False), s))"

text \<open>The part that reads the body.\<close>

definition receive_body ::
  "heap \<Rightarrow> kernel \<Rightarrow> bool \<Rightarrow> int \<Rightarrow> sock_state \<Rightarrow>
     (ReceiveIntMessageResult_t option \<times> sock_state) option" where
  "receive_body H K isReceiveHeader iNBodySize s =
     (if iNBodySize > 0 then do {
        let iRecvDataSize = GetCurrentRecvDataSize (fst s);
        (ok, s1) \<leftarrow> ReadFromNetworkToBuffer_max H K (iNBodySize - (iRecvDataSize - 8)) s;
        Some (if \<not> ok then Some RECEIVE_INT_MESSAGE_FALSE
              else if \<not> isReceiveHeader \<and> iRecvDataSize = GetCurrentRecvDataSize (fst s1)
              then Some RECEIVE_INT_MESSAGE_FALSE else None, s1) }
      else Some (None, s))"

text \<open>
  The whole function, for a socket and a pointer to the result that are not null.  The sum
  \<open>8+iNBodySize\<close> is undefined when it overflows.
\<close>

definition ReceiveIntMessage ::
  "endian \<Rightarrow> heap \<Rightarrow> kernel \<Rightarrow> sock_state \<Rightarrow>
     ((ReceiveIntMessageResult_t \<times> i32 option) \<times> sock_state) option" where
  "ReceiveIntMessage e H K s = do {
     ((ret, isReceiveHeader), s1) \<leftarrow> receive_header H K s;
     case ret of
       Some r \<Rightarrow> Some ((r, None), s1)
     | None \<Rightarrow> do {
         (ok, x) \<leftarrow> LookAheadInt32 e 4 (fst s1);
         if \<not> ok then Some ((RECEIVE_INT_MESSAGE_INTERIM, None), s1)
         else do {
           size \<leftarrow> x;
           let iNBodySize = sint size;
           (ret2, s2) \<leftarrow> receive_body H K isReceiveHeader iNBodySize s1;
           case ret2 of
             Some r \<Rightarrow> Some ((r, None), s2)
           | None \<Rightarrow>
               if 2 ^ 31 \<le> 8 + iNBodySize then None
               else if GetCurrentRecvDataSize (fst s2) < 8 + iNBodySize
               then Some ((RECEIVE_INT_MESSAGE_INTERIM, None), s2)
               else do {
                 (r, s3) \<leftarrow> ReadInt32 e s2;
                 Some (case r of
                         None \<Rightarrow> (RECEIVE_INT_MESSAGE_INTERIM, None)
                       | Some m \<Rightarrow> (RECEIVE_INT_MESSAGE_TRUE, Some m), s3) } } } }"

text \<open>\<open>DoWrite\<close>, for a socket that is not null.\<close>

definition DoWrite :: "kernel \<Rightarrow> sock_state \<Rightarrow> (bool \<times> sock_state) option" where
  "DoWrite K s = WriteFromBufferToNetwork K s"

section \<open>Reading into a buffer that is not wrapped\<close>

lemma recv_into_bound:
  "recv_into wrap K ptr n r w = Some (ret, r', w') \<Longrightarrow>
     r_start r' = r_start r \<and> r_size r' = r_size r \<and> (\<exists>xs. took xs w w' \<and> length xs \<le> nat n)"
proof (induction wrap K ptr n r w arbitrary: ret r' w' rule: recv_into.induct)
  case (1 wrap K ptr n r w)
  show ?case
  proof (cases "n \<le> 0")
    case True
    then show ?thesis using "1.prems"
      by (auto simp: recv_into.simps [of wrap K ptr n] intro: exI [of _ "[]"])
  next
    case False
    obtain x w1 where x: "sys_recv K (nat n) w = (x, w1)" by fastforce
    note p = "1.prems" [unfolded recv_into.simps [of wrap K ptr n]]
    show ?thesis
    proof (cases x)
      case (Inl e)
      then show ?thesis using p x False sys_recv_took(2) [of K "nat n" w e w1]
        by (auto intro: exI [of _ "[]"])
    next
      case (Inr bs)
      note t = sys_recv_took(1) [OF x [unfolded Inr]]
      show ?thesis
      proof (cases "bs = []")
        case True
        then show ?thesis using p x False Inr t by auto
      next
        case nb: False
        then obtain b b1 where b: "r_buf r = Some b" "put_at b ptr bs = Some b1"
          and r: "recv_into wrap K (ptr + int (length bs)) (n - int (length bs))
            (r\<lparr>r_buf := Some b1, r_end := if wrap \<and> r_end r + int (length bs) = r_size r then 0
               else r_end r + int (length bs)\<rparr>) w1 = Some (ret, r', w')"
          using p x False Inr by (auto simp: Let_def split: bind_splits)
        from "1.IH" [OF False x [symmetric] Inr nb b refl refl r] obtain ys where
          "r_start r' = r_start r" "r_size r' = r_size r" "took ys w1 w'"
          "length ys \<le> nat (n - int (length bs))" by auto
        moreover have "length bs + nat (n - int (length bs)) \<le> nat n" using t by linarith
        ultimately show ?thesis using took_trans [of bs w w1 ys w'] t
          by (intro conjI exI [of _ "bs @ ys"]) auto
      qed
    qed
  qed
qed

lemma took_unique: "took xs w w' \<Longrightarrow> took ys w w' \<Longrightarrow> xs = ys"
  by (simp add: took_def)

text \<open>What is read stays behind the beginning of the block.\<close>

definition linear :: "ring \<Rightarrow> bool" where
  "linear r \<longleftrightarrow> ring_ok r \<and> (r_start r = 0 \<or> ring_data r = [])"

definition small_blocks :: "heap \<Rightarrow> bool" where
  "small_blocks H \<longleftrightarrow> (\<forall>n. 2 ^ 31 \<le> n \<longrightarrow> \<not> h_ok H n)"

text \<open>With blocks below 2 GB, preparing a buffer either makes room or changes nothing.\<close>

lemma linear_prepare:
  assumes "linear r" "small_blocks H" "n < 2 ^ 31"
  shows "ring_prepare H n r = Some (False, r) \<or>
    (\<exists>r'. ring_prepare H n r = Some (True, r') \<and> ring_ok r' \<and> ring_data r' = ring_data r \<and>
       int (length (ring_data r) + n) < r_size r' \<and> r_start r' = r_start r)"
proof (cases "ring_accepts H n r")
  case True
  then show ?thesis using ring_prepare_ok assms(1) unfolding linear_def by blast
next
  case False
  obtain b st e where b: "r = mk_ring b st e" "length b < 2 ^ 31" "st < length b" "e < length b"
    using ring_ok_cases assms(1) unfolding linear_def by blast
  have se: "st \<le> e" using assms(1) b by (auto simp: linear_def ring_bytes_def split: if_splits)
  have u: "length (ring_bytes b st e) < length b" using ring_bytes_less b by simp
  let ?N = "length (ring_bytes b st e) + n + 1"
  have "\<not> h_ok H ?N"
    using False se assms(2) by (cases "?N < 2 ^ 31") (auto simp: ring_accepts_def b(1) small_blocks_def)
  moreover have "length b \<le> length (ring_bytes b st e) + n" using False by (auto simp: ring_accepts_def b(1))
  moreover have "?N < 2 ^ 33" using u b(2) assms(3) by simp
  ultimately show ?thesis using ring_prepare_refused [OF b(2-4)] b(1) by blast
qed

lemma recv_linear:
  assumes "e < length b" "e + n < length b" "length b < 2 ^ 31"
  shows "\<exists>ret r w' xs. recv_into True K (int e) (int n) (mk_ring b 0 e) w = Some (ret, r, w') \<and>
    linear r \<and> ring_data r = take e b @ xs \<and> took xs w w' \<and> length xs \<le> n"
proof -
  have b0: "ring_bytes b 0 e = take e b" by (simp add: ring_bytes_def)
  have p: "0 < length b" "length (ring_bytes b 0 e) + n < length b" "e + n \<le> length b"
    using assms by (auto simp: b0)
  from recv_into_result [OF p(1) assms(1) p(2,3) assms(3), of K w] obtain ret r w' xs where
    x: "recv_into True K (int e) (int n) (mk_ring b 0 e) w = Some (ret, r, w')" "ring_ok r"
    "ring_data r = take e b @ xs" "took xs w w'" by (auto simp: b0)
  from recv_into_bound [OF x(1)] obtain ys where "r_start r = 0" "took ys w w'" "length ys \<le> n" by auto
  then show ?thesis using x took_unique [OF x(4)] by (auto simp: linear_def)
qed

lemma read_max_linear:
  assumes lin: "linear (m_recv (fst s))" and "small_blocks H" "n < 2 ^ 31"
  shows "\<exists>ok r w' xs. ReadFromNetworkToBuffer_max H K (int n) s = Some (ok, (fst s)\<lparr>m_recv := r\<rparr>, w') \<and>
    linear r \<and> ring_data r = recv_data s @ xs \<and> took xs (snd s) w' \<and> length xs \<le> n \<and>
    (ok \<longrightarrow> length (recv_data s) + n < 2 ^ 31)"
proof -
  have p: "nat (int n mod 2 ^ 64) = n" using assms(3) by simp
  have sel: "m_recv ((fst s)\<lparr>m_recv := r1\<rparr>) = r1" "(fst s)\<lparr>m_recv := r1, m_recv := r2\<rparr> = (fst s)\<lparr>m_recv := r2\<rparr>"
    for r1 r2 by simp_all
  from linear_prepare [OF assms] consider (refused) "ring_prepare H n (m_recv (fst s)) = Some (False, m_recv (fst s))"
    | (room) r where "ring_prepare H n (m_recv (fst s)) = Some (True, r)" "ring_ok r"
      "ring_data r = recv_data s" "int (length (recv_data s) + n) < r_size r"
      "r_start r = r_start (m_recv (fst s))" by blast
  then show ?thesis
  proof cases
    case refused
    have "ReadFromNetworkToBuffer_max H K (int n) s = Some (False, (fst s)\<lparr>m_recv := m_recv (fst s)\<rparr>, snd s)"
      by (simp only: ReadFromNetworkToBuffer_max_def p PrepareRecvBuffer_def refused bind.simps prod.case
          simp_thms if_True)
    then show ?thesis using lin
      by (intro exI [of _ False] exI [of _ "m_recv (fst s)"] exI [of _ "snd s"] exI [of _ "[]"]) simp
  next
    case room
    obtain b st e where b: "r = mk_ring b st e" "length b < 2 ^ 31" "st < length b" "e < length b"
      using ring_ok_cases [OF room(2)] by blast
    have ne: "(int e = int (length b)) = False" using b(4) by simp
    let ?e = "if st = 0 then e else 0"
    have st: "st = 0 \<or> st = e"
    proof (cases "st = 0")
      case False
      then have "r_start (m_recv (fst s)) \<noteq> 0" using room(5) by (simp add: b(1))
      then have "ring_bytes b st e = []" using lin room(3) by (simp add: linear_def b(1))
      then show ?thesis using b(3,4) by (auto simp: ring_bytes_def split: if_splits)
    qed simp
    have d: "take ?e b = recv_data s"
      using st room(3) b(4) by (auto simp: b(1) ring_bytes_def)
    have d2: "length (recv_data s) = ?e" using b(4) by (auto simp flip: d)
    have n: "?e + n < length b" using room(4) d2 by (simp add: b(1))
    have i: "(let na = int (length b) - int e - (if int st = 0 then 1 else 0) in
        if int n < na then (x, int n, 0) else (x, na, int n - na)) = (x, int n, 0)"
      if "st = 0" for x :: ring
      using that n by (auto simp: Let_def)
    have m: "(mk_ring b st e)\<lparr>r_start := 0, r_end := 0\<rparr> = mk_ring b 0 0" by (simp add: mk_ring_def)
    have run: "ReadFromNetworkToBuffer_max H K (int n) s = do {
        (ret, r3, w1) \<leftarrow> recv_into True K (int ?e) (int n) (mk_ring b 0 ?e) (snd s);
        case ret of Some ok \<Rightarrow> Some (ok, (fst s)\<lparr>m_recv := r3\<rparr>, w1)
        | None \<Rightarrow> Some (True, (fst s)\<lparr>m_recv := r3\<rparr>, w1) }"
    proof -
      note unf = ReadFromNetworkToBuffer_max_def p PrepareRecvBuffer_def room(1) b(1) bind.simps prod.case
        sel mk_ring_sel Let_def ne simp_thms if_False
      consider (apart) "st = 0" "0 < e" | (empty) "st = e" using st by auto
      then show ?thesis
      proof cases
        case apart
        have c: "(int st < int e) = True" "(st = 0) = True" using apart by simp_all
        show ?thesis
          by (simp only: unf c i [OF apart(1), unfolded Let_def] if_True recv_into_0 option.case)
            (simp add: apart)
      next
        case empty
        have c: "(int st < int e) = False" "(int e < int st) = False" using empty by simp_all
        have e0: "?e = 0" using empty by simp
        show ?thesis
          by (simp only: unf c e0 m recv_into_0 option.case mk_ring_sel semiring_1_class.of_nat_0)
      qed
    qed
    have "?e < length b" using n by simp
    from recv_linear [OF this n b(2), of K "snd s"] obtain ret r3 w1 xs where
      "recv_into True K (int ?e) (int n) (mk_ring b 0 ?e) (snd s) = Some (ret, r3, w1)"
      "linear r3" "ring_data r3 = recv_data s @ xs" "took xs (snd s) w1" "length xs \<le> n"
      by (auto simp: d)
    moreover have "length (recv_data s) + n < 2 ^ 31" using room(4) b(2) by (simp add: b(1))
    ultimately show ?thesis unfolding run by (cases ret) auto
  qed
qed

section \<open>Frames\<close>

text \<open>What the bytes of a connection stand for: complete frames, and the beginning of the next one.\<close>

definition body_size :: "byte list \<Rightarrow> int" where
  "body_size bs = sint (of_be (take 4 (drop 4 bs)) :: i32)"

definition frame_length :: "byte list \<Rightarrow> nat" where
  "frame_length bs = 8 + nat (body_size bs)"

definition has_frame :: "byte list \<Rightarrow> bool" where
  "has_frame bs \<longleftrightarrow> 8 \<le> length bs \<and> frame_length bs \<le> length bs"

definition first_frame :: "byte list \<Rightarrow> i32 \<times> byte list" where
  "first_frame bs = (of_be (take 4 bs), take (nat (body_size bs)) (drop 8 bs))"

function split_frames :: "byte list \<Rightarrow> (i32 \<times> byte list) list \<times> byte list" where
  "split_frames bs =
     (if has_frame bs
      then (let (ms, rest) = split_frames (drop (frame_length bs) bs) in (first_frame bs # ms, rest))
      else ([], bs))"
  by pat_completeness auto
termination
  by (relation "measure length") (auto simp: has_frame_def frame_length_def)

declare split_frames.simps [simp del]

lemma body_size_append: "8 \<le> length bs \<Longrightarrow> body_size (bs @ cs) = body_size bs"
  by (simp add: body_size_def)

lemma frame_append:
  assumes "has_frame bs"
  shows "has_frame (bs @ cs)" "frame_length (bs @ cs) = frame_length bs"
    "first_frame (bs @ cs) = first_frame bs"
  using assms by (simp_all add: has_frame_def frame_length_def first_frame_def body_size_append)

lemma split_frames_append:
  "split_frames bs = (ms, r) \<Longrightarrow>
     split_frames (bs @ cs) = (ms @ fst (split_frames (r @ cs)), snd (split_frames (r @ cs)))"
proof (induction bs arbitrary: ms r rule: split_frames.induct)
  case (1 bs)
  show ?case
  proof (cases "has_frame bs")
    case True
    obtain ms' where ms': "split_frames (drop (frame_length bs) bs) = (ms', r)" "ms = first_frame bs # ms'"
      using "1.prems" True by (auto simp: split_frames.simps [of bs] split: prod.splits)
    have l: "frame_length bs \<le> length bs" using True by (simp add: has_frame_def)
    from "1.IH" [OF True ms'(1)] show ?thesis
      using True ms'(2) l frame_append [OF True, of cs]
      by (simp add: split_frames.simps [of "bs @ cs"])
  next
    case False
    then show ?thesis using "1.prems" by (simp add: split_frames.simps [of bs])
  qed
qed

text \<open>The bytes of a message with its body, and that they are cut back into messages.\<close>

definition frame_bytes :: "i32 \<times> byte list \<Rightarrow> byte list" where
  "frame_bytes m = be_image (fst m) @ be_image (word_of_int (int (length (snd m))) :: i32) @ snd m"

lemma frame_bytes_cut:
  assumes "length (snd m) < 2 ^ 31"
  shows "has_frame (frame_bytes m @ bs)" "frame_length (frame_bytes m @ bs) = length (frame_bytes m)"
    "first_frame (frame_bytes m @ bs) = m"
proof -
  have "body_size (frame_bytes m @ bs) = int (length (snd m))"
    using to_int32_id [of "int (length (snd m))"] assms
    by (simp add: body_size_def frame_bytes_def of_be_be_image to_int32_def)
  then show "has_frame (frame_bytes m @ bs)" "frame_length (frame_bytes m @ bs) = length (frame_bytes m)"
    "first_frame (frame_bytes m @ bs) = m"
    by (simp_all add: has_frame_def frame_length_def first_frame_def)
      (simp_all add: frame_bytes_def of_be_be_image)
qed

lemma split_frame_bytes:
  "\<forall>m\<in>set ms. length (snd m) < 2 ^ 31 \<Longrightarrow> split_frames (concat (map frame_bytes ms)) = (ms, [])"
proof (induction ms)
  case Nil
  then show ?case by (simp add: split_frames.simps [of "[]"] has_frame_def)
next
  case (Cons m ms)
  then have "length (snd m) < 2 ^ 31" by simp
  from frame_bytes_cut [OF this, of "concat (map frame_bytes ms)"] Cons show ?case
    by (simp add: split_frames.simps [of "frame_bytes m @ concat (map frame_bytes ms)"])
qed

section \<open>What \<open>ReceiveIntMessage\<close> does\<close>

lemma linear_used: "linear r \<Longrightarrow> ring_used r = int (length (ring_data r))"
  by (simp add: linear_def ring_used_ok)

lemma receive_header_ok:
  assumes "linear (m_recv (fst s))" "small_blocks H"
  shows "\<exists>ret h r w xs. receive_header H K s = Some ((ret, h), (fst s)\<lparr>m_recv := r\<rparr>, w) \<and>
    linear r \<and> ring_data r = recv_data s @ xs \<and> took xs (snd s) w \<and> ret \<noteq> Some RECEIVE_INT_MESSAGE_TRUE \<and>
    (ret = Some RECEIVE_INT_MESSAGE_INTERIM \<longrightarrow> length (ring_data r) < 8) \<and>
    (ret = None \<longrightarrow> 8 \<le> length (ring_data r) \<and> (if h then length (ring_data r) = 8 else xs = []))"
proof (cases "length (recv_data s) < 8")
  case True
  let ?n = "8 - length (recv_data s)"
  have g: "GetCurrentRecvDataSize (fst s) = int (length (recv_data s))"
    using linear_used [OF assms(1)] by (simp add: GetCurrentRecvDataSize_def)
  have n: "?n < 2 ^ 31" "8 - int (length (recv_data s)) = int ?n" using True by simp_all
  from read_max_linear [OF assms n(1), of K] obtain ok r w xs where
    1: "ReadFromNetworkToBuffer_max H K (int ?n) s = Some (ok, (fst s)\<lparr>m_recv := r\<rparr>, w)" "linear r"
    "ring_data r = recv_data s @ xs" "took xs (snd s) w" "length xs \<le> ?n" by blast
  let ?ret = "if \<not> ok then (Some RECEIVE_INT_MESSAGE_FALSE, False)
      else if length (ring_data r) = length (recv_data s) then (Some RECEIVE_INT_MESSAGE_FALSE, False)
      else if length (ring_data r) < 8 then (Some RECEIVE_INT_MESSAGE_INTERIM, False) else (None, True)"
  have "GetCurrentRecvDataSize ((fst s)\<lparr>m_recv := r\<rparr>) = int (length (ring_data r))"
    using linear_used [OF 1(2)] by (simp add: GetCurrentRecvDataSize_def)
  then have "receive_header H K s = Some (?ret, (fst s)\<lparr>m_recv := r\<rparr>, w)"
    using True by (simp add: receive_header_def g Let_def 1(1) [folded n(2)])
  then show ?thesis using 1 True
    by (intro exI [of _ "fst ?ret"] exI [of _ "snd ?ret"] exI [of _ r] exI [of _ w] exI [of _ xs]) auto
next
  case False
  then have "receive_header H K s = Some ((None, False), s)"
    using linear_used [OF assms(1)] by (simp add: receive_header_def GetCurrentRecvDataSize_def)
  then show ?thesis using assms(1) False
    by (intro exI [of _ None] exI [of _ False] exI [of _ "m_recv (fst s)"] exI [of _ "snd s"]
        exI [of _ "[]"]) simp
qed

lemma receive_body_ok:
  assumes lin: "linear (m_recv (fst s))" and "small_blocks H" and "8 \<le> length (recv_data s)"
    and open_frame: "length (recv_data s) \<le> 8 + nat n" and "n < 2 ^ 31"
  shows "\<exists>ret r w xs. receive_body H K h n s = Some (ret, (fst s)\<lparr>m_recv := r\<rparr>, w) \<and>
    linear r \<and> ring_data r = recv_data s @ xs \<and> took xs (snd s) w \<and>
    length (ring_data r) \<le> 8 + nat n \<and> ret \<in> {None, Some RECEIVE_INT_MESSAGE_FALSE} \<and>
    (ret = None \<longrightarrow> 8 + n < 2 ^ 31)"
proof (cases "0 < n")
  case True
  let ?n = "nat n + 8 - length (recv_data s)"
  have g: "GetCurrentRecvDataSize (fst s) = int (length (recv_data s))"
    using linear_used [OF lin] by (simp add: GetCurrentRecvDataSize_def)
  have n: "?n < 2 ^ 31" "n - (int (length (recv_data s)) - 8) = int ?n"
    using assms(3-5) True by simp_all
  from read_max_linear [OF lin assms(2) n(1), of K] obtain ok r w xs where
    1: "ReadFromNetworkToBuffer_max H K (int ?n) s = Some (ok, (fst s)\<lparr>m_recv := r\<rparr>, w)" "linear r"
    "ring_data r = recv_data s @ xs" "took xs (snd s) w" "length xs \<le> ?n"
    "ok \<longrightarrow> length (recv_data s) + ?n < 2 ^ 31" by blast
  have "\<exists>ret. receive_body H K h n s = Some (ret, (fst s)\<lparr>m_recv := r\<rparr>, w) \<and>
      ret \<in> {None, Some RECEIVE_INT_MESSAGE_FALSE} \<and> (ret = None \<longrightarrow> ok)"
    using True by (auto simp: receive_body_def g Let_def 1(1) [folded n(2)])
  then obtain ret where ret: "receive_body H K h n s = Some (ret, (fst s)\<lparr>m_recv := r\<rparr>, w)"
    "ret \<in> {None, Some RECEIVE_INT_MESSAGE_FALSE}" "ret = None \<longrightarrow> ok" by blast
  have "length (ring_data r) \<le> 8 + nat n" "ret = None \<longrightarrow> 8 + n < 2 ^ 31"
    using 1(3,5,6) ret(3) assms(3,4) True by auto
  then show ?thesis using ret 1(2-4) by blast
next
  case False
  then show ?thesis using lin open_frame
    by (intro exI [of _ None] exI [of _ "m_recv (fst s)"] exI [of _ "snd s"] exI [of _ "[]"])
      (simp add: receive_body_def)
qed

lemma look_ahead_size:
  assumes "recv_ok s" "8 \<le> length (recv_data s)"
  shows "LookAheadInt32 e 4 (fst s) = Some (True, Some (of_be (take 4 (drop 4 (recv_data s)))))"
proof -
  have "recv_data s \<noteq> []" using assms(2) by auto
  then have "ring_peek 4 4 (m_recv (fst s)) = Some (True, Some (take 4 (drop 4 (recv_data s))))"
    using ring_peek_ok [of "m_recv (fst s)" 4 4] assms by (simp add: recv_ok_def)
  then show ?thesis using assms(2) by (simp add: LookAheadInt32_def ntoh_mem_load)
qed

lemma ReadN_recv: "ReadN n s = Some (x, s') \<Longrightarrow> fst s' = (fst s)\<lparr>m_recv := m_recv (fst s')\<rparr>"
  by (auto simp: ReadN_def split: bind_splits)

lemma read_code:
  assumes "recv_ok s" "8 \<le> length (recv_data s)"
  shows "\<exists>r. ReadInt32 e s = Some (Some (of_be (take 4 (recv_data s))), (fst s)\<lparr>m_recv := r\<rparr>, snd s) \<and>
    ring_ok r \<and> ring_data r = drop 4 (recv_data s)"
proof -
  have "recv_data s \<noteq> []" using assms(2) by auto
  then obtain s' where s': "ReadN 4 s = Some ((True, Some 4, take 4 (recv_data s)), s')" "recv_ok s'"
    "recv_data s' = drop 4 (recv_data s)" "snd s' = snd s"
    using ReadN_ok [OF assms(1), of 4] assms(2) by (auto split: if_splits)
  then have "ReadInt32 e s = Some (Some (of_be (take 4 (recv_data s))), s')"
    using assms(2) by (simp add: ReadInt32_def recv_int_def recv_image_def ntoh_mem_load)
  moreover have "s' = ((fst s)\<lparr>m_recv := m_recv (fst s')\<rparr>, snd s)"
    using ReadN_recv [OF s'(1)] s'(4) by (simp add: prod_eq_iff)
  ultimately show ?thesis using s'(2,3) by (metis recv_ok_def)
qed

text \<open>
  It always returns; it takes bytes out of the connection only up to the end of the frame, and it
  reports a message exactly when the frame is complete.
\<close>

lemma ReceiveIntMessage_ok:
  assumes lin: "linear (m_recv (fst s))" and H: "small_blocks H" and part: "\<not> has_frame (recv_data s)"
  shows "\<exists>r m rg w xs. ReceiveIntMessage e H K s = Some ((r, m), (fst s)\<lparr>m_recv := rg\<rparr>, w) \<and>
    took xs (snd s) w \<and> ring_ok rg \<and>
    (if r = RECEIVE_INT_MESSAGE_TRUE
     then has_frame (recv_data s @ xs) \<and> length (recv_data s @ xs) = frame_length (recv_data s @ xs) \<and>
       m = Some (fst (first_frame (recv_data s @ xs))) \<and> ring_data rg = drop 4 (recv_data s @ xs)
     else linear rg \<and> ring_data rg = recv_data s @ xs \<and> (r = RECEIVE_INT_MESSAGE_INTERIM \<longrightarrow>
       \<not> has_frame (recv_data s @ xs)))"
proof -
  from receive_header_ok [OF lin H, of K] obtain ret h r1 w1 xs where
    1: "receive_header H K s = Some ((ret, h), (fst s)\<lparr>m_recv := r1\<rparr>, w1)" "linear r1"
    "ring_data r1 = recv_data s @ xs" "took xs (snd s) w1" "ret \<noteq> Some RECEIVE_INT_MESSAGE_TRUE"
    "ret = Some RECEIVE_INT_MESSAGE_INTERIM \<longrightarrow> length (ring_data r1) < 8"
    "ret = None \<longrightarrow> 8 \<le> length (ring_data r1) \<and> (if h then length (ring_data r1) = 8 else xs = [])"
    by (elim exE conjE) blast
  show ?thesis
  proof (cases ret)
    case (Some r)
    then have "ReceiveIntMessage e H K s = Some ((r, None), (fst s)\<lparr>m_recv := r1\<rparr>, w1)"
      by (simp add: ReceiveIntMessage_def 1(1))
    then show ?thesis using 1(2-6) Some
      by (intro exI [of _ r] exI [of _ None] exI [of _ r1] exI [of _ w1] exI [of _ xs])
        (auto simp: has_frame_def linear_def)
  next
    case None
    let ?s1 = "((fst s)\<lparr>m_recv := r1\<rparr>, w1)"
    define d where "d = recv_data s @ xs"
    note d = d_def [symmetric]
    have l8: "8 \<le> length d" and h: "if h then length d = 8 else xs = []" using 1(3,7) None by (auto simp: d)
    have open_frame: "length d \<le> 8 + nat (body_size d)"
      using h part l8 d_def by (auto simp: has_frame_def frame_length_def split: if_splits)
    have "body_size d < 2 ^ 31" using sint_less [of "of_be (take 4 (drop 4 d)) :: i32"]
      by (simp add: body_size_def)
    with 1(2) H l8 open_frame have "\<exists>ret r w ys. receive_body H K h (body_size d) ?s1 = Some (ret, (fst s)\<lparr>m_recv := r\<rparr>, w) \<and>
      linear r \<and> ring_data r = d @ ys \<and> took ys w1 w \<and> length (d @ ys) \<le> 8 + nat (body_size d) \<and>
      ret \<in> {None, Some RECEIVE_INT_MESSAGE_FALSE} \<and> (ret = None \<longrightarrow> 8 + body_size d < 2 ^ 31)"
      using receive_body_ok [of ?s1 H "body_size d" K h] by (simp add: 1(3) d cong: conj_cong)
    then obtain ret2 r2 w2 ys where
      2: "receive_body H K h (body_size d) ?s1 = Some (ret2, (fst s)\<lparr>m_recv := r2\<rparr>, w2)" "linear r2"
      "ring_data r2 = d @ ys" "took ys w1 w2" "length (d @ ys) \<le> 8 + nat (body_size d)"
      "ret2 \<in> {None, Some RECEIVE_INT_MESSAGE_FALSE}" "ret2 = None \<longrightarrow> 8 + body_size d < 2 ^ 31"
      by (elim exE conjE) blast
    have look: "LookAheadInt32 e 4 ((fst s)\<lparr>m_recv := r1\<rparr>) =
        Some (True, Some (of_be (take 4 (drop 4 d))))"
      using look_ahead_size [of ?s1] 1(2,3) l8 by (simp add: recv_ok_def linear_def d)
    have t: "took (xs @ ys) (snd s) w2" using took_trans [OF 1(4) 2(4)] .
    have b: "body_size (d @ ys) = body_size d" using body_size_append [OF l8] .
    have g: "GetCurrentRecvDataSize ((fst s)\<lparr>m_recv := r2\<rparr>) = int (length (d @ ys))"
      using linear_used [OF 2(2)] 2(3) by (simp add: GetCurrentRecvDataSize_def)
    show ?thesis
    proof (cases ret2)
      case (Some r)
      then have "r = RECEIVE_INT_MESSAGE_FALSE" using 2(6) by simp
      then have "ReceiveIntMessage e H K s = Some ((RECEIVE_INT_MESSAGE_FALSE, None), (fst s)\<lparr>m_recv := r2\<rparr>, w2)"
        using None Some by (simp add: ReceiveIntMessage_def 1(1) look 2(1) flip: body_size_def)
      then show ?thesis using 2(2,3) t by (auto simp: linear_def d_def)
    next
      case none2: None
      have run: "ReceiveIntMessage e H K s =
          (if int (length (d @ ys)) < 8 + body_size d
           then Some ((RECEIVE_INT_MESSAGE_INTERIM, None), (fst s)\<lparr>m_recv := r2\<rparr>, w2)
           else do {
             (r, s3) \<leftarrow> ReadInt32 e ((fst s)\<lparr>m_recv := r2\<rparr>, w2);
             Some (case r of None \<Rightarrow> (RECEIVE_INT_MESSAGE_INTERIM, None)
                   | Some m \<Rightarrow> (RECEIVE_INT_MESSAGE_TRUE, Some m), s3) })"
        using None none2 2(7) g
        by (simp add: ReceiveIntMessage_def 1(1) look 2(1) flip: body_size_def)
      show ?thesis
      proof (cases "int (length (d @ ys)) < 8 + body_size d")
        case True
        then have "length (d @ ys) < 8 + nat (body_size d)" by linarith
        then have "\<not> has_frame (d @ ys)" by (simp add: has_frame_def frame_length_def b)
        then show ?thesis using run True 2(2,3) t by (auto simp: linear_def d_def)
      next
        case False
        let ?f = "d @ ys"
        have f: "has_frame ?f" "length ?f = frame_length ?f"
          using False 2(5) b l8 by (auto simp: has_frame_def frame_length_def)
        have "recv_ok ((fst s)\<lparr>m_recv := r2\<rparr>, w2)" "8 \<le> length (recv_data ((fst s)\<lparr>m_recv := r2\<rparr>, w2))"
          using 2(2,3) l8 by (simp_all add: recv_ok_def linear_def)
        from read_code [OF this, of e] obtain r3 where
          3: "ReadInt32 e ((fst s)\<lparr>m_recv := r2\<rparr>, w2) = Some (Some (of_be (take 4 ?f)), (fst s)\<lparr>m_recv := r3\<rparr>, w2)"
          "ring_ok r3" "ring_data r3 = drop 4 ?f" by (auto simp: 2(3))
        then have "ReceiveIntMessage e H K s =
            Some ((RECEIVE_INT_MESSAGE_TRUE, Some (fst (first_frame ?f))), (fst s)\<lparr>m_recv := r3\<rparr>, w2)"
          using False by (simp only: run if_False 3(1) bind.simps prod.case option.case first_frame_def fst_conv)
        then show ?thesis using t f 3(2,3)
          by (intro exI [of _ RECEIVE_INT_MESSAGE_TRUE] exI [of _ "Some (fst (first_frame ?f))"] exI [of _ r3]
              exI [of _ w2] exI [of _ "xs @ ys"]) (simp add: d_def)
      qed
    qed
  qed
qed

section \<open>A connection as a sequence of messages\<close>

text \<open>
  How a derived class deals with a connection: it calls \<open>ReceiveIntMessage\<close> when there is something
  to read, and its \<open>OnMessage\<close> reads the rest of the frame, the size and the body.  The list collects
  the messages.
\<close>

inductive serves_frames ::
  "endian \<Rightarrow> heap \<Rightarrow> kernel \<Rightarrow> sock_state \<Rightarrow> (i32 \<times> byte list) list \<Rightarrow> sock_state \<Rightarrow> bool"
  for e H K s where
  open_conn: "serves_frames e H K s [] s"
| interim: "serves_frames e H K s ms t \<Longrightarrow>
    ReceiveIntMessage e H K t = Some ((RECEIVE_INT_MESSAGE_INTERIM, m), u) \<Longrightarrow> serves_frames e H K s ms u"
| message: "serves_frames e H K s ms t \<Longrightarrow>
    ReceiveIntMessage e H K t = Some ((RECEIVE_INT_MESSAGE_TRUE, Some m), u) \<Longrightarrow>
    ReadN (GetCurrentRecvDataSize (fst u)) u = Some ((True, k, bs), v) \<Longrightarrow>
    serves_frames e H K s (ms @ [(m, drop 4 bs)]) v"

text \<open>The state of a connection between two messages.\<close>

definition between_frames :: "sock_state \<Rightarrow> bool" where
  "between_frames s \<longleftrightarrow> linear (m_recv (fst s)) \<and> \<not> has_frame (recv_data s)"

lemma split_no_frame: "\<not> has_frame bs \<Longrightarrow> split_frames bs = ([], bs)"
  by (simp add: split_frames.simps [of bs])

lemma split_one_frame:
  assumes "has_frame bs" "length bs = frame_length bs"
  shows "split_frames bs = ([first_frame bs], [])"
  using assms by (simp add: split_frames.simps [of bs] split_no_frame has_frame_def)

lemma frame_rest:
  "length bs = frame_length bs \<Longrightarrow> (fst (first_frame bs), drop 4 (drop 4 bs)) = first_frame bs"
  by (simp add: first_frame_def frame_length_def)

lemma serves_frames_split:
  assumes "serves_frames e H K s ms t" "between_frames s" "recv_data s = []" "small_blocks H"
  shows "between_frames t \<and> (\<exists>ys. took ys (snd s) (snd t) \<and> split_frames ys = (ms, recv_data t))"
  using assms
proof (induction rule: serves_frames.induct)
  case open_conn
  then show ?case by (auto simp: split_no_frame between_frames_def intro!: exI [of _ "[]"])
next
  case (interim ms t m u)
  then obtain ys where t: "between_frames t" "took ys (snd s) (snd t)" "split_frames ys = (ms, recv_data t)"
    by blast
  from ReceiveIntMessage_ok [of t H e K] t(1) interim(2,6) obtain xs where
    "took xs (snd t) (snd u)" "linear (m_recv (fst u))" "recv_data u = recv_data t @ xs" "\<not> has_frame (recv_data u)"
    by (auto simp: between_frames_def)
  then show ?case using took_trans [OF t(2)] split_frames_append [OF t(3), of xs]
    by (auto simp: between_frames_def split_no_frame)
next
  case (message ms t m u k bs v)
  then obtain ys where t: "between_frames t" "took ys (snd s) (snd t)" "split_frames ys = (ms, recv_data t)"
    by blast
  from ReceiveIntMessage_ok [of t H e K] t(1) message(2,7) obtain xs where
    u: "took xs (snd t) (snd u)" "recv_ok u" "has_frame (recv_data t @ xs)"
      "length (recv_data t @ xs) = frame_length (recv_data t @ xs)" "m = fst (first_frame (recv_data t @ xs))"
      "recv_data u = drop 4 (recv_data t @ xs)"
    by (auto simp: between_frames_def recv_ok_def)
  let ?f = "recv_data t @ xs"
  have n: "GetCurrentRecvDataSize (fst u) = int (length (recv_data u))"
    using ring_used_ok u(2) by (simp add: GetCurrentRecvDataSize_def recv_ok_def)
  have "recv_data u \<noteq> []" using u(3,6) by (auto simp: has_frame_def)
  then have v: "bs = recv_data u" "recv_ok v" "recv_data v = []" "snd v = snd u"
    using ReadN_ok [OF u(2), of "GetCurrentRecvDataSize (fst u)"] message(3) n by auto
  have "(m, drop 4 bs) = first_frame ?f"
    using frame_rest [OF u(4)] by (simp only: v(1) u(5,6))
  moreover have "split_frames (ys @ xs) = (ms @ [first_frame ?f], [])"
    using split_frames_append [OF t(3), of xs] split_one_frame [OF u(3,4)] by simp
  moreover have "between_frames v"
    using v by (simp add: between_frames_def linear_def recv_ok_def has_frame_def)
  ultimately show ?case using took_trans [OF t(2) u(1)] v(3,4) by auto
qed

section \<open>Sizes close to the largest integer\<close>

text \<open>
  When memory for a block of 2 GB and more is granted, the size of the buffer becomes negative and
  the sum of header and body overflows.
\<close>

lemma ring_prepare_huge:
  assumes "length b < 2 ^ 31" "s < length b" "e < length b" "s \<le> e"
    "2 ^ 31 \<le> length (ring_bytes b s e) + n + 1" "length (ring_bytes b s e) + n + 1 < 2 ^ 33"
    "h_ok H (length (ring_bytes b s e) + n + 1)"
  shows "ring_prepare H n (mk_ring b s e) = Some (True, (mk_ring b s e)
    \<lparr>r_size := to_int32 (int (length (ring_bytes b s e) + n + 1)),
     r_buf := Some (grown H b (length (ring_bytes b s e) + n + 1))\<rparr>)"
proof -
  have u: "length (ring_bytes b s e) < length b" using ring_bytes_less assms(2,3) by simp
  have full: "length b \<le> length (ring_bytes b s e) + n" using assms(1,5) by linarith
  have a: "c_realloc H (Some b) (length (ring_bytes b s e) + n + 1) =
      Some (grown H b (length (ring_bytes b s e) + n + 1))"
    using full assms(7) by (intro c_realloc_grown) simp_all
  have c: "(int e < int s) = False" using assms(4) by simp
  show ?thesis
    by (simp only: ring_prepare_def ring_prepare_sizes_big [OF assms(1-3) full assms(6)] mk_ring_sel Let_def
        nat_int if_False option.case a)
      (simp only: ring.select_convs ring.update_convs mk_ring_def c if_False)
qed

lemma to_int32_huge:
  assumes "2 ^ 31 \<le> n" "n < 2 ^ 32"
  shows "to_int32 n = n - 2 ^ 32"
proof -
  have "(n - 2 ^ 31 + 2 ^ 32) mod 2 ^ 32 = (n - 2 ^ 31) mod 2 ^ 32" by (rule mod_add_self2)
  moreover have "(n - 2 ^ 31) mod 2 ^ 32 = n - 2 ^ 31"
    using assms by (intro mod_pos_pos_trivial) simp_all
  moreover have "n + 2 ^ 31 = n - 2 ^ 31 + 2 ^ 32" by simp
  ultimately have "(n + 2 ^ 31) mod 2 ^ 32 = n - 2 ^ 31" by (simp only:)
  then show ?thesis by (simp add: to_int32_def int_word_sint)
qed

lemma read_header_bytes:
  assumes b: "8 < length b" "length b < 2 ^ 31" and r: "m_recv (fst s) = mk_ring b 0 0"
    and hdr: "k_recv K (clock (snd s)) = RecvData a hdr" "length hdr = 8"
  shows "\<exists>w. receive_header H K s =
      Some ((None, True), (fst s)\<lparr>m_recv := mk_ring (hdr @ drop 8 b) 0 8\<rparr>, w) \<and> clock w = Suc (clock (snd s))"
proof -
  define w where "w = snd (sys_recv K 8 (snd s))"
  have rcv: "sys_recv K 8 (snd s) = (Inr hdr, w)" and cw: "clock w = Suc (clock (snd s))"
    using hdr by (simp_all add: w_def sys_recv_def)
  have d: "ring_bytes b 0 0 = []" "length (ring_bytes b 0 0) + 8 < length b"
    using b(1) by (simp_all add: ring_bytes_def)
  have p: "ring_prepare H 8 (mk_ring b 0 0) = Some (True, mk_ring b 0 0)"
    using ring_prepare_room [of b 0 0 8 H] b d by fastforce
  have ne: "hdr \<noteq> []" using hdr(2) by auto
  have bl: "blit b 0 hdr = Some (hdr @ drop 8 b)" using b(1) hdr(2) by (simp add: blit_def)
  have m: "(mk_ring b 0 0)\<lparr>r_buf := Some (hdr @ drop 8 b), r_end := 8\<rparr> = mk_ring (hdr @ drop 8 b) 0 8"
    using b(1) hdr(2) by (simp add: mk_ring_def)
  have into: "recv_into True K 0 8 (mk_ring b 0 0) (snd s) = Some (None, mk_ring (hdr @ drop 8 b) 0 8, w)"
    using b(1) by (simp add: recv_into.simps [of True K 0 8] rcv ne bl Let_def hdr(2) m recv_into_0)
  have z: "(mk_ring b 0 0)\<lparr>r_start := 0, r_end := 0\<rparr> = mk_ring b 0 0" by (simp add: mk_ring_def)
  have g: "GetCurrentRecvDataSize (fst s) = 0"
    "GetCurrentRecvDataSize ((fst s)\<lparr>m_recv := mk_ring (hdr @ drop 8 b) 0 8\<rparr>) = 8"
    by (simp_all add: GetCurrentRecvDataSize_def r ring_used_def)
  have "b \<noteq> []" using b(1) by auto
  then have "ReadFromNetworkToBuffer_max H K 8 s = Some (True, (fst s)\<lparr>m_recv := mk_ring (hdr @ drop 8 b) 0 8\<rparr>, w)"
    using b(1) by (simp add: ReadFromNetworkToBuffer_max_def PrepareRecvBuffer_def r p Let_def z into recv_into_0)
  then show ?thesis using cw by (simp add: receive_header_def g Let_def)
qed

lemma oversized_frame:
  assumes b: "8 < length b" "length b < 2 ^ 31" and r: "m_recv (fst s) = mk_ring b 0 0"
    and hdr: "k_recv K (clock (snd s)) = RecvData a hdr" "length hdr = 8"
    and later: "k_recv K (Suc (clock (snd s))) = RecvFail CI_EWOULDBLOCK"
    and big: "2 ^ 31 - 8 \<le> body_size hdr" "h_ok H (nat (body_size hdr) + 9)"
  shows "ReceiveIntMessage e H K s = None"
proof -
  let ?n = "body_size hdr" and ?b = "hdr @ drop 8 b"
  obtain w where 1: "receive_header H K s = Some ((None, True), (fst s)\<lparr>m_recv := mk_ring ?b 0 8\<rparr>, w)"
    "clock w = Suc (clock (snd s))" using read_header_bytes [OF b r hdr] by blast
  let ?s1 = "((fst s)\<lparr>m_recv := mk_ring ?b 0 8\<rparr>, w)"
  have l: "length ?b = length b" "ring_bytes ?b 0 8 = hdr" using b(1) hdr(2) by (simp_all add: ring_bytes_def)
  have n: "?n < 2 ^ 31" using sint_less [of "of_be (take 4 (drop 4 hdr)) :: i32"]
    by (simp add: body_size_def)
  have "b \<noteq> []" using b(1) by auto
  then have look: "LookAheadInt32 e 4 (fst ?s1) = Some (True, Some (of_be (take 4 (drop 4 hdr))))"
    using look_ahead_size [of ?s1] b l hdr(2) by (simp add: recv_ok_def ring_ok_mk)
  have g: "GetCurrentRecvDataSize ((fst s)\<lparr>m_recv := mk_ring ?b 0 8\<rparr>) = 8"
    by (simp add: GetCurrentRecvDataSize_def ring_used_def)
  define N where "N = nat ?n + 9"
  have N: "length (ring_bytes ?b 0 8) + nat ?n + 1 = N" using hdr(2) by (simp add: l N_def)
  have NN: "2 ^ 31 \<le> N" "N < 2 ^ 32" "h_ok H N" using big n by (auto simp: N_def)
  define r2 where "r2 = (mk_ring ?b 0 8)\<lparr>r_size := int N - 2 ^ 32, r_buf := Some (grown H ?b N)\<rparr>"
  have prep: "ring_prepare H (nat ?n) (mk_ring ?b 0 8) = Some (True, r2)"
  proof -
    have "ring_prepare H (nat ?n) (mk_ring ?b 0 8) = Some (True, (mk_ring ?b 0 8)
      \<lparr>r_size := to_int32 (int N), r_buf := Some (grown H ?b N)\<rparr>)"
      by (rule ring_prepare_huge [of ?b 0 8 "nat ?n" H, unfolded N])
        (use b l(1) NN in \<open>simp_all only: N\<close>, use b in auto)
    moreover have "to_int32 (int N) = int N - 2 ^ 32" by (rule to_int32_huge) (use NN in simp_all)
    ultimately show ?thesis by (simp only: r2_def)
  qed
  have sel: "r_size r2 = int N - 2 ^ 32" "r_start r2 = 0" "r_end r2 = 8" by (simp_all add: r2_def)
  have neg: "int N - 2 ^ 32 - 8 - 1 \<le> 0" "(8 = int N - 2 ^ 32) = False"
    "(int N - 2 ^ 32 - 8 - 1 > ?n) = False" "((0 :: int) < 8) = True"
    using NN big by auto
  have p: "nat (?n mod 2 ^ 64) = nat ?n" using big n by simp
  have m: "m_recv ((fst s)\<lparr>m_recv := x\<rparr>) = x" "(fst s)\<lparr>m_recv := x, m_recv := y\<rparr> = (fst s)\<lparr>m_recv := y\<rparr>"
    for x y by simp_all
  have fail: "sys_recv K k w = (Inl CI_EWOULDBLOCK, tick w)" for k
    using later by (simp add: sys_recv_def 1(2))
  have into0: "recv_into True K 8 (int N - 2 ^ 32 - 8 - 1) r2 w = Some (None, r2, w)"
    using neg(1) by (simp add: recv_into.simps [of True])
  have into1: "recv_into False K 0 (?n - (int N - 2 ^ 32 - 8 - 1)) r2 w = Some (Some True, r2, tick w)"
    using NN big by (simp add: recv_into.simps [of False] fail)
  have "ReadFromNetworkToBuffer_max H K ?n ?s1 = Some (True, (fst s)\<lparr>m_recv := r2\<rparr>, tick w)"
    by (simp only: ReadFromNetworkToBuffer_max_def PrepareRecvBuffer_def p m prep sel into0 into1 Let_def
        neg(2-4) bind.simps prod.case option.case fst_conv snd_conv if_True if_False simp_thms)
  then have "receive_body H K True ?n ?s1 = Some (None, (fst s)\<lparr>m_recv := r2\<rparr>, tick w)"
    using big(1) by (simp add: receive_body_def g Let_def)
  then show ?thesis using big(1)
    by (simp add: ReceiveIntMessage_def 1(1) look [unfolded fst_conv] flip: body_size_def)
qed

end
