(* ===== verification/Ci_Registry.thy ===== *)
theory Ci_Registry
  imports Ci_Frames Net_Thread
begin

text \<open>
  \<open>CNetworkThread\<close> of \<open>CiUtils/Src/NetworkThread.cpp\<close>, first part: the object, the table for
  \<open>poll\<close> and the sets of sockets.  Unlike its sibling in \<open>legacy_support.cpp\<close> this class owns
  \<open>CCiSocket\<close> objects, to which it has up to three pointers each (in \<open>m_ReadSockets\<close>,
  \<open>m_WriteSockets\<close> and \<open>m_PollSockets\<close>).  The objects that exist are a map from addresses; address
  0 is \<open>NULL\<close>, and the use of an object that is not there is undefined behaviour, \<open>None\<close>.
  Functions that \<open>legacy_support.cpp\<close> has too have the suffix \<open>_ci\<close>.
\<close>

section \<open>The object\<close>

text \<open>
  \<open>CCiThread2\<close> of CiUtils has a second semaphore, with which its users lock it; the rest of the
  class is the code of \<open>legacy_support.cpp\<close> again.
\<close>

record ci_thread2_lock = ci_thread2 +
  m_semLock :: sem

definition CCiThread2_ci :: ci_thread2_lock where
  "CCiThread2_ci =
     ci_thread2.extend
       \<lparr>m_ciThreadHandle = CI_THREAD2_INVALID_THREAD_HANDLE, m_bExit = True,
        m_semExit = snd (Sem_Initialize 1), m_state = CI_THREAD2_READY\<rparr>
       (ci_thread2_lock.fields (snd (Sem_Initialize 1)))"

definition CCiThread2_destroy_ci :: "'a ci_thread2_lock_scheme \<Rightarrow> 'a ci_thread2_lock_scheme" where
  "CCiThread2_destroy_ci o1 =
     o1\<lparr>m_semExit := snd (Sem_Finalize (m_semExit o1)), m_semLock := snd (Sem_Finalize (m_semLock o1))\<rparr>"

definition Thread2_Lock :: "('a ci_thread2_lock_scheme, bool) meth" where
  "Thread2_Lock s = do {
     (ok, x, evs) \<leftarrow> Sem_Wait (m_semLock (fst s)) (sem_events (snd s));
     Some (ok, (fst s)\<lparr>m_semLock := x\<rparr>, (snd s)\<lparr>sem_events := evs\<rparr>) }"

definition Thread2_Unlock :: "'a ci_thread2_lock_scheme \<Rightarrow> bool \<times> 'a ci_thread2_lock_scheme" where
  "Thread2_Unlock o1 = (let (ok, x) = Sem_Post (m_semLock o1) in (ok, o1\<lparr>m_semLock := x\<rparr>))"

definition PrepareComplexing :: "('a ci_thread2_lock_scheme, bool) meth" where
  "PrepareComplexing s = PrepareRunning s"

definition EndComplexing :: "'a ci_thread2_lock_scheme \<Rightarrow> bool \<times> 'a ci_thread2_lock_scheme" where
  "EndComplexing o1 = (True, NotifyExit o1)"

text \<open>
  \<open>ct_objs\<close> and \<open>ct_fresh\<close> stand for the memory: the \<open>CCiSocket\<close> objects that exist and the address of
  the next one.
\<close>

record ci_net_thread = ci_thread2_lock +
  ct_objs :: "nat \<Rightarrow> cisocket option"
  ct_fresh :: nat
  ct_iListenPortNumber :: int
  ct_ListenIPAddr :: cstr
  ct_pListenSocket :: nat
  ct_iReadSocketCount :: int
  ct_ReadSockets :: "nat list"
  ct_iWriteSocketCount :: int
  ct_WriteSockets :: "nat list"
  ct_PollFds :: "pollfd list"
  ct_iPollFdCount :: nat
  ct_PollSockets :: "nat list"
  ct_iEventsCount :: int
  ct_iTimeoutMillisec :: int
  ct_iConnectedSocketSendBufferSize :: int
  ct_iConnectedSocketRecvBufferSize :: int
  ct_iListenQueueSize :: int
  ct_iMaxFDSize :: nat

text \<open>The constructor, in a memory without sockets.\<close>

definition CNetworkThread_ci :: "int \<Rightarrow> int \<Rightarrow> int \<Rightarrow> int \<Rightarrow> cstr \<Rightarrow> nat \<Rightarrow> ci_net_thread" where
  "CNetworkThread_ci iListenPortNumber nsend nrecv iListenQueueSize listenIPAddr iMaxFDSize =
     ci_thread2_lock.extend CCiThread2_ci
       (ci_net_thread.fields Map.empty 1 iListenPortNumber listenIPAddr 0
          0 (replicate iMaxFDSize 0) 0 (replicate iMaxFDSize 0)
          (replicate iMaxFDSize free_pollfd) 0 (replicate iMaxFDSize 0)
          0 0 nsend nrecv iListenQueueSize iMaxFDSize)"

definition NETWORK_THREAD_LISTEN_QUEUE_DEFAULTSIZE :: int where
  "NETWORK_THREAD_LISTEN_QUEUE_DEFAULTSIZE = 5"

definition SetTimeoutMillisec :: "int \<Rightarrow> 'a ci_net_thread_scheme \<Rightarrow> 'a ci_net_thread_scheme" where
  "SetTimeoutMillisec t o1 = o1\<lparr>ct_iTimeoutMillisec := t\<rparr>"

definition SetListenPortNumber :: "int \<Rightarrow> 'a ci_net_thread_scheme \<Rightarrow> 'a ci_net_thread_scheme" where
  "SetListenPortNumber port o1 = o1\<lparr>ct_iListenPortNumber := port\<rparr>"

definition SetListenIPAddr :: "cstr \<Rightarrow> 'a ci_net_thread_scheme \<Rightarrow> 'a ci_net_thread_scheme" where
  "SetListenIPAddr a o1 = o1\<lparr>ct_ListenIPAddr := a\<rparr>"

definition SetConnectedSocketSendBufferSize :: "int \<Rightarrow> 'a ci_net_thread_scheme \<Rightarrow> 'a ci_net_thread_scheme" where
  "SetConnectedSocketSendBufferSize n o1 = o1\<lparr>ct_iConnectedSocketSendBufferSize := n\<rparr>"

definition SetConnectedSocketRecvBufferSize :: "int \<Rightarrow> 'a ci_net_thread_scheme \<Rightarrow> 'a ci_net_thread_scheme" where
  "SetConnectedSocketRecvBufferSize n o1 = o1\<lparr>ct_iConnectedSocketRecvBufferSize := n\<rparr>"

section \<open>Socket objects\<close>

text \<open>A call of a method of \<open>CCiSocket\<close> through a pointer.\<close>

definition on_obj ::
  "nat \<Rightarrow> (sock_state \<Rightarrow> ('r \<times> sock_state) option) \<Rightarrow> ('a ci_net_thread_scheme, 'r) meth" where
  "on_obj p f s = do {
     c \<leftarrow> ct_objs (fst s) p;
     (r, c1, w1) \<leftarrow> f (c, snd s);
     Some (r, (fst s)\<lparr>ct_objs := (ct_objs (fst s))(p \<mapsto> c1)\<rparr>, w1) }"

text \<open>\<open>new\<close> and \<open>delete\<close>; to delete \<open>NULL\<close> does nothing, to delete an object twice is undefined.\<close>

definition obj_new :: "cisocket \<Rightarrow> 'a ci_net_thread_scheme \<Rightarrow> nat \<times> 'a ci_net_thread_scheme" where
  "obj_new c o1 =
     (ct_fresh o1, o1\<lparr>ct_objs := (ct_objs o1)(ct_fresh o1 \<mapsto> c), ct_fresh := Suc (ct_fresh o1)\<rparr>)"

definition obj_delete ::
  "kernel \<Rightarrow> nat \<Rightarrow> 'a ci_net_thread_scheme st \<Rightarrow> 'a ci_net_thread_scheme st option" where
  "obj_delete K p s =
     (if p = 0 then Some s
      else do {
        c \<leftarrow> ct_objs (fst s) p;
        let w1 = snd (CCiSocket_destroy K (c, snd s));
        Some ((fst s)\<lparr>ct_objs := (ct_objs (fst s))(p := None)\<rparr>, w1) })"

definition obj_Disconnect :: "kernel \<Rightarrow> nat \<Rightarrow> ('a ci_net_thread_scheme, bool) meth" where
  "obj_Disconnect K p = on_obj p (\<lambda>x. Some (CiSocket_Disconnect K x))"

definition GetListenSocketFD :: "'a ci_net_thread_scheme \<Rightarrow> fd option" where
  "GetListenSocketFD o1 =
     (if ct_pListenSocket o1 = 0 then Some NU_INVALID_SOCKET
      else map_option m_iSocket (ct_objs o1 (ct_pListenSocket o1)))"

definition CloseListenSocket ::
  "kernel \<Rightarrow> 'a ci_net_thread_scheme st \<Rightarrow> 'a ci_net_thread_scheme st option" where
  "CloseListenSocket K s =
     (let p = ct_pListenSocket (fst s) in
      if p = 0 then Some s
      else do {
        (r, s1) \<leftarrow> obj_Disconnect K p s;
        (o2, w2) \<leftarrow> obj_delete K p s1;
        Some (o2\<lparr>ct_pListenSocket := 0\<rparr>, w2) })"

section \<open>The poll table\<close>

definition PollFDAdd_ci ::
  "nat \<Rightarrow> bool \<Rightarrow> 'a ci_net_thread_scheme \<Rightarrow> (bool \<times> 'a ci_net_thread_scheme) option" where
  "PollFDAdd_ci p bReadCase o1 =
     (if p = 0 then Some (False, o1)
      else do {
        c \<leftarrow> ct_objs o1 p;
        if m_iSocket c = NU_INVALID_SOCKET then Some (False, o1)
        else if ct_iMaxFDSize o1 \<le> ct_iPollFdCount o1 then Some (False, o1)
        else
          (let n = ct_iPollFdCount o1 in
           Some (True, o1\<lparr>ct_PollSockets := (ct_PollSockets o1)[n := p],
                          ct_PollFds := (ct_PollFds o1)[n :=
                            \<lparr>pfd = m_iSocket c,
                             pevents = if bReadCase then read_events else write_events, prevents = 0\<rparr>],
                          ct_iPollFdCount := Suc n\<rparr>)) })"

definition PollFDDelete_ci ::
  "nat \<Rightarrow> 'a ci_net_thread_scheme \<Rightarrow> (bool \<times> 'a ci_net_thread_scheme) option" where
  "PollFDDelete_ci p o1 =
     (if p = 0 then Some (False, o1)
      else do {
        c \<leftarrow> ct_objs o1 p;
        if m_iSocket c = NU_INVALID_SOCKET then Some (False, o1)
        else case poll_find (m_iSocket c) (take (ct_iPollFdCount o1) (ct_PollFds o1)) of
            None \<Rightarrow> Some (False, o1)
          | Some i \<Rightarrow>
              (let l = ct_iPollFdCount o1 - 1; ps = ct_PollFds o1; qs = ct_PollSockets o1;
                   ps1 = (if i \<noteq> l then ps[i := ps ! l] else ps);
                   qs1 = (if i \<noteq> l then qs[i := qs ! l] else qs) in
               Some (True, o1\<lparr>ct_PollFds := ps1[l := free_pollfd], ct_PollSockets := qs1[l := 0],
                              ct_iPollFdCount := l\<rparr>)) })"

definition PollFDEnable_ci :: "pollfd option \<Rightarrow> bool \<Rightarrow> bool \<times> pollfd option" where
  "PollFDEnable_ci pPollFD bReadCase =
     (case pPollFD of
        None \<Rightarrow> (False, None)
      | Some p \<Rightarrow>
          if pfd p = NU_INVALID_SOCKET then (False, Some p)
          else (True, Some (p\<lparr>pevents := pevents p OR (if bReadCase then read_events else write_events)\<rparr>)))"

definition PollFDDisable_ci :: "pollfd option \<Rightarrow> bool \<Rightarrow> bool \<times> pollfd option" where
  "PollFDDisable_ci pPollFD bReadCase =
     (case pPollFD of
        None \<Rightarrow> (False, None)
      | Some p \<Rightarrow>
          if pfd p = NU_INVALID_SOCKET then (False, Some p)
          else (True, Some (p\<lparr>pevents :=
                 pevents p AND NOT (if bReadCase then read_events else write_events)\<rparr>)))"

text \<open>What a call with a pointer to the entry \<open>i\<close> leaves in the table.\<close>

definition set_entry :: "nat \<Rightarrow> pollfd \<Rightarrow> 'a ci_net_thread_scheme \<Rightarrow> 'a ci_net_thread_scheme" where
  "set_entry i p o1 = o1\<lparr>ct_PollFds := (ct_PollFds o1)[i := p]\<rparr>"

definition enable_entry :: "nat \<Rightarrow> bool \<Rightarrow> 'a ci_net_thread_scheme \<Rightarrow> 'a ci_net_thread_scheme" where
  "enable_entry i bReadCase o1 =
     (case snd (PollFDEnable_ci (Some (ct_PollFds o1 ! i)) bReadCase) of
        None \<Rightarrow> o1 | Some p \<Rightarrow> set_entry i p o1)"

definition disable_entry :: "nat \<Rightarrow> bool \<Rightarrow> 'a ci_net_thread_scheme \<Rightarrow> 'a ci_net_thread_scheme" where
  "disable_entry i bReadCase o1 =
     (case snd (PollFDDisable_ci (Some (ct_PollFds o1 ! i)) bReadCase) of
        None \<Rightarrow> o1 | Some p \<Rightarrow> set_entry i p o1)"

definition clear_entry :: "nat \<Rightarrow> 'a ci_net_thread_scheme \<Rightarrow> 'a ci_net_thread_scheme" where
  "clear_entry i o1 = set_entry i ((ct_PollFds o1 ! i)\<lparr>prevents := 0\<rparr>) o1"

text \<open>\<open>FindPollFD\<close> gives the index of the entry; the inner \<open>None\<close> is \<open>NULL\<close>.\<close>

definition FindPollFD :: "nat \<Rightarrow> 'a ci_net_thread_scheme \<Rightarrow> nat option option" where
  "FindPollFD p o1 =
     (if p = 0 then Some None
      else do {
        c \<leftarrow> ct_objs o1 p;
        Some (if m_iSocket c = NU_INVALID_SOCKET then None
              else poll_find (m_iSocket c) (take (ct_iPollFdCount o1) (ct_PollFds o1))) })"

section \<open>The sets of sockets\<close>

text \<open>The search loops over an array of pointers: for a socket with a descriptor, and for a pointer.\<close>

fun find_socket :: "(nat \<Rightarrow> cisocket option) \<Rightarrow> fd \<Rightarrow> nat list \<Rightarrow> nat option" where
  "find_socket h iSocketFD [] = Some 0"
| "find_socket h iSocketFD (p # ps) =
     (if p = 0 then find_socket h iSocketFD ps
      else do {
        c \<leftarrow> h p;
        if m_iSocket c = iSocketFD then Some p else find_socket h iSocketFD ps })"

definition FindSocket :: "fd \<Rightarrow> bool \<Rightarrow> 'a ci_net_thread_scheme \<Rightarrow> nat option" where
  "FindSocket iSocketFD bReadCase o1 =
     find_socket (ct_objs o1) iSocketFD (if bReadCase then ct_ReadSockets o1 else ct_WriteSockets o1)"

fun slot_of :: "nat \<Rightarrow> nat list \<Rightarrow> nat option" where
  "slot_of p [] = None"
| "slot_of p (q # qs) = (if q = p then Some 0 else map_option Suc (slot_of p qs))"

definition AddReadSocket_ci ::
  "nat \<Rightarrow> 'a ci_net_thread_scheme \<Rightarrow> bool \<times> 'a ci_net_thread_scheme" where
  "AddReadSocket_ci p o1 =
     (if p = 0 then (False, o1)
      else case slot_of 0 (ct_ReadSockets o1) of
          None \<Rightarrow> (False, o1)
        | Some i \<Rightarrow> (True, o1\<lparr>ct_ReadSockets := (ct_ReadSockets o1)[i := p],
                             ct_iReadSocketCount := ct_iReadSocketCount o1 + 1\<rparr>))"

definition DeleteReadSocket_ci :: "kernel \<Rightarrow> nat \<Rightarrow> bool \<Rightarrow> ('a ci_net_thread_scheme, bool) meth" where
  "DeleteReadSocket_ci K p bPreserve s =
     (if p = 0 then Some (False, s)
      else case slot_of p (ct_ReadSockets (fst s)) of
          None \<Rightarrow> Some (False, s)
        | Some i \<Rightarrow> do {
            (o1, w1) \<leftarrow> (if \<not> bPreserve then obj_delete K p s else Some s);
            Some (True, o1\<lparr>ct_ReadSockets := (ct_ReadSockets o1)[i := 0],
                           ct_iReadSocketCount := ct_iReadSocketCount o1 - 1\<rparr>, w1) })"

definition AddWriteSocket_ci ::
  "nat \<Rightarrow> 'a ci_net_thread_scheme \<Rightarrow> bool \<times> 'a ci_net_thread_scheme" where
  "AddWriteSocket_ci p o1 =
     (if p = 0 then (False, o1)
      else case slot_of 0 (ct_WriteSockets o1) of
          None \<Rightarrow> (False, o1)
        | Some i \<Rightarrow> (True, o1\<lparr>ct_WriteSockets := (ct_WriteSockets o1)[i := p],
                             ct_iWriteSocketCount := ct_iWriteSocketCount o1 + 1\<rparr>))"

definition DeleteWriteSocket_ci :: "kernel \<Rightarrow> nat \<Rightarrow> bool \<Rightarrow> ('a ci_net_thread_scheme, bool) meth" where
  "DeleteWriteSocket_ci K p bPreserve s =
     (if p = 0 then Some (False, s)
      else case slot_of p (ct_WriteSockets (fst s)) of
          None \<Rightarrow> Some (False, s)
        | Some i \<Rightarrow> do {
            (o1, w1) \<leftarrow> (if \<not> bPreserve then obj_delete K p s else Some s);
            Some (True, o1\<lparr>ct_WriteSockets := (ct_WriteSockets o1)[i := 0],
                           ct_iWriteSocketCount := ct_iWriteSocketCount o1 - 1\<rparr>, w1) })"

section \<open>Errors of sockets\<close>

definition DisableSocket_ci :: "kernel \<Rightarrow> nat \<Rightarrow> ('a ci_net_thread_scheme, bool) meth" where
  "DisableSocket_ci K p s =
     (if p = 0 then Some (False, s)
      else do {
        (found, o1) \<leftarrow> PollFDDelete_ci p (fst s);
        (ok, s2) \<leftarrow> obj_Disconnect K p (o1, snd s);
        Some (True, s2) })"

definition OnReadSocketError_ci :: "kernel \<Rightarrow> nat \<Rightarrow> ('a ci_net_thread_scheme, bool) meth" where
  "OnReadSocketError_ci K p s =
     (if p = 0 then Some (False, s)
      else do {
        (_, s1) \<leftarrow> DisableSocket_ci K p s;
        (_, s2) \<leftarrow> DeleteWriteSocket_ci K p True s1;
        (_, s3) \<leftarrow> DeleteReadSocket_ci K p True s2;
        s4 \<leftarrow> obj_delete K p s3;
        Some (True, s4) })"

definition OnWriteSocketError_ci :: "kernel \<Rightarrow> nat \<Rightarrow> ('a ci_net_thread_scheme, bool) meth" where
  "OnWriteSocketError_ci K p s =
     (if p = 0 then Some (False, s)
      else do {
        (_, s1) \<leftarrow> DisableSocket_ci K p s;
        (_, s2) \<leftarrow> DeleteReadSocket_ci K p True s1;
        (_, s3) \<leftarrow> DeleteWriteSocket_ci K p True s2;
        s4 \<leftarrow> obj_delete K p s3;
        Some (True, s4) })"

text \<open>
  The loop of the two functions that clean up an array: it gives the new array and how many entries
  it dropped.  It looks at the socket of every entry, also of one that is \<open>NULL\<close>.
\<close>

fun drop_disabled ::
  "kernel \<Rightarrow> bool \<Rightarrow> nat list \<Rightarrow> 'a ci_net_thread_scheme st \<Rightarrow>
     ((nat list \<times> int) \<times> 'a ci_net_thread_scheme st) option" where
  "drop_disabled K bPreserve [] s = Some (([], 0), s)"
| "drop_disabled K bPreserve (p # ps) s =
     (if p = 0 then None
      else do {
        c \<leftarrow> ct_objs (fst s) p;
        if m_iSocket c = NU_INVALID_SOCKET then do {
          s1 \<leftarrow> (if \<not> bPreserve then obj_delete K p s else Some s);
          ((qs, n), s2) \<leftarrow> drop_disabled K bPreserve ps s1;
          Some ((0 # qs, n + 1), s2) }
        else do {
          ((qs, n), s2) \<leftarrow> drop_disabled K bPreserve ps s;
          Some ((p # qs, n), s2) } })"

definition DeleteDisabledReadSockets :: "kernel \<Rightarrow> bool \<Rightarrow> ('a ci_net_thread_scheme, bool) meth" where
  "DeleteDisabledReadSockets K bPreserve s = do {
     ((qs, n), o1, w1) \<leftarrow> drop_disabled K bPreserve (ct_ReadSockets (fst s)) s;
     Some (True, o1\<lparr>ct_ReadSockets := qs, ct_iReadSocketCount := ct_iReadSocketCount o1 - n\<rparr>, w1) }"

definition DeleteDisabledWriteSockets :: "kernel \<Rightarrow> bool \<Rightarrow> ('a ci_net_thread_scheme, bool) meth" where
  "DeleteDisabledWriteSockets K bPreserve s = do {
     ((qs, n), o1, w1) \<leftarrow> drop_disabled K bPreserve (ct_WriteSockets (fst s)) s;
     Some (True, o1\<lparr>ct_WriteSockets := qs, ct_iWriteSocketCount := ct_iWriteSocketCount o1 - n\<rparr>, w1) }"

section \<open>Taking up writing and reading\<close>

text \<open>Set the events of a socket's entry, or give it an entry.\<close>

definition watch ::
  "nat \<Rightarrow> bool \<Rightarrow> 'a ci_net_thread_scheme \<Rightarrow> 'a ci_net_thread_scheme option" where
  "watch p bReadCase o1 = do {
     pPollFD \<leftarrow> FindPollFD p o1;
     case pPollFD of
       Some i \<Rightarrow> Some (enable_entry i bReadCase o1)
     | None \<Rightarrow> map_option snd (PollFDAdd_ci p bReadCase o1) }"

definition CheckWriteOperation ::
  "nat \<Rightarrow> 'a ci_net_thread_scheme \<Rightarrow> (bool \<times> 'a ci_net_thread_scheme) option" where
  "CheckWriteOperation p o1 =
     (if p = 0 then Some (False, o1)
      else do {
        c \<leftarrow> ct_objs o1 p;
        if m_iSocket c = NU_INVALID_SOCKET then Some (False, o1)
        else if GetRemainSendDataSize c > 0 then do {
          q \<leftarrow> FindSocket (m_iSocket c) False o1;
          if q = 0 then do { o2 \<leftarrow> watch p False o1; Some (AddWriteSocket_ci p o2) }
          else Some (True, o1) }
        else Some (True, o1) })"

definition AddReadOperation ::
  "nat \<Rightarrow> 'a ci_net_thread_scheme \<Rightarrow> (bool \<times> 'a ci_net_thread_scheme) option" where
  "AddReadOperation p o1 = do {
     c \<leftarrow> (if p = 0 then None else ct_objs o1 p);
     q \<leftarrow> FindSocket (m_iSocket c) True o1;
     if q = 0 then do { o2 \<leftarrow> watch p True o1; Some (AddReadSocket_ci p o2) }
     else Some (True, o1) }"

end
