(* ===== verification/Ci_Registry_Inv.thy ===== *)
theory Ci_Registry_Inv
  imports Ci_Registry
begin

text \<open>
  What holds of the tables of \<open>CNetworkThread\<close> (\<open>NetworkThread.cpp\<close>) between its operations, and that
  adding, dropping and deleting sockets keep it.  \<open>table\<close> is the part of the poll table in use;
  \<open>socks\<close> are the pointers in an array; \<open>ct_wf\<close> says that the three tables agree with each other and
  with the objects that exist: each object is the listen socket or a connection, and every pointer
  in a table is that of an object.
\<close>

section \<open>Arrays of pointers\<close>

definition socks :: "nat list \<Rightarrow> nat set" where
  "socks ps = set ps - {0}"

definition packed :: "nat list \<Rightarrow> bool" where
  "packed ps \<longleftrightarrow> (\<forall>i<length ps. \<forall>j<length ps. ps ! i \<noteq> 0 \<longrightarrow> ps ! i = ps ! j \<longrightarrow> i = j)"

lemma slot_of_Some: "slot_of p ps = Some i \<Longrightarrow> i < length ps \<and> ps ! i = p"
  by (induction p ps arbitrary: i rule: slot_of.induct) (auto split: if_splits)

lemma slot_of_None_iff: "slot_of p ps = None \<longleftrightarrow> p \<notin> set ps"
  by (induction p ps rule: slot_of.induct) auto

lemma finite_socks [simp]: "finite (socks ps)"
  by (simp add: socks_def)

lemma zero_socks [simp]: "0 \<notin> socks ps"
  by (simp add: socks_def)

lemma socks_replicate [simp]: "socks (replicate n 0) = {}"
  by (auto simp: socks_def)

lemma packed_replicate [simp]: "packed (replicate n 0)"
  by (simp add: packed_def)

lemma in_socks_conv: "p \<in> socks ps \<longleftrightarrow> p \<noteq> 0 \<and> (\<exists>i<length ps. ps ! i = p)"
  by (auto simp: socks_def in_set_conv_nth)

lemma nth_update_if: "xs[i := x] ! j = (if i = j \<and> j < length xs then x else xs ! j)"
  by (cases "i < length xs") (auto simp: nth_list_update list_update_beyond)

lemma socks_put:
  assumes "i < length ps" "ps ! i = 0" "p \<noteq> 0"
  shows "socks (ps[i := p]) = insert p (socks ps)"
proof (intro equalityI subsetI)
  fix q assume "q \<in> socks (ps[i := p])"
  then show "q \<in> insert p (socks ps)" by (auto simp: in_socks_conv nth_update_if split: if_splits)
next
  fix q assume "q \<in> insert p (socks ps)"
  then consider "q = p" | j where "j < length ps" "ps ! j = q" "q \<noteq> 0" by (auto simp: in_socks_conv)
  then show "q \<in> socks (ps[i := p])"
  proof cases
    case 1
    then show ?thesis using assms by (auto simp: in_socks_conv nth_update_if intro!: exI [of _ i])
  next
    case 2
    then show ?thesis using assms by (auto simp: in_socks_conv nth_update_if intro!: exI [of _ j])
  qed
qed

lemma packed_put: "packed ps \<Longrightarrow> p \<notin> socks ps \<Longrightarrow> packed (ps[i := p])"
  unfolding packed_def in_socks_conv length_list_update nth_update_if by metis

lemma socks_drop:
  assumes "packed ps" "i < length ps" "ps ! i = p" "p \<noteq> 0"
  shows "socks (ps[i := 0]) = socks ps - {p}"
proof (intro equalityI subsetI)
  fix q assume "q \<in> socks (ps[i := 0])"
  then obtain j where "j < length ps" "j \<noteq> i" "ps ! j = q" "q \<noteq> 0"
    by (auto simp: in_socks_conv nth_update_if split: if_splits)
  moreover from this have "q \<noteq> p" using assms unfolding packed_def by metis
  ultimately show "q \<in> socks ps - {p}" by (auto simp: in_socks_conv)
next
  fix q assume "q \<in> socks ps - {p}"
  then obtain j where "j < length ps" "j \<noteq> i" "ps ! j = q" "q \<noteq> 0"
    using assms(3) by (auto simp: in_socks_conv)
  then show "q \<in> socks (ps[i := 0])" by (auto simp: in_socks_conv nth_update_if intro!: exI [of _ j])
qed

lemma packed_drop: "packed ps \<Longrightarrow> packed (ps[i := 0])"
  unfolding packed_def length_list_update nth_update_if by metis

lemma packed_full:
  assumes "packed ps" "0 \<notin> set ps"
  shows "card (socks ps) = length ps"
proof -
  have "distinct ps" using assms by (auto simp: distinct_conv_nth packed_def in_set_conv_nth)
  moreover have "socks ps = set ps" using assms(2) by (auto simp: socks_def)
  ultimately show ?thesis by (simp add: distinct_card)
qed

lemma find_socket_result:
  assumes "\<forall>p\<in>socks ps. h p \<noteq> None"
  shows "\<exists>q. find_socket h f ps = Some q \<and> q \<in> insert 0 (socks ps) \<and>
    (q = 0 \<longrightarrow> (\<forall>p\<in>socks ps. m_iSocket (the (h p)) \<noteq> f)) \<and>
    (q \<noteq> 0 \<longrightarrow> m_iSocket (the (h q)) = f)"
  using assms
proof (induction h f ps rule: find_socket.induct)
  case (2 h f p ps)
  have more: "socks (p # ps) = (if p = 0 then socks ps else insert p (socks ps))" by (auto simp: socks_def)
  show ?case
  proof (cases "p = 0")
    case True
    then show ?thesis using 2 more by simp
  next
    case False
    then obtain c where c: "h p = Some c" using "2.prems" more by auto
    show ?thesis
    proof (cases "m_iSocket c = f")
      case True
      then show ?thesis using False c more by simp
    next
      case nf: False
      obtain q where "find_socket h f ps = Some q" "q \<in> insert 0 (socks ps)"
        "q = 0 \<longrightarrow> (\<forall>p\<in>socks ps. m_iSocket (the (h p)) \<noteq> f)" "q \<noteq> 0 \<longrightarrow> m_iSocket (the (h q)) = f"
        using "2.IH"(2) [OF False c nf] "2.prems" more False by auto
      then show ?thesis using False c nf more by auto
    qed
  qed
qed (simp add: socks_def)

section \<open>The poll table\<close>

definition table :: "'a ci_net_thread_scheme \<Rightarrow> (pollfd \<times> nat) list" where
  "table o1 = zip (take (ct_iPollFdCount o1) (ct_PollFds o1)) (take (ct_iPollFdCount o1) (ct_PollSockets o1))"

definition entry_fd :: "pollfd \<times> nat \<Rightarrow> fd" where
  "entry_fd x = pfd (fst x)"

definition table_wf :: "'a ci_net_thread_scheme \<Rightarrow> bool" where
  "table_wf o1 \<longleftrightarrow>
     length (ct_PollFds o1) = ct_iMaxFDSize o1 \<and> length (ct_PollSockets o1) = ct_iMaxFDSize o1 \<and>
     ct_iPollFdCount o1 \<le> ct_iMaxFDSize o1 \<and> distinct (map entry_fd (table o1)) \<and>
     (\<forall>(e, p) \<in> set (table o1). pfd e \<noteq> NU_INVALID_SOCKET \<and> p \<noteq> 0 \<and>
        (\<exists>c. ct_objs o1 p = Some c \<and> m_iSocket c = pfd e))"

lemma table_wfI:
  assumes "length (ct_PollFds o1) = ct_iMaxFDSize o1" "length (ct_PollSockets o1) = ct_iMaxFDSize o1"
    "ct_iPollFdCount o1 \<le> ct_iMaxFDSize o1" "distinct (map entry_fd (table o1))"
    "\<And>e p. (e, p) \<in> set (table o1) \<Longrightarrow> pfd e \<noteq> NU_INVALID_SOCKET \<and> p \<noteq> 0 \<and>
       (\<exists>c. ct_objs o1 p = Some c \<and> m_iSocket c = pfd e)"
  shows "table_wf o1"
  using assms unfolding table_wf_def by blast

lemma table_wfD:
  assumes "table_wf o1"
  shows "length (ct_PollFds o1) = ct_iMaxFDSize o1" "length (ct_PollSockets o1) = ct_iMaxFDSize o1"
    "ct_iPollFdCount o1 \<le> ct_iMaxFDSize o1" "distinct (map entry_fd (table o1))"
  using assms unfolding table_wf_def by blast+

lemma length_table: "table_wf o1 \<Longrightarrow> length (table o1) = ct_iPollFdCount o1"
  by (simp add: table_wf_def table_def)

lemma table_nth:
  "table_wf o1 \<Longrightarrow> i < ct_iPollFdCount o1 \<Longrightarrow> table o1 ! i = (ct_PollFds o1 ! i, ct_PollSockets o1 ! i)"
  by (simp add: table_wf_def table_def)

lemma table_entry:
  assumes "table_wf o1" "(e, p) \<in> set (table o1)"
  obtains c where "pfd e \<noteq> NU_INVALID_SOCKET" "p \<noteq> 0" "ct_objs o1 p = Some c" "m_iSocket c = pfd e"
  using assms unfolding table_wf_def by fast

lemma table_at:
  assumes "table_wf o1" "i < ct_iPollFdCount o1"
  shows "(ct_PollFds o1 ! i, ct_PollSockets o1 ! i) \<in> set (table o1)"
  using assms table_nth [OF assms] length_table [OF assms(1)] by (metis nth_mem)

text \<open>The search for a socket's descriptor finds its entry.\<close>

lemma table_find:
  assumes wf: "table_wf o1" and e: "(e, p) \<in> set (table o1)"
  obtains i where "poll_find (pfd e) (take (ct_iPollFdCount o1) (ct_PollFds o1)) = Some i"
    "i < ct_iPollFdCount o1" "ct_PollFds o1 ! i = e" "ct_PollSockets o1 ! i = p"
proof -
  let ?n = "ct_iPollFdCount o1"
  have l: "length (table o1) = ?n" "?n \<le> length (ct_PollFds o1)"
    using wf length_table [OF wf] by (simp_all add: table_wf_def)
  obtain j where j: "j < ?n" "table o1 ! j = (e, p)" using e l by (metis in_set_conv_nth)
  then have je: "ct_PollFds o1 ! j = e" "ct_PollSockets o1 ! j = p" using table_nth [OF wf, of j] by simp_all
  have "pfd e \<in> pfd ` set (take ?n (ct_PollFds o1))"
    using j(1) je(1) l(2) by (auto simp: in_set_conv_nth intro!: image_eqI [of _ _ e] exI [of _ j])
  then obtain i where i: "poll_find (pfd e) (take ?n (ct_PollFds o1)) = Some i"
    using poll_find_None_iff [of "pfd e" "take ?n (ct_PollFds o1)"] by blast
  then have i2: "i < ?n" "pfd (ct_PollFds o1 ! i) = pfd e" using poll_find_Some [OF i] by auto
  have "map entry_fd (table o1) ! i = map entry_fd (table o1) ! j"
    using i2 j l table_nth [OF wf, of i] by (simp add: entry_fd_def)
  moreover have "distinct (map entry_fd (table o1))" using wf by (simp add: table_wf_def)
  ultimately have "i = j" using l(1) i2(1) j(1) nth_eq_iff_index_eq by (metis length_map)
  then show ?thesis using that i i2 je by blast
qed

lemma FindPollFD_entry:
  assumes wf: "table_wf o1" and e: "(e, p) \<in> set (table o1)"
  obtains i where "FindPollFD p o1 = Some (Some i)" "i < ct_iPollFdCount o1" "ct_PollFds o1 ! i = e"
    "ct_PollSockets o1 ! i = p"
proof -
  obtain c where "pfd e \<noteq> NU_INVALID_SOCKET" "p \<noteq> 0" "ct_objs o1 p = Some c" "m_iSocket c = pfd e"
    using table_entry [OF assms] .
  moreover obtain i where "poll_find (pfd e) (take (ct_iPollFdCount o1) (ct_PollFds o1)) = Some i"
    "i < ct_iPollFdCount o1" "ct_PollFds o1 ! i = e" "ct_PollSockets o1 ! i = p"
    using table_find [OF assms] .
  ultimately show ?thesis using that by (simp add: FindPollFD_def)
qed

text \<open>Moving the last entry into the place of a deleted one takes just that one out.\<close>

lemma swap_out:
  assumes "i < length xs" "distinct (map f xs)"
  shows "set (butlast (xs[i := last xs])) = set xs - {xs ! i}"
    "distinct (map f (butlast (xs[i := last xs])))"
proof -
  let ?ys = "butlast (xs[i := last xs])"
  have "mset xs = mset (xs ! i # ?ys)" using mset_swap_remove [OF assms(1)] assms(1) by simp
  then have "mset (map f xs) = mset (map f (xs ! i # ?ys))" "set xs = set (xs ! i # ?ys)"
    by (metis mset_map, metis mset_eq_setD)
  then have "distinct (map f (xs ! i # ?ys))" "set xs = insert (xs ! i) (set ?ys)"
    using assms(2) mset_eq_imp_distinct_iff by (blast, simp)
  then show "set ?ys = set xs - {xs ! i}" "distinct (map f ?ys)" by auto
qed

lemma PollFDDelete_entry:
  assumes wf: "table_wf o1" and e: "(e, p) \<in> set (table o1)"
  obtains a b where "PollFDDelete_ci p o1 =
      Some (True, o1\<lparr>ct_PollFds := a, ct_PollSockets := b, ct_iPollFdCount := ct_iPollFdCount o1 - 1\<rparr>)"
    "length a = ct_iMaxFDSize o1" "length b = ct_iMaxFDSize o1"
    "set (zip (take (ct_iPollFdCount o1 - 1) a) (take (ct_iPollFdCount o1 - 1) b)) = set (table o1) - {(e, p)}"
    "distinct (map entry_fd (zip (take (ct_iPollFdCount o1 - 1) a) (take (ct_iPollFdCount o1 - 1) b)))"
proof -
  let ?n = "ct_iPollFdCount o1" and ?ps = "ct_PollFds o1" and ?qs = "ct_PollSockets o1"
  obtain c where c: "pfd e \<noteq> NU_INVALID_SOCKET" "p \<noteq> 0" "ct_objs o1 p = Some c" "m_iSocket c = pfd e"
    using table_entry [OF assms] .
  obtain i where i: "poll_find (pfd e) (take ?n ?ps) = Some i" "i < ?n" "?ps ! i = e" "?qs ! i = p"
    using table_find [OF assms] .
  have l: "?n \<le> length ?ps" "?n \<le> length ?qs" "length ?ps = ct_iMaxFDSize o1" "length ?qs = ct_iMaxFDSize o1"
    using wf by (simp_all add: table_wf_def)
  define a where "a = (if i \<noteq> ?n - 1 then ?ps[i := ?ps ! (?n - 1)] else ?ps)[?n - 1 := free_pollfd]"
  define b where "b = (if i \<noteq> ?n - 1 then ?qs[i := ?qs ! (?n - 1)] else ?qs)[?n - 1 := 0]"
  have ta: "take (?n - 1) a = butlast ((take ?n ?ps)[i := last (take ?n ?ps)])"
    unfolding a_def using swap_remove_take [OF i(2) l(1)] .
  have tb: "take (?n - 1) b = butlast ((take ?n ?qs)[i := last (take ?n ?qs)])"
  proof -
    have l': "last (take ?n ?qs) = ?qs ! (?n - 1)" using i(2) l(2) by (subst last_conv_nth) auto
    have "butlast ((take ?n ?qs)[i := ?qs ! (?n - 1)]) = take (?n - 1) (?qs[i := ?qs ! (?n - 1)])"
      using i(2) l(2) by (simp add: butlast_conv_take take_update_swap min_def)
    moreover have "i = ?n - 1 \<Longrightarrow> ?qs[i := ?qs ! (?n - 1)] = ?qs" by simp
    ultimately show ?thesis by (auto simp: l' b_def)
  qed
  have zb: "zip (butlast xs) (butlast ys) = butlast (zip xs ys)" if "length xs = length ys"
    for xs :: "pollfd list" and ys :: "nat list" using that by (simp add: butlast_conv_take take_zip)
  have t: "zip (take (?n - 1) a) (take (?n - 1) b) = butlast ((table o1)[i := last (table o1)])"
  proof -
    have ne: "take ?n ?ps \<noteq> []" "take ?n ?qs \<noteq> []" "length (take ?n ?ps) = length (take ?n ?qs)"
      using l i(2) by auto
    show ?thesis using ne(3) by (simp only: ta tb zb length_list_update table_def last_zip [OF ne])
      (simp add: update_zip)
  qed
  have ti: "i < length (table o1)" "table o1 ! i = (e, p)"
    using i length_table [OF wf] table_nth [OF wf] by simp_all
  have d: "distinct (map entry_fd (table o1))" using wf by (simp add: table_wf_def)
  show ?thesis
  proof (rule that [where a = a and b = b])
    show "PollFDDelete_ci p o1 =
        Some (True, o1\<lparr>ct_PollFds := a, ct_PollSockets := b, ct_iPollFdCount := ?n - 1\<rparr>)"
      using c i(1) by (simp add: PollFDDelete_ci_def a_def b_def Let_def)
    show "length a = ct_iMaxFDSize o1" "length b = ct_iMaxFDSize o1" using l by (simp_all add: a_def b_def)
    show "set (zip (take (?n - 1) a) (take (?n - 1) b)) = set (table o1) - {(e, p)}"
      "distinct (map entry_fd (zip (take (?n - 1) a) (take (?n - 1) b)))"
      using swap_out [OF ti(1) d] unfolding t ti(2) by blast+
  qed
qed

section \<open>The invariant\<close>

definition ct_wf :: "'a ci_net_thread_scheme \<Rightarrow> bool" where
  "ct_wf o1 \<longleftrightarrow>
     table_wf o1 \<and> length (ct_ReadSockets o1) = ct_iMaxFDSize o1 \<and>
     length (ct_WriteSockets o1) = ct_iMaxFDSize o1 \<and>
     packed (ct_ReadSockets o1) \<and> packed (ct_WriteSockets o1) \<and>
     ct_iReadSocketCount o1 = int (card (socks (ct_ReadSockets o1))) \<and>
     ct_iWriteSocketCount o1 = int (card (socks (ct_WriteSockets o1))) \<and>
     socks (ct_WriteSockets o1) \<subseteq> socks (ct_ReadSockets o1) \<and>
     ct_pListenSocket o1 \<notin> socks (ct_ReadSockets o1) \<and>
     snd ` set (table o1) - {ct_pListenSocket o1} = socks (ct_ReadSockets o1) \<and>
     dom (ct_objs o1) = socks (ct_ReadSockets o1) \<union> ({ct_pListenSocket o1} - {0}) \<and>
     (\<forall>p\<in>dom (ct_objs o1). p < ct_fresh o1) \<and> 0 < ct_fresh o1 \<and>
     (\<forall>e. (e, ct_pListenSocket o1) \<in> set (table o1) \<longrightarrow> pevents e = read_events)"

lemma ct_wfD:
  assumes "ct_wf o1"
  shows "table_wf o1" "length (ct_ReadSockets o1) = ct_iMaxFDSize o1"
    "length (ct_WriteSockets o1) = ct_iMaxFDSize o1"
    "packed (ct_ReadSockets o1)" "packed (ct_WriteSockets o1)"
    "ct_iReadSocketCount o1 = int (card (socks (ct_ReadSockets o1)))"
    "ct_iWriteSocketCount o1 = int (card (socks (ct_WriteSockets o1)))"
    "socks (ct_WriteSockets o1) \<subseteq> socks (ct_ReadSockets o1)"
    "ct_pListenSocket o1 \<notin> socks (ct_ReadSockets o1)"
    "snd ` set (table o1) - {ct_pListenSocket o1} = socks (ct_ReadSockets o1)"
    "dom (ct_objs o1) = socks (ct_ReadSockets o1) \<union> ({ct_pListenSocket o1} - {0})"
    "p \<in> dom (ct_objs o1) \<Longrightarrow> p < ct_fresh o1" "0 < ct_fresh o1"
    "(e, ct_pListenSocket o1) \<in> set (table o1) \<Longrightarrow> pevents e = read_events"
  using assms unfolding ct_wf_def by blast+

lemma ct_wfI:
  assumes "table_wf o1" "length (ct_ReadSockets o1) = ct_iMaxFDSize o1"
    "length (ct_WriteSockets o1) = ct_iMaxFDSize o1"
    "packed (ct_ReadSockets o1)" "packed (ct_WriteSockets o1)"
    "ct_iReadSocketCount o1 = int (card (socks (ct_ReadSockets o1)))"
    "ct_iWriteSocketCount o1 = int (card (socks (ct_WriteSockets o1)))"
    "socks (ct_WriteSockets o1) \<subseteq> socks (ct_ReadSockets o1)"
    "ct_pListenSocket o1 \<notin> socks (ct_ReadSockets o1)"
    "snd ` set (table o1) - {ct_pListenSocket o1} = socks (ct_ReadSockets o1)"
    "dom (ct_objs o1) = socks (ct_ReadSockets o1) \<union> ({ct_pListenSocket o1} - {0})"
    "\<And>p. p \<in> dom (ct_objs o1) \<Longrightarrow> p < ct_fresh o1" "0 < ct_fresh o1"
    "\<And>e. (e, ct_pListenSocket o1) \<in> set (table o1) \<Longrightarrow> pevents e = read_events"
  shows "ct_wf o1"
  using assms unfolding ct_wf_def by blast

text \<open>The listen socket has its entry.\<close>

definition listens :: "'a ci_net_thread_scheme \<Rightarrow> bool" where
  "listens o1 \<longleftrightarrow> ct_pListenSocket o1 \<in> snd ` set (table o1)"

text \<open>What the operations on the tables leave alone.\<close>

definition same_server :: "'a ci_net_thread_scheme \<Rightarrow> 'a ci_net_thread_scheme \<Rightarrow> bool" where
  "same_server o1 o2 \<longleftrightarrow>
     ct_pListenSocket o2 = ct_pListenSocket o1 \<and> ct_iMaxFDSize o2 = ct_iMaxFDSize o1 \<and>
     ct_iConnectedSocketSendBufferSize o2 = ct_iConnectedSocketSendBufferSize o1 \<and>
     ct_iConnectedSocketRecvBufferSize o2 = ct_iConnectedSocketRecvBufferSize o1 \<and>
     m_state o2 = m_state o1 \<and> m_bExit o2 = m_bExit o1 \<and> (listens o1 \<longrightarrow> listens o2)"

lemma same_server_refl [simp]: "same_server o1 o1"
  by (simp add: same_server_def)

lemma same_server_trans: "same_server o1 o2 \<Longrightarrow> same_server o2 o3 \<Longrightarrow> same_server o1 o3"
  by (simp add: same_server_def)

lemma ct_wf_new: "ct_wf (CNetworkThread_ci port nsend nrecv queue ip maxfd)"
  by (simp add: ct_wf_def table_wf_def table_def CNetworkThread_ci_def CCiThread2_ci_def
      ci_net_thread.defs ci_thread2_lock.defs ci_thread2.defs)

lemma table_unique:
  assumes "table_wf o1" "(e, p) \<in> set (table o1)" "(e', p) \<in> set (table o1)"
  shows "e' = e"
proof -
  have "pfd e' = pfd e" using table_entry [OF assms(1,2)] table_entry [OF assms(1,3)]
    by (metis option.inject)
  moreover have "inj_on entry_fd (set (table o1))" using assms(1) by (simp add: table_wf_def distinct_map)
  ultimately have "(e', p) = (e, p)" using assms(2,3) inj_onD [of entry_fd _ "(e', p)" "(e, p)"]
    by (simp add: entry_fd_def)
  then show ?thesis by simp
qed

lemma wf_conn_entry:
  assumes "ct_wf o1" "p \<in> socks (ct_ReadSockets o1)"
  obtains e where "(e, p) \<in> set (table o1)"
proof -
  have "p \<in> snd ` set (table o1)" using assms by (simp add: ct_wf_def set_eq_iff) metis
  then show ?thesis using that by auto
qed

lemma wf_table: "ct_wf o1 \<Longrightarrow> table_wf o1"
  by (simp add: ct_wf_def)

lemma card_less_one: "p \<in> socks ps \<Longrightarrow> int (card (socks ps)) - 1 = int (card (socks ps - {p}))"
proof -
  assume "p \<in> socks ps"
  then have "card (socks ps) = Suc (card (socks ps - {p}))" by (intro card.remove) simp_all
  then show ?thesis by simp
qed

section \<open>Dropping a connection\<close>

lemma CiSocket_Disconnect_open:
  assumes "m_iSocket c \<noteq> CI_INVALID_SOCKET"
  shows "\<exists>r w1. CiSocket_Disconnect K (c, w) = (r, c\<lparr>m_iSocket := CI_INVALID_SOCKET\<rparr>, w1) \<and>
    closed_fds w1 = closed_fds w @ [m_iSocket c]"
  using assms by (auto simp: CiSocket_Disconnect_def nu_disconnect_ci_def sys_close_def split: prod.split)

lemma CCiSocket_destroy_closed:
  "m_iSocket c = CI_INVALID_SOCKET \<Longrightarrow> snd (CCiSocket_destroy K (c, w)) = w"
  by (simp add: CCiSocket_destroy_def CiSocket_Finalize_def)

lemma OnReadSocketError_ok:
  assumes wf: "ct_wf o1" and p: "p \<in> socks (ct_ReadSockets o1)" and c: "ct_objs o1 p = Some c"
  shows "\<exists>o2 w2. OnReadSocketError_ci K p (o1, w) = Some (True, o2, w2) \<and> ct_wf o2 \<and>
    ct_objs o2 = (ct_objs o1)(p := None) \<and> socks (ct_ReadSockets o2) = socks (ct_ReadSockets o1) - {p} \<and>
    set (table o2) = set (table o1) - {x. snd x = p} \<and> same_server o1 o2 \<and>
    closed_fds w2 = closed_fds w @ [m_iSocket c]"
proof -
  obtain e where e: "(e, p) \<in> set (table o1)" using wf_conn_entry [OF wf p] .
  note t = wf_table [OF wf]
  have fd: "m_iSocket c = pfd e" "pfd e \<noteq> NU_INVALID_SOCKET" "p \<noteq> 0"
    using table_entry [OF t e] c by (metis option.inject)+
  let ?n = "ct_iPollFdCount o1 - 1"
  obtain a b where ab: "PollFDDelete_ci p o1 =
      Some (True, o1\<lparr>ct_PollFds := a, ct_PollSockets := b, ct_iPollFdCount := ?n\<rparr>)"
    "length a = ct_iMaxFDSize o1" "length b = ct_iMaxFDSize o1"
    "set (zip (take ?n a) (take ?n b)) = set (table o1) - {(e, p)}"
    "distinct (map entry_fd (zip (take ?n a) (take ?n b)))"
    using PollFDDelete_entry [OF t e] .
  obtain r w1 where d: "CiSocket_Disconnect K (c, w) = (r, c\<lparr>m_iSocket := CI_INVALID_SOCKET\<rparr>, w1)"
    "closed_fds w1 = closed_fds w @ [m_iSocket c]"
    using CiSocket_Disconnect_open [of c K w] fd by auto
  define ws where "ws = (case slot_of p (ct_WriteSockets o1) of None \<Rightarrow> ct_WriteSockets o1
      | Some i \<Rightarrow> (ct_WriteSockets o1)[i := 0])"
  define wc where "wc = (case slot_of p (ct_WriteSockets o1) of None \<Rightarrow> ct_iWriteSocketCount o1
      | Some i \<Rightarrow> ct_iWriteSocketCount o1 - 1)"
  obtain i where i: "slot_of p (ct_ReadSockets o1) = Some i"
    using p slot_of_None_iff [of p "ct_ReadSockets o1"] by (auto simp: socks_def)
  define o2 where "o2 = o1\<lparr>ct_PollFds := a, ct_PollSockets := b, ct_iPollFdCount := ?n,
      ct_objs := (ct_objs o1)(p := None), ct_WriteSockets := ws, ct_iWriteSocketCount := wc,
      ct_ReadSockets := (ct_ReadSockets o1)[i := 0], ct_iReadSocketCount := ct_iReadSocketCount o1 - 1\<rparr>"
  have o2_def2: "ct_objs o2 = (ct_objs o1)(p := None)" by (simp add: o2_def)
  have run: "OnReadSocketError_ci K p (o1, w) = Some (True, o2, w1)"
    using fd i by (simp add: OnReadSocketError_ci_def DisableSocket_ci_def ab(1) obj_Disconnect_def on_obj_def c
        d(1) DeleteWriteSocket_ci_def DeleteReadSocket_ci_def obj_delete_def CCiSocket_destroy_closed o2_def
        ws_def wc_def Let_def split: option.split)
  have rs: "socks ((ct_ReadSockets o1)[i := 0]) = socks (ct_ReadSockets o1) - {p}"
    using socks_drop [of "ct_ReadSockets o1" i p] slot_of_Some [OF i] wf fd(3) by (simp add: ct_wf_def)
  have wsp: "socks ws = socks (ct_WriteSockets o1) - {p}" "packed ws" "length ws = ct_iMaxFDSize o1"
    "wc = int (card (socks ws))"
  proof -
    show "socks ws = socks (ct_WriteSockets o1) - {p}"
    proof (cases "slot_of p (ct_WriteSockets o1)")
      case None
      then show ?thesis using slot_of_None_iff [of p "ct_WriteSockets o1"] by (auto simp: ws_def socks_def)
    next
      case (Some j)
      then show ?thesis using socks_drop [of "ct_WriteSockets o1" j p] slot_of_Some [OF Some] wf fd(3)
        by (simp add: ws_def ct_wf_def)
    qed
    then have "wc = int (card (socks ws))"
    proof (cases "slot_of p (ct_WriteSockets o1)")
      case None
      then show ?thesis using wf by (simp add: ws_def wc_def ct_wf_def)
    next
      case (Some j)
      then have "p \<in> socks (ct_WriteSockets o1)"
        using slot_of_None_iff [of p "ct_WriteSockets o1"] fd(3) by (auto simp: socks_def)
      from card_less_one [OF this] show ?thesis
        using wf Some \<open>socks ws = socks (ct_WriteSockets o1) - {p}\<close> by (simp add: wc_def ct_wf_def)
    qed
    then show "wc = int (card (socks ws))" .
    show "packed ws" "length ws = ct_iMaxFDSize o1"
      using ct_wfD(3,5) [OF wf] by (auto simp: ws_def packed_drop split: option.split)
  qed
  have u: "set (table o1) - {(e, p)} = set (table o1) - {x. snd x = p}"
  proof (rule set_eqI)
    fix x
    show "x \<in> set (table o1) - {(e, p)} \<longleftrightarrow> x \<in> set (table o1) - {x. snd x = p}"
      by (cases x) (use table_unique [OF t e] in \<open>simp; blast\<close>)
  qed
  have tab: "table o2 = zip (take ?n a) (take ?n b)" by (simp add: table_def o2_def)
  have tset: "set (table o2) = set (table o1) - {x. snd x = p}" by (simp only: tab ab(4) u)
  have "table_wf o2"
  proof (rule table_wfI)
    show "length (ct_PollFds o2) = ct_iMaxFDSize o2" "length (ct_PollSockets o2) = ct_iMaxFDSize o2"
      by (simp_all add: o2_def ab(2,3))
    show "ct_iPollFdCount o2 \<le> ct_iMaxFDSize o2" using table_wfD(3) [OF t] by (simp add: o2_def)
    show "distinct (map entry_fd (table o2))" unfolding tab by (rule ab(5))
    fix e' q assume "(e', q) \<in> set (table o2)"
    then have "(e', q) \<in> set (table o1)" "q \<noteq> p" unfolding tset by auto
    then show "pfd e' \<noteq> NU_INVALID_SOCKET \<and> q \<noteq> 0 \<and> (\<exists>c. ct_objs o2 q = Some c \<and> m_iSocket c = pfd e')"
      using table_entry [OF t] by (metis o2_def2 fun_upd_other)
  qed
  have np: "p \<noteq> ct_pListenSocket o1" using ct_wfD(9) [OF wf] p by metis
  note w = ct_wfD [OF wf]
  have sel: "ct_ReadSockets o2 = (ct_ReadSockets o1)[i := 0]" "ct_WriteSockets o2 = ws"
    "ct_iWriteSocketCount o2 = wc" "ct_iReadSocketCount o2 = ct_iReadSocketCount o1 - 1"
    "ct_iMaxFDSize o2 = ct_iMaxFDSize o1" "ct_pListenSocket o2 = ct_pListenSocket o1"
    "ct_fresh o2 = ct_fresh o1" by (simp_all add: o2_def)
  have "ct_wf o2"
  proof (rule ct_wfI)
    show "table_wf o2" by fact
    show "length (ct_ReadSockets o2) = ct_iMaxFDSize o2" "length (ct_WriteSockets o2) = ct_iMaxFDSize o2"
      by (simp_all add: sel w(2) wsp(3))
    show "packed (ct_ReadSockets o2)" "packed (ct_WriteSockets o2)"
      by (simp_all add: sel packed_drop w(4) wsp(2))
    show "ct_iReadSocketCount o2 = int (card (socks (ct_ReadSockets o2)))"
      using card_less_one [OF p] w(6) by (simp only: sel rs)
    show "ct_iWriteSocketCount o2 = int (card (socks (ct_WriteSockets o2)))"
      by (simp only: sel wsp(4))
    show "socks (ct_WriteSockets o2) \<subseteq> socks (ct_ReadSockets o2)" using w(8) by (auto simp: rs sel(1) sel wsp(1))
    show "ct_pListenSocket o2 \<notin> socks (ct_ReadSockets o2)" using w(9) by (simp add: rs sel(1) sel(6))
    have "snd ` set (table o2) = snd ` set (table o1) - {p}" unfolding tset by auto
    then show "snd ` set (table o2) - {ct_pListenSocket o2} = socks (ct_ReadSockets o2)"
      using w(10) by (auto simp: rs sel(1) sel(6))
    have "dom (ct_objs o2) = dom (ct_objs o1) - {p}" by (auto simp: o2_def2)
    then show d: "dom (ct_objs o2) = socks (ct_ReadSockets o2) \<union> ({ct_pListenSocket o2} - {0})"
      using np by (auto simp: rs sel(1) sel(6) w(11))
    show "q < ct_fresh o2" if "q \<in> dom (ct_objs o2)" for q
      using w(12) [of q] that by (auto simp: o2_def2 sel(7) split: if_splits)
    show "0 < ct_fresh o2" using w(13) by (simp add: sel(7))
    show "pevents e' = read_events" if "(e', ct_pListenSocket o2) \<in> set (table o2)" for e'
      using w(14) [of e'] that unfolding tset sel(6) by blast
  qed
  moreover have "listens o1 \<longrightarrow> listens o2" using np by (auto simp: listens_def tset sel(6))
  ultimately show ?thesis using run rs tset d(2) by (auto simp: o2_def same_server_def)
qed

section \<open>Changes of objects, entries and the write set\<close>

lemma table_base [simp]:
  "table (o1\<lparr>ct_iEventsCount := n\<rparr>) = table o1" "table (o1\<lparr>ct_objs := h\<rparr>) = table o1"
  "table (o1\<lparr>m_bExit := b\<rparr>) = table o1" "table (o1\<lparr>m_state := x\<rparr>) = table o1"
  "table (o1\<lparr>ct_fresh := k\<rparr>) = table o1" "table (o1\<lparr>ct_ReadSockets := ps\<rparr>) = table o1"
  "table (o1\<lparr>ct_iReadSocketCount := n\<rparr>) = table o1" "table (o1\<lparr>ct_WriteSockets := ps\<rparr>) = table o1"
  "table (o1\<lparr>ct_iWriteSocketCount := n\<rparr>) = table o1"
  by (simp_all add: table_def)

lemma listens_base [simp]:
  "listens (o1\<lparr>ct_iEventsCount := n\<rparr>) = listens o1" "listens (o1\<lparr>ct_objs := h\<rparr>) = listens o1"
  "listens (o1\<lparr>m_bExit := b\<rparr>) = listens o1" "listens (o1\<lparr>ct_fresh := k\<rparr>) = listens o1"
  by (simp_all add: listens_def)

lemma ct_wf_base [simp]:
  "ct_wf (o1\<lparr>ct_iEventsCount := n\<rparr>) = ct_wf o1" "ct_wf (o1\<lparr>m_bExit := b\<rparr>) = ct_wf o1"
  "ct_wf (o1\<lparr>m_state := x\<rparr>) = ct_wf o1"
  by (simp_all add: ct_wf_def table_wf_def)

lemma ct_wf_obj:
  assumes wf: "ct_wf o1" and c: "ct_objs o1 p = Some c" and fd: "m_iSocket c' = m_iSocket c"
  shows "ct_wf (o1\<lparr>ct_objs := (ct_objs o1)(p \<mapsto> c')\<rparr>)"
proof (rule ct_wfI)
  let ?o = "o1\<lparr>ct_objs := (ct_objs o1)(p \<mapsto> c')\<rparr>"
  note w = ct_wfD [OF wf]
  have d: "dom (ct_objs ?o) = dom (ct_objs o1)" using c by auto
  show "table_wf ?o"
  proof (rule table_wfI)
    fix e q assume "(e, q) \<in> set (table ?o)"
    then have "(e, q) \<in> set (table o1)" by simp
    from table_entry [OF w(1) this] obtain c1 where "pfd e \<noteq> NU_INVALID_SOCKET" "q \<noteq> 0"
      "ct_objs o1 q = Some c1" "m_iSocket c1 = pfd e" .
    then show "pfd e \<noteq> NU_INVALID_SOCKET \<and> q \<noteq> 0 \<and>
        (\<exists>c. ct_objs ?o q = Some c \<and> m_iSocket c = pfd e)"
      using c fd by (cases "q = p") simp_all
  qed (use table_wfD [OF w(1)] in simp_all)
  show "dom (ct_objs ?o) = socks (ct_ReadSockets ?o) \<union> ({ct_pListenSocket ?o} - {0})"
    unfolding d by (simp add: w(11))
  show "q < ct_fresh ?o" if "q \<in> dom (ct_objs ?o)" for q using w(12) [of q] that unfolding d by simp
qed (use ct_wfD [OF wf] in simp_all)

text \<open>New contents of the table, with the same descriptors.\<close>

lemma map_entry_fd: "length ps \<le> length qs \<Longrightarrow> map entry_fd (zip ps qs) = map pfd ps"
  by (intro nth_equalityI) (simp_all add: entry_fd_def)

lemma ct_wf_table:
  assumes wf: "ct_wf o1" and l: "length ps = length (ct_PollFds o1)"
    and fd: "\<And>i. i < ct_iPollFdCount o1 \<Longrightarrow> pfd (ps ! i) = pfd (ct_PollFds o1 ! i)"
    and ev: "\<And>i. i < ct_iPollFdCount o1 \<Longrightarrow> ct_PollSockets o1 ! i = ct_pListenSocket o1 \<Longrightarrow>
      pevents (ps ! i) = pevents (ct_PollFds o1 ! i)"
  shows "ct_wf (o1\<lparr>ct_PollFds := ps\<rparr>)"
proof -
  let ?o = "o1\<lparr>ct_PollFds := ps\<rparr>" and ?n = "ct_iPollFdCount o1"
  note w = ct_wfD [OF wf]
  note t = table_wfD [OF w(1)]
  have m: "map pfd (take ?n ps) = map pfd (take ?n (ct_PollFds o1))"
    using fd l t(1,3) by (intro nth_equalityI) simp_all
  have lt: "length (table ?o) = ?n" "length (table o1) = ?n" using l t by (simp_all add: table_def)
  have nth: "table ?o ! i = (ps ! i, ct_PollSockets o1 ! i)"
    "table o1 ! i = (ct_PollFds o1 ! i, ct_PollSockets o1 ! i)" if "i < ?n" for i
    using that l t by (simp_all add: table_def)
  have old: "\<exists>e'. (e', p) \<in> set (table o1) \<and> pfd e = pfd e' \<and>
      (p = ct_pListenSocket o1 \<longrightarrow> pevents e = pevents e')" if ep: "(e, p) \<in> set (table ?o)" for e p
  proof -
    obtain i where i: "i < ?n" "table ?o ! i = (e, p)" using ep lt(1) by (metis in_set_conv_nth)
    then have "(ct_PollFds o1 ! i, p) \<in> set (table o1)" using nth [OF i(1)] lt(2) by (metis nth_mem prod.inject)
    then show ?thesis using i nth [OF i(1)] fd [OF i(1)] ev [OF i(1)] by auto
  qed
  have snds: "map snd (table ?o) = map snd (table o1)"
    by (rule nth_equalityI) (simp_all add: lt nth)
  have img: "snd ` set (table ?o) = snd ` set (table o1)"
    using arg_cong [OF snds, of set] by simp
  show ?thesis
  proof (rule ct_wfI)
    show "table_wf ?o"
    proof (rule table_wfI)
      show "distinct (map entry_fd (table ?o))"
        using t l m by (simp add: table_def map_entry_fd)
      fix e p assume "(e, p) \<in> set (table ?o)"
      then obtain e' where e': "(e', p) \<in> set (table o1)" "pfd e = pfd e'" using old by blast
      from table_entry [OF w(1) e'(1)] obtain c where "pfd e' \<noteq> NU_INVALID_SOCKET" "p \<noteq> 0"
        "ct_objs o1 p = Some c" "m_iSocket c = pfd e'" .
      then show "pfd e \<noteq> NU_INVALID_SOCKET \<and> p \<noteq> 0 \<and> (\<exists>c. ct_objs ?o p = Some c \<and> m_iSocket c = pfd e)"
        by (simp add: e'(2))
    qed (use t l in simp_all)
    show "snd ` set (table ?o) - {ct_pListenSocket ?o} = socks (ct_ReadSockets ?o)"
      unfolding img by (simp add: w(10))
    show "pevents e = read_events" if "(e, ct_pListenSocket ?o) \<in> set (table ?o)" for e
      using old [OF that] w(14) by auto
  qed (use w in simp_all)
qed

text \<open>New contents of the write set.\<close>

lemma ct_wf_writes:
  assumes wf: "ct_wf o1" and "packed ws" "length ws = ct_iMaxFDSize o1" "socks ws \<subseteq> socks (ct_ReadSockets o1)"
  shows "ct_wf (o1\<lparr>ct_WriteSockets := ws, ct_iWriteSocketCount := int (card (socks ws))\<rparr>)"
proof (rule ct_wfI)
  let ?o = "o1\<lparr>ct_WriteSockets := ws, ct_iWriteSocketCount := int (card (socks ws))\<rparr>"
  show "table_wf ?o" using ct_wfD(1) [OF wf] by (simp add: table_wf_def)
qed (use ct_wfD [OF wf] assms in simp_all)

definition writes_of :: "nat list \<Rightarrow> 'a ci_net_thread_scheme \<Rightarrow> 'a ci_net_thread_scheme" where
  "writes_of ws o1 = o1\<lparr>ct_WriteSockets := ws, ct_iWriteSocketCount := int (card (socks ws))\<rparr>"

lemma writes_of_sel [simp]:
  "ct_objs (writes_of ws o1) = ct_objs o1" "ct_ReadSockets (writes_of ws o1) = ct_ReadSockets o1"
  "table (writes_of ws o1) = table o1" "same_server o1 (writes_of ws o1)"
  "ct_iPollFdCount (writes_of ws o1) = ct_iPollFdCount o1" "ct_PollFds (writes_of ws o1) = ct_PollFds o1"
  "ct_PollSockets (writes_of ws o1) = ct_PollSockets o1" "ct_iEventsCount (writes_of ws o1) = ct_iEventsCount o1"
  by (simp_all add: writes_of_def same_server_def listens_def table_def)

lemma AddWriteSocket_wf:
  assumes wf: "ct_wf o1" and p: "p \<in> socks (ct_ReadSockets o1)" "p \<notin> socks (ct_WriteSockets o1)"
  shows "\<exists>ws. snd (AddWriteSocket_ci p o1) = writes_of ws o1 \<and> ct_wf (writes_of ws o1)"
proof -
  have p0: "p \<noteq> 0" using p(1) by (metis zero_socks)
  note w = ct_wfD [OF wf]
  have same: "writes_of (ct_WriteSockets o1) o1 = o1" using w(7) by (simp add: writes_of_def)
  show ?thesis
  proof (cases "slot_of 0 (ct_WriteSockets o1)")
    case None
    then have "snd (AddWriteSocket_ci p o1) = o1" using p0 by (simp add: AddWriteSocket_ci_def)
    then show ?thesis using wf same by metis
  next
    case (Some i)
    let ?ws = "(ct_WriteSockets o1)[i := p]"
    have i: "i < length (ct_WriteSockets o1)" "ct_WriteSockets o1 ! i = 0" using slot_of_Some [OF Some] by auto
    have s: "socks ?ws = insert p (socks (ct_WriteSockets o1))" by (rule socks_put [OF i p0])
    have "snd (AddWriteSocket_ci p o1) = writes_of ?ws o1"
      using p0 Some w(7) p(2) by (simp add: AddWriteSocket_ci_def writes_of_def s)
    moreover have "ct_wf (writes_of ?ws o1)" unfolding writes_of_def
      by (rule ct_wf_writes [OF wf]) (use packed_put [OF w(5) p(2)] w(3,8) p(1) s in auto)
    ultimately show ?thesis by blast
  qed
qed

lemma DeleteWriteSocket_wf:
  assumes wf: "ct_wf o1" and p0: "p \<noteq> 0"
  shows "\<exists>r ws. DeleteWriteSocket_ci K p True (o1, w1) = Some (r, writes_of ws o1, w1) \<and> ct_wf (writes_of ws o1)"
proof -
  note w = ct_wfD [OF wf]
  have same: "writes_of (ct_WriteSockets o1) o1 = o1" using w(7) by (simp add: writes_of_def)
  show ?thesis
  proof (cases "slot_of p (ct_WriteSockets o1)")
    case None
    then have "DeleteWriteSocket_ci K p True (o1, w1) = Some (False, writes_of (ct_WriteSockets o1) o1, w1)"
      using p0 same by (simp add: DeleteWriteSocket_ci_def)
    then show ?thesis using wf same by metis
  next
    case (Some i)
    let ?ws = "(ct_WriteSockets o1)[i := 0]"
    have i: "i < length (ct_WriteSockets o1)" "ct_WriteSockets o1 ! i = p" using slot_of_Some [OF Some] by auto
    have s: "socks ?ws = socks (ct_WriteSockets o1) - {p}" by (rule socks_drop [OF w(5) i p0])
    have "p \<in> socks (ct_WriteSockets o1)" using i p0 by (auto simp: in_socks_conv)
    then have "DeleteWriteSocket_ci K p True (o1, w1) = Some (True, writes_of ?ws o1, w1)"
      using p0 Some w(7) card_less_one by (simp add: DeleteWriteSocket_ci_def writes_of_def s)
    moreover have "ct_wf (writes_of ?ws o1)" unfolding writes_of_def
      by (rule ct_wf_writes [OF wf]) (use packed_drop [OF w(5)] w(3,8) s in auto)
    ultimately show ?thesis by blast
  qed
qed

section \<open>Registering a connection\<close>

text \<open>The object of a new connection, at the next address.\<close>

definition with_new :: "cisocket \<Rightarrow> 'a ci_net_thread_scheme \<Rightarrow> 'a ci_net_thread_scheme" where
  "with_new c o1 = o1\<lparr>ct_objs := (ct_objs o1)(ct_fresh o1 \<mapsto> c), ct_fresh := Suc (ct_fresh o1)\<rparr>"

lemma forget_new:
  assumes wf: "ct_wf o1"
  shows "ct_wf (o1\<lparr>ct_fresh := Suc (ct_fresh o1)\<rparr>)"
    "(ct_objs (with_new c o1))(ct_fresh o1 := None) = ct_objs o1"
proof -
  note w = ct_wfD [OF wf]
  show "ct_wf (o1\<lparr>ct_fresh := Suc (ct_fresh o1)\<rparr>)"
  proof (rule ct_wfI)
    show "table_wf (o1\<lparr>ct_fresh := Suc (ct_fresh o1)\<rparr>)" using w(1) by (simp add: table_wf_def)
    show "p < ct_fresh (o1\<lparr>ct_fresh := Suc (ct_fresh o1)\<rparr>)" if "p \<in> dom (ct_objs (o1\<lparr>ct_fresh := Suc (ct_fresh o1)\<rparr>))"
      for p using w(12) [of p] that by simp
  qed (use ct_wfD [OF wf] in simp_all)
  have "ct_fresh o1 \<notin> dom (ct_objs o1)" using w(12) [of "ct_fresh o1"] by blast
  then show "(ct_objs (with_new c o1))(ct_fresh o1 := None) = ct_objs o1"
    by (auto simp: with_new_def fun_eq_iff)
qed

lemma with_new_obj:
  "(with_new c o1)\<lparr>ct_objs := (ct_objs (with_new c o1))(ct_fresh o1 \<mapsto> c')\<rparr> = with_new c' o1"
  by (simp add: with_new_def)

lemma new_unused:
  assumes "ct_wf o1"
  shows "ct_fresh o1 \<notin> dom (ct_objs o1)" "ct_fresh o1 \<notin> socks (ct_ReadSockets o1)" "ct_fresh o1 \<noteq> 0"
    "ct_fresh o1 \<noteq> ct_pListenSocket o1" "ct_fresh o1 \<notin> snd ` set (table o1)"
proof -
  note w = ct_wfD [OF assms]
  show u: "ct_fresh o1 \<notin> dom (ct_objs o1)" using w(12) [of "ct_fresh o1"] by blast
  then show r: "ct_fresh o1 \<notin> socks (ct_ReadSockets o1)" unfolding w(11) by simp
  show z: "ct_fresh o1 \<noteq> 0" using w(13) by simp
  then show l: "ct_fresh o1 \<noteq> ct_pListenSocket o1" using u unfolding w(11) by auto
  show "ct_fresh o1 \<notin> snd ` set (table o1)"
  proof
    assume "ct_fresh o1 \<in> snd ` set (table o1)"
    then have "ct_fresh o1 \<in> snd ` set (table o1) - {ct_pListenSocket o1}" using l by simp
    then show False using r unfolding w(10) by (rule notE [rotated])
  qed
qed

lemma slot_of_put: "p \<notin> set ps \<Longrightarrow> i < length ps \<Longrightarrow> slot_of p (ps[i := p]) = Some i"
  by (induction ps arbitrary: i) (auto split: nat.split)

lemma AddReadSocket_slot:
  assumes wf: "ct_wf o1" and room: "ct_iReadSocketCount o1 < int (ct_iMaxFDSize o1)"
  obtains i where "slot_of 0 (ct_ReadSockets o1) = Some i"
proof -
  note w = ct_wfD [OF wf]
  have "card (socks (ct_ReadSockets o1)) \<noteq> length (ct_ReadSockets o1)" using room w(2,6) by simp
  then have "0 \<in> set (ct_ReadSockets o1)" using packed_full [OF w(4)] by blast
  then show ?thesis using that slot_of_None_iff [of 0 "ct_ReadSockets o1"] by (cases "slot_of 0 (ct_ReadSockets o1)") auto
qed

text \<open>The state with the connection of \<open>c\<close> in slot \<open>i\<close> of the read set, and in the table.\<close>

definition in_reads :: "cisocket \<Rightarrow> nat \<Rightarrow> 'a ci_net_thread_scheme \<Rightarrow> 'a ci_net_thread_scheme" where
  "in_reads c i o1 = (with_new c o1)\<lparr>ct_ReadSockets := (ct_ReadSockets o1)[i := ct_fresh o1],
     ct_iReadSocketCount := ct_iReadSocketCount o1 + 1\<rparr>"

definition with_conn :: "cisocket \<Rightarrow> nat \<Rightarrow> 'a ci_net_thread_scheme \<Rightarrow> 'a ci_net_thread_scheme" where
  "with_conn c i o1 =
     (let n = ct_iPollFdCount o1 in (in_reads c i o1)
        \<lparr>ct_PollSockets := (ct_PollSockets o1)[n := ct_fresh o1],
         ct_PollFds := (ct_PollFds o1)[n := \<lparr>pfd = m_iSocket c, pevents = read_events, prevents = 0\<rparr>],
         ct_iPollFdCount := Suc n\<rparr>)"

lemma register_steps:
  assumes wf: "ct_wf o1" and i: "slot_of 0 (ct_ReadSockets o1) = Some i" and c: "m_iSocket c \<noteq> NU_INVALID_SOCKET"
  shows "AddReadSocket_ci (ct_fresh o1) (with_new c o1) = (True, in_reads c i o1)"
    "PollFDAdd_ci (ct_fresh o1) True (in_reads c i o1) =
       (if ct_iPollFdCount o1 < ct_iMaxFDSize o1 then Some (True, with_conn c i o1)
        else Some (False, in_reads c i o1))"
    "\<exists>w1. DeleteReadSocket_ci K (ct_fresh o1) False (in_reads c i o1, w) =
         Some (True, o1\<lparr>ct_fresh := Suc (ct_fresh o1)\<rparr>, w1) \<and>
       closed_fds w1 = closed_fds w @ [m_iSocket c]"
proof -
  note new = new_unused [OF wf]
  show "AddReadSocket_ci (ct_fresh o1) (with_new c o1) = (True, in_reads c i o1)"
    using new(3) i by (simp add: AddReadSocket_ci_def in_reads_def with_new_def)
  show "PollFDAdd_ci (ct_fresh o1) True (in_reads c i o1) =
       (if ct_iPollFdCount o1 < ct_iMaxFDSize o1 then Some (True, with_conn c i o1)
        else Some (False, in_reads c i o1))"
    using new(3) c by (simp add: PollFDAdd_ci_def with_conn_def in_reads_def with_new_def Let_def)
  have s: "slot_of (ct_fresh o1) ((ct_ReadSockets o1)[i := ct_fresh o1]) = Some i"
    using slot_of_put [of "ct_fresh o1" "ct_ReadSockets o1" i] new(2,3) slot_of_Some [OF i] by (simp add: socks_def)
  have undo: "(ct_ReadSockets o1)[i := 0] = ct_ReadSockets o1"
    using slot_of_Some [OF i] list_update_id [of "ct_ReadSockets o1" i] by simp
  obtain r w1 where d: "CiSocket_Disconnect K (c, w) = (r, c\<lparr>m_iSocket := CI_INVALID_SOCKET\<rparr>, w1)"
    "closed_fds w1 = closed_fds w @ [m_iSocket c]" using CiSocket_Disconnect_open c by blast
  have d1: "snd (CCiSocket_destroy K (c, w)) = w1"
    using c d(1) by (simp add: CCiSocket_destroy_def CiSocket_Finalize_def)
  note h = forget_new(2) [OF wf, of c, unfolded with_new_def, simplified]
  have "(in_reads c i o1)\<lparr>ct_objs := (ct_objs (in_reads c i o1))(ct_fresh o1 := None),
      ct_ReadSockets := (ct_ReadSockets o1)[i := ct_fresh o1, i := 0],
      ct_iReadSocketCount := ct_iReadSocketCount (in_reads c i o1) - 1\<rparr> = o1\<lparr>ct_fresh := Suc (ct_fresh o1)\<rparr>"
    using h by (simp add: in_reads_def with_new_def undo)
  then have "DeleteReadSocket_ci K (ct_fresh o1) False (in_reads c i o1, w) =
      Some (True, o1\<lparr>ct_fresh := Suc (ct_fresh o1)\<rparr>, w1)"
    using new(3) s h d1 by (simp add: DeleteReadSocket_ci_def obj_delete_def in_reads_def with_new_def undo)
  then show "\<exists>w1. DeleteReadSocket_ci K (ct_fresh o1) False (in_reads c i o1, w) =
         Some (True, o1\<lparr>ct_fresh := Suc (ct_fresh o1)\<rparr>, w1) \<and>
       closed_fds w1 = closed_fds w @ [m_iSocket c]" using d(2) by blast
qed

lemma with_conn_sel:
  "ct_objs (with_conn c i o1) = (ct_objs o1)(ct_fresh o1 \<mapsto> c)"
  "ct_ReadSockets (with_conn c i o1) = (ct_ReadSockets o1)[i := ct_fresh o1]"
  "ct_WriteSockets (with_conn c i o1) = ct_WriteSockets o1"
  "ct_iReadSocketCount (with_conn c i o1) = ct_iReadSocketCount o1 + 1"
  "ct_iWriteSocketCount (with_conn c i o1) = ct_iWriteSocketCount o1"
  "ct_iMaxFDSize (with_conn c i o1) = ct_iMaxFDSize o1" "ct_fresh (with_conn c i o1) = Suc (ct_fresh o1)"
  "ct_pListenSocket (with_conn c i o1) = ct_pListenSocket o1"
  "ct_iPollFdCount (with_conn c i o1) = Suc (ct_iPollFdCount o1)"
  "length (ct_PollFds (with_conn c i o1)) = length (ct_PollFds o1)"
  "length (ct_PollSockets (with_conn c i o1)) = length (ct_PollSockets o1)"
  by (simp_all add: with_conn_def in_reads_def with_new_def Let_def)

lemma take_Suc_update: "n < length xs \<Longrightarrow> take (Suc n) (xs[n := x]) = take n xs @ [x]"
  by (simp add: take_Suc_conv_app_nth)

lemma with_conn_table:
  assumes "table_wf o1" "ct_iPollFdCount o1 < ct_iMaxFDSize o1"
  shows "table (with_conn c i o1) =
    table o1 @ [(\<lparr>pfd = m_iSocket c, pevents = read_events, prevents = 0\<rparr>, ct_fresh o1)]"
proof -
  note t = table_wfD [OF assms(1)]
  show ?thesis using t assms(2)
    by (simp add: take_Suc_update table_def with_conn_def in_reads_def with_new_def Let_def)
qed

lemma with_conn_same:
  assumes "table_wf o1" "ct_iPollFdCount o1 < ct_iMaxFDSize o1"
  shows "same_server o1 (with_conn c i o1)"
proof -
  have "listens o1 \<longrightarrow> listens (with_conn c i o1)"
    by (auto simp: listens_def with_conn_table [OF assms] with_conn_sel)
  then show ?thesis
    by (simp add: same_server_def) (simp add: with_conn_def in_reads_def with_new_def Let_def)
qed

lemma with_conn_wf:
  assumes wf: "ct_wf o1" and i: "slot_of 0 (ct_ReadSockets o1) = Some i"
    and room: "ct_iPollFdCount o1 < ct_iMaxFDSize o1"
    and c: "m_iSocket c \<noteq> NU_INVALID_SOCKET" "m_iSocket c \<notin> entry_fd ` set (table o1)"
  shows "ct_wf (with_conn c i o1)"
    "socks (ct_ReadSockets (with_conn c i o1)) = insert (ct_fresh o1) (socks (ct_ReadSockets o1))"
proof -
  let ?o = "with_conn c i o1" and ?p = "ct_fresh o1"
  note w = ct_wfD [OF wf]
  note t = table_wfD [OF w(1)]
  note new = new_unused [OF wf]
  note tab = with_conn_table [OF w(1) room, of c i]
  show rs: "socks (ct_ReadSockets ?o) = insert ?p (socks (ct_ReadSockets o1))"
    using socks_put [of i "ct_ReadSockets o1" ?p] slot_of_Some [OF i] new(3) by (simp add: with_conn_sel)
  have fin: "int (card (insert ?p (socks (ct_ReadSockets o1)))) = int (card (socks (ct_ReadSockets o1))) + 1"
    using new(2) by simp
  show "ct_wf ?o"
  proof (rule ct_wfI)
    show "table_wf ?o"
    proof (rule table_wfI)
      show "distinct (map entry_fd (table ?o))" using t(4) c(2) by (simp add: tab entry_fd_def [of "(x, y)" for x y])
      fix e q assume "(e, q) \<in> set (table ?o)"
      then consider "(e, q) \<in> set (table o1)" | "pfd e = m_iSocket c" "q = ?p" by (auto simp: tab)
      then show "pfd e \<noteq> NU_INVALID_SOCKET \<and> q \<noteq> 0 \<and> (\<exists>c. ct_objs ?o q = Some c \<and> m_iSocket c = pfd e)"
      proof cases
        case 1
        from table_entry [OF w(1) 1] obtain c' where "pfd e \<noteq> NU_INVALID_SOCKET" "q \<noteq> 0"
          "ct_objs o1 q = Some c'" "m_iSocket c' = pfd e" .
        moreover have "q \<noteq> ?p" using new(1) \<open>ct_objs o1 q = Some c'\<close> by auto
        ultimately show ?thesis by (simp add: with_conn_sel)
      next
        case 2
        then show ?thesis using c(1) new(3) by (simp add: with_conn_sel)
      qed
    qed (use t room in \<open>simp_all add: with_conn_sel\<close>)
    show "packed (ct_ReadSockets ?o)" using packed_put [OF w(4) new(2)] by (simp add: with_conn_sel)
    show "ct_iReadSocketCount ?o = int (card (socks (ct_ReadSockets ?o)))"
      unfolding rs fin by (simp add: with_conn_sel w(6))
    show "socks (ct_WriteSockets ?o) \<subseteq> socks (ct_ReadSockets ?o)" using w(8) unfolding rs by (auto simp: with_conn_sel)
    show "ct_pListenSocket ?o \<notin> socks (ct_ReadSockets ?o)" using w(9) new(4) unfolding rs by (simp add: with_conn_sel)
    have "snd ` set (table ?o) = insert ?p (snd ` set (table o1))" by (simp add: tab)
    then have "snd ` set (table ?o) - {ct_pListenSocket ?o} = insert ?p (snd ` set (table o1) - {ct_pListenSocket o1})"
      using new(4) by (auto simp: with_conn_sel)
    then show "snd ` set (table ?o) - {ct_pListenSocket ?o} = socks (ct_ReadSockets ?o)" by (simp only: rs w(10))
    have "dom (ct_objs ?o) = insert ?p (dom (ct_objs o1))" by (simp add: with_conn_sel)
    then show "dom (ct_objs ?o) = socks (ct_ReadSockets ?o) \<union> ({ct_pListenSocket ?o} - {0})"
      unfolding rs w(11) by (simp add: with_conn_sel)
    show "q < ct_fresh ?o" if "q \<in> dom (ct_objs ?o)" for q
      using that w(12) [of q] by (auto simp: with_conn_sel less_Suc_eq split: if_splits)
    show "pevents e = read_events" if "(e, ct_pListenSocket ?o) \<in> set (table ?o)" for e
      using that w(14) [of e] new(4) by (auto simp: tab with_conn_sel)
  qed (use w in \<open>simp_all add: with_conn_sel\<close>)
qed

end
