(* ===== verification/Ci_Net_Thread.thy ===== *)
theory Ci_Net_Thread
  imports Ci_Registry_Inv
begin

text \<open>
  \<open>CNetworkThread\<close> of \<open>CiUtils/Src/NetworkThread.cpp\<close>, second part: a TCP server that accepts
  connections, waits for events of all its sockets and serves each ready one (poll version).  The
  functions a derived class overrides are the fields of \<open>ct_vtbl\<close>; the event functions that \<open>Run\<close>
  calls are virtual in the code too, but here they are those of the class.
\<close>

section \<open>The environment\<close>

record net_env =
  ne_endian :: endian
  ne_kernel :: kernel
  ne_calls :: net_calls
  ne_heap :: heap
  ne_mem :: cisocket   \<comment> \<open>what the memory of a new socket object holds\<close>

definition new_socket :: "net_env \<Rightarrow> fd \<Rightarrow> int \<Rightarrow> int \<Rightarrow> 'a ci_net_thread_scheme st \<Rightarrow>
     nat \<times> 'a ci_net_thread_scheme st" where
  "new_socket E sock nsend nrecv s =
     (let (c, w1) = CCiSocket_accepted (ne_heap E) (ne_calls E) (ne_mem E) sock CI_SOCKET_TCP
                      nsend nrecv (snd s);
          (p, o1) = obj_new c (fst s) in (p, o1, w1))"

abbreviation (input) NU_INVALID_PORT_NUMBER :: int where
  "NU_INVALID_PORT_NUMBER \<equiv> - 1"

section \<open>Starting and ending\<close>

definition CT_InitInstance :: "net_env \<Rightarrow> ('a ci_net_thread_scheme, bool) meth" where
  "CT_InitInstance E s =
     (let o0 = fst s; K = ne_kernel E; N = ne_calls E in
      if ct_iListenPortNumber o0 = NU_INVALID_PORT_NUMBER then Some (True, s)
      else (case nu_create_listen_socket (ne_endian E) K N (word_of_int (ct_iListenPortNumber o0))
                   (ct_iListenQueueSize o0) (ct_ListenIPAddr o0) (snd s) of
          (None, w1) \<Rightarrow> Some (False, o0, w1)
        | (Some sock, w1) \<Rightarrow>
            (let (port, w2) =
               (if ct_iListenPortNumber o0 = 0 then nu_get_local_port_number (ne_endian E) N w1
                else (Some 0, w1)) in
             if port = None then Some (False, o0, snd (sys_close K sock w2))
             else
               (let o1 = (if ct_iListenPortNumber o0 = 0
                          then o0\<lparr>ct_iListenPortNumber := uint (the port)\<rparr> else o0);
                    (p, o2, w3) = new_socket E sock CI_SOCKET_BUFFER_SIZE CI_SOCKET_BUFFER_SIZE (o1, w2) in
                do {
                  (ok, o3) \<leftarrow> PollFDAdd_ci p True (o2\<lparr>ct_pListenSocket := p\<rparr>);
                  Some (ok, o3, w3) }))))"

text \<open>The sockets of an array are disconnected and deleted.\<close>

fun close_all ::
  "kernel \<Rightarrow> nat list \<Rightarrow> 'a ci_net_thread_scheme st \<Rightarrow> 'a ci_net_thread_scheme st option" where
  "close_all K [] s = Some s"
| "close_all K (p # ps) s =
     (if p = 0 then close_all K ps s
      else do {
        (r, s1) \<leftarrow> obj_Disconnect K p s;
        s2 \<leftarrow> obj_delete K p s1;
        close_all K ps s2 })"

definition CT_ExitInstance :: "kernel \<Rightarrow> ('a ci_net_thread_scheme, bool) meth" where
  "CT_ExitInstance K s = do {
     (o1, w1) \<leftarrow> close_all K (ct_ReadSockets (fst s)) s;
     let n = ct_iMaxFDSize o1;
     (o2, w2) \<leftarrow> CloseListenSocket K
       (o1\<lparr>ct_ReadSockets := replicate n 0, ct_WriteSockets := replicate n 0\<rparr>, w1);
     Thread2_ExitInstance
       (o2\<lparr>ct_iReadSocketCount := 0, ct_iWriteSocketCount := 0,
           ct_PollFds := replicate n free_pollfd, ct_PollSockets := replicate n 0,
           ct_iPollFdCount := 0, ct_iEventsCount := 0\<rparr>, w2) }"

text \<open>
  The destructor: for each index the socket in the read array and the one in the write array, then
  the listen socket, then the sockets of the poll table.
\<close>

fun destroy_pairs ::
  "kernel \<Rightarrow> (nat \<times> nat) list \<Rightarrow> 'a ci_net_thread_scheme st \<Rightarrow> 'a ci_net_thread_scheme st option" where
  "destroy_pairs K [] s = Some s"
| "destroy_pairs K ((p, q) # ps) s = do {
     s1 \<leftarrow> (if p \<noteq> 0 then do { (r, s0) \<leftarrow> obj_Disconnect K p s; obj_delete K p s0 } else Some s);
     s2 \<leftarrow> obj_delete K q s1;
     destroy_pairs K ps s2 }"

fun delete_all ::
  "kernel \<Rightarrow> nat list \<Rightarrow> 'a ci_net_thread_scheme st \<Rightarrow> 'a ci_net_thread_scheme st option" where
  "delete_all K [] s = Some s"
| "delete_all K (p # ps) s = do {
     s1 \<leftarrow> (if p \<noteq> 0 then obj_delete K p s else Some s);
     delete_all K ps s1 }"

definition CNetworkThread_destroy ::
  "kernel \<Rightarrow> 'a ci_net_thread_scheme st \<Rightarrow> 'a ci_net_thread_scheme st option" where
  "CNetworkThread_destroy K s = do {
     s1 \<leftarrow> destroy_pairs K (zip (ct_ReadSockets (fst s)) (ct_WriteSockets (fst s))) s;
     s2 \<leftarrow> CloseListenSocket K s1;
     delete_all K (ct_PollSockets (fst s2)) s2 }"

section \<open>The functions a derived class overrides\<close>

record 'o ct_vtbl =
  cv_ReceiveIntMessage :: "nat \<Rightarrow> ('o, ReceiveIntMessageResult_t \<times> i32 option) meth"
  cv_OnMessage :: "nat \<Rightarrow> i32 \<Rightarrow> ('o, bool) meth"
  cv_DoWrite :: "nat \<Rightarrow> ('o, bool) meth"
  cv_OnReadSocketError :: "nat \<Rightarrow> ('o, bool) meth"
  cv_ProcessWithConnectedSocket :: "nat \<Rightarrow> ('o, bool) meth"
  cv_ProcessTimeout :: "('o, bool) meth"

definition CT_ReceiveIntMessage ::
  "net_env \<Rightarrow> nat \<Rightarrow> ('a ci_net_thread_scheme, ReceiveIntMessageResult_t \<times> i32 option) meth" where
  "CT_ReceiveIntMessage E p s =
     (if p = 0 then Some ((RECEIVE_INT_MESSAGE_FALSE, None), s)
      else on_obj p (ReceiveIntMessage (ne_endian E) (ne_heap E) (ne_kernel E)) s)"

definition CT_OnMessage :: "nat \<Rightarrow> i32 \<Rightarrow> ('o, bool) meth" where
  "CT_OnMessage p m s = Some (True, s)"

definition CT_DoWrite :: "kernel \<Rightarrow> nat \<Rightarrow> ('a ci_net_thread_scheme, bool) meth" where
  "CT_DoWrite K p s = (if p = 0 then Some (False, s) else on_obj p (DoWrite K) s)"

definition CT_ProcessWithConnectedSocket :: "nat \<Rightarrow> ('o, bool) meth" where
  "CT_ProcessWithConnectedSocket p s = Some (True, s)"

definition CT_ProcessTimeout :: "('o, bool) meth" where
  "CT_ProcessTimeout s = Some (True, s)"

definition ct_base_vtbl :: "net_env \<Rightarrow> 'a ci_net_thread_scheme ct_vtbl" where
  "ct_base_vtbl E =
     \<lparr>cv_ReceiveIntMessage = CT_ReceiveIntMessage E, cv_OnMessage = CT_OnMessage,
      cv_DoWrite = CT_DoWrite (ne_kernel E), cv_OnReadSocketError = OnReadSocketError_ci (ne_kernel E),
      cv_ProcessWithConnectedSocket = CT_ProcessWithConnectedSocket,
      cv_ProcessTimeout = CT_ProcessTimeout\<rparr>"

section \<open>The event loop\<close>

text \<open>\<open>WaitNetworkEvent\<close> with \<open>piNEvent\<close> pointing to \<open>m_iEventsCount\<close>, as \<open>Run\<close> calls it.\<close>

definition WaitNetworkEvent_ci :: "kernel \<Rightarrow> ('a ci_net_thread_scheme, bool) meth" where
  "WaitNetworkEvent_ci K s =
     (case k_poll K (clock (snd s)) of
        PollFail e \<Rightarrow>
          if e = CI_EINTR then Some (False, (fst s)\<lparr>ct_iEventsCount := 0\<rparr>, tick (snd s))
          else Some (True, (fst s)\<lparr>ct_iEventsCount := - 1\<rparr>, tick (tick (snd s)))
      | PollReady r \<Rightarrow>
          (let (n, ps) = poll_array r (ct_iPollFdCount (fst s)) (ct_PollFds (fst s))
           in Some (True, (fst s)\<lparr>ct_PollFds := ps, ct_iEventsCount := n\<rparr>, tick (snd s))))"

text \<open>The event of the listen socket is taken off.\<close>

definition listen_served :: "'a ci_net_thread_scheme \<Rightarrow> 'a ci_net_thread_scheme option" where
  "listen_served o1 = do {
     let o2 = o1\<lparr>ct_iEventsCount := ct_iEventsCount o1 - 1\<rparr>;
     pListenPollfd \<leftarrow> FindPollFD (ct_pListenSocket o2) o2;
     Some (case pListenPollfd of None \<Rightarrow> o2 | Some i \<Rightarrow> clear_entry i o2) }"

text \<open>The end of \<open>ProcessConnection\<close>: the new socket gets its object and its places in the tables.\<close>

definition take_connection ::
  "net_env \<Rightarrow> 'a ci_net_thread_scheme ct_vtbl \<Rightarrow> fd \<Rightarrow> ('a ci_net_thread_scheme, bool \<times> nat option) meth" where
  "take_connection E vt sock s =
     (let (p, s2) = new_socket E sock (ct_iConnectedSocketSendBufferSize (fst s))
                      (ct_iConnectedSocketRecvBufferSize (fst s)) s in
      do {
        (ok, s3) \<leftarrow> cv_ProcessWithConnectedSocket vt p s2;
        if \<not> ok then do { s4 \<leftarrow> obj_delete (ne_kernel E) p s3; Some ((False, Some 0), s4) }
        else
          (let (added, o4) = AddReadSocket_ci p (fst s3) in
           if \<not> added then do {
             s5 \<leftarrow> obj_delete (ne_kernel E) p (o4, snd s3); Some ((False, Some 0), s5) }
           else do {
             (watched, o5) \<leftarrow> PollFDAdd_ci p True o4;
             if \<not> watched then do {
               (_, s6) \<leftarrow> DeleteReadSocket_ci (ne_kernel E) p False (o5, snd s3);
               Some ((False, Some 0), s6) }
             else Some ((True, Some p), o5, snd s3) }) })"

text \<open>
  \<open>ProcessConnection\<close>.  The second component of the result is what is stored in
  \<open>*ppConnectedSocket\<close> unless that pointer is null; \<open>None\<close> is nothing.
\<close>

definition ProcessConnection ::
  "net_env \<Rightarrow> 'a ci_net_thread_scheme ct_vtbl \<Rightarrow> ('a ci_net_thread_scheme, bool \<times> nat option) meth" where
  "ProcessConnection E vt s = do {
     l \<leftarrow> (if ct_pListenSocket (fst s) = 0 then None else ct_objs (fst s) (ct_pListenSocket (fst s)));
     (acc, w1) \<leftarrow> nu_accept (ne_endian E) (ne_calls E) (Some (CI_MAX_IP_ADDRESS_LENGTH + 1)) False (snd s);
     o1 \<leftarrow> listen_served (fst s);
     case acc of
       None \<Rightarrow> Some ((False, None), o1, w1)
     | Some (sock, ip, port) \<Rightarrow>
         if int (ct_iMaxFDSize o1) \<le> ct_iReadSocketCount o1
         then Some ((False, None), o1, snd (nu_disconnect_ci (ne_kernel E) sock w1))
         else
           take_connection E vt sock (o1, w1) }"

text \<open>The socket of entry \<open>i\<close>, and whether it is still the one that was there.\<close>

definition still_there :: "nat \<Rightarrow> nat \<Rightarrow> 'a ci_net_thread_scheme \<Rightarrow> bool" where
  "still_there i p o1 \<longleftrightarrow> ct_PollSockets o1 ! i \<noteq> 0 \<and> ct_PollSockets o1 ! i = p"

definition event_on :: "events \<Rightarrow> nat \<Rightarrow> 'a ci_net_thread_scheme \<Rightarrow> bool" where
  "event_on ev i o1 \<longleftrightarrow>
     pfd (ct_PollFds o1 ! i) \<noteq> NU_INVALID_SOCKET \<and> prevents (ct_PollFds o1 ! i) AND ev \<noteq> 0"

text \<open>The end of the branch of a message: the entry is watched for writing when data is left to send.\<close>

definition watch_unsent ::
  "nat \<Rightarrow> nat \<Rightarrow> 'a ci_net_thread_scheme \<Rightarrow> 'a ci_net_thread_scheme option" where
  "watch_unsent i p o1 =
     (if still_there i p o1 then do {
        c \<leftarrow> ct_objs o1 p;
        if GetRemainSendDataSize c > 0 then do {
          q \<leftarrow> FindSocket (m_iSocket c) False o1;
          if q = 0 then Some (snd (AddWriteSocket_ci p (enable_entry i False o1))) else Some o1 }
        else Some o1 }
      else Some o1)"

definition drop_socket ::
  "'a ci_net_thread_scheme ct_vtbl \<Rightarrow> nat \<Rightarrow> nat \<Rightarrow> 'a ci_net_thread_scheme st \<Rightarrow>
     'a ci_net_thread_scheme st option" where
  "drop_socket vt i p s =
     (if still_there i p (fst s) then map_option snd (cv_OnReadSocketError vt p s) else Some s)"

text \<open>The bodies of the two loops, for an entry that has an event.\<close>

definition serve_read ::
  "'a ci_net_thread_scheme ct_vtbl \<Rightarrow> nat \<Rightarrow> 'a ci_net_thread_scheme st \<Rightarrow>
     'a ci_net_thread_scheme st option" where
  "serve_read vt i s = do {
     let p = ct_PollSockets (fst s) ! i;
     ((r, m), s1) \<leftarrow> cv_ReceiveIntMessage vt p (clear_entry i (fst s), snd s);
     case r of
       RECEIVE_INT_MESSAGE_TRUE \<Rightarrow> do {
         iMessage \<leftarrow> m;
         (ok, s2) \<leftarrow> cv_OnMessage vt p iMessage s1;
         if \<not> ok then drop_socket vt i p s2
         else do { o3 \<leftarrow> watch_unsent i p (fst s2); Some (o3, snd s2) } }
     | RECEIVE_INT_MESSAGE_FALSE \<Rightarrow> drop_socket vt i p s1
     | RECEIVE_INT_MESSAGE_INTERIM \<Rightarrow> Some s1 }"

definition serve_write ::
  "net_env \<Rightarrow> 'a ci_net_thread_scheme ct_vtbl \<Rightarrow> nat \<Rightarrow> 'a ci_net_thread_scheme st \<Rightarrow>
     'a ci_net_thread_scheme st option" where
  "serve_write E vt i s = do {
     let p = ct_PollSockets (fst s) ! i;
     (ok, s1) \<leftarrow> cv_DoWrite vt p (clear_entry i (fst s), snd s);
     if \<not> ok then drop_socket vt i p s1
     else if still_there i p (fst s1) then do {
       c \<leftarrow> ct_objs (fst s1) p;
       if GetRemainSendDataSize c = 0
       then map_option snd (DeleteWriteSocket_ci (ne_kernel E) p True (disable_entry i False (fst s1), snd s1))
       else Some s1 }
     else Some s1 }"

text \<open>
  The loop over the table, from index \<open>i\<close> with \<open>k\<close> entries of the array left; \<open>serve\<close> is the body.
\<close>

fun event_loop ::
  "events \<Rightarrow> (nat \<Rightarrow> 'a ci_net_thread_scheme st \<Rightarrow> 'a ci_net_thread_scheme st option) \<Rightarrow> nat \<Rightarrow> nat \<Rightarrow>
     'a ci_net_thread_scheme st \<Rightarrow> 'a ci_net_thread_scheme st option" where
  "event_loop ev serve 0 i s = (if i < ct_iPollFdCount (fst s) then None else Some s)"
| "event_loop ev serve (Suc k) i s =
     (if i < ct_iPollFdCount (fst s) then
        if event_on ev i (fst s) then do {
          (o1, w1) \<leftarrow> serve i s;
          let n = ct_iEventsCount o1 - 1;
          let o2 = o1\<lparr>ct_iEventsCount := n\<rparr>;
          if n \<le> 0 then Some (o2, w1) else event_loop ev serve k (Suc i) (o2, w1) }
        else event_loop ev serve k (Suc i) s
      else Some s)"

definition ProcessReadEvent_ci ::
  "'a ci_net_thread_scheme ct_vtbl \<Rightarrow> ('a ci_net_thread_scheme, bool) meth" where
  "ProcessReadEvent_ci vt s =
     map_option (\<lambda>t. (True, t)) (event_loop read_events (serve_read vt) (ct_iMaxFDSize (fst s)) 0 s)"

definition ProcessWriteEvent ::
  "net_env \<Rightarrow> 'a ci_net_thread_scheme ct_vtbl \<Rightarrow> ('a ci_net_thread_scheme, bool) meth" where
  "ProcessWriteEvent E vt s =
     map_option (\<lambda>t. (True, t))
       (event_loop (write_events OR POLLPRI) (serve_write E vt) (ct_iMaxFDSize (fst s)) 0 s)"

text \<open>The first part of the work of \<open>Run\<close>: the listen socket.  \<open>False\<close> is the early return.\<close>

definition serve_listen ::
  "net_env \<Rightarrow> 'a ci_net_thread_scheme ct_vtbl \<Rightarrow> ('a ci_net_thread_scheme, bool) meth" where
  "serve_listen E vt s =
     (if ct_pListenSocket (fst s) = 0 then Some (True, s)
      else do {
        pListenPollfd \<leftarrow> FindPollFD (ct_pListenSocket (fst s)) (fst s);
        case pListenPollfd of
          None \<Rightarrow> Some (False, s)
        | Some i \<Rightarrow>
            if prevents (ct_PollFds (fst s) ! i) AND POLLRDNORM \<noteq> 0 then do {
              (_, s1) \<leftarrow> ProcessConnection E vt s;
              Some (True, s1) }
            else Some (True, s) })"

definition CT_Run ::
  "net_env \<Rightarrow> 'a ci_net_thread_scheme ct_vtbl \<Rightarrow> ('a ci_net_thread_scheme, bool) meth" where
  "CT_Run E vt s =
     (let busy = (\<lambda>t. \<not> m_bExit (fst t) \<and> ct_iEventsCount (fst t) > 0) in
      if m_bExit (fst s) then Some (True, s)
      else do {
        (waited, s1) \<leftarrow> WaitNetworkEvent_ci (ne_kernel E) s;
        if \<not> waited then Some (True, s1)
        else do {
          (found, s2) \<leftarrow> (if busy s1 then serve_listen E vt s1 else Some (True, s1));
          if \<not> found then Some (False, s2)
          else do {
            (_, s3) \<leftarrow> (if busy s2 then ProcessReadEvent_ci vt s2 else Some (True, s2));
            (_, s4) \<leftarrow> (if busy s3 then ProcessWriteEvent E vt s3 else Some (True, s3));
            (_, s5) \<leftarrow> (if \<not> m_bExit (fst s4) then cv_ProcessTimeout vt s4 else Some (True, s4));
            Some (True, s5) } } })"

definition ct_thread_vtbl ::
  "net_env \<Rightarrow> 'a ci_net_thread_scheme ct_vtbl \<Rightarrow> 'a ci_net_thread_scheme thread_vtbl" where
  "ct_thread_vtbl E vt =
     \<lparr>v_InitInstance = CT_InitInstance E, v_Run = CT_Run E vt, v_ExitInstance = CT_ExitInstance (ne_kernel E)\<rparr>"

end
