(* ===== verification/Ci_Net_Server.thy ===== *)
theory Ci_Net_Server
  imports Ci_Net_Thread
begin

text \<open>
  \<open>CNetworkThread\<close> of \<open>NetworkThread.cpp\<close>, third part: what the server does.  The functions that a
  derived class overrides are under a contract, the locale \<open>conn_hooks\<close>: they work on the socket they
  are given, and between two events its buffers are in a state \<open>idle\<close>.  Under it every round of
  \<open>Run\<close> keeps the tables consistent, serves no socket that is gone and never takes the listen
  socket for a connection.
\<close>

section \<open>Entries\<close>

lemma set_entry_sockets:
  "snd ` set (table (set_entry i p o1)) = snd ` set (table o1)"
proof -
  have "map snd (table (set_entry i p o1)) = map snd (table o1)"
    by (rule nth_equalityI) (simp_all add: table_def set_entry_def)
  then show ?thesis by (metis list.set_map)
qed

lemma set_entry_sel [simp]:
  "ct_objs (set_entry i p o1) = ct_objs o1" "ct_ReadSockets (set_entry i p o1) = ct_ReadSockets o1"
  "ct_WriteSockets (set_entry i p o1) = ct_WriteSockets o1"
  "ct_PollSockets (set_entry i p o1) = ct_PollSockets o1" "same_server o1 (set_entry i p o1)"
  "ct_iPollFdCount (set_entry i p o1) = ct_iPollFdCount o1"
proof -
  have "listens (set_entry i p o1) = listens o1"
    by (simp add: listens_def set_entry_sockets) (simp add: set_entry_def)
  then show "same_server o1 (set_entry i p o1)" by (simp add: same_server_def) (simp add: set_entry_def)
qed (simp_all add: set_entry_def)

lemma clear_entry_sel [simp]:
  "ct_objs (clear_entry i o1) = ct_objs o1" "ct_ReadSockets (clear_entry i o1) = ct_ReadSockets o1"
  "ct_PollSockets (clear_entry i o1) = ct_PollSockets o1" "same_server o1 (clear_entry i o1)"
  "ct_iPollFdCount (clear_entry i o1) = ct_iPollFdCount o1"
  by (simp_all add: clear_entry_def)

text \<open>The listen socket reports nothing that the loops over the table serve.\<close>

definition listen_quiet :: "'a ci_net_thread_scheme \<Rightarrow> bool" where
  "listen_quiet o1 \<longleftrightarrow> (\<forall>e. (e, ct_pListenSocket o1) \<in> set (table o1) \<longrightarrow>
     prevents e AND (read_events OR write_events) = 0)"

lemma set_entry_table:
  assumes "table_wf o1" "(e, q) \<in> set (table (set_entry i p o1))"
  shows "(e, q) \<in> set (table o1) \<or> (e = p \<and> i < ct_iPollFdCount o1 \<and> q = ct_PollSockets o1 ! i)"
proof -
  note t = table_wfD [OF assms(1)]
  have l: "length (table (set_entry i p o1)) = ct_iPollFdCount o1" using t by (simp add: table_def set_entry_def)
  obtain j where j: "j < ct_iPollFdCount o1" "table (set_entry i p o1) ! j = (e, q)"
    using assms(2) l by (metis in_set_conv_nth)
  have "table (set_entry i p o1) ! j = ((ct_PollFds o1)[i := p] ! j, ct_PollSockets o1 ! j)"
    using j(1) t by (simp add: table_def set_entry_def)
  then have "e = (ct_PollFds o1)[i := p] ! j" "q = ct_PollSockets o1 ! j" using j(2) by simp_all
  moreover have "(ct_PollFds o1 ! j, ct_PollSockets o1 ! j) \<in> set (table o1)"
    using table_at [OF assms(1) j(1)] .
  ultimately show ?thesis using j(1) by (auto simp: nth_update_if split: if_splits)
qed

lemma set_entry_wf:
  assumes wf: "ct_wf o1" and fd: "pfd p = pfd (ct_PollFds o1 ! i)"
    and ev: "ct_PollSockets o1 ! i = ct_pListenSocket o1 \<Longrightarrow> pevents p = pevents (ct_PollFds o1 ! i)"
  shows "ct_wf (set_entry i p o1)"
  unfolding set_entry_def
proof (rule ct_wf_table [OF wf])
  show "pfd ((ct_PollFds o1)[i := p] ! j) = pfd (ct_PollFds o1 ! j)" for j
    using fd by (simp add: nth_update_if)
  show "pevents ((ct_PollFds o1)[i := p] ! j) = pevents (ct_PollFds o1 ! j)"
    if "ct_PollSockets o1 ! j = ct_pListenSocket o1" for j
    using ev that by (simp add: nth_update_if)
qed simp

lemma clear_entry_wf:
  assumes "ct_wf o1" shows "ct_wf (clear_entry i o1)"
  unfolding clear_entry_def by (rule set_entry_wf [OF assms]) simp_all

lemma clear_entry_quiet:
  assumes "ct_wf o1" "listen_quiet o1" shows "listen_quiet (clear_entry i o1)"
  unfolding listen_quiet_def
proof (intro allI impI)
  fix e assume "(e, ct_pListenSocket (clear_entry i o1)) \<in> set (table (clear_entry i o1))"
  then have "(e, ct_pListenSocket o1) \<in> set (table o1) \<or> prevents e = 0"
    using set_entry_table [OF wf_table [OF assms(1)]] unfolding clear_entry_def set_entry_def by fastforce
  then show "prevents e AND (read_events OR write_events) = 0" using assms(2) by (auto simp: listen_quiet_def)
qed

text \<open>Taking the events of a connection's entry up or off.\<close>

lemma other_entry:
  assumes wf: "ct_wf o1" "listen_quiet o1" and i: "ct_PollSockets o1 ! i \<noteq> ct_pListenSocket o1"
    and p: "pfd p = pfd (ct_PollFds o1 ! i)"
  shows "ct_wf (set_entry i p o1)" "listen_quiet (set_entry i p o1)"
proof -
  show "ct_wf (set_entry i p o1)" by (rule set_entry_wf [OF wf(1) p]) (use i in blast)
  show "listen_quiet (set_entry i p o1)" unfolding listen_quiet_def
  proof (intro allI impI)
    fix e assume "(e, ct_pListenSocket (set_entry i p o1)) \<in> set (table (set_entry i p o1))"
    then have "(e, ct_pListenSocket o1) \<in> set (table o1)"
      using set_entry_table [OF wf_table [OF wf(1)]] i by (fastforce simp: set_entry_def)
    then show "prevents e AND (read_events OR write_events) = 0" using wf(2) by (auto simp: listen_quiet_def)
  qed
qed

lemma set_entry_fds:
  assumes "table_wf o1" "pfd p = pfd (ct_PollFds o1 ! i)"
  shows "map entry_fd (table (set_entry i p o1)) = map entry_fd (table o1)"
proof -
  note t = table_wfD [OF assms(1)]
  have "map pfd (take (ct_iPollFdCount o1) ((ct_PollFds o1)[i := p])) = map pfd (take (ct_iPollFdCount o1) (ct_PollFds o1))"
    using t assms(2) by (intro nth_equalityI) (simp_all add: nth_update_if)
  then show ?thesis using t by (simp add: table_def set_entry_def map_entry_fd)
qed

text \<open>The event of the listen socket is taken off.\<close>

lemma listen_served_ok:
  assumes wf: "ct_wf o1" and e: "(e, ct_pListenSocket o1) \<in> set (table o1)"
  obtains o2 where "listen_served o1 = Some o2" "ct_wf o2" "listen_quiet o2" "same_server o1 o2"
    "ct_objs o2 = ct_objs o1" "ct_ReadSockets o2 = ct_ReadSockets o1"
    "entry_fd ` set (table o2) = entry_fd ` set (table o1)"
    "ct_iReadSocketCount o2 = ct_iReadSocketCount o1" "ct_iPollFdCount o2 = ct_iPollFdCount o1"
proof -
  note t = wf_table [OF wf]
  let ?o = "o1\<lparr>ct_iEventsCount := ct_iEventsCount o1 - 1\<rparr>"
  obtain i where i: "FindPollFD (ct_pListenSocket o1) o1 = Some (Some i)" "i < ct_iPollFdCount o1"
    "ct_PollFds o1 ! i = e" "ct_PollSockets o1 ! i = ct_pListenSocket o1"
    using FindPollFD_entry [OF t e] .
  have f: "FindPollFD (ct_pListenSocket ?o) ?o = Some (Some i)" using i(1) by (auto simp: FindPollFD_def split: if_splits bind_splits)
  let ?o2 = "clear_entry i ?o"
  have wf': "ct_wf ?o" using wf by simp
  have "entry_fd ` set (table ?o2) = entry_fd ` set (table ?o)"
    using arg_cong [OF set_entry_fds [OF wf_table [OF wf'], of "(ct_PollFds ?o ! i)\<lparr>prevents := 0\<rparr>" i], of set]
    by (simp add: clear_entry_def)
  moreover have "listen_quiet ?o2" unfolding listen_quiet_def
  proof (intro allI impI)
    fix e' assume "(e', ct_pListenSocket ?o2) \<in> set (table ?o2)"
    then obtain j where j: "j < length (table ?o2)" "table ?o2 ! j = (e', ct_pListenSocket o1)"
      unfolding in_set_conv_nth by (auto simp: clear_entry_def set_entry_def)
    note tt = table_wfD [OF t]
    have jn: "j < ct_iPollFdCount o1" using j(1) by (simp add: table_def clear_entry_def set_entry_def)
    have e': "e' = (ct_PollFds o1)[i := (ct_PollFds o1 ! i)\<lparr>prevents := 0\<rparr>] ! j" "ct_PollSockets o1 ! j = ct_pListenSocket o1"
      using j(2) jn tt by (simp_all add: table_def clear_entry_def set_entry_def)
    have "i = j"
    proof -
      have "ct_PollFds o1 ! j = e" using table_unique [OF t e, of "ct_PollFds o1 ! j"] table_at [OF t jn] e'(2) by simp
      then have "map entry_fd (table o1) ! i = map entry_fd (table o1) ! j"
        using i jn tt by (simp add: table_def entry_fd_def)
      then show ?thesis using nth_eq_iff_index_eq [OF tt(4)] i(2) jn length_table [OF t] by simp
    qed
    then have "prevents e' = 0" using e'(1) jn tt by simp
    then show "prevents e' AND (read_events OR write_events) = 0" by simp
  qed
  moreover have "same_server o1 ?o2" by (rule same_server_trans [of _ ?o], simp add: same_server_def) (rule clear_entry_sel(4))
  moreover have "ct_iReadSocketCount ?o2 = ct_iReadSocketCount o1" by (simp add: clear_entry_def set_entry_def)
  ultimately show ?thesis using that [of ?o2] clear_entry_wf [OF wf'] f by (simp add: listen_served_def)
qed

definition entry_change :: "(pollfd option \<Rightarrow> bool \<Rightarrow> bool \<times> pollfd option) \<Rightarrow> bool" where
  "entry_change f \<longleftrightarrow> (\<forall>p b. \<exists>r q. f (Some p) b = (r, Some q) \<and> pfd q = pfd p)"

lemma entry_changes: "entry_change PollFDEnable_ci" "entry_change PollFDDisable_ci"
  by (simp_all add: entry_change_def PollFDEnable_ci_def PollFDDisable_ci_def)

lemma able_entry:
  obtains p q where "enable_entry i b o1 = set_entry i p o1" "pfd p = pfd (ct_PollFds o1 ! i)"
    "disable_entry i b o1 = set_entry i q o1" "pfd q = pfd (ct_PollFds o1 ! i)"
proof -
  obtain r p where "PollFDEnable_ci (Some (ct_PollFds o1 ! i)) b = (r, Some p)" "pfd p = pfd (ct_PollFds o1 ! i)"
    using entry_changes(1) unfolding entry_change_def by blast
  moreover obtain r' q where "PollFDDisable_ci (Some (ct_PollFds o1 ! i)) b = (r', Some q)"
    "pfd q = pfd (ct_PollFds o1 ! i)"
    using entry_changes(2) unfolding entry_change_def by blast
  ultimately show ?thesis by (intro that [where p = p and q = q]) (simp_all add: enable_entry_def disable_entry_def)
qed

text \<open>An entry with an event is that of a connection.\<close>

lemma active_conn:
  assumes wf: "ct_wf o1" "listen_quiet o1" and i: "i < ct_iPollFdCount o1" and ev: "event_on ev i o1"
    and sub: "ev AND (read_events OR write_events) = ev"
  shows "ct_PollSockets o1 ! i \<in> socks (ct_ReadSockets o1)" "ct_PollSockets o1 ! i \<noteq> ct_pListenSocket o1"
proof -
  note at = table_at [OF wf_table [OF wf(1)] i]
  have "prevents (ct_PollFds o1 ! i) AND ev = (prevents (ct_PollFds o1 ! i) AND (read_events OR write_events)) AND ev"
    using sub by (metis and.assoc and.commute)
  then show n: "ct_PollSockets o1 ! i \<noteq> ct_pListenSocket o1"
    using ev at wf(2) unfolding event_on_def listen_quiet_def by fastforce
  have "ct_PollSockets o1 ! i \<in> snd ` set (table o1)" using at by (metis image_eqI snd_conv)
  then have "ct_PollSockets o1 ! i \<in> snd ` set (table o1) - {ct_pListenSocket o1}" using n by blast
  then show "ct_PollSockets o1 ! i \<in> socks (ct_ReadSockets o1)" unfolding ct_wfD(10) [OF wf(1)] .
qed

section \<open>The contract of a derived class\<close>

text \<open>
  A function that works on one socket object: it returns, changes nothing but the buffers of that
  object, and takes a socket in state \<open>P\<close> to one that \<open>Q\<close> describes.
\<close>

definition conn_call ::
  "(cisocket \<Rightarrow> bool) \<Rightarrow> ('r \<Rightarrow> cisocket \<Rightarrow> bool) \<Rightarrow> (nat \<Rightarrow> ('a ci_net_thread_scheme, 'r) meth) \<Rightarrow> bool" where
  "conn_call P Q f \<longleftrightarrow>
     (\<forall>p c o1 w. p \<noteq> 0 \<longrightarrow> ct_objs o1 p = Some c \<longrightarrow> P c \<longrightarrow>
        (\<exists>r c' w'. f p (o1, w) = Some (r, o1\<lparr>ct_objs := (ct_objs o1)(p \<mapsto> c')\<rparr>, w') \<and>
           m_iSocket c' = m_iSocket c \<and> Q r c'))"

lemma conn_callE:
  assumes "conn_call P Q f" "p \<noteq> 0" "ct_objs o1 p = Some c" "P c"
  obtains r c' w' where "f p (o1, w) = Some (r, o1\<lparr>ct_objs := (ct_objs o1)(p \<mapsto> c')\<rparr>, w')"
    "m_iSocket c' = m_iSocket c" "Q r c'"
  using assms unfolding conn_call_def by blast

text \<open>A method of \<open>CCiSocket\<close>, called through the pointer.\<close>

lemma conn_call_obj:
  assumes "\<And>c w. P c \<Longrightarrow> \<exists>r c' w'. g (c, w) = Some (r, c', w') \<and> m_iSocket c' = m_iSocket c \<and> Q r c'"
    and "\<And>p s. p \<noteq> 0 \<Longrightarrow> f p s = on_obj p g s"
  shows "conn_call P Q f"
  unfolding conn_call_def
proof (intro allI impI)
  fix p c and o1 :: "'b ci_net_thread_scheme" and w
  assume a: "p \<noteq> 0" "ct_objs o1 p = Some c" "P c"
  from assms(1) [OF a(3), of w] obtain r c' w' where "g (c, w) = Some (r, c', w')" "m_iSocket c' = m_iSocket c"
    "Q r c'" by blast
  then show "\<exists>r c' w'. f p (o1, w) = Some (r, o1\<lparr>ct_objs := (ct_objs o1)(p \<mapsto> c')\<rparr>, w') \<and>
      m_iSocket c' = m_iSocket c \<and> Q r c'"
    using a by (intro exI [of _ r] exI [of _ c'] exI [of _ w']) (simp add: assms(2) on_obj_def)
qed

definition message_state :: "(cisocket \<Rightarrow> bool) \<Rightarrow> (cisocket \<Rightarrow> bool) \<Rightarrow>
    ReceiveIntMessageResult_t \<times> i32 option \<Rightarrow> cisocket \<Rightarrow> bool" where
  "message_state idle ready x c \<longleftrightarrow>
     (fst x = RECEIVE_INT_MESSAGE_INTERIM \<longrightarrow> idle c) \<and>
     (fst x = RECEIVE_INT_MESSAGE_TRUE \<longrightarrow> ready c \<and> snd x \<noteq> None)"

text \<open>The state of the server between two events.\<close>

definition conns_ok :: "(cisocket \<Rightarrow> bool) \<Rightarrow> nat set \<Rightarrow> 'a ci_net_thread_scheme \<Rightarrow> bool" where
  "conns_ok idle ps o1 \<longleftrightarrow> (\<forall>p\<in>ps. \<forall>c. ct_objs o1 p = Some c \<longrightarrow> idle c)"

definition server_ok :: "(cisocket \<Rightarrow> bool) \<Rightarrow> 'a ci_net_thread_scheme \<Rightarrow> bool" where
  "server_ok idle o1 \<longleftrightarrow> ct_wf o1 \<and> conns_ok idle (socks (ct_ReadSockets o1)) o1"

lemma conns_ok_obj:
  "conns_ok idle ps o1 \<Longrightarrow> idle c \<Longrightarrow> conns_ok idle ps (o1\<lparr>ct_objs := (ct_objs o1)(p \<mapsto> c)\<rparr>)"
  "conns_ok idle ps o1 \<Longrightarrow> conns_ok idle (ps - {p}) (o1\<lparr>ct_objs := (ct_objs o1)(p \<mapsto> c)\<rparr>)"
  by (auto simp: conns_ok_def)

lemma conns_ok_cong: "ct_objs o2 = ct_objs o1 \<Longrightarrow> conns_ok idle ps o2 = conns_ok idle ps o1"
  by (simp add: conns_ok_def)

text \<open>
  What \<open>accept\<close> gives at a time: a descriptor that is not open already, which in the server is one that
  is not in the table, and an address whose text is no longer than \<open>CI_MAX_IP_ADDRESS_LENGTH\<close>.
\<close>

definition accept_ok :: "net_env \<Rightarrow> nat \<Rightarrow> 'a ci_net_thread_scheme \<Rightarrow> bool" where
  "accept_ok E t o1 \<longleftrightarrow>
     (\<forall>sock a port. n_accept (ne_calls E) t = Some (sock, a, port) \<longrightarrow>
        sock \<notin> entry_fd ` set (table o1) \<and> length (n_text (ne_calls E) a) \<le> CI_MAX_IP_ADDRESS_LENGTH)"

text \<open>The connection that a call of \<open>accept\<close> gives.\<close>

definition accepted :: "net_env \<Rightarrow> nat \<Rightarrow> fd option" where
  "accepted E t = (case n_accept (ne_calls E) t of
     Some (sock, a, port) \<Rightarrow> if sock < 0 then None else Some sock | None \<Rightarrow> None)"

lemma nu_accept_accepted:
  assumes "accept_ok E (clock w) o1"
  shows "\<exists>x. nu_accept (ne_endian E) (ne_calls E) (Some (CI_MAX_IP_ADDRESS_LENGTH + 1)) False w =
      Some (map_option (\<lambda>sock. (sock, x sock)) (accepted E (clock w)), tick w)"
proof (cases "n_accept (ne_calls E) (clock w)")
  case None
  then show ?thesis by (simp add: nu_accept_def sys_ask_def accepted_def)
next
  case (Some r)
  then obtain sock a port where r: "n_accept (ne_calls E) (clock w) = Some (sock, a, port)" by (cases r) auto
  have "length (n_text (ne_calls E) a) < CI_MAX_IP_ADDRESS_LENGTH + 1" using assms r by (auto simp: accept_ok_def)
  then have "nu_accept (ne_endian E) (ne_calls E) (Some (CI_MAX_IP_ADDRESS_LENGTH + 1)) False w =
      Some (if sock < 0 then None else Some (sock, Some (n_text (ne_calls E) a), None), tick w)"
    using r by (simp add: nu_accept_def sys_ask_def text_out_def)
  then show ?thesis using r
    by (intro exI [of _ "\<lambda>s. (Some (n_text (ne_calls E) a), None)"]) (simp add: accepted_def)
qed

lemma CCiSocket_accepted_frame:
  "m_iSocket (fst (CCiSocket_accepted H N c0 sock ty ns nr w)) = sock"
  "closed_fds (snd (CCiSocket_accepted H N c0 sock ty ns nr w)) = closed_fds w"
  by (auto simp: CCiSocket_accepted_def CiSocket_Initialize_def SetNonBlockSocket_def sys_ask_def
      sys_set_nonblock_def Let_def split: prod.splits if_splits)

lemma new_socket_with:
  "new_socket E sock ns nr (o1, w) =
     (let (c, w1) = CCiSocket_accepted (ne_heap E) (ne_calls E) (ne_mem E) sock CI_SOCKET_TCP ns nr w
      in (ct_fresh o1, with_new c o1, w1))"
  by (simp add: new_socket_def obj_new_def with_new_def split: prod.split)

text \<open>
  What a round of \<open>Run\<close> asks of the kernel: \<open>accept\<close>, the call after \<open>poll\<close>, gives out a descriptor
  that is not open, and of a listen socket \<open>poll\<close> reports only that a connection waits, which
  is \<open>POLLRDNORM\<close> (and \<open>POLLIN\<close>, which is the same on Linux).
\<close>

definition listen_reports :: "events \<Rightarrow> bool" where
  "listen_reports ev \<longleftrightarrow> (ev AND POLLRDNORM = 0 \<longrightarrow> ev AND read_events = 0)"

definition round_ok :: "net_env \<Rightarrow> 'a ci_net_thread_scheme st \<Rightarrow> bool" where
  "round_ok E s \<longleftrightarrow>
     (case k_poll (ne_kernel E) (clock (snd s)) of
        PollFail e \<Rightarrow> True
      | PollReady r \<Rightarrow> accept_ok E (Suc (clock (snd s))) (fst s) \<and>
          (\<forall>l. ct_objs (fst s) (ct_pListenSocket (fst s)) = Some l \<longrightarrow> listen_reports (r (m_iSocket l))))"

text \<open>
  A connection is accepted.  Either it has a new object, is in the read set and in the table, or its
  descriptor is closed and nothing of it is left.
\<close>

definition served_or_closed ::
  "fd \<Rightarrow> bool \<times> nat option \<Rightarrow> 'a ci_net_thread_scheme st \<Rightarrow> 'a ci_net_thread_scheme st \<Rightarrow> bool" where
  "served_or_closed sock r s t \<longleftrightarrow>
     (if fst r
      then \<exists>p c. snd r = Some p \<and> p \<notin> dom (ct_objs (fst s)) \<and> ct_objs (fst t) = (ct_objs (fst s))(p \<mapsto> c) \<and>
             m_iSocket c = sock \<and> socks (ct_ReadSockets (fst t)) = insert p (socks (ct_ReadSockets (fst s))) \<and>
             closed_fds (snd t) = closed_fds (snd s)
      else ct_objs (fst t) = ct_objs (fst s) \<and> ct_ReadSockets (fst t) = ct_ReadSockets (fst s) \<and>
           closed_fds (snd t) = closed_fds (snd s) @ [sock])"

text \<open>
  What the derived class says of the connection \<open>sock\<close>, once it has its object; and what
  \<open>ProcessConnection\<close> asks for before it takes the connection: a place in the set of connections, a
  place in the table of \<open>poll\<close>, and that.
\<close>

definition wanted :: "net_env \<Rightarrow> 'a ci_net_thread_scheme ct_vtbl \<Rightarrow> fd \<Rightarrow> 'a ci_net_thread_scheme st \<Rightarrow> bool" where
  "wanted E vt sock s =
     (let (p, s2) = new_socket E sock (ct_iConnectedSocketSendBufferSize (fst s))
                      (ct_iConnectedSocketRecvBufferSize (fst s)) s
      in case cv_ProcessWithConnectedSocket vt p s2 of Some (b, _) \<Rightarrow> b | None \<Rightarrow> False)"

definition has_room :: "'a ci_net_thread_scheme \<Rightarrow> bool" where
  "has_room o1 \<longleftrightarrow> ct_iReadSocketCount o1 < int (ct_iMaxFDSize o1) \<and> ct_iPollFdCount o1 < ct_iMaxFDSize o1"

text \<open>What \<open>poll\<close> leaves in the table.\<close>

lemma poll_array_nth:
  "i < n \<Longrightarrow> n \<le> length ps \<Longrightarrow> snd (poll_array r n ps) ! i = poll_entry r (ps ! i)"
  by (simp add: poll_array_def Let_def nth_append)

lemma polled_ok:
  assumes wf: "ct_wf o1" and o2: "o2 = o1\<lparr>ct_PollFds := snd (poll_array r (ct_iPollFdCount o1) (ct_PollFds o1)), ct_iEventsCount := n\<rparr>"
  shows "ct_wf o2" "entry_fd ` set (table o2) = entry_fd ` set (table o1)" "same_server o1 o2"
    "(e, ct_pListenSocket o2) \<in> set (table o2) \<Longrightarrow>
       prevents e = (if pfd e < 0 then 0 else r (pfd e) AND (read_events OR POLLALWAYS))"
proof -
  let ?ps = "snd (poll_array r (ct_iPollFdCount o1) (ct_PollFds o1))" and ?n = "ct_iPollFdCount o1"
  note t = table_wfD [OF wf_table [OF wf]]
  have nth: "?ps ! i = poll_entry r (ct_PollFds o1 ! i)" if "i < ?n" for i
    using poll_array_nth [OF that] t by simp
  have "ct_wf (o1\<lparr>ct_PollFds := ?ps\<rparr>)" by (rule ct_wf_table [OF wf]) (simp_all add: nth)
  then show w2: "ct_wf o2" by (simp add: o2)
  have "map snd (table o2) = map snd (table o1)" using t by (simp add: table_def o2)
  then show "same_server o1 o2" by (simp add: o2 same_server_def listens_def) (metis list.set_map)
  have "map pfd (take ?n ?ps) = map pfd (take ?n (ct_PollFds o1))"
    using t by (intro nth_equalityI) (simp_all add: nth)
  then have "map entry_fd (table o2) = map entry_fd (table o1)" using t by (simp add: table_def o2 map_entry_fd)
  then show "entry_fd ` set (table o2) = entry_fd ` set (table o1)" by (metis list.set_map)
  assume e: "(e, ct_pListenSocket o2) \<in> set (table o2)"
  obtain i where i: "i < ?n" "?ps ! i = e"
    using e t by (auto simp: in_set_conv_nth table_def o2)
  have "pevents e = read_events" using ct_wfD(14) [OF w2 e] .
  then show "prevents e = (if pfd e < 0 then 0 else r (pfd e) AND (read_events OR POLLALWAYS))"
    using nth [OF i(1)] i(2) by (auto simp: poll_entry_def)
qed

locale conn_hooks =
  fixes E :: net_env
    and vt :: "'a ci_net_thread_scheme ct_vtbl"
    and idle ready :: "cisocket \<Rightarrow> bool"
    and sizes :: "int \<Rightarrow> int \<Rightarrow> bool"
  assumes new_law: "\<And>sock ns nr w. sizes ns nr \<Longrightarrow>
      idle (fst (CCiSocket_accepted (ne_heap E) (ne_calls E) (ne_mem E) sock CI_SOCKET_TCP ns nr w))"
    and connect_law: "conn_call idle (\<lambda>r c. r \<longrightarrow> idle c) (cv_ProcessWithConnectedSocket vt)"
    and connect_quiet: "\<And>p s r t. cv_ProcessWithConnectedSocket vt p s = Some (r, t) \<Longrightarrow>
      closed_fds (snd t) = closed_fds (snd s)"
    and receive_law: "conn_call idle (message_state idle ready) (cv_ReceiveIntMessage vt)"
    and message_law: "\<And>m. conn_call ready (\<lambda>r c. r \<longrightarrow> idle c) (\<lambda>p. cv_OnMessage vt p m)"
    and write_law: "conn_call idle (\<lambda>r c. r \<longrightarrow> idle c) (cv_DoWrite vt)"
    and error_law: "cv_OnReadSocketError vt = OnReadSocketError_ci (ne_kernel E)"
    and timeout_law: "\<And>o1 w. \<exists>r w'. cv_ProcessTimeout vt (o1, w) = Some (r, o1, w')"
begin

lemma conn_object:
  assumes "server_ok idle o1" "p \<in> socks (ct_ReadSockets o1)"
  obtains c where "ct_objs o1 p = Some c" "idle c" "p \<noteq> 0"
proof -
  have wf: "ct_wf o1" using assms(1) by (simp add: server_ok_def)
  have "p \<in> dom (ct_objs o1)" unfolding ct_wfD(11) [OF wf] using assms(2) by simp
  then obtain c where c: "ct_objs o1 p = Some c" by blast
  moreover from this have "idle c" using assms unfolding server_ok_def conns_ok_def by blast
  moreover have "p \<noteq> 0" using assms(2) by (metis zero_socks)
  ultimately show ?thesis using that by blast
qed

text \<open>Dropping a connection, whatever its buffers are like.\<close>

lemma drop_ok:
  assumes wf: "ct_wf o1" "listen_quiet o1" and ok: "conns_ok idle (socks (ct_ReadSockets o1) - {p}) o1"
    and p: "p \<in> socks (ct_ReadSockets o1)"
  shows "\<exists>o2 w2. drop_socket vt i p (o1, w) = Some (o2, w2) \<and> ct_wf o2 \<and> listen_quiet o2 \<and> same_server o1 o2 \<and>
    (if still_there i p o1 then server_ok idle o2 else o2 = o1)"
proof (cases "still_there i p o1")
  case True
  have "p \<in> dom (ct_objs o1)" unfolding ct_wfD(11) [OF wf(1)] using p by simp
  then obtain c where c: "ct_objs o1 p = Some c" by blast
  obtain o2 w2 where o2: "OnReadSocketError_ci (ne_kernel E) p (o1, w) = Some (True, o2, w2)" "ct_wf o2"
    "ct_objs o2 = (ct_objs o1)(p := None)" "socks (ct_ReadSockets o2) = socks (ct_ReadSockets o1) - {p}"
    "set (table o2) = set (table o1) - {x. snd x = p}" "same_server o1 o2"
    using OnReadSocketError_ok [OF wf(1) p c] by blast
  have "conns_ok idle (socks (ct_ReadSockets o2)) o2" using ok by (auto simp: conns_ok_def o2(3,4))
  moreover have "listen_quiet o2" using wf(2) o2(6) by (auto simp: listen_quiet_def o2(5) same_server_def)
  ultimately show ?thesis using True o2 by (simp add: drop_socket_def error_law server_ok_def)
next
  case False
  then show ?thesis using wf by (simp add: drop_socket_def)
qed

text \<open>After a message, and after a write.\<close>

lemma watch_ok:
  assumes wf: "server_ok idle o1" "listen_quiet o1" and p: "p \<in> socks (ct_ReadSockets o1)"
  shows "\<exists>o2. watch_unsent i p o1 = Some o2 \<and> server_ok idle o2 \<and> listen_quiet o2 \<and> same_server o1 o2"
proof (cases "still_there i p o1")
  case True
  have ct: "ct_wf o1" using wf(1) by (simp add: server_ok_def)
  note w = ct_wfD [OF ct]
  obtain c where c: "ct_objs o1 p = Some c" "p \<noteq> 0" using conn_object [OF wf(1) p] by blast
  have "\<forall>p\<in>socks (ct_WriteSockets o1). ct_objs o1 p \<noteq> None" using w(8) w(11) by blast
  from find_socket_result [OF this, of "m_iSocket c"] obtain q where
    q: "find_socket (ct_objs o1) (m_iSocket c) (ct_WriteSockets o1) = Some q"
    "q = 0 \<longrightarrow> (\<forall>p\<in>socks (ct_WriteSockets o1). m_iSocket (the (ct_objs o1 p)) \<noteq> m_iSocket c)" by blast
  show ?thesis
  proof (cases "GetRemainSendDataSize c > 0 \<and> q = 0")
    case watch: True
    have nw: "p \<notin> socks (ct_WriteSockets o1)" using q(2) c(1) watch by fastforce
    have np: "ct_PollSockets o1 ! i \<noteq> ct_pListenSocket o1" using True w(9) p by (auto simp: still_there_def)
    obtain x where x: "enable_entry i False o1 = set_entry i x o1" "pfd x = pfd (ct_PollFds o1 ! i)"
      using able_entry by blast
    let ?o = "set_entry i x o1"
    note e = other_entry [OF ct wf(2) np x(2)]
    have sel: "ct_ReadSockets ?o = ct_ReadSockets o1" "ct_WriteSockets ?o = ct_WriteSockets o1"
      "ct_objs ?o = ct_objs o1" "same_server o1 ?o" by simp_all
    from AddWriteSocket_wf [OF e(1), of p] p nw sel obtain ws where
      ws: "snd (AddWriteSocket_ci p ?o) = writes_of ws ?o" "ct_wf (writes_of ws ?o)" by auto
    have "watch_unsent i p o1 = Some (writes_of ws ?o)"
      using True watch c q(1) by (simp add: watch_unsent_def FindSocket_def x(1) ws(1))
    moreover have "server_ok idle (writes_of ws ?o)" using wf(1) ws(2) sel
      by (simp add: server_ok_def conns_ok_def)
    moreover have "listen_quiet (writes_of ws ?o)"
      using e(2) writes_of_sel(4) [of ?o ws] by (simp add: listen_quiet_def same_server_def)
    moreover have "same_server o1 (writes_of ws ?o)" by (rule same_server_trans [OF sel(4)]) simp
    ultimately show ?thesis by blast
  next
    case False
    then have "watch_unsent i p o1 = Some o1"
      using True c q(1) by (auto simp: watch_unsent_def FindSocket_def)
    then show ?thesis using wf by simp
  qed
next
  case False
  then show ?thesis using wf by (simp add: watch_unsent_def)
qed

text \<open>The object of a connection is replaced by one that is as good, or is about to go.\<close>

lemma object_ok:
  assumes wf: "server_ok idle o1" "listen_quiet o1" and c: "ct_objs o1 p = Some c" and fd: "m_iSocket c' = m_iSocket c"
  defines "o2 \<equiv> o1\<lparr>ct_objs := (ct_objs o1)(p \<mapsto> c')\<rparr>"
  shows "ct_wf o2" "listen_quiet o2" "same_server o1 o2" "conns_ok idle (socks (ct_ReadSockets o2) - {p}) o2"
    "idle c' \<Longrightarrow> server_ok idle o2"
proof -
  show w: "ct_wf o2" using ct_wf_obj [OF _ c fd] wf(1) by (simp add: server_ok_def o2_def)
  show "listen_quiet o2" using wf(2) by (simp add: listen_quiet_def o2_def)
  show "same_server o1 o2" by (simp add: same_server_def o2_def)
  show "conns_ok idle (socks (ct_ReadSockets o2) - {p}) o2" using wf(1) by (auto simp: server_ok_def conns_ok_def o2_def)
  show "server_ok idle o2" if "idle c'" using w wf(1) that by (simp add: server_ok_def conns_ok_def o2_def)
qed

lemma cleared_ok:
  assumes "server_ok idle o1" "listen_quiet o1"
  shows "server_ok idle (clear_entry i o1)" "listen_quiet (clear_entry i o1)"
  using assms clear_entry_wf clear_entry_quiet by (auto simp: server_ok_def conns_ok_def)

lemma serve_read_ok:
  assumes wf: "server_ok idle o1" "listen_quiet o1" and p: "ct_PollSockets o1 ! i \<in> socks (ct_ReadSockets o1)"
  shows "\<exists>o2 w2. serve_read vt i (o1, w) = Some (o2, w2) \<and> server_ok idle o2 \<and> listen_quiet o2 \<and> same_server o1 o2"
proof -
  define p where "p = ct_PollSockets o1 ! i"
  define o0 where "o0 = clear_entry i o1"
  have wf0: "server_ok idle o0" "listen_quiet o0" "same_server o1 o0" using cleared_ok [OF wf] by (simp_all add: o0_def)
  have p0: "p \<in> socks (ct_ReadSockets o0)" "ct_PollSockets o0 ! i = p" using p by (simp_all add: o0_def p_def)
  obtain c where c: "ct_objs o0 p = Some c" "idle c" "p \<noteq> 0" using conn_object [OF wf0(1) p0(1)] .
  obtain rm c1 w1 where 1: "cv_ReceiveIntMessage vt p (o0, w) = Some (rm, o0\<lparr>ct_objs := (ct_objs o0)(p \<mapsto> c1)\<rparr>, w1)"
    "m_iSocket c1 = m_iSocket c" "message_state idle ready rm c1" using conn_callE [OF receive_law c(3,1,2)] by blast
  let ?o1 = "o0\<lparr>ct_objs := (ct_objs o0)(p \<mapsto> c1)\<rparr>"
  note k1 = object_ok [OF wf0(1,2) c(1) 1(2)]
  have s1: "same_server o1 ?o1" "p \<in> socks (ct_ReadSockets ?o1)"
    using same_server_trans [OF wf0(3) k1(3)] p0(1) by simp_all
  have st: "still_there i p ?o1" using p0(2) c(3) by (simp add: still_there_def)
  obtain r m where rm: "rm = (r, m)" by fastforce
  have run: "serve_read vt i (o1, w) = (case r of
      RECEIVE_INT_MESSAGE_TRUE \<Rightarrow> do {
        x \<leftarrow> m;
        (ok, s2) \<leftarrow> cv_OnMessage vt p x (?o1, w1);
        if \<not> ok then drop_socket vt i p s2
        else do { o3 \<leftarrow> watch_unsent i p (fst s2); Some (o3, snd s2) } }
    | RECEIVE_INT_MESSAGE_FALSE \<Rightarrow> drop_socket vt i p (?o1, w1)
    | RECEIVE_INT_MESSAGE_INTERIM \<Rightarrow> Some (?o1, w1))"
    by (simp only: serve_read_def Let_def fst_conv snd_conv p_def [symmetric] o0_def [symmetric] 1(1) rm
        bind.simps prod.case)
  show ?thesis
  proof (cases r)
    case RECEIVE_INT_MESSAGE_FALSE
    obtain o2 w2 where "drop_socket vt i p (?o1, w1) = Some (o2, w2)" "listen_quiet o2" "same_server ?o1 o2" "server_ok idle o2"
      using drop_ok [OF k1(1,2,4) s1(2), of i w1] st by auto
    then show ?thesis using run RECEIVE_INT_MESSAGE_FALSE same_server_trans [OF s1(1)] by auto
  next
    case RECEIVE_INT_MESSAGE_INTERIM
    then have "idle c1" using 1(3) rm by (simp add: message_state_def)
    then show ?thesis using run RECEIVE_INT_MESSAGE_INTERIM k1(2,5) s1(1) by simp
  next
    case RECEIVE_INT_MESSAGE_TRUE
    then obtain x where x: "m = Some x" "ready c1" using 1(3) rm by (auto simp: message_state_def)
    have c1: "ct_objs ?o1 p = Some c1" by simp
    obtain ok c2 w2 where 2: "cv_OnMessage vt p x (?o1, w1) = Some (ok, ?o1\<lparr>ct_objs := (ct_objs ?o1)(p \<mapsto> c2)\<rparr>, w2)"
      "m_iSocket c2 = m_iSocket c1" "ok \<longrightarrow> idle c2" using conn_callE [OF message_law c(3) c1 x(2)] by blast
    define o2 where "o2 = o0\<lparr>ct_objs := (ct_objs o0)(p \<mapsto> c2)\<rparr>"
    have o2: "?o1\<lparr>ct_objs := (ct_objs ?o1)(p \<mapsto> c2)\<rparr> = o2" by (simp add: o2_def)
    have fd2: "m_iSocket c2 = m_iSocket c" using 2(2) 1(2) by simp
    note k2 = object_ok [OF wf0(1,2) c(1) fd2, folded o2_def]
    have s2: "same_server o1 o2" "p \<in> socks (ct_ReadSockets o2)" "still_there i p o2"
      using same_server_trans [OF wf0(3) k2(3)] p0 c(3) by (simp_all add: o2_def still_there_def)
    show ?thesis
    proof (cases ok)
      case True
      obtain o3 where "watch_unsent i p o2 = Some o3" "server_ok idle o3" "listen_quiet o3" "same_server o2 o3"
        using watch_ok [OF k2(5) k2(2) s2(2), of i] 2(3) True by auto
      then show ?thesis using run RECEIVE_INT_MESSAGE_TRUE x(1) 2(1) o2 True same_server_trans [OF s2(1)] by auto
    next
      case False
      obtain o3 w3 where "drop_socket vt i p (o2, w2) = Some (o3, w3)" "listen_quiet o3" "same_server o2 o3" "server_ok idle o3"
        using drop_ok [OF k2(1,2,4) s2(2), of i w2] s2(3) by auto
      then show ?thesis using run RECEIVE_INT_MESSAGE_TRUE x(1) 2(1) o2 False same_server_trans [OF s2(1)] by auto
    qed
  qed
qed

lemma serve_write_ok:
  assumes wf: "server_ok idle o1" "listen_quiet o1" and p: "ct_PollSockets o1 ! i \<in> socks (ct_ReadSockets o1)"
  shows "\<exists>o2 w2. serve_write E vt i (o1, w) = Some (o2, w2) \<and> server_ok idle o2 \<and> listen_quiet o2 \<and> same_server o1 o2"
proof -
  define p where "p = ct_PollSockets o1 ! i"
  define o0 where "o0 = clear_entry i o1"
  have wf0: "server_ok idle o0" "listen_quiet o0" "same_server o1 o0" using cleared_ok [OF wf] by (simp_all add: o0_def)
  have p0: "p \<in> socks (ct_ReadSockets o0)" "ct_PollSockets o0 ! i = p" using p by (simp_all add: o0_def p_def)
  obtain c where c: "ct_objs o0 p = Some c" "idle c" "p \<noteq> 0" using conn_object [OF wf0(1) p0(1)] .
  obtain ok c1 w1 where 1: "cv_DoWrite vt p (o0, w) = Some (ok, o0\<lparr>ct_objs := (ct_objs o0)(p \<mapsto> c1)\<rparr>, w1)"
    "m_iSocket c1 = m_iSocket c" "ok \<longrightarrow> idle c1" using conn_callE [OF write_law c(3,1,2)] by blast
  define o1' where "o1' = o0\<lparr>ct_objs := (ct_objs o0)(p \<mapsto> c1)\<rparr>"
  note k1 = object_ok [OF wf0(1,2) c(1) 1(2), folded o1'_def]
  have s1: "same_server o1 o1'" "p \<in> socks (ct_ReadSockets o1')" "ct_objs o1' p = Some c1"
    using same_server_trans [OF wf0(3) k1(3)] p0(1) by (simp_all add: o1'_def)
  have st: "still_there i p o1'" using p0(2) c(3) by (simp add: still_there_def o1'_def)
  have run: "serve_write E vt i (o1, w) =
      (if \<not> ok then drop_socket vt i p (o1', w1)
       else if GetRemainSendDataSize c1 = 0
       then map_option snd (DeleteWriteSocket_ci (ne_kernel E) p True (disable_entry i False o1', w1))
       else Some (o1', w1))"
    by (simp only: serve_write_def Let_def fst_conv snd_conv p_def [symmetric] o0_def [symmetric] 1(1)
        o1'_def [symmetric] bind.simps prod.case st s1(3) if_True)
  show ?thesis
  proof (cases ok)
    case False
    obtain o2 w2 where "drop_socket vt i p (o1', w1) = Some (o2, w2)" "listen_quiet o2" "same_server o1' o2" "server_ok idle o2"
      using drop_ok [OF k1(1,2,4) s1(2), of i w1] st by auto
    then show ?thesis using run False same_server_trans [OF s1(1)] by auto
  next
    case True
    then have ok1: "server_ok idle o1'" using k1(5) 1(3) by blast
    show ?thesis
    proof (cases "GetRemainSendDataSize c1 = 0")
      case empty: True
      have np: "ct_PollSockets o1' ! i \<noteq> ct_pListenSocket o1'" using st ct_wfD(9) [OF k1(1)] s1(2)
        by (auto simp: still_there_def)
      obtain x where x: "disable_entry i False o1' = set_entry i x o1'" "pfd x = pfd (ct_PollFds o1' ! i)"
        using able_entry by blast
      let ?o = "set_entry i x o1'"
      note e = other_entry [OF k1(1,2) np x(2)]
      have sel: "ct_ReadSockets ?o = ct_ReadSockets o1'" "ct_objs ?o = ct_objs o1'" "same_server o1' ?o"
        by simp_all
      obtain r ws where d: "DeleteWriteSocket_ci (ne_kernel E) p True (?o, w1) = Some (r, writes_of ws ?o, w1)"
        "ct_wf (writes_of ws ?o)" using DeleteWriteSocket_wf [OF e(1) c(3)] by blast
      have "server_ok idle (writes_of ws ?o)" using ok1 d(2) sel by (simp add: server_ok_def conns_ok_def)
      moreover have "listen_quiet (writes_of ws ?o)"
        using e(2) writes_of_sel(4) [of ?o ws] by (simp add: listen_quiet_def same_server_def)
      moreover have "same_server o1 (writes_of ws ?o)"
        by (rule same_server_trans [OF same_server_trans [OF s1(1) sel(3)]]) simp
      ultimately show ?thesis using run True empty x(1) d(1) by simp
    next
      case False
      then show ?thesis using run True ok1 k1(2) s1(1) by simp
    qed
  qed
qed

text \<open>The loop over the table, which the bodies may make shorter.\<close>

lemma event_loop_ok:
  assumes serve: "\<And>i o1 w. server_ok idle o1 \<Longrightarrow> listen_quiet o1 \<Longrightarrow> ct_PollSockets o1 ! i \<in> socks (ct_ReadSockets o1) \<Longrightarrow>
      \<exists>o2 w2. serve i (o1, w) = Some (o2, w2) \<and> server_ok idle o2 \<and> listen_quiet o2 \<and> same_server o1 o2"
    and ev: "ev AND (read_events OR write_events) = ev"
    and "server_ok idle o1" "listen_quiet o1" "ct_iMaxFDSize o1 \<le> i + k"
  shows "\<exists>o2 w2. event_loop ev serve k i (o1, w) = Some (o2, w2) \<and> server_ok idle o2 \<and> listen_quiet o2 \<and> same_server o1 o2"
  using assms(3-5)
proof (induction k arbitrary: i o1 w)
  case 0
  have "ct_iPollFdCount o1 \<le> ct_iMaxFDSize o1"
    using table_wfD(3) [OF wf_table] 0(1) by (auto simp: server_ok_def)
  then show ?case using 0 by simp
next
  case (Suc k)
  show ?case
  proof (cases "i < ct_iPollFdCount o1 \<and> event_on ev i o1")
    case True
    have "ct_wf o1" using Suc.prems(1) by (simp add: server_ok_def)
    from active_conn(1) [OF this Suc.prems(2) _ _ ev] True
    have "ct_PollSockets o1 ! i \<in> socks (ct_ReadSockets o1)" by blast
    from serve [OF Suc.prems(1,2) this] obtain o2 w2 where
      2: "serve i (o1, w) = Some (o2, w2)" "server_ok idle o2" "listen_quiet o2" "same_server o1 o2" by blast
    define o3 where "o3 = o2\<lparr>ct_iEventsCount := ct_iEventsCount o2 - 1\<rparr>"
    have 3: "server_ok idle o3" "listen_quiet o3" "same_server o1 o3"
      using 2 by (simp_all add: o3_def server_ok_def conns_ok_def listen_quiet_def same_server_def)
    have "ct_iMaxFDSize o3 \<le> Suc i + k" using Suc.prems(3) 3(3) by (simp add: same_server_def)
    from Suc.IH [OF 3(1,2) this] obtain o4 w4 where "event_loop ev serve k (Suc i) (o3, w2) = Some (o4, w4)"
      "server_ok idle o4" "listen_quiet o4" "same_server o3 o4" by blast
    then show ?thesis using True 2(1) 3 same_server_trans [OF 3(3)]
      by (auto simp: Let_def simp flip: o3_def)
  next
    case False
    from Suc.IH [OF Suc.prems(1,2), of "Suc i"] Suc.prems show ?thesis using False by auto
  qed
qed

lemma events_ok:
  assumes "server_ok idle o1" "listen_quiet o1"
  shows "\<exists>o2 w2. ProcessReadEvent_ci vt (o1, w) = Some (True, o2, w2) \<and> server_ok idle o2 \<and> listen_quiet o2 \<and> same_server o1 o2"
    "\<exists>o2 w2. ProcessWriteEvent E vt (o1, w) = Some (True, o2, w2) \<and> server_ok idle o2 \<and> listen_quiet o2 \<and> same_server o1 o2"
proof -
  have ev: "read_events AND (read_events OR write_events) = read_events"
    "(write_events OR POLLPRI) AND (read_events OR write_events) = write_events OR POLLPRI"
    by (simp_all add: read_events_def write_events_def)
  show "\<exists>o2 w2. ProcessReadEvent_ci vt (o1, w) = Some (True, o2, w2) \<and> server_ok idle o2 \<and> listen_quiet o2 \<and> same_server o1 o2"
    using event_loop_ok [OF serve_read_ok ev(1) assms, where i = 0 and k = "ct_iMaxFDSize o1" and w = w]
    by (auto simp: ProcessReadEvent_ci_def)
  show "\<exists>o2 w2. ProcessWriteEvent E vt (o1, w) = Some (True, o2, w2) \<and> server_ok idle o2 \<and> listen_quiet o2 \<and> same_server o1 o2"
    using event_loop_ok [OF serve_write_ok ev(2) assms, where i = 0 and k = "ct_iMaxFDSize o1" and w = w]
    by (auto simp: ProcessWriteEvent_def)
qed

lemma new_connection_ok:
  assumes ok: "server_ok idle o1" "listen_quiet o1"
    and sizes: "sizes (ct_iConnectedSocketSendBufferSize o1) (ct_iConnectedSocketRecvBufferSize o1)"
    and sock: "0 \<le> sock" "sock \<notin> entry_fd ` set (table o1)"
    and room: "ct_iReadSocketCount o1 < int (ct_iMaxFDSize o1)"
  shows "\<exists>r o2 w2. take_connection E vt sock (o1, w) = Some (r, o2, w2) \<and>
    server_ok idle o2 \<and> listen_quiet o2 \<and> same_server o1 o2 \<and> served_or_closed sock r (o1, w) (o2, w2) \<and>
    (fst r \<longleftrightarrow> has_room o1 \<and> wanted E vt sock (o1, w))"
proof -
  have wf: "ct_wf o1" using ok(1) by (simp add: server_ok_def)
  note new = new_unused [OF wf]
  define c where "c = fst (CCiSocket_accepted (ne_heap E) (ne_calls E) (ne_mem E) sock CI_SOCKET_TCP
      (ct_iConnectedSocketSendBufferSize o1) (ct_iConnectedSocketRecvBufferSize o1) w)"
  define w1 where "w1 = snd (CCiSocket_accepted (ne_heap E) (ne_calls E) (ne_mem E) sock CI_SOCKET_TCP
      (ct_iConnectedSocketSendBufferSize o1) (ct_iConnectedSocketRecvBufferSize o1) w)"
  have n: "new_socket E sock (ct_iConnectedSocketSendBufferSize o1) (ct_iConnectedSocketRecvBufferSize o1) (o1, w) =
      (ct_fresh o1, with_new c o1, w1)"
    by (simp add: new_socket_with c_def w1_def split: prod.split)
  have c: "m_iSocket c = sock" "closed_fds w1 = closed_fds w" "idle c"
    using CCiSocket_accepted_frame new_law [OF sizes] by (simp_all add: c_def w1_def)
  obtain b c2 w2 where 2: "cv_ProcessWithConnectedSocket vt (ct_fresh o1) (with_new c o1, w1) =
      Some (b, (with_new c o1)\<lparr>ct_objs := (ct_objs (with_new c o1))(ct_fresh o1 \<mapsto> c2)\<rparr>, w2)"
    "m_iSocket c2 = m_iSocket c" "b \<longrightarrow> idle c2"
    using conn_callE [OF connect_law new(3), of "with_new c o1" c w1] c(3) by (auto simp: with_new_def)
  note run2 = 2(1) [unfolded with_new_obj]
  have fd: "m_iSocket c2 = sock" "m_iSocket c2 \<noteq> NU_INVALID_SOCKET" using 2(2) c(1) sock(1) by simp_all
  have want: "wanted E vt sock (o1, w) = b" by (simp add: wanted_def n 2(1))
  have cl: "closed_fds w2 = closed_fds w" using connect_quiet [OF 2(1)] c(2) by simp
  let ?gone = "o1\<lparr>ct_fresh := Suc (ct_fresh o1)\<rparr>"
  have gone: "server_ok idle ?gone" "listen_quiet ?gone" "same_server o1 ?gone"
    using forget_new(1) [OF wf] ok by (simp_all add: server_ok_def conns_ok_def listen_quiet_def same_server_def)
  have gone_closed: "served_or_closed sock (False, Some 0) (o1, w) (?gone, w3)" if "closed_fds w3 = closed_fds w @ [sock]" for w3
    using that by (simp add: served_or_closed_def)
  show ?thesis
  proof (cases b)
    case False
    obtain x w3 where d: "CiSocket_Disconnect (ne_kernel E) (c2, w2) = (x, c2\<lparr>m_iSocket := CI_INVALID_SOCKET\<rparr>, w3)"
      "closed_fds w3 = closed_fds w2 @ [m_iSocket c2]" using CiSocket_Disconnect_open fd(2) by blast
    have "obj_delete (ne_kernel E) (ct_fresh o1) (with_new c2 o1, w2) = Some (?gone, w3)"
      using new(3) fd(2) d(1) forget_new(2) [OF wf, of c2]
      by (simp add: obj_delete_def with_new_def CCiSocket_destroy_def CiSocket_Finalize_def)
    then show ?thesis using gone gone_closed [of w3] d(2) fd(1) cl False
      by (intro exI [of _ "(False, Some 0)"] exI [of _ ?gone] exI [of _ w3]) (simp add: take_connection_def n run2 want)
  next
    case True
    obtain i where i: "slot_of 0 (ct_ReadSockets o1) = Some i" using AddReadSocket_slot [OF wf room] .
    note steps = register_steps [OF wf i fd(2)]
    show ?thesis
    proof (cases "ct_iPollFdCount o1 < ct_iMaxFDSize o1")
      case room2: True
      let ?o = "with_conn c2 i o1"
      have s2: "m_iSocket c2 \<notin> entry_fd ` set (table o1)" using sock(2) fd(1) by simp
      note reg = with_conn_wf [OF wf i room2 fd(2) s2]
      have "conns_ok idle (socks (ct_ReadSockets ?o)) ?o" unfolding reg(2)
        using ok(1) 2(3) True new(2) by (auto simp: server_ok_def conns_ok_def with_conn_sel)
      then have "server_ok idle ?o" using reg(1) by (simp add: server_ok_def)
      moreover have "listen_quiet ?o" using ok(2) new(4)
        by (simp add: listen_quiet_def with_conn_table [OF wf_table [OF wf] room2] with_conn_sel)
      moreover have "served_or_closed sock (True, Some (ct_fresh o1)) (o1, w) (?o, w2)"
        using new(1) fd(1) cl reg(2)
        by (simp add: served_or_closed_def with_conn_sel) (intro exI [of _ c2] conjI refl)
      ultimately show ?thesis using True room2
        by (intro exI [of _ "(True, Some (ct_fresh o1))"] exI [of _ ?o] exI [of _ w2])
          (simp add: take_connection_def n run2 steps(1,2) with_conn_same wf_table wf want has_room_def room)
    next
      case False
      from steps(3) [of "ne_kernel E" w2] obtain w3 where
        d: "DeleteReadSocket_ci (ne_kernel E) (ct_fresh o1) False (in_reads c2 i o1, w2) = Some (True, ?gone, w3)"
        "closed_fds w3 = closed_fds w2 @ [m_iSocket c2]" by blast
      then show ?thesis using True False gone gone_closed [of w3] cl fd(1)
        by (intro exI [of _ "(False, Some 0)"] exI [of _ ?gone] exI [of _ w3]) (simp add: take_connection_def n run2 steps(1,2) want has_room_def)
    qed
  qed
qed

lemma ProcessConnection_ok:
  assumes ok: "server_ok idle o1"
    and sizes: "sizes (ct_iConnectedSocketSendBufferSize o1) (ct_iConnectedSocketRecvBufferSize o1)"
    and e: "(e, ct_pListenSocket o1) \<in> set (table o1)" and fresh: "accept_ok E (clock w) o1"
  shows "\<exists>r o2 w2. ProcessConnection E vt (o1, w) = Some (r, o2, w2) \<and> server_ok idle o2 \<and> listen_quiet o2 \<and>
    same_server o1 o2 \<and>
    (case accepted E (clock w) of
       None \<Rightarrow> ct_objs o2 = ct_objs o1 \<and> ct_ReadSockets o2 = ct_ReadSockets o1 \<and> closed_fds w2 = closed_fds w
     | Some sock \<Rightarrow> served_or_closed sock r (o1, w) (o2, w2) \<and>
         (fst r \<longleftrightarrow> has_room o1 \<and> wanted E vt sock (the (listen_served o1), tick w)))"
proof -
  have wf: "ct_wf o1" using ok by (simp add: server_ok_def)
  obtain o2 where o2: "listen_served o1 = Some o2" "ct_wf o2" "listen_quiet o2" "same_server o1 o2"
    "ct_objs o2 = ct_objs o1" "ct_ReadSockets o2 = ct_ReadSockets o1"
    "entry_fd ` set (table o2) = entry_fd ` set (table o1)" "ct_iReadSocketCount o2 = ct_iReadSocketCount o1"
    "ct_iPollFdCount o2 = ct_iPollFdCount o1" using listen_served_ok [OF wf e] .
  have max: "ct_iMaxFDSize o2 = ct_iMaxFDSize o1" using o2(4) by (simp add: same_server_def)
  have rooms: "has_room o2 = has_room o1" by (simp add: has_room_def o2(8,9) max)
  have ok2: "server_ok idle o2" using ok o2 by (simp add: server_ok_def conns_ok_def)
  obtain l where l: "ct_objs o1 (ct_pListenSocket o1) = Some l" "ct_pListenSocket o1 \<noteq> 0"
    using table_entry [OF wf_table [OF wf] e] by blast
  obtain x where acc: "nu_accept (ne_endian E) (ne_calls E) (Some (CI_MAX_IP_ADDRESS_LENGTH + 1)) False w =
      Some (map_option (\<lambda>sock. (sock, x sock)) (accepted E (clock w)), tick w)"
    using nu_accept_accepted [OF fresh] by blast
  show ?thesis
  proof (cases "accepted E (clock w)")
    case None
    then have "ProcessConnection E vt (o1, w) = Some ((False, None), o2, tick w)"
      using l acc o2(1) by (simp add: ProcessConnection_def)
    then show ?thesis using ok2 o2 None by simp
  next
    case (Some sock)
    have s: "0 \<le> sock" "sock \<notin> entry_fd ` set (table o2)"
      using Some fresh unfolding o2(7) by (auto simp: accepted_def accept_ok_def split: option.splits if_splits)
    obtain ip port where x: "x sock = (ip, port)" by fastforce
    show ?thesis
    proof (cases "int (ct_iMaxFDSize o2) \<le> ct_iReadSocketCount o2")
      case True
      have "ProcessConnection E vt (o1, w) = Some ((False, None), o2, snd (nu_disconnect_ci (ne_kernel E) sock (tick w)))"
        using l acc o2(1) Some x True by (simp add: ProcessConnection_def)
      moreover have "served_or_closed sock (False, None) (o1, w) (o2, snd (nu_disconnect_ci (ne_kernel E) sock (tick w)))"
        using o2(5,6) by (simp add: served_or_closed_def nu_disconnect_ci_def sys_close_def)
      moreover have "\<not> has_room o1" using True rooms by (simp add: has_room_def)
      ultimately show ?thesis using ok2 o2 Some
        by (intro exI [of _ "(False, None)"] exI [of _ o2]
            exI [of _ "snd (nu_disconnect_ci (ne_kernel E) sock (tick w))"]) simp
    next
      case False
      have sz: "sizes (ct_iConnectedSocketSendBufferSize o2) (ct_iConnectedSocketRecvBufferSize o2)"
        using sizes o2(4) by (simp add: same_server_def)
      have room: "ct_iReadSocketCount o2 < int (ct_iMaxFDSize o2)" using False by simp
      from new_connection_ok [OF ok2 o2(3) sz s room, of "tick w"] obtain r o3 w3 where
        3: "take_connection E vt sock (o2, tick w) = Some (r, o3, w3)"
        "server_ok idle o3" "listen_quiet o3" "same_server o2 o3" "served_or_closed sock r (o2, tick w) (o3, w3)"
        "fst r \<longleftrightarrow> has_room o2 \<and> wanted E vt sock (o2, tick w)"
        by blast
      have "(int (ct_iMaxFDSize o2) \<le> ct_iReadSocketCount o2) = False" using False by simp
      then have "ProcessConnection E vt (o1, w) = Some (r, o3, w3)"
        using l by (simp only: ProcessConnection_def fst_conv snd_conv acc o2(1) Some x option.map
            bind.simps prod.case option.case if_False 3(1) simp_thms)
      moreover have "served_or_closed sock r (o1, w) (o3, w3)" using 3(5)
        by (simp only: served_or_closed_def fst_conv snd_conv tick_simps o2(5,6))
      moreover have "fst r \<longleftrightarrow> has_room o1 \<and> wanted E vt sock (the (listen_served o1), tick w)"
        using 3(6) rooms o2(1) by simp
      ultimately show ?thesis using 3(2-4) same_server_trans [OF o2(4) 3(4)] Some by simp
    qed
  qed
qed

lemma serve_listen_ok:
  assumes ok: "server_ok idle o1"
    and sizes: "sizes (ct_iConnectedSocketSendBufferSize o1) (ct_iConnectedSocketRecvBufferSize o1)"
    and fresh: "accept_ok E (clock w) o1" and l: "ct_pListenSocket o1 = 0 \<or> listens o1"
    and polled: "\<And>e. (e, ct_pListenSocket o1) \<in> set (table o1) \<Longrightarrow>
      prevents e = (if pfd e < 0 then 0 else r (pfd e) AND (read_events OR POLLALWAYS))"
    and reports: "\<And>l. ct_objs o1 (ct_pListenSocket o1) = Some l \<Longrightarrow> listen_reports (r (m_iSocket l))"
  shows "\<exists>o2 w2. serve_listen E vt (o1, w) = Some (True, o2, w2) \<and> server_ok idle o2 \<and>
    listen_quiet o2 \<and> same_server o1 o2"
proof (cases "ct_pListenSocket o1 = 0")
  case True
  have wf: "ct_wf o1" using ok by (simp add: server_ok_def)
  have "(e, 0) \<notin> set (table o1)" for e using table_entry [OF wf_table [OF wf]] by blast
  then have "listen_quiet o1" using True by (simp add: listen_quiet_def)
  then show ?thesis using True ok by (simp add: serve_listen_def)
next
  case False
  let ?p = "ct_pListenSocket o1"
  have wf: "ct_wf o1" using ok by (simp add: server_ok_def)
  note t = wf_table [OF wf]
  obtain e where e: "(e, ?p) \<in> set (table o1)" using l False by (auto simp: listens_def)
  obtain c where c: "ct_objs o1 ?p = Some c" "m_iSocket c = pfd e" using table_entry [OF t e] by blast
  obtain i where i: "FindPollFD ?p o1 = Some (Some i)" "ct_PollFds o1 ! i = e"
    using FindPollFD_entry [OF t e] by blast
  show ?thesis
  proof (cases "prevents e AND POLLRDNORM \<noteq> 0")
    case True
    from ProcessConnection_ok [where w = w, OF ok sizes e fresh] obtain b o2 w2 where
      "ProcessConnection E vt (o1, w) = Some (b, o2, w2)" "server_ok idle o2" "listen_quiet o2" "same_server o1 o2"
      by blast
    then show ?thesis using False i True by (simp add: serve_listen_def)
  next
    case quiet: False
    have bits: "(read_events OR POLLALWAYS) AND POLLRDNORM = POLLRDNORM"
      "(read_events OR POLLALWAYS) AND (read_events OR write_events) = read_events"
      by (simp_all add: read_events_def write_events_def)
    have "prevents e AND (read_events OR write_events) = 0"
    proof (cases "pfd e < 0")
      case True
      then show ?thesis using polled [OF e] by simp
    next
      case f: False
      then have "r (pfd e) AND POLLRDNORM = 0" using polled [OF e] quiet by (simp add: and.assoc bits)
      then have "r (pfd e) AND read_events = 0" using reports [OF c(1)] c(2) by (simp add: listen_reports_def)
      then show ?thesis using polled [OF e] f by (simp add: and.assoc bits)
    qed
    then have "listen_quiet o1" using table_unique [OF t e] by (auto simp: listen_quiet_def)
    then show ?thesis using False i quiet ok by (simp add: serve_listen_def)
  qed
qed

text \<open>One round.\<close>

lemma optional_step:
  assumes "server_ok idle o1" "listen_quiet o1"
    and "\<exists>o2 w2. f (o1, w) = Some (True, o2, w2) \<and> server_ok idle o2 \<and> listen_quiet o2 \<and> same_server o1 o2"
  obtains o2 w2 where "(if b then f (o1, w) else Some (True, o1, w)) = Some (True, o2, w2)" "server_ok idle o2"
    "listen_quiet o2" "same_server o1 o2"
  using assms by (cases b) auto

lemma Run_ok:
  assumes ok: "server_ok idle o1"
    and sizes: "sizes (ct_iConnectedSocketSendBufferSize o1) (ct_iConnectedSocketRecvBufferSize o1)"
    and l: "ct_pListenSocket o1 = 0 \<or> listens o1" and env: "round_ok E (o1, w)"
  shows "\<exists>o2 w2. CT_Run E vt (o1, w) = Some (True, o2, w2) \<and> server_ok idle o2 \<and> same_server o1 o2"
proof (cases "m_bExit o1")
  case True
  then show ?thesis using ok by (simp add: CT_Run_def)
next
  case run: False
  have wf: "ct_wf o1" using ok by (simp add: server_ok_def)
  have base: "server_ok idle (o1\<lparr>ct_iEventsCount := n\<rparr>)" "same_server o1 (o1\<lparr>ct_iEventsCount := n\<rparr>)" for n
    using ok by (simp_all add: server_ok_def conns_ok_def same_server_def)
  show ?thesis
  proof (cases "k_poll (ne_kernel E) (clock w)")
    case (PollFail e)
    let ?o = "o1\<lparr>ct_iEventsCount := - 1\<rparr>"
    obtain x w' where t: "cv_ProcessTimeout vt (?o, tick (tick w)) = Some (x, ?o, w')"
      using timeout_law by blast
    show ?thesis
    proof (cases "e = CI_EINTR")
      case True
      then show ?thesis using run PollFail base [of 0] by (simp add: CT_Run_def WaitNetworkEvent_ci_def Let_def)
    next
      case False
      then show ?thesis using run PollFail base [of "- 1"] t by (simp add: CT_Run_def WaitNetworkEvent_ci_def Let_def)
    qed
  next
    case (PollReady r)
    define n where "n = fst (poll_array r (ct_iPollFdCount o1) (ct_PollFds o1))"
    define o2 where "o2 = o1\<lparr>ct_PollFds := snd (poll_array r (ct_iPollFdCount o1) (ct_PollFds o1)), ct_iEventsCount := n\<rparr>"
    have wait: "WaitNetworkEvent_ci (ne_kernel E) (o1, w) = Some (True, o2, tick w)"
      by (simp add: WaitNetworkEvent_ci_def PollReady o2_def n_def split: prod.split)
    note p = polled_ok [OF wf o2_def]
    have ok2: "server_ok idle o2" using ok p(1) by (simp add: server_ok_def conns_ok_def o2_def)
    have e2: "m_bExit o2 = m_bExit o1" "ct_iEventsCount o2 = n" by (simp_all add: o2_def)
    have sz: "sizes (ct_iConnectedSocketSendBufferSize o2) (ct_iConnectedSocketRecvBufferSize o2)"
      using sizes p(3) by (simp add: same_server_def)
    have fresh: "accept_ok E (clock (tick w)) o2"
      and rep: "\<And>l. ct_objs o2 (ct_pListenSocket o2) = Some l \<Longrightarrow> listen_reports (r (m_iSocket l))"
    proof -
      note env' = env [unfolded round_ok_def snd_conv fst_conv PollReady poll_res.case]
      show "accept_ok E (clock (tick w)) o2" using env' by (simp add: accept_ok_def p(2))
      show "listen_reports (r (m_iSocket l))" if "ct_objs o2 (ct_pListenSocket o2) = Some l" for l
        using env' that by (simp add: o2_def)
    qed
    have l2: "ct_pListenSocket o2 = 0 \<or> listens o2" using l p(3) by (auto simp: same_server_def)
    note listen = serve_listen_ok [OF ok2 sz fresh l2 p(4) rep]
    let ?busy = "\<lambda>t. \<not> m_bExit (fst t) \<and> ct_iEventsCount (fst t) > 0"
    show ?thesis
    proof (cases "n > 0")
      case False
      obtain x w' where t: "cv_ProcessTimeout vt (o2, tick w) = Some (x, o2, w')"
        using timeout_law by blast
      then show ?thesis using run wait False ok2 p(3) e2 by (simp add: CT_Run_def)
    next
      case True
      then have b2: "?busy (o2, tick w)" using run e2 by simp
      obtain o3 w3 where 3: "serve_listen E vt (o2, tick w) = Some (True, o3, w3)" "server_ok idle o3"
        "listen_quiet o3" "same_server o2 o3" using listen by blast
      obtain o4 w4 where 4: "(if ?busy (o3, w3) then ProcessReadEvent_ci vt (o3, w3) else Some (True, o3, w3)) = Some (True, o4, w4)"
        "server_ok idle o4" "listen_quiet o4" "same_server o3 o4"
        using optional_step [where f = "ProcessReadEvent_ci vt", OF 3(2,3) events_ok(1) [OF 3(2,3)]] .
      obtain o5 w5 where 5: "(if ?busy (o4, w4) then ProcessWriteEvent E vt (o4, w4) else Some (True, o4, w4)) = Some (True, o5, w5)"
        "server_ok idle o5" "listen_quiet o5" "same_server o4 o5"
        using optional_step [where f = "ProcessWriteEvent E vt", OF 4(2,3) events_ok(2) [OF 4(2,3)]] .
      obtain x w6 where t: "cv_ProcessTimeout vt (o5, w5) = Some (x, o5, w6)"
        using timeout_law by blast
      have s: "same_server o1 o5"
        using same_server_trans [OF same_server_trans [OF same_server_trans [OF p(3) 3(4)] 4(4)] 5(4)] .
      have nb: "\<not> m_bExit o5" using s run by (simp add: same_server_def)
      have "CT_Run E vt (o1, w) = Some (True, o5, w6)"
        using run nb b2 t by (simp add: CT_Run_def wait Let_def 3(1) 4(1) [unfolded fst_conv] 5(1) [unfolded fst_conv])
      then show ?thesis using 5(2) s by blast
    qed
  qed
qed

end

section \<open>Derived classes that read their messages\<close>

text \<open>
  A derived class supplies \<open>OnMessage\<close> and may override \<open>ProcessWithConnectedSocket\<close>, which says
  whether it wants a new connection; the other functions are those of the class, and they keep the
  contract when these two do.  A connection is idle when its buffer holds the beginning of a frame.
\<close>

record 'o derived =
  dc_OnMessage :: "nat \<Rightarrow> i32 \<Rightarrow> ('o, bool) meth"
  dc_ProcessWithConnectedSocket :: "nat \<Rightarrow> ('o, bool) meth"

definition fair_env :: "net_env \<Rightarrow> bool" where
  "fair_env E \<longleftrightarrow> small_blocks (ne_heap E) \<and> sends_progress (ne_kernel E)"

definition idle_conn :: "net_env \<Rightarrow> cisocket \<Rightarrow> bool" where
  "idle_conn E c \<longleftrightarrow> fair_env E \<and> linear (m_recv c) \<and> \<not> has_frame (ring_data (m_recv c)) \<and> ring_ok (m_send c)"

definition ready_conn :: "net_env \<Rightarrow> cisocket \<Rightarrow> bool" where
  "ready_conn E c \<longleftrightarrow> fair_env E \<and> ring_ok (m_recv c) \<and> ring_ok (m_send c)"

definition granted :: "net_env \<Rightarrow> int \<Rightarrow> int \<Rightarrow> bool" where
  "granted E ns nr \<longleftrightarrow> fair_env E \<and> 0 < ns \<and> ns < 2 ^ 31 \<and> h_ok (ne_heap E) (nat ns) \<and>
     0 < nr \<and> nr < 2 ^ 31 \<and> h_ok (ne_heap E) (nat nr)"

definition message_vtbl ::
  "net_env \<Rightarrow> 'a ci_net_thread_scheme derived \<Rightarrow> 'a ci_net_thread_scheme ct_vtbl" where
  "message_vtbl E om = (ct_base_vtbl E)\<lparr>
     cv_OnMessage := dc_OnMessage om, cv_ProcessWithConnectedSocket := dc_ProcessWithConnectedSocket om\<rparr>"

text \<open>
  What is asked of the two functions, and a class that does it: \<open>OnMessage\<close> reads the rest of the
  frame, and every connection is wanted.
\<close>

definition reads_frames :: "net_env \<Rightarrow> 'a ci_net_thread_scheme derived \<Rightarrow> bool" where
  "reads_frames E om \<longleftrightarrow>
     (\<forall>m. conn_call (ready_conn E) (\<lambda>r c. r \<longrightarrow> idle_conn E c) (\<lambda>p. dc_OnMessage om p m)) \<and>
     conn_call (idle_conn E) (\<lambda>r c. r \<longrightarrow> idle_conn E c) (dc_ProcessWithConnectedSocket om) \<and>
     (\<forall>p s r t. dc_ProcessWithConnectedSocket om p s = Some (r, t) \<longrightarrow> closed_fds (snd t) = closed_fds (snd s))"

definition read_frame :: "nat \<Rightarrow> i32 \<Rightarrow> ('a ci_net_thread_scheme, bool) meth" where
  "read_frame p m = on_obj p (\<lambda>s. do {
     ((ok, k, bs), s1) \<leftarrow> ReadN (GetCurrentRecvDataSize (fst s)) s;
     Some (ok, s1) })"

definition read_message :: "'a ci_net_thread_scheme derived" where
  "read_message = \<lparr>dc_OnMessage = read_frame, dc_ProcessWithConnectedSocket = CT_ProcessWithConnectedSocket\<rparr>"

text \<open>Another: it takes connections only of the descriptors below a limit.\<close>

definition picky_message :: "fd \<Rightarrow> 'a ci_net_thread_scheme derived" where
  "picky_message limit = \<lparr>dc_OnMessage = read_frame,
     dc_ProcessWithConnectedSocket = (\<lambda>p. on_obj p (\<lambda>s. Some (m_iSocket (fst s) < limit, s)))\<rparr>"

lemma new_idle:
  assumes "granted E ns nr"
  shows "idle_conn E (fst (CCiSocket_accepted (ne_heap E) (ne_calls E) (ne_mem E) sock CI_SOCKET_TCP ns nr w))"
proof -
  have "ring_ok r \<and> ring_data r = []"
    if "0 < n" "n < 2 ^ 31" "r_buf r = Some (new_array j (nat n))" "r_size r = n" "r_start r = 0" "r_end r = 0"
    for r n j using that by (auto simp: ring_ok_def ring_data_def ring_bytes_def new_array_def)
  then show ?thesis using assms
    by (auto simp: idle_conn_def linear_def granted_def has_frame_def CCiSocket_accepted_def CiSocket_Initialize_def
        c_malloc_def Let_def split: prod.split)
qed

lemma receive_conn:
  shows "conn_call (idle_conn E) (message_state (idle_conn E) (ready_conn E)) (CT_ReceiveIntMessage E)"
proof (rule conn_call_obj)
  fix c w assume c: "idle_conn E c"
  have lin: "linear (m_recv (fst (c, w)))" "\<not> has_frame (recv_data (c, w))" "small_blocks (ne_heap E)"
    using c by (simp_all add: idle_conn_def fair_env_def)
  from ReceiveIntMessage_ok [OF lin(1,3,2), of "ne_endian E" "ne_kernel E"] obtain r m rg w' xs where
    r: "ReceiveIntMessage (ne_endian E) (ne_heap E) (ne_kernel E) (c, w) = Some ((r, m), (fst (c, w))\<lparr>m_recv := rg\<rparr>, w')"
    "ring_ok rg"
    and x: "if r = RECEIVE_INT_MESSAGE_TRUE
      then has_frame (recv_data (c, w) @ xs) \<and> length (recv_data (c, w) @ xs) = frame_length (recv_data (c, w) @ xs) \<and>
        m = Some (fst (first_frame (recv_data (c, w) @ xs))) \<and> ring_data rg = drop 4 (recv_data (c, w) @ xs)
      else linear rg \<and> ring_data rg = recv_data (c, w) @ xs \<and>
        (r = RECEIVE_INT_MESSAGE_INTERIM \<longrightarrow> \<not> has_frame (recv_data (c, w) @ xs))" by (elim exE conjE) blast
  have "message_state (idle_conn E) (ready_conn E) (r, m) (c\<lparr>m_recv := rg\<rparr>)"
    using r(2) x c by (cases r) (simp_all add: message_state_def idle_conn_def ready_conn_def)
  then show "\<exists>r c' w'. ReceiveIntMessage (ne_endian E) (ne_heap E) (ne_kernel E) (c, w) = Some (r, c', w') \<and>
      m_iSocket c' = m_iSocket c \<and> message_state (idle_conn E) (ready_conn E) r c'"
    using r(1) by (intro exI [of _ "(r, m)"] exI [of _ "c\<lparr>m_recv := rg\<rparr>"] exI [of _ w']) simp
qed (simp add: CT_ReceiveIntMessage_def)

lemma write_conn:
  shows "conn_call (idle_conn E) (\<lambda>r c. r \<longrightarrow> idle_conn E c) (CT_DoWrite (ne_kernel E))"
proof (rule conn_call_obj)
  fix c w assume c: "idle_conn E c"
  have "sends_progress (ne_kernel E)" "send_ok (c, w)"
    using c by (simp_all add: idle_conn_def fair_env_def send_ok_def)
  from WriteFromBufferToNetwork_ok [OF this] obtain ok c' w' where
    "WriteFromBufferToNetwork (ne_kernel E) (c, w) = Some (ok, c', w')" "send_ok (c', w')"
    "c' = c\<lparr>m_send := m_send c'\<rparr>" by auto
  moreover from this(3) have "m_recv c' = m_recv c" "m_iSocket c' = m_iSocket c"
    by (metis cisocket.select_convs(7) cisocket.surjective cisocket.update_convs(6),
        metis cisocket.select_convs(1) cisocket.surjective cisocket.update_convs(6))
  ultimately show "\<exists>r c' w'. DoWrite (ne_kernel E) (c, w) = Some (r, c', w') \<and> m_iSocket c' = m_iSocket c \<and>
      (r \<longrightarrow> idle_conn E c')"
    using c by (auto simp: DoWrite_def idle_conn_def send_ok_def)
qed (simp add: CT_DoWrite_def)

lemma read_frame_reads:
  "conn_call (ready_conn E) (\<lambda>r c. r \<longrightarrow> idle_conn E c) (\<lambda>p. read_frame p m :: ('a ci_net_thread_scheme, bool) meth)"
proof (rule conn_call_obj)
  fix c w assume c: "ready_conn E c"
  have ok: "recv_ok (c, w)" using c by (simp add: ready_conn_def recv_ok_def)
  have n: "GetCurrentRecvDataSize c = int (length (recv_data (c, w)))"
    using ring_used_ok ok by (simp add: GetCurrentRecvDataSize_def recv_ok_def)
  show "\<exists>r c' w'. do { ((ok, k, bs), s1) \<leftarrow> ReadN (GetCurrentRecvDataSize (fst (c, w))) (c, w); Some (ok, s1) } =
      Some (r, c', w') \<and> m_iSocket c' = m_iSocket c \<and> (r \<longrightarrow> idle_conn E c')"
  proof (cases "recv_data (c, w) = []")
    case True
    then have "ReadN (GetCurrentRecvDataSize c) (c, w) = Some ((False, None, []), c, w)"
      using ReadN_ok [OF ok, of "GetCurrentRecvDataSize c"] n by simp
    then show ?thesis by (intro exI [of _ False] exI [of _ c] exI [of _ w]) simp
  next
    case False
    then obtain c1 w1 where r: "ReadN (GetCurrentRecvDataSize c) (c, w) =
        Some ((True, Some (GetCurrentRecvDataSize c), recv_data (c, w)), c1, w1)" "recv_ok (c1, w1)"
      "recv_data (c1, w1) = []"
      using ReadN_ok [OF ok, of "GetCurrentRecvDataSize c"] n by auto
    have c1: "c1 = c\<lparr>m_recv := m_recv c1\<rparr>" using ReadN_recv [OF r(1)] by simp
    then have "m_iSocket c1 = m_iSocket c" "m_send c1 = m_send c"
      by (metis cisocket.select_convs(1) cisocket.surjective cisocket.update_convs(7),
          metis cisocket.select_convs(6) cisocket.surjective cisocket.update_convs(7))
    then show ?thesis using r c by (simp add: idle_conn_def ready_conn_def linear_def recv_ok_def has_frame_def)
  qed
qed (simp only: read_frame_def)

lemma conn_call_skip: "conn_call P (\<lambda>r c. r \<longrightarrow> P c) (\<lambda>p s. Some (True, s))"
  unfolding conn_call_def
proof (intro allI impI)
  fix p c and o1 :: "'b ci_net_thread_scheme" and w :: world
  assume c: "ct_objs o1 p = Some c" "P c"
  have "o1\<lparr>ct_objs := (ct_objs o1)(p \<mapsto> c)\<rparr> = o1" using c(1) by (simp add: fun_upd_idem)
  then show "\<exists>r c' w'. Some (True, o1, w) = Some (r, o1\<lparr>ct_objs := (ct_objs o1)(p \<mapsto> c')\<rparr>, w') \<and>
      m_iSocket c' = m_iSocket c \<and> (r \<longrightarrow> P c')"
    using c(2) by (intro exI [of _ True] exI [of _ c] exI [of _ w]) simp
qed

lemma read_message_reads: "reads_frames E (read_message :: 'a ci_net_thread_scheme derived)"
  using read_frame_reads conn_call_skip [of "idle_conn E"]
  by (auto simp: reads_frames_def read_message_def CT_ProcessWithConnectedSocket_def [abs_def])

lemma picky_message_reads: "reads_frames E (picky_message limit :: 'a ci_net_thread_scheme derived)"
proof -
  have "conn_call (idle_conn E) (\<lambda>r c. r \<longrightarrow> idle_conn E c)
      (\<lambda>p. on_obj p (\<lambda>s. Some (m_iSocket (fst s) < limit, s)) :: ('a ci_net_thread_scheme, bool) meth)"
    by (rule conn_call_obj) auto
  then show ?thesis using read_frame_reads
    by (auto simp: reads_frames_def picky_message_def on_obj_def split: if_splits option.splits bind_splits)
qed

lemma frame_hooks:
  assumes "reads_frames E om"
  shows "conn_hooks E (message_vtbl E om) (idle_conn E) (ready_conn E) (granted E)"
proof
  show "conn_call (idle_conn E) (\<lambda>r c. r \<longrightarrow> idle_conn E c) (cv_ProcessWithConnectedSocket (message_vtbl E om))"
    using assms by (simp add: message_vtbl_def reads_frames_def)
  show "closed_fds (snd t) = closed_fds (snd s)"
    if "cv_ProcessWithConnectedSocket (message_vtbl E om) p s = Some (r, t)" for p s r t
  proof -
    have "dc_ProcessWithConnectedSocket om p s = Some (r, t)" using that by (simp add: message_vtbl_def)
    then show ?thesis using assms unfolding reads_frames_def by blast
  qed
  show "conn_call (ready_conn E) (\<lambda>r c. r \<longrightarrow> idle_conn E c) (\<lambda>p. cv_OnMessage (message_vtbl E om) p m)" for m
    using assms by (simp add: message_vtbl_def reads_frames_def)
qed (auto simp: message_vtbl_def ct_base_vtbl_def receive_conn write_conn new_idle CT_ProcessTimeout_def
    CT_ProcessWithConnectedSocket_def)

interpretation reader: conn_hooks E "message_vtbl E read_message" "idle_conn E" "ready_conn E" "granted E" for E
  by (rule frame_hooks [OF read_message_reads])

end
