(* ===== verification/Ci_Net_Life.thy ===== *)
theory Ci_Net_Life
  imports Ci_Net_Server
begin

text \<open>
  \<open>CNetworkThread\<close> of \<open>NetworkThread.cpp\<close>, fourth part: its life.  \<open>InitInstance\<close> opens the listen
  socket, the rounds of \<open>Run\<close> follow, \<open>ExitInstance\<close> closes all sockets and the destructor finds nothing
  left; a destructor that runs without \<open>ExitInstance\<close> deletes the connections twice.
\<close>

section \<open>Running\<close>

text \<open>The states of a server from \<open>s\<close> on: rounds of \<open>Run\<close>, and changes of \<open>m_bExit\<close> by other threads.\<close>

inductive server_run ::
  "net_env \<Rightarrow> 'a ci_net_thread_scheme ct_vtbl \<Rightarrow> 'a ci_net_thread_scheme st \<Rightarrow> 'a ci_net_thread_scheme st \<Rightarrow> bool"
  for E vt s where
  start: "server_run E vt s s"
| round: "server_run E vt s t \<Longrightarrow> round_ok E t \<Longrightarrow> CT_Run E vt t = Some (r, u) \<Longrightarrow> server_run E vt s u"
| exit: "server_run E vt s (o1, w) \<Longrightarrow> server_run E vt s (o1\<lparr>m_bExit := b\<rparr>, w)"

definition in_service :: "net_env \<Rightarrow> 'a ci_net_thread_scheme \<Rightarrow> bool" where
  "in_service E o1 \<longleftrightarrow> server_ok (idle_conn E) o1 \<and>
     granted E (ct_iConnectedSocketSendBufferSize o1) (ct_iConnectedSocketRecvBufferSize o1) \<and>
     (ct_pListenSocket o1 = 0 \<or> listens o1)"

lemma in_service_same:
  assumes "in_service E o1" "server_ok (idle_conn E) o2" "same_server o1 o2"
  shows "in_service E o2"
  using assms by (auto simp: in_service_def same_server_def)

lemma in_service_round:
  assumes "reads_frames E om" "in_service E o1" "round_ok E (o1, w)"
  shows "\<exists>o2 w2. CT_Run E (message_vtbl E om) (o1, w) = Some (True, o2, w2) \<and> in_service E o2"
proof -
  have "\<exists>o2 w2. CT_Run E (message_vtbl E om) (o1, w) = Some (True, o2, w2) \<and>
      server_ok (idle_conn E) o2 \<and> same_server o1 o2"
    using conn_hooks.Run_ok [OF frame_hooks [OF assms(1)], of o1 w] assms(2,3) by (simp add: in_service_def)
  then show ?thesis using in_service_same [OF assms(2)] by blast
qed

lemma server_run_in_service:
  assumes "server_run E (message_vtbl E om) s t" "reads_frames E om" "in_service E (fst s)"
  shows "in_service E (fst t)"
  using assms
proof (induction rule: server_run.induct)
  case (round t r u)
  then have "in_service E (fst t)" by blast
  from in_service_round [OF round.prems(1) this, of "snd t"] round.hyps(2,3) show ?case by auto
next
  case (exit o1 w b)
  then show ?case by (simp add: in_service_def server_ok_def conns_ok_def listens_def)
qed

section \<open>Starting\<close>

text \<open>Nothing is open.\<close>

definition at_rest :: "'a ci_net_thread_scheme \<Rightarrow> bool" where
  "at_rest o1 \<longleftrightarrow> (let n = ct_iMaxFDSize o1 in
     ct_objs o1 = Map.empty \<and> ct_pListenSocket o1 = 0 \<and> 0 < ct_fresh o1 \<and>
     ct_ReadSockets o1 = replicate n 0 \<and> ct_WriteSockets o1 = replicate n 0 \<and>
     ct_iReadSocketCount o1 = 0 \<and> ct_iWriteSocketCount o1 = 0 \<and>
     ct_PollFds o1 = replicate n free_pollfd \<and> ct_PollSockets o1 = replicate n 0 \<and> ct_iPollFdCount o1 = 0)"

lemma at_rest_new: "at_rest (CNetworkThread_ci port nsend nrecv queue ip maxfd)"
  by (simp add: at_rest_def CNetworkThread_ci_def CCiThread2_ci_def
      ci_net_thread.defs ci_thread2_lock.defs ci_thread2.defs)

lemma at_rest_wf: "at_rest o1 \<Longrightarrow> ct_wf o1"
  by (simp add: at_rest_def ct_wf_def table_wf_def table_def Let_def)

text \<open>The listen socket in its object and in the table, when the table has room.\<close>

definition listening_at :: "cisocket \<Rightarrow> 'a ci_net_thread_scheme \<Rightarrow> 'a ci_net_thread_scheme" where
  "listening_at c o1 = (with_new c o1)\<lparr>ct_pListenSocket := ct_fresh o1,
     ct_PollSockets := (ct_PollSockets o1)[0 := ct_fresh o1],
     ct_PollFds := (ct_PollFds o1)[0 := \<lparr>pfd = m_iSocket c, pevents = read_events, prevents = 0\<rparr>],
     ct_iPollFdCount := 1\<rparr>"

lemma listening_table:
  assumes "at_rest o1" "0 < ct_iMaxFDSize o1"
  shows "table (listening_at c o1) = [(\<lparr>pfd = m_iSocket c, pevents = read_events, prevents = 0\<rparr>, ct_fresh o1)]"
proof -
  obtain k where k: "ct_iMaxFDSize o1 = Suc k" using assms(2) by (cases "ct_iMaxFDSize o1") auto
  then show ?thesis using assms(1) by (simp add: at_rest_def Let_def table_def listening_at_def with_new_def)
qed

lemma listening_at_ok:
  assumes "at_rest o1" "0 < ct_iMaxFDSize o1" "m_iSocket c \<noteq> NU_INVALID_SOCKET"
  shows "PollFDAdd_ci (ct_fresh o1) True ((with_new c o1)\<lparr>ct_pListenSocket := ct_fresh o1\<rparr>) =
      Some (True, listening_at c o1)"
    "ct_wf (listening_at c o1)" "listens (listening_at c o1)" "socks (ct_ReadSockets (listening_at c o1)) = {}"
proof -
  note r = assms(1) [unfolded at_rest_def Let_def]
  show "PollFDAdd_ci (ct_fresh o1) True ((with_new c o1)\<lparr>ct_pListenSocket := ct_fresh o1\<rparr>) =
      Some (True, listening_at c o1)"
    using r assms(2,3) by (simp add: PollFDAdd_ci_def listening_at_def with_new_def)
  obtain k where k: "ct_iMaxFDSize o1 = Suc k" using assms(2) by (cases "ct_iMaxFDSize o1") auto
  note tab = listening_table [OF assms(1,2), of c]
  show "listens (listening_at c o1)" by (simp add: listens_def tab) (simp add: listening_at_def)
  show "socks (ct_ReadSockets (listening_at c o1)) = {}" using r by (simp add: listening_at_def with_new_def)
  have "table_wf (listening_at c o1)"
    by (rule table_wfI, simp_all only: tab) (use r k assms(3) in \<open>auto simp: listening_at_def with_new_def\<close>)
  then show "ct_wf (listening_at c o1)" using r
    by (simp add: ct_wf_def tab) (simp add: listening_at_def with_new_def)
qed

lemma create_listen_socket_outcome:
  fixes e K N port queue ip w
  defines "r \<equiv> nu_create_listen_socket e K N port queue ip w" and "sock \<equiv> k_socket K (clock w)"
  shows "fst r = (if fst r = None then None else Some sock)"
    "closed_fds (snd r) = closed_fds w @ (if fst r = None \<and> 0 \<le> sock then [sock] else [])"
    "fst r \<noteq> None \<Longrightarrow> 0 \<le> sock"
  unfolding r_def sock_def nu_create_listen_socket_def sys_socket_def sys_setsockopt_def sys_bind_def
    nu_set_keep_alive_ci_def nu_disconnect_ci_def sys_close_def sys_listen_def Let_def prod.case
  by (auto split: if_splits)

text \<open>With a given port number it succeeds as soon as the socket listens.\<close>

lemma InitInstance_listens:
  assumes rest: "at_rest o1" and room: "0 < ct_iMaxFDSize o1" and port: "ct_iListenPortNumber o1 \<notin> {- 1, 0}"
    and sock: "nu_create_listen_socket (ne_endian E) (ne_kernel E) (ne_calls E)
      (word_of_int (ct_iListenPortNumber o1)) (ct_iListenQueueSize o1) (ct_ListenIPAddr o1) w = (Some sock, w1)"
  shows "\<exists>c w2. CT_InitInstance E (o1, w) = Some (True, listening_at c o1, w2) \<and> m_iSocket c = sock"
proof -
  obtain c w2 where c: "CCiSocket_accepted (ne_heap E) (ne_calls E) (ne_mem E) sock CI_SOCKET_TCP
      CI_SOCKET_BUFFER_SIZE CI_SOCKET_BUFFER_SIZE w1 = (c, w2)" by fastforce
  have fd: "m_iSocket c = sock"
    using CCiSocket_accepted_frame(1) [of "ne_heap E" "ne_calls E" "ne_mem E" sock CI_SOCKET_TCP
        CI_SOCKET_BUFFER_SIZE CI_SOCKET_BUFFER_SIZE w1] by (simp add: c)
  have "0 \<le> sock"
    using create_listen_socket_outcome(1,3) [of "ne_endian E" "ne_kernel E" "ne_calls E"
        "word_of_int (ct_iListenPortNumber o1)" "ct_iListenQueueSize o1" "ct_ListenIPAddr o1" w] by (simp add: sock)
  then have "m_iSocket c \<noteq> NU_INVALID_SOCKET" using fd by simp
  from listening_at_ok(1) [OF rest room this] have "CT_InitInstance E (o1, w) = Some (True, listening_at c o1, w2)"
    using port by (simp add: CT_InitInstance_def Let_def sock new_socket_with c)
  then show ?thesis using fd by blast
qed

text \<open>
  \<open>InitInstance\<close> leaves a listening server, or nothing: then the socket it had opened is closed.
\<close>

lemma InitInstance_ok:
  fixes E o1 w
  assumes rest: "at_rest o1" and room: "0 < ct_iMaxFDSize o1" and port: "ct_iListenPortNumber o1 \<noteq> - 1"
  defines "sock \<equiv> k_socket (ne_kernel E) (clock w)"
  shows "\<exists>ok o2 w2. CT_InitInstance E (o1, w) = Some (ok, o2, w2) \<and>
    ct_iConnectedSocketSendBufferSize o2 = ct_iConnectedSocketSendBufferSize o1 \<and>
    ct_iConnectedSocketRecvBufferSize o2 = ct_iConnectedSocketRecvBufferSize o1 \<and>
    (if ok then ct_wf o2 \<and> listens o2 \<and> socks (ct_ReadSockets o2) = {} \<and> closed_fds w2 = closed_fds w \<and>
         (\<exists>c. ct_objs o2 (ct_pListenSocket o2) = Some c \<and> m_iSocket c = sock)
     else at_rest o2 \<and> closed_fds w2 = closed_fds w @ (if 0 \<le> sock then [sock] else []))"
proof -
  define r where "r = nu_create_listen_socket (ne_endian E) (ne_kernel E) (ne_calls E)
      (word_of_int (ct_iListenPortNumber o1)) (ct_iListenQueueSize o1) (ct_ListenIPAddr o1) w"
  note out = create_listen_socket_outcome [of "ne_endian E" "ne_kernel E" "ne_calls E"
      "word_of_int (ct_iListenPortNumber o1)" "ct_iListenQueueSize o1" "ct_ListenIPAddr o1" w, folded r_def sock_def]
  show ?thesis
  proof (cases "fst r")
    case None
    then obtain w1 where w1: "r = (None, w1)" by (cases r) simp
    then have "CT_InitInstance E (o1, w) = Some (False, o1, w1)"
      using port by (simp add: CT_InitInstance_def Let_def r_def)
    then show ?thesis using rest out(2) w1 by simp
  next
    case (Some x)
    then obtain w1 where s: "r = (Some sock, w1)" "0 \<le> sock" "closed_fds w1 = closed_fds w"
      using out by (cases r) auto
    define pw where "pw = (if ct_iListenPortNumber o1 = 0 then nu_get_local_port_number (ne_endian E) (ne_calls E) w1
                else (Some 0, w1))"
    have run: "CT_InitInstance E (o1, w) = (if ct_iListenPortNumber o1 = - 1 then Some (True, o1, w) else
        (let (port, w2) = pw in
         if port = None then Some (False, o1, snd (sys_close (ne_kernel E) sock w2))
         else
           (let o2 = (if ct_iListenPortNumber o1 = 0 then o1\<lparr>ct_iListenPortNumber := uint (the port)\<rparr> else o1);
                (p, o3, w3) = new_socket E sock CI_SOCKET_BUFFER_SIZE CI_SOCKET_BUFFER_SIZE (o2, w2) in
            do {
              (ok, o4) \<leftarrow> PollFDAdd_ci p True (o3\<lparr>ct_pListenSocket := p\<rparr>);
              Some (ok, o4, w3) })))"
      using s(1) by (simp add: CT_InitInstance_def Let_def r_def pw_def)
    have cl: "closed_fds (snd pw) = closed_fds w"
      using s(3) by (simp add: pw_def nu_get_local_port_number_def sys_ask_def)
    show ?thesis
    proof (cases "fst pw")
      case None
      then have "CT_InitInstance E (o1, w) = Some (False, o1, snd (sys_close (ne_kernel E) sock (snd pw)))"
        using port by (simp only: run Let_def) (simp add: prod.case_eq_if)
      then show ?thesis using rest cl s(2) by (simp add: sys_close_def)
    next
      case (Some x)
      define o2 where "o2 = (if ct_iListenPortNumber o1 = 0 then o1\<lparr>ct_iListenPortNumber := uint x\<rparr> else o1)"
      have o2: "at_rest o2" "0 < ct_iMaxFDSize o2" using rest room by (simp_all add: o2_def at_rest_def Let_def)
      obtain c w3 where c: "CCiSocket_accepted (ne_heap E) (ne_calls E) (ne_mem E) sock CI_SOCKET_TCP
          CI_SOCKET_BUFFER_SIZE CI_SOCKET_BUFFER_SIZE (snd pw) = (c, w3)" by fastforce
      have fd: "m_iSocket c = sock" "closed_fds w3 = closed_fds w"
        using CCiSocket_accepted_frame [of "ne_heap E" "ne_calls E" "ne_mem E" sock CI_SOCKET_TCP
            CI_SOCKET_BUFFER_SIZE CI_SOCKET_BUFFER_SIZE "snd pw"] by (simp_all add: c cl)
      have "m_iSocket c \<noteq> NU_INVALID_SOCKET" using fd(1) s(2) by simp
      note at = listening_at_ok [OF o2 this]
      have "CT_InitInstance E (o1, w) = Some (True, listening_at c o2, w3)"
        by (simp only: run Let_def prod.case_eq_if Some option.sel option.simps if_False port new_socket_with c
            at(1) prod.case fst_conv snd_conv bind.simps o2_def [symmetric])
      moreover have "ct_objs (listening_at c o2) (ct_pListenSocket (listening_at c o2)) = Some c"
        "ct_iConnectedSocketSendBufferSize (listening_at c o2) = ct_iConnectedSocketSendBufferSize o1"
        "ct_iConnectedSocketRecvBufferSize (listening_at c o2) = ct_iConnectedSocketRecvBufferSize o1"
        by (simp_all add: listening_at_def with_new_def o2_def)
      ultimately show ?thesis using at(2-4) fd by simp
    qed
  qed
qed

section \<open>Ending\<close>

lemma packed_Cons: "packed (p # ps) \<Longrightarrow> packed ps \<and> p \<notin> socks ps"
  unfolding packed_def in_socks_conv
  by (metis (no_types, lifting) Suc_less_eq length_Cons nat.distinct(1) nat.inject nth_Cons_0 nth_Cons_Suc zero_less_Suc)

text \<open>The descriptors of the sockets in an array, in its order.\<close>

definition fds_of :: "(nat \<Rightarrow> cisocket option) \<Rightarrow> nat list \<Rightarrow> fd list" where
  "fds_of h ps = map (\<lambda>p. m_iSocket (the (h p))) (filter (\<lambda>p. p \<noteq> 0) ps)"

lemma obj_close:
  assumes "p \<noteq> 0" "ct_objs o1 p = Some c" "m_iSocket c \<noteq> NU_INVALID_SOCKET"
  shows "\<exists>r o2 w2. obj_Disconnect K p (o1, w) = Some (r, o2, w2) \<and>
    obj_delete K p (o2, w2) = Some (o1\<lparr>ct_objs := (ct_objs o1)(p := None)\<rparr>, w2) \<and>
    closed_fds w2 = closed_fds w @ [m_iSocket c]"
proof -
  obtain r w2 where d: "CiSocket_Disconnect K (c, w) = (r, c\<lparr>m_iSocket := CI_INVALID_SOCKET\<rparr>, w2)"
    "closed_fds w2 = closed_fds w @ [m_iSocket c]" using CiSocket_Disconnect_open [OF assms(3)] by blast
  let ?o = "o1\<lparr>ct_objs := (ct_objs o1)(p \<mapsto> c\<lparr>m_iSocket := CI_INVALID_SOCKET\<rparr>)\<rparr>"
  have "obj_Disconnect K p (o1, w) = Some (r, ?o, w2)" using assms(2) d(1) by (simp add: obj_Disconnect_def on_obj_def)
  moreover have "obj_delete K p (?o, w2) = Some (o1\<lparr>ct_objs := (ct_objs o1)(p := None)\<rparr>, w2)"
    using assms(1) by (simp add: obj_delete_def CCiSocket_destroy_closed)
  ultimately show ?thesis using d(2) by blast
qed

lemma close_all_ok:
  assumes "packed ps" "\<forall>p\<in>socks ps. \<exists>c. ct_objs o1 p = Some c \<and> m_iSocket c \<noteq> NU_INVALID_SOCKET"
  shows "\<exists>w2. close_all K ps (o1, w) = Some (o1\<lparr>ct_objs := ct_objs o1 |` (- socks ps)\<rparr>, w2) \<and>
    closed_fds w2 = closed_fds w @ fds_of (ct_objs o1) ps"
  using assms
proof (induction ps arbitrary: o1 w)
  case Nil
  have "ct_objs o1 |` (- {}) = ct_objs o1" by (simp add: restrict_map_def)
  then show ?case by (simp add: socks_def fds_of_def)
next
  case (Cons p ps)
  have pk: "packed ps" "p \<notin> socks ps" using packed_Cons [OF Cons.prems(1)] by simp_all
  show ?case
  proof (cases "p = 0")
    case True
    then have "socks (p # ps) = socks ps" by (auto simp: socks_def)
    then show ?thesis using Cons.IH [OF pk(1), of o1 w] Cons.prems(2) True by (simp add: fds_of_def)
  next
    case False
    have s: "socks (p # ps) = insert p (socks ps)" using False by (auto simp: socks_def)
    then obtain c where c: "ct_objs o1 p = Some c" "m_iSocket c \<noteq> NU_INVALID_SOCKET" using Cons.prems(2) by auto
    let ?o = "o1\<lparr>ct_objs := (ct_objs o1)(p := None)\<rparr>"
    obtain r o2 w2 where d: "obj_Disconnect K p (o1, w) = Some (r, o2, w2)" "obj_delete K p (o2, w2) = Some (?o, w2)"
      "closed_fds w2 = closed_fds w @ [m_iSocket c]" using obj_close [OF False c] by blast
    have "\<forall>q\<in>socks ps. \<exists>c. ct_objs ?o q = Some c \<and> m_iSocket c \<noteq> NU_INVALID_SOCKET"
      using Cons.prems(2) pk(2) s by auto
    from Cons.IH [OF pk(1) this, of w2] obtain w3 where
      3: "close_all K ps (?o, w2) = Some (?o\<lparr>ct_objs := ct_objs ?o |` (- socks ps)\<rparr>, w3)"
      "closed_fds w3 = closed_fds w2 @ fds_of (ct_objs ?o) ps" by blast
    have "ct_objs ?o |` (- socks ps) = ct_objs o1 |` (- socks (p # ps))"
      unfolding s by (auto simp: restrict_map_def fun_eq_iff)
    moreover have "fds_of (ct_objs ?o) ps = fds_of (ct_objs o1) ps"
      using pk(2) by (auto simp: fds_of_def socks_def)
    ultimately show ?thesis using False c d 3 by (simp add: fds_of_def)
  qed
qed

text \<open>\<open>ExitInstance\<close> closes every socket, once, and leaves nothing.\<close>

lemma ExitInstance_ok:
  assumes wf: "ct_wf o1" and l: "ct_pListenSocket o1 = 0 \<or> listens o1"
  shows "\<exists>o2 w2. CT_ExitInstance K (o1, w) = Some (True, o2, w2) \<and> at_rest o2 \<and>
    closed_fds w2 = closed_fds w @ fds_of (ct_objs o1) (ct_ReadSockets o1 @ [ct_pListenSocket o1])"
proof -
  note w = ct_wfD [OF wf]
  have conn: "\<forall>p\<in>socks (ct_ReadSockets o1). \<exists>c. ct_objs o1 p = Some c \<and> m_iSocket c \<noteq> NU_INVALID_SOCKET"
    using wf_conn_entry [OF wf] table_entry [OF w(1)] by metis
  from close_all_ok [OF w(4) conn, of K w] obtain w1 where
    1: "close_all K (ct_ReadSockets o1) (o1, w) = Some (o1\<lparr>ct_objs := ct_objs o1 |` (- socks (ct_ReadSockets o1))\<rparr>, w1)"
    "closed_fds w1 = closed_fds w @ fds_of (ct_objs o1) (ct_ReadSockets o1)" by blast
  let ?n = "ct_iMaxFDSize o1" and ?p = "ct_pListenSocket o1"
  define o2 where "o2 = o1\<lparr>ct_objs := ct_objs o1 |` (- socks (ct_ReadSockets o1)), ct_ReadSockets := replicate ?n 0,
      ct_WriteSockets := replicate ?n 0\<rparr>"
  have "\<exists>w2. CloseListenSocket K (o2, w1) = Some (o2\<lparr>ct_objs := Map.empty, ct_pListenSocket := 0\<rparr>, w2) \<and>
      closed_fds w2 = closed_fds w1 @ fds_of (ct_objs o1) [?p]"
  proof (cases "?p = 0")
    case True
    have "ct_objs o2 = Map.empty" using w(11) True by (auto simp: o2_def restrict_map_def fun_eq_iff)
    then have "o2\<lparr>ct_objs := Map.empty, ct_pListenSocket := 0\<rparr> = o2" using True by (simp add: o2_def)
    then show ?thesis using True by (simp add: CloseListenSocket_def fds_of_def o2_def)
  next
    case False
    then obtain e where e: "(e, ?p) \<in> set (table o1)" using l by (auto simp: listens_def)
    obtain c where c: "ct_objs o1 ?p = Some c" "m_iSocket c \<noteq> NU_INVALID_SOCKET" using table_entry [OF w(1) e] by metis
    have c2: "ct_objs o2 ?p = Some c" "ct_pListenSocket o2 = ?p" using c(1) w(9) by (simp_all add: o2_def)
    obtain r o3 w2 where d: "obj_Disconnect K ?p (o2, w1) = Some (r, o3, w2)"
      "obj_delete K ?p (o3, w2) = Some (o2\<lparr>ct_objs := (ct_objs o2)(?p := None)\<rparr>, w2)"
      "closed_fds w2 = closed_fds w1 @ [m_iSocket c]" using obj_close [OF False c2(1) c(2)] by blast
    have "(ct_objs o2)(?p := None) = Map.empty" using w(11) by (auto simp: o2_def restrict_map_def fun_eq_iff)
    then show ?thesis using False d c c2(2) by (simp add: CloseListenSocket_def fds_of_def)
  qed
  then obtain w2 where 2: "CloseListenSocket K (o2, w1) = Some (o2\<lparr>ct_objs := Map.empty, ct_pListenSocket := 0\<rparr>, w2)"
    "closed_fds w2 = closed_fds w1 @ fds_of (ct_objs o1) [?p]" by blast
  let ?o3 = "o2\<lparr>ct_objs := Map.empty, ct_pListenSocket := 0, ct_iReadSocketCount := 0, ct_iWriteSocketCount := 0,
      ct_PollFds := replicate ?n free_pollfd, ct_PollSockets := replicate ?n 0, ct_iPollFdCount := 0,
      ct_iEventsCount := 0\<rparr>"
  have "CT_ExitInstance K (o1, w) = Some (True, ?o3, w2)"
    using 1(1) 2(1) by (simp add: CT_ExitInstance_def Thread2_ExitInstance_def Let_def o2_def)
  moreover have "at_rest ?o3" using w(13) by (simp add: at_rest_def Let_def o2_def)
  moreover have "closed_fds w2 = closed_fds w @ fds_of (ct_objs o1) (ct_ReadSockets o1 @ [?p])"
    using 1(2) 2(2) by (simp add: fds_of_def)
  ultimately show ?thesis by blast
qed

section \<open>The destructor\<close>

lemma destroy_pairs_zero: "destroy_pairs K (replicate n (0, 0)) s = Some s"
  by (induction n) (simp_all add: obj_delete_def)

lemma delete_all_zero: "delete_all K (replicate n 0) s = Some s"
  by (induction n) simp_all

lemma destroy_at_rest:
  assumes "at_rest o1"
  shows "CNetworkThread_destroy K (o1, w) = Some (o1, w)"
  using assms
  by (simp add: CNetworkThread_destroy_def at_rest_def Let_def destroy_pairs_zero CloseListenSocket_def delete_all_zero)

text \<open>Deleting only makes objects fewer, and leaves the table alone.\<close>

definition fewer :: "'a ci_net_thread_scheme \<Rightarrow> 'a ci_net_thread_scheme \<Rightarrow> bool" where
  "fewer o1 o2 \<longleftrightarrow> (\<forall>p. ct_objs o1 p = None \<longrightarrow> ct_objs o2 p = None) \<and> ct_PollSockets o2 = ct_PollSockets o1 \<and>
     ct_pListenSocket o2 = ct_pListenSocket o1"

lemma fewer_refl [simp]: "fewer o1 o1"
  by (simp add: fewer_def)

lemma fewer_trans: "fewer o1 o2 \<Longrightarrow> fewer o2 o3 \<Longrightarrow> fewer o1 o3"
  by (auto simp: fewer_def)

lemma obj_Disconnect_fewer: "obj_Disconnect K p (o1, w) = Some (r, o2, w2) \<Longrightarrow> fewer o1 o2"
  by (auto simp: obj_Disconnect_def on_obj_def fewer_def split: bind_splits prod.splits)

lemma obj_delete_fewer:
  "obj_delete K p (o1, w) = Some (o2, w2) \<Longrightarrow> fewer o1 o2 \<and> (p \<noteq> 0 \<longrightarrow> ct_objs o2 p = None)"
  by (auto simp: obj_delete_def fewer_def Let_def split: bind_splits if_splits)

lemma destroy_pairs_fewer:
  "destroy_pairs K ps (o1, w) = Some (o2, w2) \<Longrightarrow>
     fewer o1 o2 \<and> (\<forall>p\<in>fst ` set ps - {0}. ct_objs o2 p = None)"
proof (induction ps arbitrary: o1 w)
  case Nil
  then show ?case by simp
next
  case (Cons pq ps)
  obtain p q where pq: "pq = (p, q)" by fastforce
  obtain o3 w3 where 3: "(if p \<noteq> 0 then do { (r, s0) \<leftarrow> obj_Disconnect K p (o1, w); obj_delete K p s0 } else Some (o1, w)) =
      Some (o3, w3)"
    using Cons.prems unfolding pq by (auto split: bind_splits if_splits)
  have f3: "fewer o1 o3" "p \<noteq> 0 \<longrightarrow> ct_objs o3 p = None"
  proof -
    have "fewer o1 o3 \<and> (p \<noteq> 0 \<longrightarrow> ct_objs o3 p = None)"
    proof (cases "p = 0")
      case False
      obtain r o0 w0 where 0: "obj_Disconnect K p (o1, w) = Some (r, o0, w0)" "obj_delete K p (o0, w0) = Some (o3, w3)"
        using 3 False by (auto split: bind_splits)
      show ?thesis using fewer_trans [OF obj_Disconnect_fewer [OF 0(1)]] obj_delete_fewer [OF 0(2)] by blast
    qed (use 3 in simp)
    then show "fewer o1 o3" "p \<noteq> 0 \<longrightarrow> ct_objs o3 p = None" by blast+
  qed
  obtain o4 w4 where 4: "obj_delete K q (o3, w3) = Some (o4, w4)" "destroy_pairs K ps (o4, w4) = Some (o2, w2)"
    using Cons.prems 3 unfolding pq by (auto split: bind_splits)
  have ih: "fewer o4 o2" "\<forall>q\<in>fst ` set ps - {0}. ct_objs o2 q = None" 
    using Cons.IH [OF 4(2), THEN conjunct1] Cons.IH [OF 4(2), THEN conjunct2] .
  have f: "fewer o3 o2" using fewer_trans [OF _ ih(1)] obj_delete_fewer [OF 4(1)] by blast
  have "ct_objs o2 x = None" if "x \<in> fst ` set (pq # ps) - {0}" for x
  proof (cases "x = p")
    case True
    then have "ct_objs o3 x = None" using f3(2) that by simp
    then show ?thesis using f by (simp add: fewer_def)
  next
    case False
    then show ?thesis using ih(2) that by (simp add: pq)
  qed
  then show ?case by (intro conjI ballI fewer_trans [OF f3(1) f])
qed

lemma CloseListenSocket_fewer:
  assumes "CloseListenSocket K (o1, w) = Some (o2, w2)"
  shows "(\<forall>p. ct_objs o1 p = None \<or> (p = ct_pListenSocket o1 \<and> p \<noteq> 0) \<longrightarrow> ct_objs o2 p = None) \<and>
      ct_PollSockets o2 = ct_PollSockets o1"
proof (cases "ct_pListenSocket o1 = 0")
    case True
    then show ?thesis using assms by (simp add: CloseListenSocket_def)
  next
    case False
    obtain r o3 w3 o4 where 3: "obj_Disconnect K (ct_pListenSocket o1) (o1, w) = Some (r, o3, w3)"
      "obj_delete K (ct_pListenSocket o1) (o3, w3) = Some (o4, w2)" "o2 = o4\<lparr>ct_pListenSocket := 0\<rparr>"
      using assms False by (auto simp: CloseListenSocket_def Let_def split: bind_splits)
    have f: "fewer o1 o4" "ct_objs o4 (ct_pListenSocket o1) = None"
      using fewer_trans [OF obj_Disconnect_fewer [OF 3(1)]] obj_delete_fewer [OF 3(2)] False by blast+
    have sel: "ct_objs o2 = ct_objs o4" "ct_PollSockets o2 = ct_PollSockets o4" by (simp_all add: 3(3))
    show ?thesis unfolding sel
    proof (intro conjI allI impI)
      show "ct_PollSockets o4 = ct_PollSockets o1" using f(1) by (simp add: fewer_def)
      show "ct_objs o4 p = None" if "ct_objs o1 p = None \<or> (p = ct_pListenSocket o1 \<and> p \<noteq> 0)" for p
        using that
      proof
        assume "ct_objs o1 p = None"
        then show ?thesis using f(1) by (simp add: fewer_def)
      next
        assume "p = ct_pListenSocket o1 \<and> p \<noteq> 0"
        then show ?thesis using f(2) by simp
      qed
    qed
qed

lemma delete_all_gone:
  "p \<in> set ps \<Longrightarrow> p \<noteq> 0 \<Longrightarrow> ct_objs o1 p = None \<Longrightarrow> delete_all K ps (o1, w) = None"
proof (induction ps arbitrary: o1 w)
  case Nil
  then show ?case by simp
next
  case (Cons q ps)
  show ?case
  proof (cases "q = 0")
    case True
    then show ?thesis using Cons by auto
  next
    case False
    show ?thesis
    proof (cases "obj_delete K q (o1, w)")
      case None
      then show ?thesis using False by simp
    next
      case (Some t)
      obtain o2 w2 where t: "t = (o2, w2)" by fastforce
      have "q \<noteq> p" using Some Cons.prems(3) False by (auto simp: obj_delete_def split: bind_splits)
      moreover have "ct_objs o2 p = None" using obj_delete_fewer [OF Some [unfolded t]] Cons.prems(3) by (auto simp: fewer_def)
      ultimately show ?thesis using Cons.IH [of o2 w2] Cons.prems False Some t by auto
    qed
  qed
qed

text \<open>The destructor of a server that still has a socket in its table deletes that socket twice.\<close>

lemma destroy_in_service:
  assumes wf: "ct_wf o1" and used: "0 < ct_iPollFdCount o1"
  shows "CNetworkThread_destroy K (o1, w) = None"
proof (rule ccontr)
  assume "CNetworkThread_destroy K (o1, w) \<noteq> None"
  then obtain o2 w2 o3 w3 t where 2: "destroy_pairs K (zip (ct_ReadSockets o1) (ct_WriteSockets o1)) (o1, w) = Some (o2, w2)"
    and 3: "CloseListenSocket K (o2, w2) = Some (o3, w3)" and 4: "delete_all K (ct_PollSockets o3) (o3, w3) = Some t"
    by (auto simp: CNetworkThread_destroy_def split: bind_splits)
  note w = ct_wfD [OF wf]
  note t = table_wfD [OF w(1)]
  let ?p = "ct_PollSockets o1 ! 0"
  have e: "(ct_PollFds o1 ! 0, ?p) \<in> set (table o1)" using table_at [OF w(1) used] .
  have p0: "?p \<noteq> 0" using table_entry [OF w(1) e] by blast
  have pp: "?p \<in> set (ct_PollSockets o1)" using used t by (intro nth_mem) simp
  have f: "fst ` set (zip (ct_ReadSockets o1) (ct_WriteSockets o1)) = set (ct_ReadSockets o1)"
    using w(2,3) by (metis list.set_map map_fst_zip)
  note g = destroy_pairs_fewer [OF 2, unfolded f]
  have "?p \<in> socks (ct_ReadSockets o1) \<or> ?p = ct_pListenSocket o1"
  proof -
    have "?p \<in> snd ` set (table o1)" using e by (metis image_eqI snd_conv)
    then show ?thesis using w(10) by blast
  qed
  then have "ct_objs o3 ?p = None"
    using g CloseListenSocket_fewer [OF 3, THEN conjunct1] p0 by (auto simp: fewer_def socks_def)
  moreover have "?p \<in> set (ct_PollSockets o3)" using CloseListenSocket_fewer [OF 3, THEN conjunct2] g pp by (simp add: fewer_def)
  ultimately have "delete_all K (ct_PollSockets o3) (o3, w3) = None" using delete_all_gone p0 by blast
  then show False using 4 by simp
qed

section \<open>Cleaning up disabled sockets\<close>

lemma drop_disabled_null: "0 \<in> set ps \<Longrightarrow> drop_disabled K b ps s = None"
proof (induction ps arbitrary: s)
  case (Cons p ps)
  show ?case
  proof (cases "p = 0")
    case False
    then have "0 \<in> set ps" using Cons.prems by simp
    note IH = Cons.IH [OF this]
    show ?thesis using False IH by (cases "ct_objs (fst s) p") (auto simp: Let_def split: option.split bind_splits)
  qed simp
qed simp

section \<open>The whole life\<close>

lemma started:
  assumes "CT_InitInstance E (CNetworkThread_ci port ns nr queue ip maxfd, w) = Some (True, s)" "0 < maxfd"
    "granted E ns nr"
  shows "in_service E (fst s)" "port \<noteq> - 1 \<Longrightarrow> listens (fst s)"
proof -
  let ?o = "CNetworkThread_ci port ns nr queue ip maxfd"
  have sel: "ct_iMaxFDSize ?o = maxfd" "ct_iListenPortNumber ?o = port" "ct_pListenSocket ?o = 0"
    "ct_iConnectedSocketSendBufferSize ?o = ns" "ct_iConnectedSocketRecvBufferSize ?o = nr"
    by (simp_all add: CNetworkThread_ci_def CCiThread2_ci_def ci_net_thread.defs ci_thread2_lock.defs ci_thread2.defs)
  note rest = at_rest_new [of port ns nr queue ip maxfd]
  have no_conns: "in_service E o2" if "ct_wf o2" "socks (ct_ReadSockets o2) = {}" "ct_pListenSocket o2 = 0 \<or> listens o2"
    "ct_iConnectedSocketSendBufferSize o2 = ns" "ct_iConnectedSocketRecvBufferSize o2 = nr"
    for o2 :: ci_net_thread
    using that assms(3) by (simp add: in_service_def server_ok_def conns_ok_def)
  have "in_service E (fst s) \<and> (port \<noteq> - 1 \<longrightarrow> listens (fst s))"
  proof (cases "port = - 1")
    case True
    then have "s = (?o, w)" using assms(1) sel(2) by (simp add: CT_InitInstance_def)
    moreover have "socks (ct_ReadSockets ?o) = {}" using rest by (simp add: at_rest_def Let_def)
    ultimately show ?thesis using no_conns [of ?o] at_rest_wf [OF rest] sel True by simp
  next
    case False
    from InitInstance_ok [OF rest, of E w] False assms(1,2) sel show ?thesis
      by (auto intro!: no_conns)
  qed
  then show "in_service E (fst s)" "port \<noteq> - 1 \<Longrightarrow> listens (fst s)" by simp_all
qed

lemma in_service_fds:
  assumes "in_service E o1"
  shows "distinct (fds_of (ct_objs o1) (ct_ReadSockets o1 @ [ct_pListenSocket o1]))"
proof -
  let ?ps = "ct_ReadSockets o1 @ [ct_pListenSocket o1]"
  have wf: "ct_wf o1" and l: "ct_pListenSocket o1 = 0 \<or> listens o1"
    using assms by (simp_all add: in_service_def server_ok_def)
  note w = ct_wfD [OF wf]
  have d: "distinct (filter (\<lambda>p. p \<noteq> 0) ps)" if "packed ps" for ps
    using that by (induction ps) (use packed_Cons in \<open>auto simp: socks_def\<close>)
  have entry: "\<exists>e. (e, p) \<in> set (table o1)" if "p \<in> set ?ps" "p \<noteq> 0" for p
  proof (cases "p = ct_pListenSocket o1")
    case True
    then show ?thesis using l that(2) by (auto simp: listens_def)
  next
    case False
    then have "p \<in> socks (ct_ReadSockets o1)" using that by (simp add: socks_def)
    then show ?thesis using wf_conn_entry [OF wf] by metis
  qed
  have inj: "inj_on entry_fd (set (table o1))" using table_wfD(4) [OF w(1)] by (simp add: distinct_map)
  have "inj_on (\<lambda>p. m_iSocket (the (ct_objs o1 p))) (set ?ps - {0})"
  proof (rule inj_onI)
    fix p q assume p: "p \<in> set ?ps - {0}" and q: "q \<in> set ?ps - {0}"
      and eq: "m_iSocket (the (ct_objs o1 p)) = m_iSocket (the (ct_objs o1 q))"
    obtain e e' where e: "(e, p) \<in> set (table o1)" "(e', q) \<in> set (table o1)" using entry p q by blast
    have "pfd e = m_iSocket (the (ct_objs o1 p))" "pfd e' = m_iSocket (the (ct_objs o1 q))"
      using table_entry [OF w(1) e(1)] table_entry [OF w(1) e(2)] by (metis option.sel)+
    then have "entry_fd (e, p) = entry_fd (e', q)" using eq by (simp add: entry_fd_def)
    then show "p = q" using inj_onD [OF inj _ e] by simp
  qed
  moreover have "distinct (filter (\<lambda>p. p \<noteq> 0) ?ps)" using d [OF w(4)] w(9) by (auto simp: socks_def)
  moreover have "set (filter (\<lambda>p. p \<noteq> 0) ?ps) = set ?ps - {0}" by auto
  ultimately show ?thesis by (simp only: fds_of_def distinct_map)
qed

end
