(* ===== verification/Thread_Complex.thy ===== *)
theory Thread_Complex
  imports Ci_Registry Linked_List
begin

text \<open>
  \<open>CCiThreadComplex\<close> (\<open>CiThreadComplex.h\<close>, \<open>CiThreadComplex.cpp\<close>): a thread that runs other threads in
  turn.  Its members are in a \<open>CLinkedListTemplate\<close>; a round of \<open>Run\<close> calls \<open>ThreadProc\<close> of each, and
  \<open>ExitInstance\<close> drives each to its end.  What a member has to be is the locale \<open>complex_members\<close>; a
  complex of such members is itself a thread that keeps the contract of \<open>Thread2\<close>, a \<open>sublocale\<close>.
\<close>

section \<open>The members\<close>

text \<open>
  The virtual functions of a member that a complex calls, and what they are for a class that overrides
  neither of them.
\<close>

record 'm member_vtbl =
  mv_EndThread :: "'m st \<Rightarrow> 'm st option"
  mv_ThreadProc :: "'m st \<Rightarrow> 'm st option"

definition thread_member :: "'b ci_thread2_scheme thread_vtbl \<Rightarrow> 'b ci_thread2_scheme member_vtbl" where
  "thread_member vt = \<lparr>mv_EndThread = (\<lambda>s. Some (EndThread (fst s), snd s)), mv_ThreadProc = ThreadProc vt\<rparr>"

text \<open>The loop of \<open>ExitInstance\<close> for one member; \<open>n\<close> is how often its guard is evaluated.\<close>

fun member_loop ::
  "nat \<Rightarrow> 'b ci_thread2_scheme member_vtbl \<Rightarrow> 'b ci_thread2_scheme st \<Rightarrow> 'b ci_thread2_scheme st option" where
  "member_loop 0 mt s = None"
| "member_loop (Suc n) mt s =
     (if IsThreadDone (fst s) then Some s
      else do { s1 \<leftarrow> mv_ThreadProc mt s; member_loop n mt s1 })"

lemma member_loop_thread: "member_loop n (thread_member vt) s = thread_loop n vt s"
  by (induction n arbitrary: s) (simp_all add: thread_member_def fun_eq_iff cong: Option.bind_cong)

section \<open>The class\<close>

text \<open>\<open>cx_mem\<close> and \<open>cx_threads\<close> stand for the memory: the nodes of the list and the thread objects.\<close>

record 'm ci_complex = ci_thread2_lock +
  cx_ciThreads :: linked_list
  cx_mem :: lmem
  cx_threads :: "addr \<Rightarrow> 'm option"

definition cx_list :: "('m, 'a) ci_complex_scheme \<Rightarrow> ll" where
  "cx_list o1 = (cx_ciThreads o1, cx_mem o1)"

definition set_list :: "ll \<Rightarrow> ('m, 'a) ci_complex_scheme \<Rightarrow> ('m, 'a) ci_complex_scheme" where
  "set_list l o1 = o1\<lparr>cx_ciThreads := fst l, cx_mem := snd l\<rparr>"

definition CCiThreadComplex :: "lmem \<Rightarrow> (addr \<Rightarrow> 'm option) \<Rightarrow> 'm ci_complex" where
  "CCiThreadComplex mem threads =
     ci_thread2_lock.extend CCiThread2_ci (ci_complex.fields (list_new 100) mem threads)"

text \<open>The destructor of the list deletes the members.\<close>

definition CCiThreadComplex_destroy ::
  "('m, 'a) ci_complex_scheme \<Rightarrow> ('m, 'a) ci_complex_scheme option" where
  "CCiThreadComplex_destroy o1 = do {
     m1 \<leftarrow> list_destroy (cx_list o1);
     Some (CCiThread2_destroy_ci (o1\<lparr>cx_mem := m1, cx_threads := cx_threads o1 |` objects m1\<rparr>)) }"

definition AddCiThread ::
  "bool \<Rightarrow> bool \<Rightarrow> addr \<Rightarrow> ('m, 'a) ci_complex_scheme \<Rightarrow> (bool \<times> ('m, 'a) ci_complex_scheme) option" where
  "AddCiThread locked unlocked p o1 =
     map_option (\<lambda>(r, l). (r, set_list l o1)) (SafeAddItem locked unlocked default_ids p (cx_list o1))"

definition DeleteCiThread ::
  "bool \<Rightarrow> bool \<Rightarrow> addr \<Rightarrow> ('m, 'a) ci_complex_scheme \<Rightarrow> (bool \<times> ('m, 'a) ci_complex_scheme) option" where
  "DeleteCiThread locked unlocked p o1 =
     map_option (\<lambda>(r, l). (r, set_list l o1)) (SafeDeleteItem locked unlocked default_ids p True (cx_list o1))"

definition GetNCiThreads :: "bool \<Rightarrow> bool \<Rightarrow> ('m, 'a) ci_complex_scheme \<Rightarrow> int option" where
  "GetNCiThreads locked unlocked o1 = map_option fst (SafeGetNItems locked unlocked (cx_list o1))"

definition GetRawNCiThreads :: "('m, 'a) ci_complex_scheme \<Rightarrow> int" where
  "GetRawNCiThreads o1 = GetNItems (cx_list o1)"

section \<open>Traversals\<close>

text \<open>
  The macro \<open>TRAVERSELIST\<close> around a body: the next position is read before the body runs, the one
  after it when it has run.  \<open>L\<close> is the list as a part of the state.
\<close>

partial_function (option) traverse_from ::
  "(addr \<Rightarrow> 's \<Rightarrow> 's option) \<Rightarrow> ('s \<Rightarrow> ll) \<Rightarrow> addr \<Rightarrow> addr \<Rightarrow> 's \<Rightarrow> 's option" where
  "traverse_from f L p next s =
     (if p = 0 then Some s
      else do {
        pCiThread \<leftarrow> GetCurrentItem p (L s);
        s1 \<leftarrow> f pCiThread s;
        next2 \<leftarrow> GotoNextPosition next (L s1);
        traverse_from f L next next2 s1 })"

definition TRAVERSELIST :: "(addr \<Rightarrow> 's \<Rightarrow> 's option) \<Rightarrow> ('s \<Rightarrow> ll) \<Rightarrow> 's \<Rightarrow> 's option" where
  "TRAVERSELIST f L s = do {
     (p, next) \<leftarrow> GetFirstPosition2 (L s);
     traverse_from f L p next s }"

definition member_at :: "addr \<Rightarrow> ('m, 'a) ci_complex_scheme \<Rightarrow> 'm option" where
  "member_at p o1 = (if p = 0 then None else cx_threads o1 p)"

lemma cx_frame [simp]:
  "member_at p (o1\<lparr>m_state := x\<rparr>) = member_at p o1" "cx_list (o1\<lparr>m_state := x\<rparr>) = cx_list o1"
  "member_at p (o1\<lparr>m_bExit := b\<rparr>) = member_at p o1" "cx_list (o1\<lparr>m_bExit := b\<rparr>) = cx_list o1"
  "member_at p (o1\<lparr>m_semExit := y\<rparr>) = member_at p o1" "cx_list (o1\<lparr>m_semExit := y\<rparr>) = cx_list o1"
  by (simp_all add: member_at_def cx_list_def)

text \<open>A call through the pointer to a member.\<close>

definition call_member ::
  "('m st \<Rightarrow> 'm st option) \<Rightarrow> addr \<Rightarrow> ('m, 'a) ci_complex_scheme st \<Rightarrow> ('m, 'a) ci_complex_scheme st option" where
  "call_member f p s = do {
     m \<leftarrow> member_at p (fst s);
     (m1, w1) \<leftarrow> f (m, snd s);
     Some ((fst s)\<lparr>cx_threads := (cx_threads (fst s))(p \<mapsto> m1)\<rparr>, w1) }"

definition GetRawNRunningThreads :: "('b ci_thread2_scheme, 'a) ci_complex_scheme \<Rightarrow> int option" where
  "GetRawNRunningThreads o1 =
     TRAVERSELIST (\<lambda>p iNRunningThreads. do {
         m \<leftarrow> member_at p o1;
         Some (if GetState m \<noteq> CI_THREAD2_INACTIVE then iNRunningThreads + 1 else iNRunningThreads) })
       (\<lambda>_. cx_list o1) 0"

text \<open>The bodies of \<open>Run\<close> and of \<open>ExitInstance\<close>; neither looks at what \<open>Lock\<close> returns.\<close>

definition run_member ::
  "(addr \<Rightarrow> 'b ci_thread2_scheme member_vtbl) \<Rightarrow> addr \<Rightarrow>
     ('b ci_thread2_scheme, 'a) ci_complex_scheme st \<Rightarrow> ('b ci_thread2_scheme, 'a) ci_complex_scheme st option" where
  "run_member mv p s = do {
     m \<leftarrow> member_at p (fst s);
     if GetState m \<noteq> CI_THREAD2_INACTIVE then call_member (mv_ThreadProc (mv p)) p s else Some s }"

definition CX_Run ::
  "(addr \<Rightarrow> 'b ci_thread2_scheme member_vtbl) \<Rightarrow> (('b ci_thread2_scheme, 'a) ci_complex_scheme, bool) meth" where
  "CX_Run mv s = map_option (\<lambda>t. (True, t)) (TRAVERSELIST (run_member mv) (\<lambda>t. cx_list (fst t)) s)"

definition end_member ::
  "nat \<Rightarrow> (addr \<Rightarrow> 'b ci_thread2_scheme member_vtbl) \<Rightarrow> addr \<Rightarrow>
     ('b ci_thread2_scheme, 'a) ci_complex_scheme st \<Rightarrow> ('b ci_thread2_scheme, 'a) ci_complex_scheme st option" where
  "end_member n mv p s = do {
     s1 \<leftarrow> call_member (mv_EndThread (mv p)) p s;
     call_member (member_loop n (mv p)) p s1 }"

definition CX_ExitInstance ::
  "nat \<Rightarrow> (addr \<Rightarrow> 'b ci_thread2_scheme member_vtbl) \<Rightarrow> (('b ci_thread2_scheme, 'a) ci_complex_scheme, bool) meth" where
  "CX_ExitInstance n mv s = map_option (\<lambda>t. (True, t)) (TRAVERSELIST (end_member n mv) (\<lambda>t. cx_list (fst t)) s)"

definition cx_vtbl ::
  "nat \<Rightarrow> (addr \<Rightarrow> 'b ci_thread2_scheme member_vtbl) \<Rightarrow> ('b ci_thread2_scheme, 'a) ci_complex_scheme thread_vtbl" where
  "cx_vtbl n mv =
     \<lparr>v_InitInstance = Thread2_InitInstance, v_Run = CX_Run mv, v_ExitInstance = CX_ExitInstance n mv\<rparr>"

section \<open>A traversal is a loop over the objects of the list\<close>

fun each :: "(addr \<Rightarrow> 's \<Rightarrow> 's option) \<Rightarrow> addr list \<Rightarrow> 's \<Rightarrow> 's option" where
  "each f [] s = Some s"
| "each f (p # ps) s = do { s1 \<leftarrow> f p s; each f ps s1 }"

lemma GotoNext_first:
  assumes "list_rep s (us @ vs) ys"
  shows "GotoNextPosition (first 0 vs) s = Some (first 0 (tl vs))"
proof (cases vs)
  case Nil
  then show ?thesis by (simp add: GotoNextPosition_def)
next
  case (Cons v ws)
  obtain o1 m where s: "s = (o1, m)" by fastforce
  show ?thesis using GotoNext_run [of o1 m us v ws ys] assms by (simp add: Cons s)
qed

lemma traverse_from_run:
  assumes L: "\<And>p s t. f p s = Some t \<Longrightarrow> L t = L s"
  shows "list_rep (L s) (us @ vs) ys \<Longrightarrow>
     traverse_from f L (first 0 vs) (first 0 (tl vs)) s = each f (map snd vs) s"
proof (induction vs arbitrary: us s)
  case Nil
  then show ?case by (simp add: traverse_from.simps)
next
  case (Cons v vs)
  obtain l where l: "nodes (snd (L s)) (fst v) = Some l" "m_pItem l = snd v" "fst v \<noteq> 0"
    using cell_node [OF Cons.prems, of v] by auto
  have item: "GetCurrentItem (fst v) (L s) = Some (snd v)" using l by (simp add: GetCurrentItem_def node_at_def)
  show ?case
  proof (cases "f (snd v) s")
    case None
    then show ?thesis using l(3) item by (simp add: traverse_from.simps [of _ _ "fst v"])
  next
    case (Some t)
    have r: "list_rep (L t) ((us @ [v]) @ vs) ys" using Cons.prems L [OF Some] by simp
    show ?thesis using l(3) item Some GotoNext_first [OF r] Cons.IH [OF r]
      by (simp add: traverse_from.simps [of _ _ "fst v"])
  qed
qed

lemma TRAVERSELIST_run:
  assumes "list_holds (L s) is" and "\<And>p s t. f p s = Some t \<Longrightarrow> L t = L s"
  shows "TRAVERSELIST f L s = each f is s"
proof -
  obtain xs ys where r: "list_rep (L s) xs ys" "is = map snd xs" using assms(1) by (auto simp: list_holds_def)
  obtain o1 m where s: "L s = (o1, m)" by fastforce
  show ?thesis
    using GetFirstPosition2_run [of o1 m xs ys] traverse_from_run [of f L s "[]" xs ys] assms(2) r
    by (simp add: TRAVERSELIST_def s)
qed

section \<open>The contract of the members\<close>

text \<open>
  \<open>ok p\<close> is what holds of the member \<open>p\<close> and of the world between two calls; a call for one member must not
  disturb the others.
\<close>

definition member_law ::
  "(addr \<Rightarrow> 'm st \<Rightarrow> bool) \<Rightarrow> addr \<Rightarrow> ('m st \<Rightarrow> 'm st option) \<Rightarrow> ('m \<Rightarrow> 'm \<Rightarrow> bool) \<Rightarrow> bool" where
  "member_law ok p f P \<longleftrightarrow>
     (\<forall>m w. ok p (m, w) \<longrightarrow>
        (\<exists>m1 w1. f (m, w) = Some (m1, w1) \<and> ok p (m1, w1) \<and> P m m1 \<and>
           (\<forall>q m2. q \<noteq> p \<longrightarrow> ok q (m2, w) \<longrightarrow> ok q (m2, w1))))"

lemma member_lawE:
  assumes "member_law ok p f P" "ok p (m, w)"
  obtains m1 w1 where "f (m, w) = Some (m1, w1)" "ok p (m1, w1)" "P m m1"
    "\<forall>q m2. q \<noteq> p \<longrightarrow> ok q (m2, w) \<longrightarrow> ok q (m2, w1)"
  using assms unfolding member_law_def by blast

definition members_ok ::
  "(addr \<Rightarrow> 'm st \<Rightarrow> bool) \<Rightarrow> addr list \<Rightarrow> ('m, 'a) ci_complex_scheme st \<Rightarrow> bool" where
  "members_ok ok is s \<longleftrightarrow> distinct is \<and> (\<forall>p\<in>set is. \<exists>m. member_at p (fst s) = Some m \<and> ok p (m, snd s))"

definition cx_inv :: "(addr \<Rightarrow> 'm st \<Rightarrow> bool) \<Rightarrow> ('m, 'a) ci_complex_scheme st \<Rightarrow> bool" where
  "cx_inv ok s \<longleftrightarrow> (\<exists>is. list_holds (cx_list (fst s)) is \<and> members_ok ok is s)"

text \<open>What a call of a member changes of the complex.\<close>

definition cx_same :: "('m, 'a) ci_complex_scheme \<Rightarrow> ('m, 'a) ci_complex_scheme \<Rightarrow> bool" where
  "cx_same o1 o2 \<longleftrightarrow> o2 = o1\<lparr>cx_threads := cx_threads o2\<rparr>"

lemma cx_same_refl [simp]: "cx_same o1 o1"
  by (simp add: cx_same_def)

lemma cx_same_sel:
  assumes "cx_same o1 o2"
  shows "cx_list o2 = cx_list o1" "m_bExit o2 = m_bExit o1" "m_state o2 = m_state o1" "thread_frame o1 o2"
proof -
  note e = assms [unfolded cx_same_def]
  show "cx_list o2 = cx_list o1" by (subst e) (simp add: cx_list_def)
  show "m_bExit o2 = m_bExit o1" by (subst e) simp
  show "m_state o2 = m_state o1" by (subst e) simp
  show "thread_frame o1 o2" by (subst e) (simp add: thread_frame_def)
qed

lemma cx_same_trans:
  assumes "cx_same o1 o2" "cx_same o2 o3" shows "cx_same o1 o3"
proof -
  obtain t u where "o2 = o1\<lparr>cx_threads := t\<rparr>" "o3 = o2\<lparr>cx_threads := u\<rparr>" using assms unfolding cx_same_def by metis
  then show ?thesis by (simp add: cx_same_def)
qed

lemma call_member_same: "call_member f p (o1, w) = Some (o2, w2) \<Longrightarrow> cx_same o1 o2"
  by (auto simp: call_member_def cx_same_def split: bind_splits)

lemma body_same:
  "run_member mv p (o1, w) = Some (o2, w2) \<Longrightarrow> cx_same o1 o2"
  "end_member n mv p (o1, w) = Some (o2, w2) \<Longrightarrow> cx_same o1 o2"
proof -
  show "run_member mv p (o1, w) = Some (o2, w2) \<Longrightarrow> cx_same o1 o2"
    by (auto simp: run_member_def call_member_same split: bind_splits if_splits)
  assume "end_member n mv p (o1, w) = Some (o2, w2)"
  then obtain o3 w3 where "call_member (mv_EndThread (mv p)) p (o1, w) = Some (o3, w3)"
    "call_member (member_loop n (mv p)) p (o3, w3) = Some (o2, w2)"
    by (auto simp: end_member_def split: bind_splits)
  then show "cx_same o1 o2" using cx_same_trans call_member_same by metis
qed

text \<open>The two traversals of a complex are loops over its members.\<close>

lemma traversals_run:
  assumes "list_holds (cx_list (fst s)) is"
  shows "CX_Run mv s = map_option (\<lambda>t. (True, t)) (each (run_member mv) is s)"
    "CX_ExitInstance n mv s = map_option (\<lambda>t. (True, t)) (each (end_member n mv) is s)"
proof -
  have L: "run_member mv p s = Some t \<Longrightarrow> cx_list (fst t) = cx_list (fst s)"
    "end_member n mv p s = Some t \<Longrightarrow> cx_list (fst t) = cx_list (fst s)" for p s t
    using body_same cx_same_sel(1) by (metis prod.collapse)+
  show "CX_Run mv s = map_option (\<lambda>t. (True, t)) (each (run_member mv) is s)"
    unfolding CX_Run_def by (subst TRAVERSELIST_run [of "\<lambda>t. cx_list (fst t)" s "is", OF assms L(1)]) simp_all
  show "CX_ExitInstance n mv s = map_option (\<lambda>t. (True, t)) (each (end_member n mv) is s)"
    unfolding CX_ExitInstance_def by (subst TRAVERSELIST_run [of "\<lambda>t. cx_list (fst t)" s "is", OF assms L(2)]) simp_all
qed

text \<open>Bodies that keep what holds of the members, and what they reach for each.\<close>

lemma call_member_ok:
  assumes "member_law ok p f P" "members_ok ok is (o1, w)" "p \<in> set is"
  shows "\<exists>m m1 o2 w2. call_member f p (o1, w) = Some (o2, w2) \<and> members_ok ok is (o2, w2) \<and>
    member_at p o1 = Some m \<and> P m m1 \<and> o2 = o1\<lparr>cx_threads := (cx_threads o1)(p \<mapsto> m1)\<rparr>"
proof -
  obtain m where m: "member_at p o1 = Some m" "ok p (m, w)" using assms(2,3) by (auto simp: members_ok_def)
  from member_lawE [OF assms(1) m(2)] obtain m1 w1 where 1: "f (m, w) = Some (m1, w1)" "ok p (m1, w1)" "P m m1"
    and others: "\<forall>q m2. q \<noteq> p \<longrightarrow> ok q (m2, w) \<longrightarrow> ok q (m2, w1)" .
  let ?o = "o1\<lparr>cx_threads := (cx_threads o1)(p \<mapsto> m1)\<rparr>"
  have "\<exists>m. member_at q ?o = Some m \<and> ok q (m, w1)" if "q \<in> set is" for q
  proof (cases "q = p")
    case True
    then show ?thesis using 1(2) m(1) by (auto simp: member_at_def split: if_splits)
  next
    case False
    obtain m2 where "member_at q o1 = Some m2" "ok q (m2, w)" using assms(2) \<open>q \<in> set is\<close> by (auto simp: members_ok_def)
    then have "member_at q ?o = Some m2" "ok q (m2, w1)" using others False by (auto simp: member_at_def split: if_splits)
    then show ?thesis by blast
  qed
  then have "members_ok ok is (?o, w1)" using assms(2) by (simp add: members_ok_def)
  moreover have "call_member f p (o1, w) = Some (?o, w1)" using m(1) 1(1) by (simp add: call_member_def)
  ultimately show ?thesis using m(1) 1(3) by blast
qed

definition each_law ::
  "(addr \<Rightarrow> 'm st \<Rightarrow> bool) \<Rightarrow> addr list \<Rightarrow> ('m \<Rightarrow> bool) \<Rightarrow>
     (addr \<Rightarrow> ('m, 'a) ci_complex_scheme st \<Rightarrow> ('m, 'a) ci_complex_scheme st option) \<Rightarrow> bool" where
  "each_law ok is G f \<longleftrightarrow>
     (\<forall>p\<in>set is. \<forall>o1 w. members_ok ok is (o1, w) \<longrightarrow>
        (\<exists>o2 w2. f p (o1, w) = Some (o2, w2) \<and> members_ok ok is (o2, w2) \<and> cx_same o1 o2 \<and>
           (\<forall>m. member_at p o2 = Some m \<longrightarrow> G m) \<and> (\<forall>q. q \<noteq> p \<longrightarrow> member_at q o2 = member_at q o1)))"

lemma each_run:
  assumes "each_law ok is G f" "members_ok ok is (o1, w)" "set ps \<subseteq> set is" "distinct ps"
  shows "\<exists>o2 w2. each f ps (o1, w) = Some (o2, w2) \<and> members_ok ok is (o2, w2) \<and> cx_same o1 o2 \<and>
    (\<forall>p\<in>set ps. \<forall>m. member_at p o2 = Some m \<longrightarrow> G m) \<and> (\<forall>q. q \<notin> set ps \<longrightarrow> member_at q o2 = member_at q o1)"
  using assms(2-4)
proof (induction ps arbitrary: o1 w)
  case Nil
  then show ?case by simp
next
  case (Cons p ps)
  have "p \<in> set is" using Cons.prems(2) by simp
  with assms(1) Cons.prems(1) obtain o2 w2 where 2: "f p (o1, w) = Some (o2, w2)" "members_ok ok is (o2, w2)"
    "cx_same o1 o2" "\<forall>m. member_at p o2 = Some m \<longrightarrow> G m" "\<forall>q. q \<noteq> p \<longrightarrow> member_at q o2 = member_at q o1"
    unfolding each_law_def by metis
  from Cons.IH [OF 2(2)] Cons.prems obtain o3 w3 where 3: "each f ps (o2, w2) = Some (o3, w3)"
    "members_ok ok is (o3, w3)" "cx_same o2 o3" "\<forall>p\<in>set ps. \<forall>m. member_at p o3 = Some m \<longrightarrow> G m"
    "\<forall>q. q \<notin> set ps \<longrightarrow> member_at q o3 = member_at q o2" by auto
  have "\<forall>q\<in>set (p # ps). \<forall>m. member_at q o3 = Some m \<longrightarrow> G m"
    using 2(4) 3(4,5) Cons.prems(3) by auto
  moreover have "\<forall>q. q \<notin> set (p # ps) \<longrightarrow> member_at q o3 = member_at q o1" using 2(5) 3(5) by simp
  moreover have "each f (p # ps) (o1, w) = Some (o3, w3)" using 2(1) 3(1) by simp
  ultimately show ?case using 3(2) cx_same_trans [OF 2(3) 3(3)] by blast
qed

locale complex_members =
  fixes mv :: "addr \<Rightarrow> 'b ci_thread2_scheme member_vtbl"
    and ok :: "addr \<Rightarrow> 'b ci_thread2_scheme st \<Rightarrow> bool"
    and ending :: "'b ci_thread2_scheme \<Rightarrow> bool"
    and left :: "'b ci_thread2_scheme \<Rightarrow> nat"
    and bound :: nat
  assumes proc_law: "member_law ok p (mv_ThreadProc (mv p))
      (\<lambda>m m1. ending m \<longrightarrow> ending m1 \<and> (IsThreadDone m \<or> IsThreadDone m1 \<or> left m1 < left m))"
    and end_law: "member_law ok p (mv_EndThread (mv p)) (\<lambda>m m1. ending m1 \<and> left m1 < bound)"
    and events_law: "ok p (m, w) \<Longrightarrow> ok p (m, w\<lparr>sem_events := x\<rparr>)"
begin

text \<open>A member that is to end does so within its bound.\<close>

lemma member_loop_law:
  assumes "ok p (m, w)" "ending m" "left m < n"
  shows "\<exists>m1 w1. member_loop (Suc n) (mv p) (m, w) = Some (m1, w1) \<and> ok p (m1, w1) \<and> IsThreadDone m1 \<and>
    (\<forall>q m2. q \<noteq> p \<longrightarrow> ok q (m2, w) \<longrightarrow> ok q (m2, w1))"
  using assms
proof (induction n arbitrary: m w)
  case 0
  then show ?case by simp
next
  case (Suc n)
  show ?case
  proof (cases "IsThreadDone m")
    case True
    then show ?thesis using Suc.prems(1) by simp
  next
    case False
    from member_lawE [OF proc_law Suc.prems(1)] obtain m1 w1 where 1: "mv_ThreadProc (mv p) (m, w) = Some (m1, w1)"
      "ok p (m1, w1)" "ending m \<longrightarrow> ending m1 \<and> (IsThreadDone m \<or> IsThreadDone m1 \<or> left m1 < left m)"
      and others: "\<forall>q m2. q \<noteq> p \<longrightarrow> ok q (m2, w) \<longrightarrow> ok q (m2, w1)" .
    show ?thesis
    proof (cases "IsThreadDone m1")
      case True
      then show ?thesis using 1 others False by auto
    next
      case nd: False
      then have "ending m1" "left m1 < n" using 1(3) Suc.prems(2,3) False by auto
      from Suc.IH [OF 1(2) this] obtain m2 w2 where "member_loop (Suc n) (mv p) (m1, w1) = Some (m2, w2)"
        "ok p (m2, w2)" "IsThreadDone m2" "\<forall>q m2. q \<noteq> p \<longrightarrow> ok q (m2, w1) \<longrightarrow> ok q (m2, w2)" by blast
      then show ?thesis using 1(1) others False by (simp del: member_loop.simps(2) add: member_loop.simps(2) [of "Suc n"])
    qed
  qed
qed

lemma run_law: "each_law ok is (\<lambda>m. True) (run_member mv)"
  unfolding each_law_def
proof (intro ballI allI impI)
  fix p and o1 :: "('b ci_thread2_scheme, 'c) ci_complex_scheme" and w
  assume p: "p \<in> set is" "members_ok ok is (o1, w)"
  from call_member_ok [OF proc_law p(2,1)] obtain m m1 o2 w2 where c: "call_member (mv_ThreadProc (mv p)) p (o1, w) = Some (o2, w2)"
    "members_ok ok is (o2, w2)" "member_at p o1 = Some m" "o2 = o1\<lparr>cx_threads := (cx_threads o1)(p \<mapsto> m1)\<rparr>" by blast
  have "cx_same o1 o2" "\<forall>q. q \<noteq> p \<longrightarrow> member_at q o2 = member_at q o1"
    using call_member_same [OF c(1)] c(4) by (simp_all add: member_at_def)
  then show "\<exists>o2 w2. run_member mv p (o1, w) = Some (o2, w2) \<and> members_ok ok is (o2, w2) \<and> cx_same o1 o2 \<and>
      (\<forall>m. member_at p o2 = Some m \<longrightarrow> True) \<and> (\<forall>q. q \<noteq> p \<longrightarrow> member_at q o2 = member_at q o1)"
    using c(1-3) p(2) by (cases "GetState m = CI_THREAD2_INACTIVE") (simp_all add: run_member_def)
qed

lemma end_member_law:
  assumes "bound < n"
  shows "each_law ok is IsThreadDone (end_member n mv)"
  unfolding each_law_def
proof (intro ballI allI impI)
  fix p and o1 :: "('b ci_thread2_scheme, 'c) ci_complex_scheme" and w
  assume p: "p \<in> set is" "members_ok ok is (o1, w)"
  from call_member_ok [OF end_law p(2,1)] obtain m m1 o2 w2 where c: "call_member (mv_EndThread (mv p)) p (o1, w) = Some (o2, w2)"
    "members_ok ok is (o2, w2)" "ending m1" "left m1 < bound" "member_at p o1 = Some m"
    "o2 = o1\<lparr>cx_threads := (cx_threads o1)(p \<mapsto> m1)\<rparr>" by blast
  obtain k where k: "n = Suc k" "bound \<le> k" using assms by (cases n) auto
  have law: "member_law (\<lambda>q s. ok q s \<and> (q = p \<longrightarrow> fst s = m1 \<or> IsThreadDone (fst s))) p (member_loop n (mv p)) (\<lambda>m m1. IsThreadDone m1)"
    unfolding member_law_def
  proof (intro allI impI)
    fix m' w' assume "ok p (m', w') \<and> (p = p \<longrightarrow> fst (m', w') = m1 \<or> IsThreadDone (fst (m', w')))"
    then have a: "ok p (m', w')" "m' = m1 \<or> IsThreadDone m'" by simp_all
    show "\<exists>m2 w2. member_loop n (mv p) (m', w') = Some (m2, w2) \<and>
        (ok p (m2, w2) \<and> (p = p \<longrightarrow> fst (m2, w2) = m1 \<or> IsThreadDone (fst (m2, w2)))) \<and> IsThreadDone m2 \<and>
        (\<forall>q m3. q \<noteq> p \<longrightarrow> ok q (m3, w') \<and> (q = p \<longrightarrow> fst (m3, w') = m1 \<or> IsThreadDone (fst (m3, w'))) \<longrightarrow>
           ok q (m3, w2) \<and> (q = p \<longrightarrow> fst (m3, w2) = m1 \<or> IsThreadDone (fst (m3, w2))))"
    proof (cases "IsThreadDone m'")
      case True
      then show ?thesis using a(1) k(1) by simp
    next
      case False
      then have "m' = m1" using a(2) by blast
      then show ?thesis using member_loop_law [of p m1 w' k] a(1) c(3,4) k by auto
    qed
  qed
  have "members_ok (\<lambda>q s. ok q s \<and> (q = p \<longrightarrow> fst s = m1 \<or> IsThreadDone (fst s))) is (o2, w2)"
    using c(2,5,6) by (auto simp: members_ok_def member_at_def split: if_splits)
  from call_member_ok [OF law this p(1)] obtain m2 m3 o3 w3 where d: "call_member (member_loop n (mv p)) p (o2, w2) = Some (o3, w3)"
    "members_ok (\<lambda>q s. ok q s \<and> (q = p \<longrightarrow> fst s = m1 \<or> IsThreadDone (fst s))) is (o3, w3)"
    "IsThreadDone m3" "o3 = o2\<lparr>cx_threads := (cx_threads o2)(p \<mapsto> m3)\<rparr>" by blast
  have "members_ok ok is (o3, w3)" using d(2) by (auto simp: members_ok_def)
  moreover have "end_member n mv p (o1, w) = Some (o3, w3)" using c(1) d(1) by (simp add: end_member_def)
  moreover have "cx_same o1 o3" using cx_same_trans [OF call_member_same [OF c(1)] call_member_same [OF d(1)]] .
  moreover have "\<forall>m. member_at p o3 = Some m \<longrightarrow> IsThreadDone m"
    using d(3,4) by (simp add: member_at_def)
  moreover have "\<forall>q. q \<noteq> p \<longrightarrow> member_at q o3 = member_at q o1" using c(6) d(4) by (simp add: member_at_def)
  ultimately show "\<exists>o2 w2. end_member n mv p (o1, w) = Some (o2, w2) \<and> members_ok ok is (o2, w2) \<and> cx_same o1 o2 \<and>
      (\<forall>m. member_at p o2 = Some m \<longrightarrow> IsThreadDone m) \<and> (\<forall>q. q \<noteq> p \<longrightarrow> member_at q o2 = member_at q o1)"
    by blast
qed

text \<open>What a round, and the clean-up, do.\<close>

lemma Run_ok:
  assumes "list_holds (cx_list o1) is" "members_ok ok is (o1, w)"
  shows "\<exists>o2 w2. CX_Run mv (o1, w) = Some (True, o2, w2) \<and> members_ok ok is (o2, w2) \<and> cx_same o1 o2"
proof -
  have "distinct is" using assms(2) by (simp add: members_ok_def)
  from each_run [OF run_law assms(2) order_refl this] obtain o2 w2 where
    "each (run_member mv) is (o1, w) = Some (o2, w2)" "members_ok ok is (o2, w2)" "cx_same o1 o2" by blast
  then show ?thesis using traversals_run(1) [of "(o1, w)" "is" mv] assms(1) by simp
qed

lemma ExitInstance_ends:
  assumes "list_holds (cx_list o1) is" "members_ok ok is (o1, w)" "bound < n"
  shows "\<exists>o2 w2. CX_ExitInstance n mv (o1, w) = Some (True, o2, w2) \<and> members_ok ok is (o2, w2) \<and> cx_same o1 o2 \<and>
    (\<forall>p\<in>set is. \<exists>m. member_at p o2 = Some m \<and> ok p (m, w2) \<and> IsThreadDone m)"
proof -
  have "distinct is" using assms(2) by (simp add: members_ok_def)
  from each_run [OF end_member_law [OF assms(3)] assms(2) order_refl this] obtain o2 w2 where 2:
    "each (end_member n mv) is (o1, w) = Some (o2, w2)" "members_ok ok is (o2, w2)" "cx_same o1 o2"
    "\<forall>p\<in>set is. \<forall>m. member_at p o2 = Some m \<longrightarrow> IsThreadDone m" by blast
  have "\<forall>p\<in>set is. \<exists>m. member_at p o2 = Some m \<and> ok p (m, w2) \<and> IsThreadDone m"
    using 2(2,4) by (fastforce simp: members_ok_def)
  then show ?thesis using 2(1-3) traversals_run(2) [of "(o1, w)" "is" n mv] assms(1) by simp
qed

text \<open>Asked to end, a complex that was started is done after one call, and so is every member.\<close>

lemma complex_ends:
  fixes o1 :: "('b ci_thread2_scheme, 'c) ci_complex_scheme"
  assumes "list_holds (cx_list o1) is" "members_ok ok is (o1, w)" "bound < n"
    and "m_state o1 \<in> {CI_THREAD2_READY, CI_THREAD2_DONE_INITINSTANCE}"
  shows "\<exists>o2 w2. thread_loop 2 (cx_vtbl n mv) (EndThread o1, w) = Some (o2, w2) \<and> m_state o2 = CI_THREAD2_DONE \<and>
    (\<forall>p\<in>set is. \<exists>m. member_at p o2 = Some m \<and> ok p (m, w2) \<and> IsThreadDone m)"
proof -
  let ?o = "o1\<lparr>m_bExit := True, m_state := CI_THREAD2_DONE_RUN\<rparr>"
  have "list_holds (cx_list ?o) is" "members_ok ok is (?o, w)"
    using assms(1,2) by (simp_all add: members_ok_def)
  from ExitInstance_ends [OF this assms(3)] obtain o2 w2 where 2: "CX_ExitInstance n mv (?o, w) = Some (True, o2, w2)"
    "cx_same ?o o2" "\<forall>p\<in>set is. \<exists>m. member_at p o2 = Some m \<and> ok p (m, w2) \<and> IsThreadDone m" by blast
  have st: "m_state o2 = CI_THREAD2_DONE_RUN" using cx_same_sel(3) [OF 2(2)] by simp
  have "ThreadProc (cx_vtbl n mv) (EndThread o1, w) = Some (o2\<lparr>m_state := CI_THREAD2_DONE\<rparr>, w2)"
    using assms(4) 2(1) st
    by (auto simp: ThreadProc_def EndThread_def cx_vtbl_def Thread2_InitInstance_def thread_proc_run_def
        thread_proc_exit_def thread_proc_finish_def)
  moreover have "\<not> IsThreadDone (EndThread o1)" using assms(4) by (auto simp: IsThreadDone_def EndThread_def)
  ultimately have "thread_loop 2 (cx_vtbl n mv) (EndThread o1, w) = Some (o2\<lparr>m_state := CI_THREAD2_DONE\<rparr>, w2)"
    by (simp add: numeral_2_eq_2 IsThreadDone_def)
  then show ?thesis using 2(3) by (intro exI [of _ "o2\<lparr>m_state := CI_THREAD2_DONE\<rparr>"] exI [of _ w2]) simp
qed

end

text \<open>A complex is a thread like another: a \<open>ThreadProc\<close> of it always returns, and so on.\<close>

locale ending_complex = complex_members mv ok ending left bound
    for mv :: "addr \<Rightarrow> 'b ci_thread2_scheme member_vtbl" and ok ending left bound +
  fixes n :: nat
  assumes fuel: "bound < n"

sublocale ending_complex \<subseteq> thread: thread_hooks "cx_vtbl n mv :: ('b ci_thread2_scheme, 'c) ci_complex_scheme thread_vtbl"
    "cx_inv ok"
proof
  let ?vt = "cx_vtbl n mv :: ('b ci_thread2_scheme, 'c) ci_complex_scheme thread_vtbl"
  show "hook_law (cx_inv ok) (v_InitInstance ?vt)"
    by (rule hook_lawI) (auto simp: cx_vtbl_def Thread2_InitInstance_def)
  show "hook_law (cx_inv ok) (v_Run ?vt)"
  proof (rule hook_lawI)
    fix o1 :: "('b ci_thread2_scheme, 'c) ci_complex_scheme" and w
    assume "cx_inv ok (o1, w)"
    then obtain xs where i: "list_holds (cx_list o1) xs" "members_ok ok xs (o1, w)" by (auto simp: cx_inv_def)
    from Run_ok [OF this] obtain o2 w2 where "CX_Run mv (o1, w) = Some (True, o2, w2)" "members_ok ok xs (o2, w2)"
      "cx_same o1 o2" by blast
    then show "\<exists>r o2 w2. v_Run (cx_vtbl n mv) (o1, w) = Some (r, o2, w2) \<and> cx_inv ok (o2, w2) \<and> thread_frame o1 o2"
      using i(1) cx_same_sel [of o1 o2] by (auto simp: cx_vtbl_def cx_inv_def)
  qed
  show "hook_law (cx_inv ok) (v_ExitInstance ?vt)"
  proof (rule hook_lawI)
    fix o1 :: "('b ci_thread2_scheme, 'c) ci_complex_scheme" and w
    assume "cx_inv ok (o1, w)"
    then obtain xs where i: "list_holds (cx_list o1) xs" "members_ok ok xs (o1, w)" by (auto simp: cx_inv_def)
    from ExitInstance_ends [OF this fuel] obtain o2 w2 where "CX_ExitInstance n mv (o1, w) = Some (True, o2, w2)"
      "members_ok ok xs (o2, w2)" "cx_same o1 o2" by blast
    then show "\<exists>r o2 w2. v_ExitInstance (cx_vtbl n mv) (o1, w) = Some (r, o2, w2) \<and> cx_inv ok (o2, w2) \<and> thread_frame o1 o2"
      using i(1) cx_same_sel [of o1 o2] by (auto simp: cx_vtbl_def cx_inv_def)
  qed
  fix o1 :: "('b ci_thread2_scheme, 'c) ci_complex_scheme" and w x b and y :: "sem" and z
  assume "cx_inv ok (o1, w)"
  then obtain xs where i: "list_holds (cx_list o1) xs" "members_ok ok xs (o1, w)" by (auto simp: cx_inv_def)
  show "cx_inv ok (o1\<lparr>m_state := x\<rparr>, w)" "cx_inv ok (o1\<lparr>m_bExit := b\<rparr>, w)" "cx_inv ok (o1\<lparr>m_semExit := y\<rparr>, w)"
    using i by (auto simp: cx_inv_def members_ok_def)
  show "cx_inv ok (o1, w\<lparr>sem_events := z\<rparr>)"
    using i events_law by (fastforce simp: cx_inv_def members_ok_def)
qed

end
