(* ===== verification/Complex_Server.thy ===== *)
theory Complex_Server
  imports Thread_Complex Ci_Net_Life
begin

text \<open>
  The network threads of CiUtils as members of a complex: a \<open>CNetworkThread\<close> on a host where nobody
  connects, like one that serves connections it was handed over, keeps the contract of a member in
  every state of its life.  So a complex of such threads runs, and ends with all their sockets closed.
\<close>

section \<open>A network thread through its life\<close>

text \<open>No call of \<open>accept\<close> gives a connection, and \<open>poll\<close> reports of a listen socket what is right.\<close>

definition no_clients :: "net_env \<Rightarrow> bool" where
  "no_clients E \<longleftrightarrow> (\<forall>t. n_accept (ne_calls E) t = None) \<and>
     (\<forall>t r fd. k_poll (ne_kernel E) t = PollReady r \<longrightarrow> listen_reports (r fd))"

lemma no_clients_round: "no_clients E \<Longrightarrow> round_ok E s"
  by (auto simp: no_clients_def round_ok_def accept_ok_def split: poll_res.split)

text \<open>What holds of the thread, by its state.\<close>

definition server_member :: "net_env \<Rightarrow> 'a ci_net_thread_scheme \<Rightarrow> bool" where
  "server_member E o1 \<longleftrightarrow>
     (case m_state o1 of
        CI_THREAD2_READY \<Rightarrow>
          (if ct_iListenPortNumber o1 = NU_INVALID_PORT_NUMBER then in_service E o1
           else at_rest o1 \<and> 0 < ct_iMaxFDSize o1 \<and>
             granted E (ct_iConnectedSocketSendBufferSize o1) (ct_iConnectedSocketRecvBufferSize o1))
      | CI_THREAD2_DONE \<Rightarrow> at_rest o1
      | CI_THREAD2_DONE_ERROR \<Rightarrow> at_rest o1
      | CI_THREAD2_DONE_EXITINSTANCE \<Rightarrow> at_rest o1
      | CI_THREAD2_DONE_EXITINSTANCE_ERROR \<Rightarrow> at_rest o1
      | _ \<Rightarrow> in_service E o1)"

lemma in_service_upd [simp]:
  "in_service E (o1\<lparr>m_state := x\<rparr>) = in_service E o1" "in_service E (o1\<lparr>m_bExit := b\<rparr>) = in_service E o1"
  "at_rest (o1\<lparr>m_state := x\<rparr>) = at_rest o1" "at_rest (o1\<lparr>m_bExit := b\<rparr>) = at_rest o1"
  by (simp_all add: in_service_def server_ok_def conns_ok_def listens_def at_rest_def)

lemma at_rest_in_service:
  assumes "at_rest o1" "granted E (ct_iConnectedSocketSendBufferSize o1) (ct_iConnectedSocketRecvBufferSize o1)"
  shows "in_service E o1"
proof -
  have "socks (ct_ReadSockets o1) = {}" "ct_pListenSocket o1 = 0" using assms(1) by (simp_all add: at_rest_def Let_def)
  then show ?thesis using assms at_rest_wf [OF assms(1)] by (simp add: in_service_def server_ok_def conns_ok_def)
qed

lemma InitInstance_keeps_exit:
  "CT_InitInstance E (o1, w) = Some (ok, o2, w2) \<Longrightarrow> m_bExit o2 = m_bExit o1"
  by (auto simp: CT_InitInstance_def new_socket_def obj_new_def PollFDAdd_ci_def Let_def
      split: bind_splits if_splits prod.splits option.splits)

lemma InitInstance_member:
  assumes "server_member E o1" "m_state o1 = CI_THREAD2_READY"
  shows "\<exists>r o2 w2. CT_InitInstance E (o1, w) = Some (r, o2, w2) \<and> in_service E o2 \<and> m_bExit o2 = m_bExit o1"
proof (cases "ct_iListenPortNumber o1 = NU_INVALID_PORT_NUMBER")
  case True
  then show ?thesis using assms by (simp add: server_member_def CT_InitInstance_def)
next
  case False
  then have o1: "at_rest o1" "0 < ct_iMaxFDSize o1"
    "granted E (ct_iConnectedSocketSendBufferSize o1) (ct_iConnectedSocketRecvBufferSize o1)"
    using assms by (simp_all add: server_member_def)
  from InitInstance_ok [OF o1(1,2) False, of E w] obtain r o2 w2 where
    i: "CT_InitInstance E (o1, w) = Some (r, o2, w2)" and
    s: "ct_iConnectedSocketSendBufferSize o2 = ct_iConnectedSocketSendBufferSize o1"
      "ct_iConnectedSocketRecvBufferSize o2 = ct_iConnectedSocketRecvBufferSize o1" and
    o2: "if r then ct_wf o2 \<and> listens o2 \<and> socks (ct_ReadSockets o2) = {} else at_rest o2"
    by (elim exE conjE) (auto split: if_splits)
  have "in_service E o2"
  proof (cases r)
    case True
    then show ?thesis using o2 s o1(3) by (simp add: in_service_def server_ok_def conns_ok_def)
  next
    case False
    then show ?thesis using o2 s o1(3) by (intro at_rest_in_service) simp_all
  qed
  then show ?thesis using i InitInstance_keeps_exit [OF i] by blast
qed

lemma exit_member:
  assumes "in_service E o1"
  shows "\<exists>o2 w2. thread_proc_exit (ct_thread_vtbl E vt) (o1, w) = Some (o2, w2) \<and> server_member E o2 \<and> IsThreadDone o2"
proof -
  have "ct_wf o1" "ct_pListenSocket o1 = 0 \<or> listens o1" using assms by (simp_all add: in_service_def server_ok_def)
  from ExitInstance_ok [OF this, of "ne_kernel E" w] obtain o2 w2 where
    "CT_ExitInstance (ne_kernel E) (o1, w) = Some (True, o2, w2)" "at_rest o2" by blast
  then show ?thesis
    by (simp add: thread_proc_exit_def thread_proc_finish_def ct_thread_vtbl_def server_member_def IsThreadDone_def)
qed

lemma run_member_server:
  assumes "in_service E o1" "m_state o1 = CI_THREAD2_DONE_INITINSTANCE" "no_clients E" "reads_frames E om"
  shows "\<exists>o2 w2. thread_proc_run (ct_thread_vtbl E (message_vtbl E om)) (o1, w) = Some (o2, w2) \<and> server_member E o2 \<and>
    (m_bExit o1 \<longrightarrow> IsThreadDone o2)"
proof (cases "m_bExit o1")
  case True
  then show ?thesis using exit_member [of E "o1\<lparr>m_state := CI_THREAD2_DONE_RUN\<rparr>" "message_vtbl E om" w] assms(1)
    by (auto simp: thread_proc_run_def)
next
  case False
  have "\<exists>o2 w2. CT_Run E (message_vtbl E om) (o1, w) = Some (True, o2, w2) \<and>
      server_ok (idle_conn E) o2 \<and> same_server o1 o2"
    using conn_hooks.Run_ok [OF frame_hooks [OF assms(4)], of o1 w] assms(1) no_clients_round [OF assms(3), of "(o1, w)"]
    by (simp add: in_service_def)
  then obtain o2 w2 where o2: "CT_Run E (message_vtbl E om) (o1, w) = Some (True, o2, w2)" "in_service E o2" "same_server o1 o2"
    using in_service_same [OF assms(1)] by blast
  have "server_member E o2" using o2(2,3) assms(2) by (simp add: server_member_def same_server_def)
  then show ?thesis using o2(1) False by (simp add: thread_proc_run_def ct_thread_vtbl_def)
qed

text \<open>One call of \<open>ThreadProc\<close>, in any state.\<close>

lemma server_proc:
  fixes o1 :: "'a ci_net_thread_scheme"
  assumes ok: "server_member E o1" and env: "no_clients E" "reads_frames E om"
  defines "vt \<equiv> ct_thread_vtbl E (message_vtbl E om)"
  shows "\<exists>o2 w2. ThreadProc vt (o1, w) = Some (o2, w2) \<and> server_member E o2 \<and>
    (m_bExit o1 \<or> IsThreadDone o1 \<longrightarrow>
       IsThreadDone o2 \<or> m_bExit o2 \<and> m_state o1 = CI_THREAD2_READY \<and> m_state o2 \<noteq> CI_THREAD2_READY)"
proof (cases "m_state o1")
  case CI_THREAD2_READY
  from InitInstance_member [OF ok this, of w] obtain r o2 w2 where
    i: "CT_InitInstance E (o1, w) = Some (r, o2, w2)" "in_service E o2" "m_bExit o2 = m_bExit o1" by blast
  show ?thesis
  proof (cases r)
    case True
    have "ThreadProc vt (o1, w) = thread_proc_run vt (o2\<lparr>m_state := CI_THREAD2_DONE_INITINSTANCE\<rparr>, w2)"
      using CI_THREAD2_READY i(1) True by (simp add: ThreadProc_def vt_def ct_thread_vtbl_def)
    then show ?thesis
      using run_member_server [of E "o2\<lparr>m_state := CI_THREAD2_DONE_INITINSTANCE\<rparr>" om w2] i(2,3) env CI_THREAD2_READY
      by (auto simp: vt_def IsThreadDone_def)
  next
    case False
    then have "ThreadProc vt (o1, w) = Some (o2\<lparr>m_state := CI_THREAD2_ERROR\<rparr>, w2)"
      using CI_THREAD2_READY i(1) by (simp add: ThreadProc_def vt_def ct_thread_vtbl_def)
    then show ?thesis using i(2,3) CI_THREAD2_READY by (simp add: server_member_def IsThreadDone_def)
  qed
next
  case CI_THREAD2_DONE_INITINSTANCE
  then have "in_service E o1" using ok by (simp add: server_member_def)
  from run_member_server [OF this CI_THREAD2_DONE_INITINSTANCE env, of w] show ?thesis
    using CI_THREAD2_DONE_INITINSTANCE by (auto simp: ThreadProc_def vt_def IsThreadDone_def)
next
  case CI_THREAD2_DONE_RUN
  then have "in_service E o1" using ok by (simp add: server_member_def)
  from exit_member [OF this, of "message_vtbl E om" w] show ?thesis
    using CI_THREAD2_DONE_RUN by (auto simp: ThreadProc_def vt_def)
next
  case CI_THREAD2_ERROR
  then have "in_service E o1" using ok by (simp add: server_member_def)
  from exit_member [OF this, of "message_vtbl E om" w] show ?thesis
    using CI_THREAD2_ERROR by (auto simp: ThreadProc_def vt_def)
next
  case CI_THREAD2_INACTIVE
  then have "in_service E o1" using ok by (simp add: server_member_def)
  from exit_member [OF this, of "message_vtbl E om" w] show ?thesis
    using CI_THREAD2_INACTIVE by (auto simp: ThreadProc_def vt_def)
qed (use ok in \<open>auto simp: ThreadProc_def thread_proc_finish_def server_member_def IsThreadDone_def\<close>)

section \<open>A complex of network threads\<close>

text \<open>Ending: asked to end, or ended.\<close>

definition ending_thread :: "'b ci_thread2_scheme \<Rightarrow> bool" where
  "ending_thread m \<longleftrightarrow> m_bExit m \<or> IsThreadDone m"

definition rounds_left :: "'b ci_thread2_scheme \<Rightarrow> nat" where
  "rounds_left m = (if m_state m = CI_THREAD2_READY then 1 else 0)"

abbreviation server_vtbls ::
  "net_env \<Rightarrow> 'a ci_net_thread_scheme derived \<Rightarrow> addr \<Rightarrow> 'a ci_net_thread_scheme member_vtbl" where
  "server_vtbls E om p \<equiv> thread_member (ct_thread_vtbl E (message_vtbl E om))"

lemma server_members:
  fixes om :: "'a ci_net_thread_scheme derived"
  assumes "no_clients E" "reads_frames E om" "2 < n"
  shows "ending_complex (server_vtbls E om) (\<lambda>p s. server_member E (fst s)) ending_thread rounds_left 2 n"
proof
  fix p
  show "member_law (\<lambda>p s. server_member E (fst s)) p (mv_ThreadProc (server_vtbls E om p))
      (\<lambda>m m1. ending_thread m \<longrightarrow> ending_thread m1 \<and> (IsThreadDone m \<or> IsThreadDone m1 \<or> rounds_left m1 < rounds_left m))"
    unfolding member_law_def
  proof (intro allI impI)
    fix m :: "'a ci_net_thread_scheme" and w :: world
    assume "server_member E (fst (m, w))"
    then have "server_member E m" by simp
    from server_proc [OF this assms(1,2), of w] obtain m1 w1 where
      "ThreadProc (ct_thread_vtbl E (message_vtbl E om)) (m, w) = Some (m1, w1)" "server_member E m1"
      "m_bExit m \<or> IsThreadDone m \<longrightarrow>
         IsThreadDone m1 \<or> m_bExit m1 \<and> m_state m = CI_THREAD2_READY \<and> m_state m1 \<noteq> CI_THREAD2_READY" by blast
    then show "\<exists>m1 w1. mv_ThreadProc (server_vtbls E om p) (m, w) = Some (m1, w1) \<and> server_member E (fst (m1, w1)) \<and>
        (ending_thread m \<longrightarrow> ending_thread m1 \<and> (IsThreadDone m \<or> IsThreadDone m1 \<or> rounds_left m1 < rounds_left m)) \<and>
        (\<forall>q m2. q \<noteq> p \<longrightarrow> server_member E (fst (m2, w)) \<longrightarrow> server_member E (fst (m2, w1)))"
      by (intro exI [of _ m1] exI [of _ w1]) (auto simp: thread_member_def ending_thread_def rounds_left_def)
  qed
  show "member_law (\<lambda>p s. server_member E (fst s)) p (mv_EndThread (server_vtbls E om p))
      (\<lambda>m m1. ending_thread m1 \<and> rounds_left m1 < 2)"
    by (auto simp: member_law_def thread_member_def EndThread_def ending_thread_def rounds_left_def server_member_def
        split: CiThread2State_t.splits)
qed (use assms(3) in simp_all)

text \<open>Any host, cut off from its clients.\<close>

definition cut_off :: "net_env \<Rightarrow> net_env" where
  "cut_off E = E\<lparr>ne_calls := (ne_calls E)\<lparr>n_accept := \<lambda>t. None\<rparr>,
     ne_kernel := (ne_kernel E)\<lparr>k_poll := \<lambda>t. case k_poll (ne_kernel E) t of PollFail e \<Rightarrow> PollFail e
       | PollReady r \<Rightarrow> PollReady (\<lambda>s. if r s AND POLLRDNORM = 0 then 0 else r s)\<rparr>\<rparr>"

lemma cut_off_no_clients: "no_clients (cut_off E)"
  by (auto simp: no_clients_def cut_off_def listen_reports_def split: poll_res.splits)

interpretation servers: ending_complex "server_vtbls (cut_off E) read_message"
    "\<lambda>p s. server_member (cut_off E) (fst s)" ending_thread rounds_left 2 3 for E
  by (rule server_members [OF cut_off_no_clients read_message_reads]) simp

end
