(* ===== verification/Real_Time_Complex.thy ===== *)
theory Real_Time_Complex
  imports Thread_Complex Calendar_Time
begin

text \<open>
  \<open>CRealTimeFlavor\<close> (\<open>RealTimeFlavor.cpp\<close>) and \<open>CCiThreadRealTimeComplex\<close> (\<open>CiThreadRealTimeComplex.cpp\<close>):
  a complex that runs a round per period.  The C library's clock is read at the times of the world,
  so it is a function of them.
\<close>

section \<open>The schedule\<close>

record realtime =
  m_mdBaseTime :: CMTime2
  m_iPeriodMillieSec :: int
  m_llExecutionCounter :: int

definition rt_SetBaseTime :: "clib \<Rightarrow> realtime \<Rightarrow> realtime option" where
  "rt_SetBaseTime C f = do {
     mdCurrentTime \<leftarrow> mt_now C;
     Some (f\<lparr>m_mdBaseTime := mdCurrentTime, m_llExecutionCounter := 0\<rparr>) }"

definition CRealTimeFlavor :: "clib \<Rightarrow> realtime option" where
  "CRealTimeFlavor C =
     rt_SetBaseTime C \<lparr>m_mdBaseTime = CMTime2 0, m_iPeriodMillieSec = 0, m_llExecutionCounter = 0\<rparr>"

definition rt_SetPeriodMillieSec :: "clib \<Rightarrow> int \<Rightarrow> realtime \<Rightarrow> realtime option" where
  "rt_SetPeriodMillieSec C iPeriodMillieSec f = rt_SetBaseTime C (f\<lparr>m_iPeriodMillieSec := iPeriodMillieSec\<rparr>)"

definition rt_GetBaseTime :: "realtime \<Rightarrow> CMTime2" where
  "rt_GetBaseTime f = m_mdBaseTime f"

definition rt_GetPeriodMillieSec :: "realtime \<Rightarrow> int" where
  "rt_GetPeriodMillieSec f = m_iPeriodMillieSec f"

definition rt_GetPeriodStartTime :: "realtime \<Rightarrow> CMTime2 option" where
  "rt_GetPeriodStartTime f = do {
     d \<leftarrow> ck_ll (m_iPeriodMillieSec f * m_llExecutionCounter f);
     mt_add_ms (m_mdBaseTime f) d }"

definition rt_GetPeriodEndTime :: "realtime \<Rightarrow> CMTime2 option" where
  "rt_GetPeriodEndTime f = do {
     t \<leftarrow> rt_GetPeriodStartTime f;
     mt_add_ms t (m_iPeriodMillieSec f) }"

definition rt_GetPaceInMillieSec :: "clib \<Rightarrow> realtime \<Rightarrow> int option" where
  "rt_GetPaceInMillieSec C f = do {
     mdTimeToGo \<leftarrow> rt_GetPeriodStartTime f;
     mdCurrentTime \<leftarrow> mt_now C;
     mdsDifference \<leftarrow> mt_diff mdTimeToGo mdCurrentTime;
     Some (ts_GetTimeSpan mdsDifference) }"

section \<open>The complex\<close>

record 'm rt_complex = "'m ci_complex" +
  rt_flavor :: realtime

definition CCiThreadRealTimeComplex :: "clib \<Rightarrow> lmem \<Rightarrow> (addr \<Rightarrow> 'm option) \<Rightarrow> 'm rt_complex option" where
  "CCiThreadRealTimeComplex C mem threads = do {
     f \<leftarrow> CRealTimeFlavor C;
     Some (ci_complex.extend (CCiThreadComplex mem threads) (rt_complex.fields f)) }"

text \<open>
  \<open>msleep\<close> of \<open>CiGlobals.h\<close>: the microseconds that it passes to \<open>usleep\<close>.  The product is computed as
  an \<open>unsigned long\<close> of 64 bits, and the parameter of \<open>usleep\<close> is a \<open>useconds_t\<close>, of 32 bits.
\<close>

definition msleep :: "64 word \<Rightarrow> 32 word" where
  "msleep msec = ucast (msec * 1000)"

text \<open>The part of \<open>Run\<close> before the round: it gives the microseconds for which \<open>usleep\<close> is called.\<close>

definition rt_next :: "(nat \<Rightarrow> clib) \<Rightarrow> realtime \<Rightarrow> world \<Rightarrow> (32 word \<times> realtime \<times> world) option" where
  "rt_next C f w = do {
     (f1, w1) \<leftarrow> (if m_llExecutionCounter f = 0x7FFFFFFFFFFFFFFF
        then do { f1 \<leftarrow> rt_SetBaseTime (C (clock w)) f; Some (f1, tick w) } else Some (f, w));
     c \<leftarrow> ck_ll (m_llExecutionCounter f1 + 1);
     let f2 = f1\<lparr>m_llExecutionCounter := c\<rparr>;
     llMSeconds \<leftarrow> rt_GetPaceInMillieSec (C (clock w1)) f2;
     Some (msleep (word_of_int (if llMSeconds < 0 then 0 else llMSeconds)), f2, tick (tick w1)) }"

definition RT_Run ::
  "(nat \<Rightarrow> clib) \<Rightarrow> (addr \<Rightarrow> 'b ci_thread2_scheme member_vtbl) \<Rightarrow>
     (('b ci_thread2_scheme, 'a) rt_complex_scheme, bool) meth" where
  "RT_Run C mv s = do {
     (us, f, w) \<leftarrow> rt_next C (rt_flavor (fst s)) (snd s);
     CX_Run mv ((fst s)\<lparr>rt_flavor := f\<rparr>, w) }"

definition rt_vtbl ::
  "(nat \<Rightarrow> clib) \<Rightarrow> nat \<Rightarrow> (addr \<Rightarrow> 'b ci_thread2_scheme member_vtbl) \<Rightarrow>
     ('b ci_thread2_scheme, 'a) rt_complex_scheme thread_vtbl" where
  "rt_vtbl C n mv =
     \<lparr>v_InitInstance = Thread2_InitInstance, v_Run = RT_Run C mv, v_ExitInstance = CX_ExitInstance n mv\<rparr>"

section \<open>Keeping to the schedule\<close>

lemma ck_ll_eq: "ck_ll x = Some y \<longleftrightarrow> y = x \<and> - (2 ^ 63) \<le> x \<and> x < 2 ^ 63"
  by (auto simp: ck_ll_def)

text \<open>When the \<open>k\<close>-th period starts.\<close>

definition due :: "realtime \<Rightarrow> int \<Rightarrow> int" where
  "due f k = m_llMSecond (m_mdBaseTime f) + m_iPeriodMillieSec f * k"

definition now_ms :: "clib \<Rightarrow> int" where
  "now_ms C = fst (c_ftime C) * 1000 + snd (c_ftime C)"

lemma pace_run:
  "rt_GetPaceInMillieSec C f = Some ms \<Longrightarrow> ms = due f (m_llExecutionCounter f) - now_ms C"
  by (auto simp: rt_GetPaceInMillieSec_def rt_GetPeriodStartTime_def mt_add_ms_def mt_now_def mt_diff_def due_def
      now_ms_def ts_SetTimeSpan_def ts_GetTimeSpan_def ck_ll_eq split: bind_splits)

lemma pace_returns:
  assumes "\<bar>m_iPeriodMillieSec f * m_llExecutionCounter f\<bar> < 2 ^ 61" "\<bar>m_llMSecond (m_mdBaseTime f)\<bar> < 2 ^ 61"
    "\<bar>now_ms C\<bar> < 2 ^ 61"
  shows "rt_GetPaceInMillieSec C f = Some (due f (m_llExecutionCounter f) - now_ms C)"
proof -
  let ?d = "m_iPeriodMillieSec f * m_llExecutionCounter f" and ?b = "m_llMSecond (m_mdBaseTime f)"
  have "ck_ll ?d = Some ?d" "ck_ll (?b + ?d) = Some (?b + ?d)" "ck_ll (now_ms C) = Some (now_ms C)"
    "ck_ll (?b + ?d - now_ms C) = Some (?b + ?d - now_ms C)"
    using assms by (simp_all add: ck_ll_eq abs_less_iff)
  then show ?thesis
    by (simp add: rt_GetPaceInMillieSec_def rt_GetPeriodStartTime_def mt_add_ms_def mt_now_def mt_diff_def due_def
        now_ms_def ts_SetTimeSpan_def ts_GetTimeSpan_def)
qed

text \<open>
  How long \<open>msleep\<close> sleeps, in microseconds: the remainder of the time asked for by the width of
  \<open>useconds_t\<close>, so anything below 4294968 milliseconds in full and everything longer too short.
\<close>

lemma msleep_time:
  assumes "0 \<le> ms"
  shows "uint (msleep (word_of_int ms)) = ms * 1000 mod 2 ^ 32"
proof -
  have "uint (msleep (word_of_int ms)) = ms mod 2 ^ 64 * 1000 mod 2 ^ 64 mod 2 ^ 32"
    by (simp add: msleep_def unsigned_ucast_eq uint_word_arith_bintrs uint_word_of_int take_bit_eq_mod mod_mult_left_eq)
  also have "\<dots> = ms * 1000 mod 2 ^ 64 mod 2 ^ 32" by (simp add: mod_mult_left_eq)
  also have "\<dots> = ms * 1000 mod 2 ^ 32" by (rule mod_mod_cancel) simp
  finally show ?thesis .
qed

lemma sleep_reaches:
  assumes "us = msleep (word_of_int (if l < 0 then 0 else l))"
  shows "uint us = (if l \<le> 0 then 0 else l * 1000 mod 2 ^ 32)"
    and "l < 4294968 \<Longrightarrow> now * 1000 + uint us = max now (now + l) * 1000"
    and "4294968 \<le> l \<Longrightarrow> now * 1000 + uint us < (now + l) * 1000"
proof -
  show us: "uint us = (if l \<le> 0 then 0 else l * 1000 mod 2 ^ 32)"
    using msleep_time [of l] msleep_time [of 0] by (simp add: assms)
  show "now * 1000 + uint us = max now (now + l) * 1000" if "l < 4294968"
    using that by (simp add: us max_def)
  have "l * 1000 mod 2 ^ 32 < (2 ^ 32 :: int)" by simp
  then show "now * 1000 + uint us < (now + l) * 1000" if "4294968 \<le> l"
    using that by (simp add: us)
qed

text \<open>
  The sleep before a round ends when the period starts, or is nothing when that is past; but when it
  is 4294968 milliseconds away, or more, the sleep ends before.  The counter counts the rounds.
\<close>

lemma rt_next_run:
  assumes "rt_next C f w = Some (us, f2, w2)"
  shows "(\<exists>t. clock w \<le> t \<and> t < clock w2 \<and>
      us = msleep (word_of_int (if due f2 (m_llExecutionCounter f2) < now_ms (C t) then 0
        else due f2 (m_llExecutionCounter f2) - now_ms (C t)))) \<and>
    m_iPeriodMillieSec f2 = m_iPeriodMillieSec f \<and>
    (if m_llExecutionCounter f = 2 ^ 63 - 1
     then m_llMSecond (m_mdBaseTime f2) = now_ms (C (clock w)) \<and> m_llExecutionCounter f2 = 1
     else m_mdBaseTime f2 = m_mdBaseTime f \<and> m_llExecutionCounter f2 = m_llExecutionCounter f + 1)"
proof -
  obtain f1 w1 where 1: "(if m_llExecutionCounter f = 0x7FFFFFFFFFFFFFFF
        then do { f1 \<leftarrow> rt_SetBaseTime (C (clock w)) f; Some (f1, tick w) } else Some (f, w)) = Some (f1, w1)"
    and c: "ck_ll (m_llExecutionCounter f1 + 1) = Some (m_llExecutionCounter f2)"
    and f2: "f2 = f1\<lparr>m_llExecutionCounter := m_llExecutionCounter f2\<rparr>" "w2 = tick (tick w1)"
    and p: "\<exists>l. rt_GetPaceInMillieSec (C (clock w1)) f2 = Some l \<and> us = msleep (word_of_int (if l < 0 then 0 else l))"
    using assms by (auto simp: rt_next_def Let_def split: bind_splits)
  have s: "m_mdBaseTime f2 = m_mdBaseTime f1" "m_iPeriodMillieSec f2 = m_iPeriodMillieSec f1"
    by (subst f2(1), simp)+
  have "us = msleep (word_of_int (if due f2 (m_llExecutionCounter f2) < now_ms (C (clock w1)) then 0
        else due f2 (m_llExecutionCounter f2) - now_ms (C (clock w1))))"
    using p pace_run by fastforce
  moreover have "clock w \<le> clock w1 \<and> clock w1 < clock w2"
    using 1 f2(2) by (auto split: if_splits bind_splits)
  moreover have "m_iPeriodMillieSec f1 = m_iPeriodMillieSec f \<and>
    (if m_llExecutionCounter f = 2 ^ 63 - 1
     then m_llMSecond (m_mdBaseTime f1) = now_ms (C (clock w)) \<and> m_llExecutionCounter f1 = 0
     else m_mdBaseTime f1 = m_mdBaseTime f \<and> m_llExecutionCounter f1 = m_llExecutionCounter f)"
    using 1 by (auto simp: rt_SetBaseTime_def mt_now_def now_ms_def ck_ll_eq split: if_splits bind_splits)
  ultimately show ?thesis using c s by (auto simp: ck_ll_eq split: if_splits)
qed

section \<open>A round\<close>

lemma rt_frame [simp]:
  "member_at p (o1\<lparr>rt_flavor := f\<rparr>) = member_at p o1" "cx_list (o1\<lparr>rt_flavor := f\<rparr>) = cx_list o1"
  by (simp_all add: member_at_def cx_list_def)

end
