(* ===== verification/Ci_Utils.thy ===== *)
theory Ci_Utils
  imports Calendar_Time Ci_Socket
begin

text \<open>
  The functions of \<open>CiUtils.cpp\<close> on texts: directory names, numbers, the search for a process, the
  commands for address aliases, and the log line.  POSIX branches.  The file system and the shell are
  parameters.
\<close>

section \<open>Directory names\<close>

definition DIRECTORY_DELIMITER :: byte where
  "DIRECTORY_DELIMITER = 47"

definition char_at :: "carray \<Rightarrow> int \<Rightarrow> byte option" where
  "char_at a i = (if 0 \<le> i \<and> i < int (length a) then Some (a ! nat i) else None)"

definition CiUtils_MakeDirectoryString ::
  "carray option \<Rightarrow> int \<Rightarrow> carray option \<Rightarrow> (bool \<times> carray option) option" where
  "CiUtils_MakeDirectoryString pszResult iNResultBufferLength pszSource =
     (if pszSource = None \<or> pszResult = None then Some (False, pszResult)
      else do {
        (_, result, iNTriedToCreate) \<leftarrow> CiStrCpy pszResult pszSource iNResultBufferLength;
        a \<leftarrow> result;
        let n = int iNTriedToCreate;
        if iNResultBufferLength \<le> n then Some (False, Some a)
        else if n = iNResultBufferLength - 1 then do {
          c \<leftarrow> char_at a (n - 1);
          Some (c = DIRECTORY_DELIMITER, Some a) }
        else do {
          c \<leftarrow> char_at a (n - 1);
          a2 \<leftarrow> (if c \<noteq> DIRECTORY_DELIMITER
                 then do { a1 \<leftarrow> set_char a n DIRECTORY_DELIMITER; set_char a1 (n + 1) 0 }
                 else Some a);
          Some (True, Some a2) } })"

text \<open>The two texts of \<open>CiUtils_EquivalentPath\<close> without a \<open>/\<close> or \<open>\\<close> at the end.\<close>

definition chop_path :: "byte list \<Rightarrow> byte list" where
  "chop_path aa = (if aa \<noteq> [] \<and> (last aa = 47 \<or> last aa = 92) then take (length aa - 1) aa else aa)"

definition CiUtils_EquivalentPath :: "byte list \<Rightarrow> byte list \<Rightarrow> bool" where
  "CiUtils_EquivalentPath a b \<longleftrightarrow> chop_path a = chop_path b"

section \<open>Numbers\<close>

text \<open>\<open>"%lld"\<close> into 32 bytes of zeros.\<close>

definition CiUtils_LLongToString :: "int \<Rightarrow> byte list option" where
  "CiUtils_LLongToString num = map_option text_of (sprintf_into (replicate 32 0) (fmt_d num))"

text \<open>
  The number is cut before its last eight characters, in a copy of 21 bytes, whose last byte is the
  terminator at most.
\<close>

definition CiUtils_StringToLLong :: "carray \<Rightarrow> int option" where
  "CiUtils_StringToLLong num = do {
     numsize \<leftarrow> CiStrLen num;
     if numsize > 8 then
       (if 21 \<le> numsize then None
        else do {
          let tempnum = take numsize num;
          lowval \<leftarrow> atoi (drop (numsize - 8) tempnum);
          highval \<leftarrow> atoi (take (numsize - 8) tempnum);
          h \<leftarrow> ck_ll (highval * 100000000);
          ck_ll (h + lowval) })
     else atoi (take numsize num) }"

section \<open>The disk\<close>

text \<open>\<open>statfs\<close> gives the number of blocks, of available blocks and their size, or fails.\<close>

definition CiUtils_GetDiskUsage ::
  "(byte list \<Rightarrow> (int \<times> int \<times> int) option) \<Rightarrow> byte list option \<Rightarrow> (int \<times> int) option option" where
  "CiUtils_GetDiskUsage statfs pszPath =
     (case pszPath of
        None \<Rightarrow> Some None
      | Some path \<Rightarrow>
          (case statfs path of
             None \<Rightarrow> Some None
           | Some (f_blocks, f_bavail, f_bsize) \<Rightarrow> do {
               total \<leftarrow> ck_ll (f_blocks * f_bsize);
               avail \<leftarrow> ck_ll (f_bavail * f_bsize);
               Some (Some (total, avail)) }))"

section \<open>Address aliases\<close>

definition lit :: "string \<Rightarrow> byte list" where
  "lit s = map of_char s"

text \<open>A command in the array of 256 bytes, and what the shell returns for it.\<close>

definition run_command :: "(nat \<Rightarrow> byte) \<Rightarrow> (byte list \<Rightarrow> int) \<Rightarrow> byte list \<Rightarrow> int option" where
  "run_command junk sh cmd = map_option (\<lambda>a. sh (text_of a)) (sprintf_into (new_array junk 256) cmd)"

definition nic_name :: "byte list \<Rightarrow> int \<Rightarrow> byte list" where
  "nic_name nic iAliasID = (if iAliasID > 0 then nic @ lit '':'' @ fmt_d iAliasID else nic)"

definition CiUtils_AddAliasIP ::
  "(nat \<Rightarrow> byte) \<Rightarrow> (byte list \<Rightarrow> int) \<Rightarrow> byte list \<Rightarrow> int \<Rightarrow> byte list \<Rightarrow> byte list \<Rightarrow> byte list \<Rightarrow> byte list \<Rightarrow>
     bool option" where
  "CiUtils_AddAliasIP junk sh nic iAliasID ip netmask broadcast gateway = do {
     r \<leftarrow> run_command junk sh (lit ''/sbin/ifconfig '' @ nic_name nic iAliasID @ lit '' '' @ ip @
            lit '' netmask '' @ netmask @ lit '' broadcast '' @ broadcast @ lit '' up'');
     if r < 0 then Some False
     else do {
       r2 \<leftarrow> run_command junk sh (lit ''/sbin/arping -fqbDUA -c 2 -I '' @ nic @ lit '' -s '' @ ip @
              lit '' '' @ gateway @ lit '' &'');
       Some (\<not> r2 < 0) } }"

definition CiUtils_DeleteAliasIP ::
  "(nat \<Rightarrow> byte) \<Rightarrow> (byte list \<Rightarrow> int) \<Rightarrow> byte list \<Rightarrow> int \<Rightarrow> bool option" where
  "CiUtils_DeleteAliasIP junk sh nic iAliasID = do {
     r \<leftarrow> run_command junk sh (lit ''/sbin/ifconfig '' @ nic_name nic iAliasID @ lit '' down'');
     Some (\<not> r < 0) }"

section \<open>Processes\<close>

text \<open>
  The directory \<open>/proc\<close> as \<open>readdir\<close> gives it, without the two dots: a name, whether \<open>cmdline\<close> in
  it can be accessed, and what \<open>fgets\<close> of at most 255 bytes gives of it (\<open>None\<close> when the file cannot be opened
  or is empty).  The name of that file goes into 40 bytes.
\<close>

type_synonym proc_entry = "byte list \<times> bool \<times> byte list option"

fun find_pid :: "byte list \<Rightarrow> proc_entry list \<Rightarrow> int option" where
  "find_pid name [] = Some (- 1)"
| "find_pid name ((d_name, accessible, cmdline) # es) =
     (if 40 \<le> length (lit ''/proc/'' @ d_name @ lit ''/cmdline'') then None
      else if \<not> accessible then find_pid name es
      else if list_all is_digit d_name then
        (case cmdline of
           None \<Rightarrow> find_pid name es
         | Some line \<Rightarrow> do {
             p \<leftarrow> c_strstr (line @ [0]) name;
             case p of
               None \<Rightarrow> find_pid name es
             | Some i \<Rightarrow> if drop i (text_of line) = name then atoi d_name else find_pid name es })
      else find_pid name es)"

definition CiUtils_GetProcessPID :: "proc_entry list option \<Rightarrow> byte list \<Rightarrow> int option" where
  "CiUtils_GetProcessPID dir name = (case dir of None \<Rightarrow> Some (- 1) | Some es \<Rightarrow> find_pid name es)"

section \<open>The log\<close>

text \<open>The bytes that go to the stream; a time that has no text is a null pointer for \<open>printf\<close>.\<close>

definition CiUtils_PrintWithTime :: "clib \<Rightarrow> (nat \<Rightarrow> byte) \<Rightarrow> byte list \<Rightarrow> byte list option" where
  "CiUtils_PrintWithTime C junk pszString = do {
     mtCurrentTime \<leftarrow> mt_now C;
     r \<leftarrow> mt_GetText C junk mtCurrentTime;
     pszCurrentTime \<leftarrow> r;
     Some (91 # text_of pszCurrentTime @ 93 # pszString @ [10]) }"

section \<open>What a directory name becomes\<close>

definition with_delimiter :: "byte list \<Rightarrow> byte list" where
  "with_delimiter t = (if t \<noteq> [] \<and> last t = DIRECTORY_DELIMITER then t else t @ [DIRECTORY_DELIMITER])"

lemma take_text: "take (length (text_of a)) a = text_of a"
  unfolding text_of_def by (metis append_eq_conv_conj takeWhile_dropWhile_id)

lemma append_char:
  assumes "is_cstring a" "length (text_of a) + 1 < length a" "c \<noteq> 0"
  shows "\<exists>a1 a2. set_char a (int (length (text_of a))) c = Some a1 \<and>
    set_char a1 (int (length (text_of a)) + 1) 0 = Some a2 \<and> length a2 = length a \<and> is_cstring a2 \<and>
    text_of a2 = text_of a @ [c] \<and> drop (length (text_of a) + 2) a2 = drop (length (text_of a) + 2) a"
proof -
  let ?n = "length (text_of a)"
  let ?a1 = "a[?n := c]" and ?a2 = "a[?n := c, Suc ?n := 0]"
  have i: "nat (int ?n + 1) = Suc ?n" by simp
  have 1: "set_char a (int ?n) c = Some ?a1" "set_char ?a1 (int ?n + 1) 0 = Some ?a2"
    using assms(2) unfolding set_char_def i by simp_all
  have t: "take (Suc ?n) ?a1 = text_of a @ [c]"
    using assms(2) take_text [of a] by (simp add: take_Suc_conv_app_nth)
  then have nz: "0 \<notin> set (take (Suc ?n) ?a1)" using text_of_nonzero [of a] assms(3) by simp
  have "is_cstring ?a2" "text_of ?a2 = text_of a @ [c]"
    using text_of_update [of "Suc ?n" ?a1] nz t assms(2) by simp_all
  then show ?thesis using 1 by simp
qed

lemma last_text:
  assumes "is_cstring a" "text_of a \<noteq> []"
  shows "char_at a (int (length (text_of a)) - 1) = Some (last (text_of a))"
proof -
  have l: "length (text_of a) < length a" "0 < length (text_of a)" using length_text_of [OF assms(1)] assms(2) by simp_all
  have "a ! (length (text_of a) - 1) = text_of a ! (length (text_of a) - 1)"
    using nth_take [of "length (text_of a) - 1" "length (text_of a)" a] l(2) by (simp add: take_text)
  moreover have "nat (int (length (text_of a)) - 1) = length (text_of a) - 1" using l(2) by simp
  ultimately show ?thesis using l by (simp add: char_at_def last_conv_nth assms(2))
qed

lemma MakeDirectoryString_run:
  assumes "is_cstring src" "text_of src \<noteq> []" "0 < n" "n \<le> int (length dest)"
  shows "\<exists>a. CiUtils_MakeDirectoryString (Some dest) n (Some src) =
      Some (int (length (with_delimiter (text_of src))) < n, Some a) \<and> length a = length dest \<and> is_cstring a \<and>
    (int (length (with_delimiter (text_of src))) < n \<longrightarrow> text_of a = with_delimiter (text_of src)) \<and>
    drop (nat n) a = drop (nat n) dest"
proof -
  let ?t = "text_of src"
  obtain a where a: "CiStrCpy (Some dest) (Some src) n = Some (int (length ?t) < n, Some a, length ?t)"
    "length a = length dest" "is_cstring a" "text_of a = take (nat n - 1) ?t" "drop (nat n) a = drop (nat n) dest"
    using CiStrCpy_run [OF assms(1,3,4)] by blast
  have len: "length ?t \<le> length (with_delimiter ?t)" by (simp add: with_delimiter_def)
  show ?thesis
  proof (cases "n \<le> int (length ?t)")
    case True
    then show ?thesis using a len by (simp add: CiUtils_MakeDirectoryString_def)
  next
    case False
    then have ta: "text_of a = ?t" using a(4) by simp
    have c: "char_at a (int (length ?t) - 1) = Some (last ?t)" using last_text [OF a(3)] ta assms(2) by simp
    show ?thesis
    proof (cases "int (length ?t) = n - 1 \<or> last ?t = DIRECTORY_DELIMITER")
      case True
      then have w: "int (length (with_delimiter ?t)) < n \<longleftrightarrow> last ?t = DIRECTORY_DELIMITER"
        using False assms(2) by (auto simp: with_delimiter_def)
      have "CiUtils_MakeDirectoryString (Some dest) n (Some src) = Some (last ?t = DIRECTORY_DELIMITER, Some a)"
        using a(1) False c True by (auto simp: CiUtils_MakeDirectoryString_def Let_def)
      then show ?thesis using a(2,3,5) ta w assms(2) by (simp add: with_delimiter_def)
    next
      case room: False
      have d: "length (text_of a) + 1 < length a" "DIRECTORY_DELIMITER \<noteq> 0" using room False a(2) assms(4) ta
        by (simp_all add: DIRECTORY_DELIMITER_def)
      from append_char [OF a(3) d] obtain a1 a2 where
        s: "set_char a (int (length ?t)) DIRECTORY_DELIMITER = Some a1" "set_char a1 (int (length ?t) + 1) 0 = Some a2"
        "length a2 = length a" "is_cstring a2" "text_of a2 = ?t @ [DIRECTORY_DELIMITER]"
        "drop (length ?t + 2) a2 = drop (length ?t + 2) a" unfolding ta by blast
      have "nat n \<ge> length ?t + 2" using room False by linarith
      then have "drop (nat n) a2 = drop (nat n) a"
        using s(6) by (metis drop_drop le_add_diff_inverse2)
      moreover have "CiUtils_MakeDirectoryString (Some dest) n (Some src) = Some (True, Some a2)"
        using a(1) False c room s(1,2) by (simp add: CiUtils_MakeDirectoryString_def Let_def)
      moreover have "with_delimiter ?t = ?t @ [DIRECTORY_DELIMITER]" "int (length (with_delimiter ?t)) < n"
        using room False by (auto simp: with_delimiter_def)
      ultimately show ?thesis using a(2,5) s(3-5) by simp
    qed
  qed
qed

text \<open>An empty name has no last character.\<close>

lemma MakeDirectoryString_empty:
  assumes "is_cstring src" "text_of src = []" "0 < n" "n \<le> int (length dest)"
  shows "CiUtils_MakeDirectoryString (Some dest) n (Some src) = None"
proof -
  obtain a where "CiStrCpy (Some dest) (Some src) n = Some (0 < n, Some a, 0)"
    using CiStrCpy_run [OF assms(1,3,4)] assms(2) by auto
  then show ?thesis using assms(3) by (simp add: CiUtils_MakeDirectoryString_def char_at_def)
qed

section \<open>Reading back a number\<close>

text \<open>The last \<open>k\<close> digits of a number.\<close>

fun low_digits :: "nat \<Rightarrow> nat \<Rightarrow> byte list" where
  "low_digits 0 b = []"
| "low_digits (Suc k) b = low_digits k (b div 10) @ [of_nat (48 + b mod 10)]"

lemma low_digits_length [simp]: "length (low_digits k b) = k"
  by (induction k arbitrary: b) simp_all

lemma low_digits_digits: "c \<in> set (low_digits k b) \<Longrightarrow> is_digit c"
proof (induction k arbitrary: b)
  case (Suc k)
  have "is_digit (of_nat (48 + b mod 10) :: byte)"
    using of_nat_byte [of "b mod 10"] by (simp add: is_digit_def word_le_def)
  then show ?case using Suc by auto
qed simp

lemma digits_value_low: "digits_value (low_digits k b) = int (b mod 10 ^ k)"
proof (induction k arbitrary: b)
  case 0
  then show ?case by (simp add: digits_value_def)
next
  case (Suc k)
  have "b mod 10 ^ Suc k = (b div 10 mod 10 ^ k) * 10 + b mod 10" by (simp add: mod_mult2_eq)
  then show ?case using of_nat_byte [of "b mod 10"] by (simp add: digits_value_snoc Suc)
qed

lemma dec_nat_split: "0 < a \<Longrightarrow> b < 10 ^ k \<Longrightarrow> dec_nat (a * 10 ^ k + b) = dec_nat a @ low_digits k b"
proof (induction k arbitrary: b)
  case (Suc k)
  let ?n = "a * 10 ^ Suc k + b"
  have e: "?n = b + a * 10 ^ k * 10" by simp
  have d: "?n div 10 = a * 10 ^ k + b div 10" "?n mod 10 = b mod 10" unfolding e by simp_all
  have "10 \<le> a * 10 ^ Suc k" using Suc.prems(1) by simp
  then have "\<not> ?n < 10" by linarith
  moreover have "b div 10 < 10 ^ k" using Suc.prems(2) by (simp add: less_mult_imp_div_less mult.commute)
  ultimately show ?case using Suc.IH [of "b div 10"] Suc.prems(1)
    by (subst dec_nat.simps) (simp only: d if_False low_digits.simps append_assoc [symmetric])
qed simp

lemma dec_nat_short: "n < 10 ^ k \<Longrightarrow> 0 < k \<Longrightarrow> length (dec_nat n) \<le> k"
proof (induction k arbitrary: n)
  case (Suc k)
  show ?case
  proof (cases "n < 10")
    case True
    then show ?thesis by (subst dec_nat.simps) simp
  next
    case False
    then have k: "0 < k" using Suc.prems(1) by (cases k) simp_all
    have "n div 10 < 10 ^ k" using Suc.prems(1) by (simp add: less_mult_imp_div_less mult.commute)
    then show ?thesis using Suc.IH [of "n div 10"] k False by (subst dec_nat.simps) simp
  qed
qed simp

lemma atoi_digits:
  assumes "\<forall>c\<in>set ds. is_digit c" "ds \<noteq> []" "digits_value ds < 2 ^ 31" "0 \<le> digits_value ds"
  shows "atoi ds = Some (digits_value ds)"
proof -
  have h: "is_digit (hd ds)" using assms(1,2) by simp
  have dw: "dropWhile is_space ds = ds" using assms(2) digit_not_special [OF h] by (cases ds) simp_all
  have tw: "takeWhile is_digit ds = ds" using assms(1) by (simp only: takeWhile_eq_all_conv)
  show ?thesis using digit_not_special [OF h] assms(2-4) by (simp add: atoi_def Let_def ck_int_def dw tw)
qed

lemma atoi_low: "b < 10 ^ 8 \<Longrightarrow> atoi (low_digits 8 b) = Some (int b)"
proof -
  assume b: "b < 10 ^ 8"
  then have v: "digits_value (low_digits 8 b) = int b" by (simp add: digits_value_low)
  have "low_digits 8 b \<noteq> []" by (metis low_digits_length list.size(3) zero_neq_numeral)
  then show ?thesis using atoi_digits [of "low_digits 8 b"] low_digits_digits b v by simp
qed

lemma number_text:
  assumes "0 \<notin> set t"
  shows "CiStrLen (t @ [0]) = Some (length t)" "take (length t) (t @ [0]) = t"
  using text_of_terminated [OF assms, of "[]"] by (simp_all add: CiStrLen_text is_cstring_def)

lemma digits_nonzero: "0 \<notin> set (dec_nat n)"
  using dec_nat_digits digit_not_special by blast

lemma split_number:
  assumes "0 < a" "int a < 2 ^ 31" "b < 10 ^ 8"
  defines "n \<equiv> a * 10 ^ 8 + b"
  shows "length (dec_nat n) = length (dec_nat a) + 8" "length (dec_nat a) \<le> 10"
    "take (length (dec_nat n) - 8) (dec_nat n) = dec_nat a" "drop (length (dec_nat n) - 8) (dec_nat n) = low_digits 8 b"
proof -
  note s = dec_nat_split [OF assms(1,3), folded n_def]
  show "length (dec_nat n) = length (dec_nat a) + 8" by (simp add: s)
  show "length (dec_nat a) \<le> 10" using dec_nat_short [of a 10] assms(2) by simp
  show "take (length (dec_nat n) - 8) (dec_nat n) = dec_nat a" by (simp add: s)
  show "drop (length (dec_nat n) - 8) (dec_nat n) = low_digits 8 b" by (simp add: s)
qed

lemma StringToLLong_low:
  assumes "n < 10 ^ 8"
  shows "CiUtils_StringToLLong (dec_nat n @ [0]) = Some (int n)"
proof -
  have "length (dec_nat n) \<le> 8" using dec_nat_short [OF assms] by simp
  then show ?thesis using atoi_dec [of n] assms number_text [OF digits_nonzero, of n]
    by (simp add: CiUtils_StringToLLong_def)
qed

lemma ck_ll_halves:
  assumes "int a < 2 ^ 31" "b < 10 ^ 8"
  shows "ck_ll (int a * 100000000) = Some (int a * 100000000)" "ck_ll (int a * 100000000 + int b) = Some (int a * 100000000 + int b)"
    "ck_ll (- int a * 100000000) = Some (- int a * 100000000)" "ck_ll (- int a * 100000000 + int b) = Some (- int a * 100000000 + int b)"
  using assms by (simp_all add: ck_ll_def)

lemma StringToLLong_cut:
  assumes "0 \<notin> set t" "8 < length t" "length t < 21"
    and "atoi (drop (length t - 8) t) = Some lo" "atoi (take (length t - 8) t) = Some hi"
    and "ck_ll (hi * 100000000) = Some h" "ck_ll (h + lo) = Some r"
  shows "CiUtils_StringToLLong (t @ [0]) = Some r"
  using assms by (simp add: CiUtils_StringToLLong_def number_text [OF assms(1)])

lemma StringToLLong_high:
  assumes "0 < a" "int a < 2 ^ 31" "b < 10 ^ 8"
  shows "CiUtils_StringToLLong (dec_nat (a * 10 ^ 8 + b) @ [0]) = Some (int (a * 10 ^ 8 + b))"
    "CiUtils_StringToLLong ((45 # dec_nat (a * 10 ^ 8 + b)) @ [0]) = Some (- int a * 10 ^ 8 + int b)"
proof -
  define n where "n = a * 10 ^ 8 + b"
  let ?t = "45 # dec_nat n"
  note s = split_number [OF assms, folded n_def] and l = ck_ll_halves [OF assms(2,3)]
  have a1: "0 < length (dec_nat a)" by simp
  have "CiUtils_StringToLLong (dec_nat n @ [0]) = Some (int a * 100000000 + int b)"
  proof (rule StringToLLong_cut [OF digits_nonzero])
    show "8 < length (dec_nat n)" "length (dec_nat n) < 21" using s(1,2) a1 by simp_all
    show "atoi (drop (length (dec_nat n) - 8) (dec_nat n)) = Some (int b)" by (simp only: s(4) atoi_low [OF assms(3)])
    show "atoi (take (length (dec_nat n) - 8) (dec_nat n)) = Some (int a)" by (simp only: s(3) atoi_dec [OF assms(2)])
  qed (rule l(1,2))+
  then show "CiUtils_StringToLLong (dec_nat (a * 10 ^ 8 + b) @ [0]) = Some (int (a * 10 ^ 8 + b))" by (simp add: n_def)
  have d: "length ?t - 8 = Suc (length (dec_nat n) - 8)" using s(1) by simp
  have "CiUtils_StringToLLong (?t @ [0]) = Some (- int a * 100000000 + int b)"
  proof (rule StringToLLong_cut)
    show "0 \<notin> set ?t" using digits_nonzero by simp
    show "8 < length ?t" "length ?t < 21" using s(1,2) a1 by simp_all
    show "atoi (drop (length ?t - 8) ?t) = Some (int b)" by (simp only: d drop_Suc_Cons s(4) atoi_low [OF assms(3)])
    have "atoi (45 # dec_nat a) = Some (- int a)" using atoi_minus [of a] assms(2) by simp
    then show "atoi (take (length ?t - 8) ?t) = Some (- int a)" by (simp only: d take_Suc_Cons s(3))
  qed (rule l(3,4))+
  then show "CiUtils_StringToLLong ((45 # dec_nat (a * 10 ^ 8 + b)) @ [0]) = Some (- int a * 10 ^ 8 + int b)"
    by (simp add: n_def)
qed

lemma LLongToString_run:
  assumes "- (2 ^ 63) \<le> n" "n < 2 ^ 63"
  shows "CiUtils_LLongToString n = Some (fmt_d n)"
proof -
  have "nat \<bar>n\<bar> < 10 ^ 19" using assms by simp
  then have l: "length (dec_nat (nat \<bar>n\<bar>)) \<le> 19" using dec_nat_short [of "nat \<bar>n\<bar>" 19] by simp
  have f: "fmt_d n = (if n < 0 then [45] else []) @ dec_nat (nat \<bar>n\<bar>)" by (simp add: fmt_d_def)
  have z: "0 \<notin> set (fmt_d n)" "length (fmt_d n) \<le> 20" unfolding f using digits_nonzero l by (cases "n < 0"; simp)+
  have "sprintf_into (replicate 32 0) (fmt_d n) = Some (fmt_d n @ 0 # drop (length (fmt_d n) + 1) (replicate 32 0))"
    using z(2) by (simp add: sprintf_into_def blit_def)
  then show ?thesis using text_of_terminated [OF z(1)] by (simp add: CiUtils_LLongToString_def)
qed

text \<open>
  Every number that is written is read back, but for the negative ones of at least eight digits: their
  last eight digits are read without the sign.
\<close>

definition misread :: "int \<Rightarrow> int" where
  "misread n = (if n \<le> - (10 ^ 7) then n + 2 * (- n mod 10 ^ 8) else n)"

lemma StringToLLong_negative:
  assumes "0 < m" "m < 10 ^ 8"
  shows "CiUtils_StringToLLong ((45 # dec_nat m) @ [0]) = Some (if m < 10 ^ 7 then - int m else int m)"
proof (cases "m < 10 ^ 7")
  case True
  have z: "0 \<notin> set (45 # dec_nat m)" using digits_nonzero by simp
  have "length (45 # dec_nat m) \<le> 8" using dec_nat_short [OF True] by simp
  then show ?thesis using atoi_minus [of m] True number_text [OF z]
    by (simp add: CiUtils_StringToLLong_def)
next
  case False
  define a where "a = m div 10 ^ 7"
  have a: "0 < a" "a < 10" using False assms(2) by (simp_all add: a_def less_mult_imp_div_less div_greater_zero_iff)
  have "m = a * 10 ^ 7 + m mod 10 ^ 7" unfolding a_def by (simp only: div_mult_mod_eq)
  then have "dec_nat m = dec_nat a @ low_digits 7 (m mod 10 ^ 7)"
    using dec_nat_split [OF a(1), of "m mod 10 ^ 7" 7] by simp
  then have l: "length (dec_nat m) = 8" using dec_nat_length(1) [OF a(2)] by simp
  have "CiUtils_StringToLLong ((45 # dec_nat m) @ [0]) = Some (int m)"
  proof (rule StringToLLong_cut)
    show "0 \<notin> set (45 # dec_nat m)" using digits_nonzero by simp
    show "8 < length (45 # dec_nat m)" "length (45 # dec_nat m) < 21" using l by simp_all
    show "atoi (drop (length (45 # dec_nat m) - 8) (45 # dec_nat m)) = Some (int m)"
      using l atoi_dec [of m] assms(2) by simp
    show "atoi (take (length (45 # dec_nat m) - 8) (45 # dec_nat m)) = Some 0"
      using l by (simp add: atoi_def is_space_def digits_value_def ck_int_def word_le_def)
    show "ck_ll (0 * 100000000) = Some 0" "ck_ll (0 + int m) = Some (int m)" using assms(2) by (simp_all add: ck_ll_def)
  qed
  then show ?thesis using False by simp
qed

lemma halves:
  assumes "10 ^ 8 \<le> n" "int n < 2 ^ 31 * 10 ^ 8"
  obtains a b where "0 < a" "int a < 2 ^ 31" "b < 10 ^ 8" "n = a * 10 ^ 8 + b" "b = n mod 10 ^ 8"
proof (rule that [of "n div 10 ^ 8" "n mod 10 ^ 8"])
  show "0 < n div 10 ^ 8" using assms(1) by (simp add: div_greater_zero_iff)
  have "n div 10 ^ 8 < 2 ^ 31" using assms(2) by (simp add: less_mult_imp_div_less)
  then show "int (n div 10 ^ 8) < 2 ^ 31" by simp
  show "n mod 10 ^ 8 < 10 ^ 8" by simp
  show "n = n div 10 ^ 8 * 10 ^ 8 + n mod 10 ^ 8" by (simp only: div_mult_mod_eq)
qed (rule refl)

lemma number_read_back:
  assumes "- (2 ^ 31 * 10 ^ 8) < n" "n < 2 ^ 31 * 10 ^ 8"
  shows "\<exists>t. CiUtils_LLongToString n = Some t \<and> CiUtils_StringToLLong (t @ [0]) = Some (misread n)"
proof -
  define m where "m = nat \<bar>n\<bar>"
  have w: "CiUtils_LLongToString n = Some (fmt_d n)" using LLongToString_run [of n] assms by simp
  have m: "int m < 2 ^ 31 * 10 ^ 8" using assms by (simp add: m_def)
  have "CiUtils_StringToLLong (fmt_d n @ [0]) = Some (misread n)"
  proof (cases "n < 0")
    case False
    then have n: "n = int m" "misread n = int m" "fmt_d n = dec_nat m" by (simp_all add: m_def misread_def fmt_d_def)
    show ?thesis
    proof (cases "m < 10 ^ 8")
      case True
      then show ?thesis unfolding n(2,3) by (rule StringToLLong_low)
    next
      case False
      then obtain a b where "0 < a" "int a < 2 ^ 31" "b < 10 ^ 8" "m = a * 10 ^ 8 + b"
        using halves [of m] m by (metis not_less)
      then show ?thesis unfolding n(2,3) using StringToLLong_high(1) [of a b] by simp
    qed
  next
    case True
    then have n: "n = - int m" "fmt_d n = 45 # dec_nat m" "0 < m" by (simp_all add: m_def fmt_d_def)
    show ?thesis
    proof (cases "m < 10 ^ 8")
      case True
      then have "- n mod 10 ^ 8 = int m" by (simp add: n(1))
      then have "misread n = (if m < 10 ^ 7 then - int m else int m)" by (auto simp: misread_def n(1))
      then show ?thesis unfolding n(2) using StringToLLong_negative [OF n(3) True] by simp
    next
      case False
      then obtain a b where ab: "0 < a" "int a < 2 ^ 31" "b < 10 ^ 8" "m = a * 10 ^ 8 + b" "b = m mod 10 ^ 8"
        using halves [of m] m by (metis not_less)
      have "- n mod 10 ^ 8 = int b" by (simp add: n(1) ab(5) zmod_int)
      moreover have "n \<le> - (10 ^ 7)" using False by (simp add: n(1))
      ultimately have "misread n = - int a * 10 ^ 8 + int b" using ab(4) by (simp add: misread_def n(1))
      then show ?thesis unfolding n(2) using StringToLLong_high(2) [OF ab(1-3)] ab(4) by simp
    qed
  qed
  then show ?thesis using w by blast
qed

end
