(* ===== verification/File_Utils.thy ===== *)
theory File_Utils
  imports "HOL-Library.Monad_Syntax" "HOL-Library.Sublist"
begin

text \<open>
  \<open>CiUtils_MoveFile\<close>, \<open>CiUtils_CopyFile\<close> and \<open>CiUtils_RemoveFile\<close> of \<open>CiUtils.cpp\<close>.  They call
  \<open>boost::filesystem\<close>, which is a parameter: a record of functions on a state of the file system, each of
  which gives a result or throws (\<open>Inl\<close>, with the text of \<open>what()\<close>).  What its documentation says of
  them is the locale \<open>file_system\<close>.
\<close>

type_synonym path = string
type_synonym 'r thrown = "string + 'r"

record 'f fsys =
  fs_exists :: "path \<Rightarrow> 'f \<Rightarrow> bool thrown \<times> 'f"
  fs_remove_all :: "path \<Rightarrow> 'f \<Rightarrow> unit thrown \<times> 'f"
  fs_rename :: "path \<Rightarrow> path \<Rightarrow> 'f \<Rightarrow> unit thrown \<times> 'f"
  fs_copy_file :: "path \<Rightarrow> path \<Rightarrow> 'f \<Rightarrow> unit thrown \<times> 'f"
  fs_root_name :: "path \<Rightarrow> string"

section \<open>The functions\<close>

text \<open>The body of a \<open>try\<close>: an exception ends it, what was done before stays.\<close>

definition thenf :: "('f \<Rightarrow> 'r thrown \<times> 'f) \<Rightarrow> ('r \<Rightarrow> 'f \<Rightarrow> 's thrown \<times> 'f) \<Rightarrow> 'f \<Rightarrow> 's thrown \<times> 'f" where
  "thenf m k s = (case m s of (Inl e, s1) \<Rightarrow> (Inl e, s1) | (Inr r, s1) \<Rightarrow> k r s1)"

definition retf :: "'r \<Rightarrow> 'f \<Rightarrow> 'r thrown \<times> 'f" where
  "retf r s = (Inr r, s)"

text \<open>The \<open>catch\<close>: the result, \<open>_err\<close> and the state; the body says itself whether it stores an error.\<close>

definition caught :: "string \<Rightarrow> ('f \<Rightarrow> (bool \<times> string option) thrown \<times> 'f) \<Rightarrow> 'f \<Rightarrow> (bool \<times> string) \<times> 'f" where
  "caught err body s =
     (case body s of
        (Inl e, s1) \<Rightarrow> ((False, e), s1)
      | (Inr (r, None), s1) \<Rightarrow> ((r, err), s1)
      | (Inr (r, Some e), s1) \<Rightarrow> ((r, e), s1))"

definition remove_if_exists :: "'f fsys \<Rightarrow> path \<Rightarrow> 'f \<Rightarrow> unit thrown \<times> 'f" where
  "remove_if_exists F p = thenf (fs_exists F p) (\<lambda>ex. if ex then fs_remove_all F p else retf ())"

definition NO_SOURCE :: string where
  "NO_SOURCE = ''not exist the source file''"

definition CiUtils_MoveFile :: "'f fsys \<Rightarrow> path \<Rightarrow> path \<Rightarrow> string \<Rightarrow> 'f \<Rightarrow> (bool \<times> string) \<times> 'f" where
  "CiUtils_MoveFile F source target err = caught err
     (thenf (remove_if_exists F target) (\<lambda>_.
      thenf (fs_exists F source) (\<lambda>ex.
        if \<not> ex then retf (False, Some NO_SOURCE)
        else if fs_root_name F source = fs_root_name F target
        then thenf (fs_rename F source target) (\<lambda>_. retf (True, None))
        else thenf (fs_copy_file F source target) (\<lambda>_.
             thenf (fs_remove_all F source) (\<lambda>_. retf (True, None))))))"

definition CiUtils_CopyFile :: "'f fsys \<Rightarrow> path \<Rightarrow> path \<Rightarrow> string \<Rightarrow> 'f \<Rightarrow> (bool \<times> string) \<times> 'f" where
  "CiUtils_CopyFile F source target err = caught err
     (thenf (remove_if_exists F target) (\<lambda>_.
      thenf (fs_exists F source) (\<lambda>ex.
        if \<not> ex then retf (False, Some NO_SOURCE)
        else thenf (fs_copy_file F source target) (\<lambda>_. retf (True, None)))))"

definition CiUtils_RemoveFile :: "'f fsys \<Rightarrow> path \<Rightarrow> string \<Rightarrow> 'f \<Rightarrow> (bool \<times> string) \<times> 'f" where
  "CiUtils_RemoveFile F filePath err = caught err (thenf (remove_if_exists F filePath) (\<lambda>_. retf (True, None)))"

section \<open>What the file system promises\<close>

text \<open>
  \<open>there s p\<close> is that there is a file or a directory at the path \<open>p\<close>, and \<open>content s p\<close> what the regular
  file at \<open>p\<close> contains.  \<open>through s p q\<close> is that \<open>p\<close> is resolved through \<open>q\<close>: it is \<open>q\<close>, perhaps spelled
  in another way, or it leads to something in the directory \<open>q\<close>.  Of the documentation: every function may
  throw; \<open>exists\<close> changes nothing; \<open>remove_all\<close>, also when it throws, only removes, and when it does not, then
  nothing is left at its path and in it; and \<open>copy_file\<close> to a path at which there is nothing leaves
  alone what there was, and makes a copy unless it throws.  Nothing is asked of \<open>rename\<close>.  No other process is at work.
\<close>

locale file_system =
  fixes F :: "'f fsys"
    and there :: "'f \<Rightarrow> path \<Rightarrow> bool"
    and content :: "'f \<Rightarrow> path \<Rightarrow> string option"
    and through :: "'f \<Rightarrow> path \<Rightarrow> path \<Rightarrow> bool"
  assumes through_refl: "through s p p"
    and through_law: "through s p q \<Longrightarrow> there s p \<Longrightarrow> there s q"
    and exists_law: "fs_exists F p s = (ex, s1) \<Longrightarrow> s1 = s \<and> (\<forall>b. ex = Inr b \<longrightarrow> b = there s p)"
    and remove_law: "fs_remove_all F q s = (r, s1) \<Longrightarrow> there s1 x \<Longrightarrow> there s x \<and> content s1 x = content s x"
    and removed_law: "fs_remove_all F q s = (Inr (), s1) \<Longrightarrow> through s x q \<Longrightarrow> \<not> there s1 x"
    and copy_law: "fs_copy_file F p q s = (r, s1) \<Longrightarrow> \<not> there s q \<Longrightarrow> there s x \<Longrightarrow>
      there s1 x \<and> content s1 x = content s x"
    and copied_law: "fs_copy_file F p q s = (Inr (), s1) \<Longrightarrow> content s p = Some c \<Longrightarrow> content s1 q = Some c"
begin

lemma remove_if_exists_only:
  assumes "remove_if_exists F q s = (r, s1)" "there s1 x"
  shows "there s x \<and> content s1 x = content s x"
proof -
  obtain b s2 where b: "fs_exists F q s = (b, s2)" by fastforce
  show ?thesis
    using assms b exists_law [OF b] remove_law
    by (auto simp: remove_if_exists_def thenf_def retf_def split: sum.splits if_splits)
qed

lemma remove_if_exists_gone:
  assumes "remove_if_exists F q s = (Inr (), s1)" "through s x q"
  shows "\<not> there s1 x"
proof -
  obtain b s2 where b: "fs_exists F q s = (b, s2)" by fastforce
  show ?thesis
    using assms b exists_law [OF b] removed_law through_law
    by (auto simp: remove_if_exists_def thenf_def retf_def split: sum.splits if_splits)
qed

text \<open>
  The start that the copy and the move have in common: the target is removed, then the source is looked
  for.  \<open>go\<close> is what follows when it is there.
\<close>

lemma look_after_removal:
  assumes run: "caught err (thenf (remove_if_exists F q) (\<lambda>_. thenf (fs_exists F p) (\<lambda>ex.
      if \<not> ex then retf (False, Some NO_SOURCE) else go))) s = ((ok, e), s1)"
  obtains (threw) s2 where "remove_if_exists F q s = (Inl e, s2)" "\<not> ok" "s1 = s2"
  | (missed) "remove_if_exists F q s = (Inr (), s1)" "\<not> ok" "there s1 p \<Longrightarrow> \<exists>t. fs_exists F p s1 = (Inl e, t)"
  | (found) s2 where "remove_if_exists F q s = (Inr (), s2)" "there s2 p" "caught err go s2 = ((ok, e), s1)"
proof -
  obtain r s2 where r: "remove_if_exists F q s = (r, s2)" by fastforce
  obtain b s3 where b: "fs_exists F p s2 = (b, s3)" by fastforce
  note ex = exists_law [OF b]
  show ?thesis
  proof (cases r)
    case (Inl x)
    then show ?thesis using run r threw by (auto simp: caught_def thenf_def)
  next
    case r2: (Inr u)
    show ?thesis
    proof (cases b)
      case (Inl x)
      then show ?thesis using run r r2 b ex missed by (auto simp: caught_def thenf_def)
    next
      case (Inr y)
      then show ?thesis using run r r2 b ex missed found
        by (cases y) (auto simp: caught_def thenf_def retf_def)
    qed
  qed
qed

lemma CopyFile_start:
  "CiUtils_CopyFile F p q err s = caught err (thenf (remove_if_exists F q) (\<lambda>_. thenf (fs_exists F p) (\<lambda>ex.
      if \<not> ex then retf (False, Some NO_SOURCE) else thenf (fs_copy_file F p q) (\<lambda>_. retf (True, None))))) s"
  by (simp only: CiUtils_CopyFile_def)

lemma MoveFile_start:
  "\<exists>go. CiUtils_MoveFile F p q err s = caught err (thenf (remove_if_exists F q) (\<lambda>_. thenf (fs_exists F p) (\<lambda>ex.
      if \<not> ex then retf (False, Some NO_SOURCE) else go))) s"
  unfolding CiUtils_MoveFile_def by (intro exI, rule refl)

text \<open>A source that is not there, or not there any more when the target is removed.\<close>

lemma source_missed:
  assumes "caught err (thenf (remove_if_exists F q) (\<lambda>_. thenf (fs_exists F p) (\<lambda>ex.
      if \<not> ex then retf (False, Some NO_SOURCE) else go))) s = ((ok, e), s1)" and "through s p q \<or> \<not> there s p"
  shows "\<not> ok \<and> (\<not> there s1 p \<and> \<not> there s1 q \<or> (\<exists>s2. remove_if_exists F q s = (Inl e, s2)))"
  using assms(1)
proof (cases rule: look_after_removal)
  case (threw s2)
  then show ?thesis by blast
next
  case missed
  then show ?thesis
    using remove_if_exists_gone [OF missed(1)] remove_if_exists_only [OF missed(1)] through_refl assms(2) by blast
next
  case (found s2)
  then show ?thesis
    using remove_if_exists_gone [OF found(1)] remove_if_exists_only [OF found(1)] assms(2) by blast
qed

lemma source_there:
  assumes "caught err (thenf (remove_if_exists F q) (\<lambda>_. thenf (fs_exists F p) (\<lambda>ex.
      if \<not> ex then retf (False, Some NO_SOURCE) else go))) s = ((True, e), s1)"
  shows "there s p"
  using assms by (cases rule: look_after_removal) (auto dest: remove_if_exists_only)

text \<open>A copy changes nothing that the removal of the target has left, and if it succeeds it is a copy.\<close>

lemma CopyFile_run:
  assumes "CiUtils_CopyFile F p q err s = ((ok, e), s1)" "remove_if_exists F q s = (r, s2)"
  shows "(there s2 x \<longrightarrow> there s1 x \<and> content s1 x = content s x) \<and>
    (ok \<longrightarrow> e = err \<and> (\<forall>c. content s p = Some c \<longrightarrow> content s1 p = Some c \<and> content s1 q = Some c))"
  using assms(1) unfolding CopyFile_start
proof (cases rule: look_after_removal)
  case (threw t)
  then show ?thesis using assms(2) remove_if_exists_only by fastforce
next
  case missed
  then show ?thesis using assms(2) remove_if_exists_only by fastforce
next
  case (found t)
  then have t: "remove_if_exists F q s = (Inr (), s2)" "there s2 p" using assms(2) by simp_all
  obtain b s3 where b: "fs_copy_file F p q s2 = (b, s3)" by fastforce
  have 1: "s1 = s3" "ok \<longrightarrow> b = Inr () \<and> e = err"
    using found assms(2) b by (auto simp: caught_def thenf_def retf_def split: sum.splits)
  have q: "\<not> there s2 q" using remove_if_exists_gone [OF t(1) through_refl] .
  note keep = copy_law [OF b q]
  show ?thesis using keep remove_if_exists_only [OF t(1)] t(2) 1 copied_law b by fastforce
qed

lemma RemoveFile_run:
  assumes "CiUtils_RemoveFile F p err s = ((ok, e), s1)"
  shows "(ok \<longrightarrow> through s x p \<longrightarrow> \<not> there s1 x) \<and> (there s1 x \<longrightarrow> there s x \<and> content s1 x = content s x)"
proof -
  obtain r s2 where r: "remove_if_exists F p s = (r, s2)" by fastforce
  then have "s1 = s2" "ok \<longrightarrow> r = Inr ()" using assms
    by (auto simp: CiUtils_RemoveFile_def caught_def thenf_def retf_def split: sum.splits)
  then show ?thesis using remove_if_exists_only [OF r] remove_if_exists_gone r by blast
qed

end

section \<open>A file system\<close>

text \<open>
  Files and directories in a tree, with paths as POSIX has them: the components are separated by slashes, of
  which several count as one, and a dot is the directory itself.  A directory may be closed to searching
  (\<open>Folder False\<close>), and then what is asked of a path through it throws; so does a path with \<open>..\<close>,
  which this file system does not follow.
\<close>

datatype node = File string | Folder bool

type_synonym tree = "(string list \<times> node) list"

fun parts :: "path \<Rightarrow> string list" where
  "parts [] = [[]]"
| "parts (c # cs) =
     (if c = CHR ''/'' then [] # parts cs
      else case parts cs of [] \<Rightarrow> [[c]] | x # xs \<Rightarrow> (c # x) # xs)"

definition components :: "path \<Rightarrow> string list" where
  "components p = filter (\<lambda>c. c \<noteq> [] \<and> c \<noteq> ''.'') (parts p)"

definition node_at :: "tree \<Rightarrow> string list \<Rightarrow> node option" where
  "node_at t k = (if k = [] then Some (Folder True) else map_of t k)"

definition is_folder :: "node option \<Rightarrow> bool" where
  "is_folder n = (case n of Some (Folder b) \<Rightarrow> True | _ \<Rightarrow> False)"

definition in_folders :: "tree \<Rightarrow> string list \<Rightarrow> bool" where
  "in_folders t k = (\<forall>n\<in>{..<length k}. is_folder (node_at t (take n k)))"

definition barred :: "tree \<Rightarrow> string list \<Rightarrow> bool" where
  "barred t k = (''..'' \<in> set k \<or> (\<exists>n\<in>{..<length k}. node_at t (take n k) = Some (Folder False)))"

definition tree_there :: "tree \<Rightarrow> path \<Rightarrow> bool" where
  "tree_there t p = (node_at t (components p) \<noteq> None \<and> in_folders t (components p))"

definition tree_content :: "tree \<Rightarrow> path \<Rightarrow> string option" where
  "tree_content t p =
     (if tree_there t p then case node_at t (components p) of Some (File c) \<Rightarrow> Some c | _ \<Rightarrow> None else None)"

definition tree_through :: "tree \<Rightarrow> path \<Rightarrow> path \<Rightarrow> bool" where
  "tree_through t p q = prefix (components q) (components p)"

definition tree_fs :: "tree fsys" where
  "tree_fs =
     \<lparr>fs_exists = (\<lambda>p t. (if barred t (components p) then Inl ''exists'' else Inr (tree_there t p), t)),
      fs_remove_all = (\<lambda>p t.
        let k = components p in
        if barred t k \<or> k = [] \<or> (\<exists>x\<in>set t. prefix k (fst x) \<and> snd x = Folder False) then (Inl ''remove_all'', t)
        else (Inr (), filter (\<lambda>x. \<not> prefix k (fst x)) t)),
      fs_rename = (\<lambda>p q t.
        let k = components p; l = components q in
        if barred t k \<or> barred t l \<or> \<not> tree_there t p \<or> node_at t l \<noteq> None \<or> \<not> in_folders t l \<or> prefix k l
        then (Inl ''rename'', t)
        else (Inr (), map (\<lambda>x. if prefix k (fst x) then (l @ drop (length k) (fst x), snd x) else x) t)),
      fs_copy_file = (\<lambda>p q t.
        let l = components q in
        if barred t (components p) \<or> barred t l \<or> node_at t l \<noteq> None \<or> \<not> in_folders t l then (Inl ''copy_file'', t)
        else case tree_content t p of None \<Rightarrow> (Inl ''copy_file'', t) | Some c \<Rightarrow> (Inr (), (l, File c) # t)),
      fs_root_name = (\<lambda>p. [])\<rparr>"

lemma node_at_filter:
  "l \<noteq> [] \<Longrightarrow> node_at (filter (\<lambda>x. \<not> prefix l (fst x)) t) k = (if prefix l k then None else node_at t k)"
  by (induction t) (auto simp: node_at_def)

lemma node_at_Cons: "l \<noteq> [] \<Longrightarrow> node_at ((l, n) # t) k = (if k = l then Some n else node_at t k)"
  by (auto simp: node_at_def)

lemma is_folder_some: "is_folder x \<Longrightarrow> x \<noteq> None"
  by (cases x) (simp_all add: is_folder_def)

lemma tree_sub:
  assumes sub: "\<And>k. node_at t1 k \<noteq> None \<Longrightarrow> node_at t k = node_at t1 k" and "tree_there t1 x"
  shows "tree_there t x \<and> tree_content t x = tree_content t1 x"
proof -
  let ?k = "components x"
  have "node_at t ?k = node_at t1 ?k" using assms by (auto simp: tree_there_def)
  moreover have "node_at t (take n ?k) = node_at t1 (take n ?k)" if "n < length ?k" for n
  proof -
    have "is_folder (node_at t1 (take n ?k))" using assms(2) that by (simp add: tree_there_def in_folders_def)
    then show ?thesis using sub is_folder_some by blast
  qed
  ultimately show ?thesis using assms(2) by (auto simp: tree_there_def tree_content_def in_folders_def)
qed

lemma tree_through_there:
  assumes "tree_through t p q" "tree_there t p"
  shows "tree_there t q"
proof -
  obtain zs where zs: "components p = components q @ zs" using assms(1) by (auto simp: tree_through_def prefix_def)
  have f: "is_folder (node_at t (take n (components p)))" if "n < length (components p)" for n
    using assms(2) that by (simp add: tree_there_def in_folders_def)
  have "node_at t (components q) \<noteq> None"
  proof (cases zs)
    case Nil
    then show ?thesis using assms(2) zs by (simp add: tree_there_def)
  next
    case (Cons z zs')
    then show ?thesis using f [of "length (components q)"] zs by (auto dest: is_folder_some)
  qed
  moreover have "in_folders t (components q)" unfolding in_folders_def
  proof
    fix n assume "n \<in> {..<length (components q)}"
    then show "is_folder (node_at t (take n (components q)))" using f [of n] zs by simp
  qed
  ultimately show ?thesis by (simp add: tree_there_def)
qed

interpretation tree: file_system tree_fs tree_there tree_content tree_through
proof
  show "tree_through s p p" for s p by (simp add: tree_through_def)
  show "tree_there s q" if "tree_through s p q" "tree_there s p" for s p q
    using tree_through_there [OF that] .
  show "s1 = s \<and> (\<forall>b. r = Inr b \<longrightarrow> b = tree_there s p)" if "fs_exists tree_fs p s = (r, s1)" for p s r s1
    using that by (simp add: tree_fs_def) (metis Inr_inject Inl_Inr_False)
  show "tree_there s x \<and> tree_content s1 x = tree_content s x"
    if "fs_remove_all tree_fs q s = (r, s1)" "tree_there s1 x" for q s r s1 x
  proof -
    note run = that(1)
    consider "s1 = s" | "components q \<noteq> []" "s1 = filter (\<lambda>x. \<not> prefix (components q) (fst x)) s"
      using run by (auto simp: tree_fs_def Let_def split: if_splits)
    then have "node_at s1 k \<noteq> None \<Longrightarrow> node_at s k = node_at s1 k" for k
      by cases (auto simp: node_at_filter split: if_splits)
    then show ?thesis using tree_sub [of s1 s x] that(2) by simp
  qed
  show "\<not> tree_there s1 x" if "fs_remove_all tree_fs q s = (Inr (), s1)" "tree_through s x q" for q s s1 x
    using that by (auto simp: tree_fs_def Let_def tree_there_def tree_through_def node_at_filter split: if_splits)
  have copy: "s1 = s \<or> (r = Inr () \<and> components q \<noteq> [] \<and> node_at s (components q) = None \<and> in_folders s (components q) \<and>
      (\<exists>c. tree_content s p = Some c \<and> s1 = (components q, File c) # s))"
    if "fs_copy_file tree_fs p q s = (r, s1)" for p q s r s1
    using that by (auto simp: tree_fs_def Let_def node_at_def split: if_splits option.splits)
  have more: "node_at s k \<noteq> None \<Longrightarrow> node_at s1 k = node_at s k"
    if "fs_copy_file tree_fs p q s = (r, s1)" for p q s r s1 k
    using copy [OF that] by (auto simp: node_at_Cons)
  show "tree_there s1 x \<and> tree_content s1 x = tree_content s x"
    if "fs_copy_file tree_fs p q s = (r, s1)" "\<not> tree_there s q" "tree_there s x" for p q s r s1 x
    using tree_sub [of s s1 x] more [OF that(1)] that(3) by simp
  show "tree_content s1 q = Some c"
    if "fs_copy_file tree_fs p q s = (Inr (), s1)" "tree_content s p = Some c" for p q s s1 c
  proof -
    have s1: "components q \<noteq> []" "node_at s (components q) = None" "in_folders s (components q)"
      "s1 = (components q, File c) # s"
      using that by (auto simp: tree_fs_def Let_def node_at_def split: if_splits option.splits)
    have "in_folders s1 (components q)" unfolding in_folders_def
    proof
      fix n assume n: "n \<in> {..<length (components q)}"
      then have "is_folder (node_at s (take n (components q)))" using s1(3) by (simp add: in_folders_def)
      moreover from n have "take n (components q) \<noteq> components q"
        by (metis le_refl lessThan_iff not_le take_all_iff)
      ultimately show "is_folder (node_at s1 (take n (components q)))" using s1 by (simp add: node_at_Cons)
    qed
    then show ?thesis using s1(1,4) by (simp add: tree_content_def tree_there_def node_at_Cons)
  qed
qed

end
