(* ===== verification/Net_Interfaces.thy ===== *)
theory Net_Interfaces
  imports Net_Io Safe_String
begin

text \<open>
  The functions at the end of \<open>NetUtil.cpp\<close> that ask the kernel for the network interfaces of the
  host: \<open>nu_get_mac_address\<close> to \<open>nu_get_ip_from_nic\<close>, POSIX branches.  The two requests they make with
  \<open>ioctl\<close> are parameters.
\<close>

section \<open>What the kernel reports\<close>

text \<open>
  \<open>SIOCGIFCONF\<close> fills an array of entries of a name and an address, as many as fit; \<open>SIOCGIFHWADDR\<close>
  gives the six bytes of the hardware address of an interface.  Both may fail.
\<close>

record nic_calls =
  ic_conf :: "nat \<Rightarrow> (cstr \<times> i32) list option"
  ic_hwaddr :: "nat \<Rightarrow> cstr \<Rightarrow> (nat \<Rightarrow> byte) option"

definition CI_MAX_NIC_COUNT :: nat where
  "CI_MAX_NIC_COUNT = 10"

definition CI_MAX_NAME_LENGTH :: nat where
  "CI_MAX_NAME_LENGTH = 64"

text \<open>The size of \<open>ifr_name\<close> (\<open>net/if.h\<close>).\<close>

definition IFNAMSIZ :: nat where
  "IFNAMSIZ = 16"

definition sys_gifconf :: "nic_calls \<Rightarrow> nat \<Rightarrow> world \<Rightarrow> (cstr \<times> i32) list option \<times> world" where
  "sys_gifconf I room w = (map_option (take room) (ic_conf I (clock w)), tick w)"

definition sys_gifhwaddr :: "nic_calls \<Rightarrow> cstr \<Rightarrow> world \<Rightarrow> (nat \<Rightarrow> byte) option \<times> world" where
  "sys_gifhwaddr I name w = (ic_hwaddr I (clock w) name, tick w)"

section \<open>The functions\<close>

text \<open>The name is copied into \<open>ifr_name\<close> whatever its length.\<close>

definition nu_get_mac_address ::
  "kernel \<Rightarrow> nic_calls \<Rightarrow> cstr \<Rightarrow> carray \<Rightarrow> world \<Rightarrow> ((bool \<times> carray) \<times> world) option" where
  "nu_get_mac_address K I ifname addr_out w =
     (let (sockfd, w1) = sys_socket K w in
      if sockfd < 0 then Some ((False, addr_out), w1)
      else if IFNAMSIZ \<le> length ifname then None
      else let (hw, w2) = sys_gifhwaddr I ifname w1; w3 = snd (sys_close K sockfd w2) in
        case hw of
          None \<Rightarrow> Some ((False, addr_out), w3)
        | Some sa_data \<Rightarrow> map_option (\<lambda>a. ((True, a), w3)) (blit addr_out 0 (map sa_data [0..<6])))"

text \<open>
  The other four open a socket, ask for the list, and close the socket; what they do with the list
  makes no call.
\<close>

definition interfaces :: "kernel \<Rightarrow> nic_calls \<Rightarrow> world \<Rightarrow> (cstr \<times> i32) list option \<times> world" where
  "interfaces K I w =
     (let (sockfd, w1) = sys_socket K w in
      if sockfd < 0 then (None, w1)
      else let (ifr, w2) = sys_gifconf I CI_MAX_NIC_COUNT w1 in (ifr, snd (sys_close K sockfd w2)))"

definition nu_get_my_ip_address_list ::
  "kernel \<Rightarrow> nic_calls \<Rightarrow> net_calls \<Rightarrow> cstr list \<Rightarrow> world \<Rightarrow> (bool \<times> cstr list) \<times> world" where
  "nu_get_my_ip_address_list K I N ips w =
     (let (ifr, w1) = interfaces K I w in
      case ifr of
        None \<Rightarrow> ((False, ips), w1)
      | Some es \<Rightarrow> ((True, foldl (\<lambda>v e. v @ [n_text N (snd e)]) ips es), w1))"

definition nu_get_my_nic_list ::
  "kernel \<Rightarrow> nic_calls \<Rightarrow> cstr list \<Rightarrow> world \<Rightarrow> (bool \<times> cstr list) \<times> world" where
  "nu_get_my_nic_list K I nics w =
     (let (ifr, w1) = interfaces K I w in
      case ifr of
        None \<Rightarrow> ((False, nics), w1)
      | Some es \<Rightarrow> ((True, foldl (\<lambda>v e. v @ [fst e]) nics es), w1))"

text \<open>The loop does not stop at the first entry that matches.\<close>

fun copy_names :: "net_calls \<Rightarrow> cstr \<Rightarrow> (cstr \<times> i32) list \<Rightarrow> carray \<Rightarrow> carray option" where
  "copy_names N szIPAddress [] nic = Some nic"
| "copy_names N szIPAddress (e # es) nic =
     (if szIPAddress = n_text N (snd e)
      then do {
        (_, dest, _) \<leftarrow> CiStrCpy (Some nic) (Some (fst e @ [0])) (int CI_MAX_NAME_LENGTH);
        nic1 \<leftarrow> dest;
        copy_names N szIPAddress es nic1 }
      else copy_names N szIPAddress es nic)"

definition nu_get_nic_from_ip ::
  "kernel \<Rightarrow> nic_calls \<Rightarrow> net_calls \<Rightarrow> carray \<Rightarrow> cstr \<Rightarrow> world \<Rightarrow> ((bool \<times> carray) \<times> world) option" where
  "nu_get_nic_from_ip K I N szNICName szIPAddress w = do {
     (_, nic) \<leftarrow> CiStrInit szNICName;
     let (ifr, w1) = interfaces K I w;
     case ifr of
       None \<Rightarrow> Some ((False, nic), w1)
     | Some es \<Rightarrow> do {
         nic1 \<leftarrow> copy_names N szIPAddress es nic;
         Some ((True, nic1), w1) } }"

definition nu_get_ip_from_nic ::
  "kernel \<Rightarrow> nic_calls \<Rightarrow> net_calls \<Rightarrow> cstr \<Rightarrow> cstr \<Rightarrow> world \<Rightarrow> (bool \<times> cstr) \<times> world" where
  "nu_get_ip_from_nic K I N szIPAddress szNICName w =
     (let (ifr, w1) = interfaces K I w in
      case ifr of
        None \<Rightarrow> ((False, szIPAddress), w1)
      | Some es \<Rightarrow>
          ((True, foldl (\<lambda>ip e. if fst e = szNICName then n_text N (snd e) else ip) szIPAddress es), w1))"

section \<open>Sockets and the last match\<close>

text \<open>A socket that was opened is closed.\<close>

lemma interfaces_run:
  "interfaces K I w =
    (if k_socket K (clock w) < 0 then (None, tick w)
     else (map_option (take CI_MAX_NIC_COUNT) (ic_conf I (Suc (clock w))),
       (tick (tick (tick w)))\<lparr>closed_fds := closed_fds w @ [k_socket K (clock w)]\<rparr>))"
  by (simp add: interfaces_def sys_socket_def sys_gifconf_def sys_close_def Let_def)

lemma interfaces_at_most: "interfaces K I w = (Some es, w1) \<Longrightarrow> length es \<le> CI_MAX_NIC_COUNT"
  by (auto simp: interfaces_run split: if_splits)

lemma foldl_snoc: "foldl (\<lambda>v e. v @ [f e]) vs es = vs @ map f es"
  by (induction es arbitrary: vs) auto

lemma foldl_last_match:
  "foldl (\<lambda>v e. if P e then f e else v) v es = (case filter P es of [] \<Rightarrow> v | ms \<Rightarrow> f (last ms))"
  by (induction es arbitrary: v) (auto split: list.splits)

text \<open>Names as the kernel reports them.\<close>

definition names_ok :: "(cstr \<times> i32) list \<Rightarrow> bool" where
  "names_ok es \<longleftrightarrow> list_all (\<lambda>e. fst e \<noteq> [] \<and> length (fst e) < IFNAMSIZ \<and> 0 \<notin> set (fst e)) es"

text \<open>The text of the entry that matches last.\<close>

definition last_match :: "('e \<Rightarrow> bool) \<Rightarrow> ('e \<Rightarrow> cstr) \<Rightarrow> 'e list \<Rightarrow> cstr" where
  "last_match P f es = (case filter P es of [] \<Rightarrow> [] | ms \<Rightarrow> f (last ms))"

lemma copy_names_run:
  assumes "names_ok es" "CI_MAX_NAME_LENGTH \<le> length nic" "is_cstring nic"
  shows "\<exists>a. copy_names N ip es nic = Some a \<and> length a = length nic \<and> is_cstring a \<and>
    text_of a = (case filter (\<lambda>e. ip = n_text N (snd e)) es of [] \<Rightarrow> text_of nic | ms \<Rightarrow> fst (last ms))"
  using assms
proof (induction es arbitrary: nic)
  case (Cons e es)
  then have ok: "names_ok es" "length (fst e) < IFNAMSIZ" "0 \<notin> set (fst e)" by (simp_all add: names_ok_def)
  show ?case
  proof (cases "ip = n_text N (snd e)")
    case True
    have t: "is_cstring (fst e @ [0])" "text_of (fst e @ [0]) = fst e"
      using text_of_terminated [OF ok(3), of "[]"] by (simp_all add: is_cstring_def)
    obtain a where a: "CiStrCpy (Some nic) (Some (fst e @ [0])) (int CI_MAX_NAME_LENGTH) =
        Some (length (fst e) < CI_MAX_NAME_LENGTH, Some a, length (fst e))" "length a = length nic" "is_cstring a"
      "text_of a = take (CI_MAX_NAME_LENGTH - 1) (fst e)"
      using CiStrCpy_run [OF t(1), of "int CI_MAX_NAME_LENGTH" nic] Cons.prems(2) t(2)
      by (auto simp: CI_MAX_NAME_LENGTH_def)
    have "text_of a = fst e" using a(4) ok(2) by (simp add: CI_MAX_NAME_LENGTH_def IFNAMSIZ_def)
    with Cons.IH [OF ok(1), of a] Cons.prems(2) a(1-3) True show ?thesis by (auto split: list.splits)
  next
    case False
    then show ?thesis using Cons.IH [OF ok(1) Cons.prems(2,3)] by simp
  qed
qed simp

lemma CiStrInit_run: "0 < length a \<Longrightarrow> CiStrInit a = Some (True, a[0 := 0])"
  by (simp add: CiStrInit_def set_char_def)

lemma init_text: "0 < length a \<Longrightarrow> is_cstring (a[0 := 0]) \<and> text_of (a[0 := 0]) = []"
  by (cases a) simp_all

lemma nu_get_nic_from_ip_run:
  assumes "interfaces K I w = (Some es, w1)" "names_ok es" "CI_MAX_NAME_LENGTH \<le> length nic"
  shows "\<exists>a. nu_get_nic_from_ip K I N nic ip w = Some ((True, a), w1) \<and> length a = length nic \<and> is_cstring a \<and>
    text_of a = last_match (\<lambda>e. ip = n_text N (snd e)) fst es"
proof -
  have l: "0 < length nic" using assms(3) unfolding CI_MAX_NAME_LENGTH_def by linarith
  from copy_names_run [OF assms(2), of "nic[0 := 0]" N ip] init_text [OF l] assms(3) obtain a where
    "copy_names N ip es (nic[0 := 0]) = Some a" "length a = length nic" "is_cstring a"
    "text_of a = last_match (\<lambda>e. ip = n_text N (snd e)) fst es"
    by (auto simp: last_match_def split: list.splits)
  then show ?thesis using assms(1) by (simp add: nu_get_nic_from_ip_def CiStrInit_run [OF l])
qed

lemma nu_get_ip_from_nic_run:
  assumes "interfaces K I w = (Some es, w1)"
  shows "nu_get_ip_from_nic K I N ip name w =
    ((True, case filter (\<lambda>e. fst e = name) es of [] \<Rightarrow> ip | ms \<Rightarrow> n_text N (snd (last ms))), w1)"
  by (simp add: nu_get_ip_from_nic_def assms foldl_last_match)

text \<open>With different names, the name found for an address has that address.\<close>

lemma last_match_in:
  assumes "last_match P f es \<noteq> []"
  obtains e where "e \<in> set es" "P e" "last_match P f es = f e"
proof -
  from assms have ne: "filter P es \<noteq> []" by (auto simp: last_match_def)
  have "last (filter P es) \<in> set es" "P (last (filter P es))" using last_in_set [OF ne] by auto
  moreover have "last_match P f es = f (last (filter P es))" using ne by (auto simp: last_match_def split: list.splits)
  ultimately show thesis by (rule that)
qed

lemma filter_key:
  assumes "distinct (map fst es)" "e \<in> set es"
  shows "filter (\<lambda>x. fst x = fst e) es = [e]"
  using assms by (induction es) (auto simp: filter_empty_conv rev_image_eqI)

lemma name_has_address:
  assumes "distinct (map fst es)" "name = last_match (\<lambda>e. ip = n_text N (snd e)) fst es" "name \<noteq> []"
    and "interfaces K I w = (Some es, w1)"
  shows "nu_get_ip_from_nic K I N s name w = ((True, ip), w1)"
proof -
  from assms(2,3) obtain e where "e \<in> set es" "ip = n_text N (snd e)" "name = fst e"
    using last_match_in [of "\<lambda>e. ip = n_text N (snd e)" fst es] by metis
  then show ?thesis using filter_key [OF assms(1)] by (simp add: nu_get_ip_from_nic_run [OF assms(4)])
qed

lemma no_match: "names_ok es \<Longrightarrow> last_match P fst es = [] \<longleftrightarrow> (\<forall>e \<in> set es. \<not> P e)"
proof -
  assume ok: "names_ok es"
  show ?thesis
  proof (cases "filter P es = []")
    case True
    then show ?thesis by (auto simp: last_match_def filter_empty_conv)
  next
    case False
    then have "last (filter P es) \<in> set es" "P (last (filter P es))" using last_in_set [OF False] by auto
    moreover from this ok have "fst (last (filter P es)) \<noteq> []" by (auto simp: names_ok_def list_all_iff)
    ultimately show ?thesis using False by (auto simp: last_match_def split: list.splits)
  qed
qed

lemma lists_run:
  "interfaces K I w = (Some es, w1) \<Longrightarrow>
     nu_get_my_ip_address_list K I N ips w = ((True, ips @ map (\<lambda>e. n_text N (snd e)) es), w1)"
  "interfaces K I w = (Some es, w1) \<Longrightarrow> nu_get_my_nic_list K I nics w = ((True, nics @ map fst es), w1)"
  by (simp_all add: nu_get_my_ip_address_list_def nu_get_my_nic_list_def foldl_snoc)

end
