(* ===== verification/Double.thy ===== *)
theory Double
  imports Time_Span "HOL-Library.Log_Nat"
begin

text \<open>
  The machine's \<open>float\<close> and \<open>double\<close>, as instances of the arithmetic (\<open>fpu\<close>) that the conversions of
  \<open>MTimeSpan2.cpp\<close> and \<open>CiUtils_GetCPUInfo_UsagePercent\<close> take as a parameter.  A number is a rational, and
  every operation rounds its exact result to 24 or 53 significant bits, to the nearest and in the
  middle to even, as IEEE 754 has it.  The exponent is not bounded, so overflow and numbers too small
  to be normal are left out; neither is met with integers of 64 bits, their quotients and
  a hundred times those.
\<close>

section \<open>Rounding\<close>

definition round_even :: "rat \<Rightarrow> int" where
  "round_even x =
     (let f = \<lfloor>x\<rfloor>; r = x - of_int f in if r < 1 / 2 \<or> (r = 1 / 2 \<and> even f) then f else f + 1)"

text \<open>The exponent of a positive number: that of the largest power of two that is not above it.\<close>

definition expo :: "rat \<Rightarrow> int" where
  "expo x =
     (let (n, d) = quotient_of x; k = bitlen n - bitlen d in if x < 2 powi k then k - 1 else k)"

definition fl_pos :: "nat \<Rightarrow> rat \<Rightarrow> rat" where
  "fl_pos prec x =
     (let e = expo x - (int prec - 1) in of_int (round_even (x / 2 powi e)) * 2 powi e)"

definition fl :: "nat \<Rightarrow> rat \<Rightarrow> rat" where
  "fl prec x = (if x = 0 then 0 else if x < 0 then - fl_pos prec (- x) else fl_pos prec x)"

definition machine_fpu :: "(rat, rat) fpu" where
  "machine_fpu =
     \<lparr>f_of_int = (\<lambda>n. fl 24 (of_int n)), f_mul = (\<lambda>x y. fl 24 (x * y)), f_div = (\<lambda>x y. fl 24 (x / y)),
      f_eq = (=), f_to_int = rat_trunc, f_to_ll = rat_trunc, d_of_int = (\<lambda>n. fl 53 (of_int n)),
      d_of_f = (\<lambda>x. x), d_half = 1 / 2, d_add = (\<lambda>x y. fl 53 (x + y)), d_mul = (\<lambda>x y. fl 53 (x * y)),
      d_div = (\<lambda>x y. fl 53 (x / y)), d_to_int = rat_trunc\<rparr>"

section \<open>Properties of the rounding\<close>

lemma round_even_int [simp]: "round_even (of_int n) = n"
  by (simp add: round_even_def)

lemma round_even_near: "\<bar>of_int (round_even x) - x\<bar> \<le> 1 / 2"
proof -
  let ?f = "of_int \<lfloor>x\<rfloor> :: rat"
  have f: "?f \<le> x" "x < ?f + 1" by linarith+
  show ?thesis
  proof (cases "x - ?f < 1 / 2 \<or> (x - ?f = 1 / 2 \<and> even \<lfloor>x\<rfloor>)")
    case True
    then have "x - ?f \<le> 1 / 2" by auto
    moreover have "of_int (round_even x) = ?f" using True by (simp add: round_even_def Let_def)
    ultimately show ?thesis using f(1) by linarith
  next
    case False
    then have "1 / 2 \<le> x - ?f" by auto
    moreover have "of_int (round_even x) = ?f + 1" using False by (simp add: round_even_def Let_def)
    ultimately show ?thesis using f(2) by linarith
  qed
qed

lemma round_even_mono:
  assumes "x \<le> y" shows "round_even x \<le> round_even y"
proof (rule ccontr)
  assume "\<not> round_even x \<le> round_even y"
  then have "round_even y + 1 \<le> round_even x" by simp
  then have "of_int (round_even y) + 1 \<le> (of_int (round_even x) :: rat)"
    by (metis of_int_1 of_int_add of_int_le_iff)
  then have "x = y" using round_even_near [of x] round_even_near [of y] assms by linarith
  then show False using \<open>\<not> round_even x \<le> round_even y\<close> by simp
qed

lemma two_powi_pos [simp]: "0 < (2 powi k :: rat)"
  by (simp add: zero_less_power_int)

lemma two_powi_le: "(2 powi j :: rat) \<le> 2 powi k \<longleftrightarrow> j \<le> k"
proof
  assume "(2 powi j :: rat) \<le> 2 powi k"
  then show "j \<le> k" using power_int_strict_increasing [of k j "2 :: rat"] by force
qed (simp add: power_int_increasing)

lemma two_powi_less: "(2 powi j :: rat) < 2 powi k \<longleftrightarrow> j < k"
  using two_powi_le [of k j] by linarith

lemma two_powi_Suc: "(2 powi (k + 1) :: rat) = 2 * 2 powi k"
  by (simp add: power_int_add)

lemma two_powi_nat: "0 \<le> k \<Longrightarrow> (2 powi k :: rat) = of_int (2 ^ nat k)"
  by (simp add: power_int_def)

lemma bitlen_powi:
  assumes "0 < n"
  shows "2 powi (bitlen n - 1) \<le> (of_int n :: rat)" "(of_int n :: rat) < 2 powi bitlen n"
proof -
  have "bitlen n \<noteq> 0" using assms bitlen_eq_zero_iff [of n] by simp
  then have b: "0 < bitlen n" using bitlen_nonneg [of n] by simp
  have "2 ^ nat (bitlen n - 1) \<le> n" "n < 2 ^ nat (bitlen n)" using bitlen_bounds [OF assms] by simp_all
  then show "2 powi (bitlen n - 1) \<le> (of_int n :: rat)" "(of_int n :: rat) < 2 powi bitlen n"
    using b by (simp_all only: two_powi_nat of_int_le_iff of_int_less_iff)
qed

lemma expo_bounds:
  assumes "0 < x"
  shows "2 powi expo x \<le> x" "x < 2 powi (expo x + 1)"
proof -
  obtain n d where q: "quotient_of x = (n, d)" by fastforce
  have d: "0 < d" using quotient_of_denom_pos [OF q] .
  have x: "x = of_int n / of_int d" using quotient_of_div [OF q] .
  have n: "0 < n" using assms d by (simp add: x zero_less_divide_iff)
  let ?k = "bitlen n - bitlen d"
  note bn = bitlen_powi [OF n] and bd = bitlen_powi [OF d]
  have k: "2 powi (?k - 1) * of_int d \<le> (of_int n :: rat)"
  proof -
    have "2 powi (?k - 1) * of_int d \<le> (2 powi (?k - 1) * 2 powi bitlen d :: rat)"
      using bd(2) by (intro mult_left_mono) simp_all
    also have "\<dots> = 2 powi (bitlen n - 1)" by (simp flip: power_int_add)
    finally show ?thesis using bn(1) by linarith
  qed
  have k': "of_int n < (2 powi (?k + 1) * of_int d :: rat)"
  proof -
    have "(2 powi bitlen n :: rat) = 2 powi (?k + 1) * 2 powi (bitlen d - 1)" by (simp flip: power_int_add)
    also have "\<dots> \<le> 2 powi (?k + 1) * of_int d" using bd(1) by (intro mult_left_mono) simp_all
    finally show ?thesis using bn(2) by linarith
  qed
  have lo: "2 powi (?k - 1) \<le> x" and hi: "x < 2 powi (?k + 1)"
    using k k' d by (simp_all add: x pos_le_divide_eq pos_divide_less_eq)
  show "2 powi expo x \<le> x" "x < 2 powi (expo x + 1)"
    using lo hi by (auto simp: expo_def q Let_def)
qed

lemma expo_mono:
  assumes "0 < x" "x \<le> y" shows "expo x \<le> expo y"
proof -
  have "2 powi expo x < (2 powi (expo y + 1) :: rat)"
    using expo_bounds(1) [OF assms(1)] expo_bounds(2) [of y] assms by linarith
  then show ?thesis by (simp add: two_powi_less)
qed

text \<open>The scaled number lies between two powers of two, and so does what it is rounded to.\<close>

lemma scaled:
  assumes "0 < x" "0 < prec"
  defines "e \<equiv> expo x - (int prec - 1)"
  shows "2 ^ (prec - 1) \<le> x / 2 powi e" "x / 2 powi e < 2 ^ prec"
proof -
  have "(2 ^ (prec - 1) :: rat) * 2 powi e = 2 powi (int (prec - 1) + e)"
    by (simp add: power_int_add)
  also have "\<dots> = 2 powi expo x" using assms(2) by (simp add: e_def of_nat_diff)
  finally show "2 ^ (prec - 1) \<le> x / 2 powi e" using expo_bounds(1) [OF assms(1)] by (simp add: pos_le_divide_eq)
  have "(2 ^ prec :: rat) * 2 powi e = 2 powi (int prec + e)" by (simp add: power_int_add)
  also have "\<dots> = 2 powi (expo x + 1)" by (simp add: e_def)
  finally show "x / 2 powi e < 2 ^ prec" using expo_bounds(2) [OF assms(1)] by (simp add: pos_divide_less_eq)
qed

lemma fl_pos_bounds:
  assumes "0 < x" "0 < prec"
  shows "2 powi expo x \<le> fl_pos prec x" "fl_pos prec x \<le> 2 powi (expo x + 1)"
proof -
  let ?e = "expo x - (int prec - 1)" let ?s = "x / 2 powi ?e"
  note s = scaled [OF assms]
  have "round_even (of_int (2 ^ (prec - 1))) \<le> round_even ?s" "round_even ?s \<le> round_even (of_int (2 ^ prec))"
    using s by (intro round_even_mono; simp)+
  then have r: "2 ^ (prec - 1) \<le> round_even ?s" "round_even ?s \<le> 2 ^ prec" by (simp_all only: round_even_int)
  have "(of_int (2 ^ (prec - 1)) :: rat) * 2 powi ?e \<le> fl_pos prec x"
    "fl_pos prec x \<le> (of_int (2 ^ prec) :: rat) * 2 powi ?e"
    unfolding fl_pos_def Let_def using r by (intro mult_right_mono, simp_all only: of_int_le_iff, simp)+
  moreover have "(of_int (2 ^ (prec - 1)) :: rat) * 2 powi ?e = 2 powi expo x"
  proof -
    have "(of_int (2 ^ (prec - 1)) :: rat) * 2 powi ?e = 2 powi (int (prec - 1) + ?e)" by (simp add: power_int_add)
    then show ?thesis using assms(2) by (simp add: of_nat_diff)
  qed
  moreover have "(of_int (2 ^ prec) :: rat) * 2 powi ?e = 2 powi (expo x + 1)"
  proof -
    have "(of_int (2 ^ prec) :: rat) * 2 powi ?e = 2 powi int prec * 2 powi ?e" by simp
    also have "\<dots> = 2 powi (int prec + ?e)" by (rule power_int_add [symmetric]) simp
    also have "int prec + ?e = expo x + 1" by simp
    finally show ?thesis .
  qed
  ultimately show "2 powi expo x \<le> fl_pos prec x" "fl_pos prec x \<le> 2 powi (expo x + 1)" by simp_all
qed

lemma fl_pos_near:
  assumes "0 < x" "0 < prec"
  shows "\<bar>fl_pos prec x - x\<bar> \<le> x / 2 ^ prec"
proof -
  let ?e = "expo x - (int prec - 1)" let ?s = "x / 2 powi ?e"
  have "fl_pos prec x - x = (of_int (round_even ?s) - ?s) * 2 powi ?e"
    by (simp add: fl_pos_def Let_def left_diff_distrib)
  then have "\<bar>fl_pos prec x - x\<bar> = \<bar>of_int (round_even ?s) - ?s\<bar> * 2 powi ?e" by (simp add: abs_mult)
  also have "\<dots> \<le> 1 / 2 * 2 powi ?e" using round_even_near by (intro mult_right_mono) simp_all
  also have "\<dots> = 2 powi expo x / 2 ^ prec"
  proof -
    have "(2 powi int prec * 2 powi ?e :: rat) = 2 powi (int prec + ?e)" by (rule power_int_add [symmetric]) simp
    also have "int prec + ?e = expo x + 1" by simp
    also have "(2 powi (expo x + 1) :: rat) = 2 * 2 powi expo x" by (rule two_powi_Suc)
    finally have "2 ^ prec * 2 powi ?e = 2 * (2 powi expo x :: rat)" by simp
    then show ?thesis by (simp add: field_simps)
  qed
  also have "\<dots> \<le> x / 2 ^ prec" using expo_bounds(1) [OF assms(1)] by (simp add: divide_right_mono)
  finally show ?thesis .
qed

lemma fl_pos_mono:
  assumes "0 < x" "x \<le> y" "0 < prec"
  shows "fl_pos prec x \<le> fl_pos prec y"
proof (cases "expo x = expo y")
  case True
  have "x / 2 powi (expo y - (int prec - 1)) \<le> y / 2 powi (expo y - (int prec - 1))"
    using assms(2) by (intro divide_right_mono) simp_all
  from round_even_mono [OF this] show ?thesis
    unfolding fl_pos_def Let_def True by (intro mult_right_mono) simp_all
next
  case False
  then have "expo x + 1 \<le> expo y" using expo_mono [OF assms(1,2)] by simp
  then have "2 powi (expo x + 1) \<le> (2 powi expo y :: rat)" by (simp add: two_powi_le)
  then show ?thesis using fl_pos_bounds [OF assms(1,3)] fl_pos_bounds(1) [of y prec] assms by linarith
qed

lemma fl_pos_pos: "0 < x \<Longrightarrow> 0 < prec \<Longrightarrow> 0 < fl_pos prec x"
  using fl_pos_bounds(1) [of x prec] two_powi_pos [of "expo x"] by linarith

lemma fl_0 [simp]: "fl prec 0 = 0"
  by (simp add: fl_def)

lemma fl_minus: "fl prec (- x) = - fl prec x"
  by (simp add: fl_def)

lemma fl_mono:
  assumes "x \<le> y" "0 < prec"
  shows "fl prec x \<le> fl prec y"
proof -
  consider "0 < x" | "y < 0" | "x \<le> 0" "0 \<le> y" by linarith
  then show ?thesis
  proof cases
    case 1
    then show ?thesis using fl_pos_mono [OF 1 assms] assms by (simp add: fl_def)
  next
    case 2
    then show ?thesis using fl_pos_mono [of "- y" "- x" prec] assms by (simp add: fl_def)
  next
    case 3
    then show ?thesis using fl_pos_pos [of y prec] fl_pos_pos [of "- x" prec] assms by (auto simp: fl_def)
  qed
qed

lemma fl_near:
  assumes "0 < prec"
  shows "\<bar>fl prec x - x\<bar> \<le> \<bar>x\<bar> / 2 ^ prec"
proof -
  have n: "\<bar>fl prec z - z\<bar> \<le> \<bar>z\<bar> / 2 ^ prec" if "0 < z" for z
    using fl_pos_near [OF that assms] that by (simp add: fl_def)
  have m: "fl prec x - x = - (fl prec (- x) - - x)" by (simp add: fl_minus)
  consider "x = 0" | "0 < x" | "0 < - x" by linarith
  then show ?thesis
  proof cases
    case 3
    have "\<bar>fl prec x - x\<bar> = \<bar>fl prec (- x) - - x\<bar>" unfolding m abs_minus_cancel ..
    then show ?thesis using n [OF 3] by simp
  next
    case 2
    then show ?thesis using n [OF 2] by simp
  qed simp
qed

text \<open>Integers that have no more bits are not rounded.\<close>

lemma fl_int:
  assumes "\<bar>n\<bar> < 2 ^ prec" "0 < prec"
  shows "fl prec (of_int n) = of_int n"
proof -
  have pos: "fl_pos prec (of_int m) = of_int m" if m: "0 < m" "m < 2 ^ prec" for m
  proof -
    let ?e = "expo (of_int m) - (int prec - 1)"
    have "2 powi expo (of_int m) \<le> (of_int m :: rat)" using expo_bounds(1) m by simp
    moreover have "(of_int m :: rat) < of_int (2 ^ prec)" using m(2) by (simp only: of_int_less_iff)
    ultimately have "2 powi expo (of_int m) < (of_int (2 ^ prec) :: rat)" by (rule le_less_trans)
    then have "2 powi expo (of_int m) < (2 powi int prec :: rat)" by simp
    then have e: "?e \<le> 0" unfolding two_powi_less by simp
    have "(of_int m :: rat) / 2 powi ?e = of_int m * 2 powi (- ?e)" by (simp only: power_int_minus divide_inverse)
    also have "\<dots> = of_int (m * 2 ^ nat (- ?e))" using e by (simp only: two_powi_nat of_int_mult)
    finally have i: "(of_int m :: rat) / 2 powi ?e = of_int (m * 2 ^ nat (- ?e))" .
    have "fl_pos prec (of_int m) = of_int (m * 2 ^ nat (- ?e)) * 2 powi ?e"
      unfolding fl_pos_def Let_def i round_even_int ..
    also have "\<dots> = of_int m" unfolding i [symmetric] by simp
    finally show ?thesis .
  qed
  show ?thesis using pos [of n] pos [of "- n"] assms(1) by (auto simp: fl_def abs_if split: if_splits)
qed

end
