(* ===== verification/Sys_Info.thy ===== *)
theory Sys_Info
  imports Ci_Utils Socket_Send Double
begin

text \<open>
  The functions of \<open>CiUtils.cpp\<close> that read the output of a command or of \<open>/proc/stat\<close>:
  \<open>CiUtils_GetDiskInfo\<close>, \<open>CiUtils_GetCPUInfo_UsagePercent\<close>, \<open>CiUtils_GetMemInfo\<close> and
  \<open>CiUtils_GetNicInfo\<close>, POSIX branches.  The shell is a parameter: for a command and the files there are it gives
  what \<open>system\<close> returns and the files there are then.
\<close>

section \<open>Files, lines and numbers\<close>

type_synonym files = "cstr \<Rightarrow> byte list option"
type_synonym shell = "cstr \<Rightarrow> files \<Rightarrow> int \<times> files"

definition remove_file :: "cstr \<Rightarrow> files \<Rightarrow> files" where
  "remove_file p fs = fs(p := None)"

text \<open>\<open>snprintf\<close> with the size \<open>n\<close>: what the array holds then.\<close>

definition snprintf_text :: "nat \<Rightarrow> cstr \<Rightarrow> cstr" where
  "snprintf_text n t = take (n - 1) t"

text \<open>
  \<open>fgets\<close> into \<open>n\<close> bytes: up to and with the end of the line, but at most \<open>n - 1\<close> bytes; what it
  read and the rest of the file.  It gives \<open>NULL\<close> at the end of the file.
\<close>

definition fgets :: "nat \<Rightarrow> byte list \<Rightarrow> (byte list \<times> byte list) option" where
  "fgets n s =
     (let k = min (n - 1) (length (takeWhile (\<lambda>c. c \<noteq> 10) s) + 1)
      in if s = [] then None else Some (take k s, drop k s))"

text \<open>The loop that reads lines until one has \<open>pat\<close> in it; the text from there on.\<close>

function find_line :: "cstr \<Rightarrow> byte list \<Rightarrow> cstr option" where
  "find_line pat s =
     (case fgets 256 s of
        None \<Rightarrow> None
      | Some (l, rest) \<Rightarrow>
          (case str_find pat (text_of l) of
             Some i \<Rightarrow> Some (drop i (text_of l))
           | None \<Rightarrow> find_line pat rest))"
  by pat_completeness auto
termination by (relation "measure (\<lambda>(pat, s). length s)") (auto simp: fgets_def Let_def split: if_splits)

declare find_line.simps [simp del]

text \<open>What follows \<open>pat\<close>, without spaces.\<close>

definition after_key :: "cstr \<Rightarrow> cstr \<Rightarrow> cstr" where
  "after_key pat t = dropWhile is_space (drop (length pat) t)"

text \<open>
  \<open>%lld\<close> of \<open>sscanf\<close>: spaces, a sign, at least a digit; a number that does not fit is undefined.
  \<open>scan_lls\<close> reads at most \<open>n\<close> of them and stops at the first that is not there.
\<close>

definition scan_ll :: "cstr \<Rightarrow> (int \<times> cstr) option option" where
  "scan_ll s =
     (let s1 = dropWhile is_space s;
          neg = (s1 \<noteq> [] \<and> hd s1 = 45);
          s2 = (if s1 \<noteq> [] \<and> (hd s1 = 45 \<or> hd s1 = 43) then tl s1 else s1);
          ds = takeWhile is_digit s2
      in if ds = [] then Some None
         else do {
           v \<leftarrow> ck_ll (if neg then - digits_value ds else digits_value ds);
           Some (Some (v, dropWhile is_digit s2)) })"

fun scan_lls :: "nat \<Rightarrow> cstr \<Rightarrow> (int list \<times> cstr) option" where
  "scan_lls 0 s = Some ([], s)"
| "scan_lls (Suc n) s = do {
     r \<leftarrow> scan_ll s;
     case r of
       None \<Rightarrow> Some ([], s)
     | Some (v, s1) \<Rightarrow> do {
         (vs, s2) \<leftarrow> scan_lls n s1;
         Some (v # vs, s2) } }"

text \<open>\<open>%s\<close>: spaces, then everything up to the next one, at least a character.\<close>

definition scan_s :: "cstr \<Rightarrow> (cstr \<times> cstr) option" where
  "scan_s s =
     (let s1 = dropWhile is_space s
      in if s1 = [] then None
         else Some (takeWhile (\<lambda>c. \<not> is_space c) s1, dropWhile (\<lambda>c. \<not> is_space c) s1))"

section \<open>The file system of a path\<close>

text \<open>
  \<open>sscanf\<close> of the line of \<open>df\<close>: a path, three numbers, a percentage, a mount point.  The array of a text
  that is not reached keeps what it had.
\<close>

definition scan_df :: "(nat \<Rightarrow> byte) \<Rightarrow> cstr \<Rightarrow> (carray \<times> carray) option" where
  "scan_df junk line =
     (case scan_s line of
        None \<Rightarrow> Some (new_array junk 256, new_array junk 256)
      | Some (path, r1) \<Rightarrow> do {
          p \<leftarrow> sprintf_into (new_array junk 256) path;
          (vs, r2) \<leftarrow> scan_lls 3 r1;
          m \<leftarrow> (if length vs < 3 then Some (new_array junk 256)
               else case scan_s r2 of
                 None \<Rightarrow> Some (new_array junk 256)
               | Some (percent, r3) \<Rightarrow>
                   (case scan_s r3 of
                      None \<Rightarrow> Some (new_array junk 256)
                    | Some (mount, r4) \<Rightarrow> sprintf_into (new_array junk 256) mount));
          Some (p, m) })"

definition df_result :: cstr where
  "df_result = lit ''df_result''"

definition df_command :: "cstr \<Rightarrow> cstr" where
  "df_command path = snprintf_text (3 + 256) (lit ''df '' @ path @ lit '' > '' @ df_result)"

definition CiUtils_GetDiskInfo ::
  "(nat \<Rightarrow> byte) \<Rightarrow> shell \<Rightarrow> cstr option \<Rightarrow> carray option \<Rightarrow> carray option \<Rightarrow> files \<Rightarrow>
     ((bool \<times> carray option \<times> carray option) \<times> files) option" where
  "CiUtils_GetDiskInfo junk sh pszPath pathOut mountOut fs =
     (case pszPath of
        None \<Rightarrow> Some ((False, pathOut, mountOut), fs)
      | Some path \<Rightarrow>
          if pathOut = None \<or> mountOut = None then Some ((False, pathOut, mountOut), fs)
          else
            let (ret, fs1) = sh (df_command path) fs; failed = ((False, pathOut, mountOut), remove_file df_result fs1) in
            if ret < 0 then Some failed
            else case fs1 df_result of
              None \<Rightarrow> Some failed
            | Some s \<Rightarrow>
                (case fgets 256 s of
                   None \<Rightarrow> Some failed
                 | Some (l1, s1) \<Rightarrow>
                     (case fgets 256 s1 of
                        None \<Rightarrow> Some failed
                      | Some (l2, s2) \<Rightarrow> do {
                          (p, m) \<leftarrow> scan_df junk (text_of l2);
                          (_, p1, _) \<leftarrow> CiStrCpy pathOut (Some p) (256 + 1);
                          (_, m1, _) \<leftarrow> CiStrCpy mountOut (Some m) (256 + 1);
                          Some ((True, p1, m1), remove_file df_result fs1) })))"

section \<open>The processor\<close>

record cpu_info =
  llAllCPUTime :: int
  llIdleTime :: int

definition CiCpu_Info :: cpu_info where
  "CiCpu_Info = \<lparr>llAllCPUTime = 0, llIdleTime = 0\<rparr>"

text \<open>The conversion of a double to \<open>unsigned int\<close> is undefined when its integer part does not fit.\<close>

definition ck_uint :: "int \<Rightarrow> int option" where
  "ck_uint x = (if 0 \<le> x \<and> x < 2 ^ 32 then Some x else None)"

text \<open>\<open>stat\<close> is the content of \<open>/proc/stat\<close>, if it can be opened.\<close>

definition cpu_times :: "byte list option \<Rightarrow> (int \<times> int \<times> int \<times> int) option option" where
  "cpu_times stat =
     (case stat of
        None \<Rightarrow> Some None
      | Some s \<Rightarrow>
          (case find_line (lit ''cpu'') s of
             None \<Rightarrow> Some None
           | Some t \<Rightarrow> do {
               (vs, _) \<leftarrow> scan_lls 4 (after_key (lit ''cpu'') t);
               Some (case vs of [u, n, sy, i] \<Rightarrow> Some (u, n, sy, i) | _ \<Rightarrow> None) }))"

definition CiUtils_GetCPUInfo_UsagePercent ::
  "('f, 'd) fpu \<Rightarrow> byte list option \<Rightarrow> cpu_info option \<Rightarrow> (int \<times> cpu_info option) option" where
  "CiUtils_GetCPUInfo_UsagePercent F stat CiInfo =
     (case CiInfo of
        None \<Rightarrow> Some (- 1, None)
      | Some c \<Rightarrow> do {
          r \<leftarrow> cpu_times stat;
          case r of
            None \<Rightarrow> Some (- 1, Some c)
          | Some (u, n, sy, i) \<Rightarrow> do {
              un \<leftarrow> ck_ll (u + n);
              uns \<leftarrow> ck_ll (un + sy);
              a \<leftarrow> ck_ll (uns + i);
              if llAllCPUTime c < a then do {
                di \<leftarrow> ck_ll (i - llIdleTime c);
                da \<leftarrow> ck_ll (a - llAllCPUTime c);
                p \<leftarrow> ck_uint (d_to_int F (d_mul F (d_div F (d_of_int F di) (d_of_int F da)) (d_of_int F 100)));
                Some ((100 - p) mod 2 ^ 32, Some \<lparr>llAllCPUTime = a, llIdleTime = i\<rparr>) }
              else Some (0, Some c) } })"

definition CiUtils_GetCPUInfo_CreateInstance :: "cpu_info option" where
  "CiUtils_GetCPUInfo_CreateInstance = Some CiCpu_Info"

definition CiUtils_GetCPUInfo_DeleteInstance :: "cpu_info option \<Rightarrow> bool" where
  "CiUtils_GetCPUInfo_DeleteInstance CiInfo \<longleftrightarrow> CiInfo \<noteq> None"

section \<open>The memory\<close>

definition free_result :: cstr where
  "free_result = lit ''/dev/shm/free_result''"

definition cache_key :: cstr where
  "cache_key = lit ''-/+ buffers/cache:''"

definition free_command :: cstr where
  "free_command = snprintf_text (256 + 20) (lit ''free > '' @ free_result @ lit '' 2> /dev/null'')"

definition CiUtils_GetMemInfo :: "shell \<Rightarrow> files \<Rightarrow> ((bool \<times> (int \<times> int) option) \<times> files) option" where
  "CiUtils_GetMemInfo sh fs =
     (let (ret, fs1) = sh free_command fs in
      if ret < 0 then Some ((False, None), fs1)
      else case fs1 free_result of
        None \<Rightarrow> Some ((False, None), fs1)
      | Some s \<Rightarrow>
          (case find_line cache_key s of
             None \<Rightarrow> Some ((True, Some (0, 0)), remove_file free_result fs1)
           | Some t \<Rightarrow> do {
               (vs, _) \<leftarrow> scan_lls 2 (after_key cache_key t);
               case vs of
                 [used, avail] \<Rightarrow> do {
                   total \<leftarrow> ck_ll (used + avail);
                   Some ((True, Some (total, avail)), remove_file free_result fs1) }
               | _ \<Rightarrow> Some ((False, None), fs1) }))"

section \<open>The network cards\<close>

definition ethtool_result :: cstr where
  "ethtool_result = lit ''/dev/shm/ethtool_result''"

definition link_key :: cstr where
  "link_key = lit ''Link detected:''"

definition ethtool_command :: "int \<Rightarrow> cstr" where
  "ethtool_command i = snprintf_text (3 + 256)
     (lit ''ethtool '' @ snprintf_text 9 (lit ''eth'' @ fmt_d i) @ lit '' > '' @ ethtool_result @ 9 # lit ''2> /dev/null'')"

text \<open>The loop over the two cards, with the two counters.\<close>

fun check_nics :: "shell \<Rightarrow> int list \<Rightarrow> int \<Rightarrow> int \<Rightarrow> files \<Rightarrow> (int \<times> int) \<times> files" where
  "check_nics sh [] all down fs = ((all, down), fs)"
| "check_nics sh (i # is) all down fs =
     (let (ret, fs1) = sh (ethtool_command i) fs in
      if ret < 0 then check_nics sh is all down fs1
      else case fs1 ethtool_result of
        None \<Rightarrow> check_nics sh is all down fs1
      | Some s \<Rightarrow>
          (case find_line link_key s of
             None \<Rightarrow> check_nics sh is all down fs1
           | Some t \<Rightarrow>
               check_nics sh is (all + 1)
                 (if str_find (lit ''no'') (after_key link_key t) \<noteq> None then down + 1 else down) fs1))"

definition CiUtils_GetNicInfo :: "shell \<Rightarrow> files \<Rightarrow> (bool \<times> int \<times> int) \<times> files" where
  "CiUtils_GetNicInfo sh fs =
     (let ((all, down), fs1) = check_nics sh [1, 2] 0 0 fs in ((True, all, down), remove_file ethtool_result fs1))"

section \<open>Reading lines\<close>

text \<open>A line of a file: it fits the array, and has no newline or zero inside.\<close>

definition line_ok :: "cstr \<Rightarrow> bool" where
  "line_ok l \<longleftrightarrow> length l < 255 \<and> 10 \<notin> set l \<and> 0 \<notin> set l"

definition unlines :: "cstr list \<Rightarrow> byte list" where
  "unlines ls = concat (map (\<lambda>l. l @ [10]) ls)"

lemma unlines_simps [simp]: "unlines [] = []" "unlines (l # ls) = l @ 10 # unlines ls"
  by (simp_all add: unlines_def)

lemma takeWhile_upto: "a \<notin> set l \<Longrightarrow> takeWhile (\<lambda>c. c \<noteq> a) (l @ a # rest) = l"
  by (induction l) auto

lemma fgets_line:
  assumes "line_ok l"
  shows "fgets 256 (l @ 10 # rest) = Some (l @ [10], rest)"
proof -
  have "min (256 - 1) (length (takeWhile (\<lambda>c. c \<noteq> 10) (l @ 10 # rest)) + 1) = length (l @ [10])"
    using assms by (simp add: line_ok_def takeWhile_upto)
  then show ?thesis unfolding fgets_def Let_def by simp
qed

lemma text_of_line: "line_ok l \<Longrightarrow> text_of (l @ [10]) = l @ [10]"
  by (auto simp: line_ok_def text_of_def takeWhile_eq_all_conv)

lemma find_line_unlines:
  assumes "list_all line_ok ls"
  shows "find_line pat (unlines ls) =
    (case dropWhile (\<lambda>l. str_find pat (l @ [10]) = None) ls of
       [] \<Rightarrow> None | l # _ \<Rightarrow> Some (drop (the (str_find pat (l @ [10]))) (l @ [10])))"
  using assms
proof (induction ls)
  case Nil
  then show ?case by (subst find_line.simps) (simp add: fgets_def)
next
  case (Cons l ls)
  then show ?case
    by (subst find_line.simps) (auto simp: fgets_line text_of_line split: option.splits)
qed

lemma str_find_start: "str_find p (p @ t) = Some 0"
  using append_eq_conv_conj [of p t "p @ t"] by (cases "p @ t") simp_all

lemma find_line_key:
  assumes "list_all line_ok pre" "list_all (\<lambda>l. str_find pat (l @ [10]) = None) pre" "line_ok (pat @ t)"
  shows "find_line pat (unlines (pre @ (pat @ t) # post)) = Some (pat @ t @ [10])"
  using assms
proof (induction pre)
  case Nil
  then show ?case using fgets_line [OF Nil(3), of "unlines post"] text_of_line [OF Nil(3)] str_find_start [of pat "t @ [10]"]
    by (subst find_line.simps) simp
next
  case (Cons l pre)
  then show ?case by (subst find_line.simps) (simp add: fgets_line text_of_line)
qed

section \<open>Reading fields\<close>

definition gap :: "cstr \<Rightarrow> bool" where
  "gap g \<longleftrightarrow> g \<noteq> [] \<and> list_all is_space g"

definition word_ok :: "cstr \<Rightarrow> bool" where
  "word_ok w \<longleftrightarrow> w \<noteq> [] \<and> list_all (\<lambda>c. \<not> is_space c) w"

lemma drop_gap: "list_all is_space g \<Longrightarrow> dropWhile is_space (g @ s) = dropWhile is_space s"
  by (induction g) auto

lemma after_key_gap: "list_all is_space g \<Longrightarrow> after_key k (k @ g @ s) = dropWhile is_space s"
  by (simp add: after_key_def drop_gap)

lemma dec_then: "rest = [] \<or> \<not> is_digit (hd rest) \<Longrightarrow> takeWhile is_digit (dec_nat n @ rest) = dec_nat n \<and>
    dropWhile is_digit (dec_nat n @ rest) = rest"
proof -
  assume r: "rest = [] \<or> \<not> is_digit (hd rest)"
  have "\<forall>c \<in> set (dec_nat n). is_digit c" using dec_nat_digits by blast
  then show ?thesis using r by (cases rest) (auto simp: takeWhile_append dropWhile_append)
qed

lemma dec_no_space: "dropWhile is_space (dec_nat n @ rest) = dec_nat n @ rest"
  using digit_not_special [OF hd_dec_nat, of n] by (cases "dec_nat n") auto

lemma scan_ll_dec:
  assumes "list_all is_space g" "int n < 2 ^ 63" "rest = [] \<or> \<not> is_digit (hd rest)"
  shows "scan_ll (g @ dec_nat n @ rest) = Some (Some (int n, rest))"
proof -
  have "hd (dec_nat n @ rest) = hd (dec_nat n)" by simp
  then show ?thesis
    using digit_not_special [OF hd_dec_nat, of n] dec_then [OF assms(3), of n] assms(2)
    by (simp add: scan_ll_def drop_gap [OF assms(1)] dec_no_space Let_def digits_value_dec ck_ll_Some)
qed

lemma gap_spaces: "gap g \<Longrightarrow> list_all is_space g"
  by (simp add: gap_def)

lemma gap_not_digit: "gap g \<Longrightarrow> \<not> is_digit (hd (g @ s))"
  by (cases g) (auto simp: gap_def dest: digit_not_special)

lemma scan_s_word:
  assumes "list_all is_space g" "word_ok w" "rest = [] \<or> is_space (hd rest)"
  shows "scan_s (g @ w @ rest) = Some (w, rest)"
proof -
  obtain c cs where w: "w = c # cs" "\<not> is_space c" using assms(2) by (cases w) (auto simp: word_ok_def)
  have "\<forall>c \<in> set w. \<not> is_space c" using assms(2) by (auto simp: word_ok_def list_all_iff)
  then have "takeWhile (\<lambda>c. \<not> is_space c) (w @ rest) = w" "dropWhile (\<lambda>c. \<not> is_space c) (w @ rest) = rest"
    using assms(3) by (cases rest; simp add: takeWhile_append dropWhile_append)+
  then show ?thesis using w by (simp add: scan_s_def drop_gap [OF assms(1)] Let_def)
qed

section \<open>What the functions report\<close>

text \<open>The line of \<open>df\<close>: the fields with gaps between them.\<close>

fun spaced :: "cstr list \<Rightarrow> cstr list \<Rightarrow> cstr" where
  "spaced (w # ws) (g # gs) = w @ g @ spaced ws gs"
| "spaced ws gs = concat ws"

lemma sprintf_into_run:
  assumes "length t < length a" "0 \<notin> set t"
  shows "\<exists>b. sprintf_into a t = Some b \<and> length b = length a \<and> is_cstring b \<and> text_of b = t"
proof -
  have "sprintf_into a t = Some (t @ 0 # drop (length t + 1) a)"
    using assms(1) by (simp add: sprintf_into_def blit_def)
  then show ?thesis using assms text_of_terminated [OF assms(2)] by (simp add: is_cstring_def)
qed

lemma scan_lls_dec:
  assumes "list_all is_space g" "int n < 2 ^ 63" "rest = [] \<or> \<not> is_digit (hd rest)"
  shows "scan_lls (Suc k) (g @ dec_nat n @ rest) = map_option (\<lambda>(vs, r). (int n # vs, r)) (scan_lls k rest)"
  by (cases "scan_lls k rest") (auto simp: scan_ll_dec [OF assms])

lemma scan_lls3:
  assumes "list_all gap [g1, g2, g3]" "list_all (\<lambda>n. int n < 2 ^ 63) [a, b, c]" "rest \<noteq> []" "\<not> is_digit (hd rest)"
  shows "scan_lls 3 (g1 @ dec_nat a @ g2 @ dec_nat b @ g3 @ dec_nat c @ rest) = Some ([int a, int b, int c], rest)"
  using assms by (simp add: numeral_3_eq_3 scan_lls_dec gap_spaces gap_not_digit del: scan_lls.simps(2))

lemma scan_df_run:
  assumes "list_all word_ok [dev, pct, mnt]" "list_all gap [g1, g2, g3, g4, g5]"
    and "list_all (\<lambda>n. int n < 2 ^ 63) [a, b, c]"
    and "line_ok (spaced [dev, dec_nat a, dec_nat b, dec_nat c, pct, mnt] [g1, g2, g3, g4, g5])"
  shows "\<exists>p m. scan_df junk (spaced [dev, dec_nat a, dec_nat b, dec_nat c, pct, mnt] [g1, g2, g3, g4, g5] @ [10]) =
      Some (p, m) \<and> is_cstring p \<and> text_of p = dev \<and> is_cstring m \<and> text_of m = mnt"
proof -
  let ?r1 = "g1 @ dec_nat a @ g2 @ dec_nat b @ g3 @ dec_nat c @ g4 @ pct @ g5 @ mnt @ [10]"
  have hd: "g \<noteq> [] \<and> is_space (hd (g @ s))" if "gap g" for g s using that by (cases g) (auto simp: gap_def)
  have w: "word_ok dev" "word_ok pct" "word_ok mnt" and g: "gap g1" "gap g4" "gap g5" using assms(1,2) by simp_all
  have 1: "scan_s (dev @ ?r1) = Some (dev, ?r1)"
  proof (rule scan_s_word [of "[]" dev ?r1, unfolded append_Nil])
    show "?r1 = [] \<or> is_space (hd ?r1)" using hd [OF g(1)] by blast
  qed (simp_all add: w(1))
  have 2: "scan_lls 3 ?r1 = Some ([int a, int b, int c], g4 @ pct @ g5 @ mnt @ [10])"
    using scan_lls3 [of g1 g2 g3 a b c "g4 @ pct @ g5 @ mnt @ [10]"] assms(2,3) hd [OF g(2)] gap_not_digit [OF g(2)] by simp
  have 3: "scan_s (g4 @ pct @ g5 @ mnt @ [10]) = Some (pct, g5 @ mnt @ [10])"
    by (rule scan_s_word [OF gap_spaces [OF g(2)] w(2)]) (use hd [OF g(3)] in blast)
  have 4: "scan_s (g5 @ mnt @ [10]) = Some (mnt, [10])"
    using scan_s_word [of g5 mnt "[10]"] w(3) g(3) by (simp add: gap_def is_space_def word_le_def)
  have f: "length dev < 256" "0 \<notin> set dev" "length mnt < 256" "0 \<notin> set mnt"
    using assms(4) by (simp_all add: line_ok_def)
  obtain p where p: "sprintf_into (new_array junk 256) dev = Some p" "is_cstring p" "text_of p = dev"
    using sprintf_into_run [of dev "new_array junk 256"] f by auto
  obtain m where m: "sprintf_into (new_array junk 256) mnt = Some m" "is_cstring m" "text_of m = mnt"
    using sprintf_into_run [of mnt "new_array junk 256"] f by auto
  show ?thesis using p m by (simp add: scan_df_def 1 2 3 4)
qed

text \<open>A text that does not fit its array, with a limit that does not stop it.\<close>

lemma copy_loop_result:
  "copy_loop dest src off i n = Some (d, j) \<Longrightarrow> length d = length dest \<and> j = i + length (text_of src)"
  by (induction dest src off i n rule: copy_loop.induct) (auto simp: set_char_def split: if_splits option.splits)

lemma CiStrCpy_overrun:
  assumes "length dest \<le> length (text_of src)" "int (length dest) < n"
  shows "CiStrCpy (Some dest) (Some src) n = None"
proof (cases "copy_loop dest src 0 0 n")
  case (Some r)
  then obtain d j where r: "copy_loop dest src 0 0 n = Some (d, j)" by (cases r) simp
  show ?thesis using copy_loop_result [OF r] r assms by (simp add: CiStrCpy_def terminate_def set_char_def)
qed (simp add: CiStrCpy_def)

lemma GetDiskInfo_lines:
  assumes "sh (df_command path) fs = (ret, fs1)" "0 \<le> ret" "fs1 df_result = Some (unlines (l1 # l2 # later))"
    and "line_ok l1" "line_ok l2" "scan_df junk (l2 @ [10]) = Some (p, m)"
  shows "CiUtils_GetDiskInfo junk sh (Some path) (Some d1) (Some d2) fs = do {
     (_, p1, _) \<leftarrow> CiStrCpy (Some d1) (Some p) 257;
     (_, m1, _) \<leftarrow> CiStrCpy (Some d2) (Some m) 257;
     Some ((True, p1, m1), remove_file df_result fs1) }"
  using assms(2-6) by (simp add: CiUtils_GetDiskInfo_def assms(1) fgets_line text_of_line)

section \<open>Processor, memory and network cards\<close>

lemma scan_lls4:
  assumes "list_all gap [g1, g2, g3]" "list_all (\<lambda>n. int n < 2 ^ 63) [a, b, c, d]" "rest \<noteq> []" "\<not> is_digit (hd rest)"
  shows "scan_lls 4 (dec_nat a @ g1 @ dec_nat b @ g2 @ dec_nat c @ g3 @ dec_nat d @ rest) =
    Some ([int a, int b, int c, int d], rest)"
  using assms scan_lls3 [OF assms(1), of b c d rest] scan_lls_dec [of "[]" a "g1 @ s" 3 for s]
  by (simp add: gap_not_digit del: scan_lls.simps(2))

text \<open>The first line of \<open>/proc/stat\<close>; other counters may follow the four.\<close>

lemma cpu_times_run:
  assumes "list_all gap [g0, g1, g2, g3]" "list_all (\<lambda>n. int n < 2 ^ 63) [u, n, sy, i]"
    and "others = [] \<or> \<not> is_digit (hd others)"
    and "line_ok (lit ''cpu'' @ g0 @ spaced [dec_nat u, dec_nat n, dec_nat sy, dec_nat i] [g1, g2, g3] @ others)"
  shows "cpu_times (Some (unlines ((lit ''cpu'' @ g0 @ spaced [dec_nat u, dec_nat n, dec_nat sy, dec_nat i] [g1, g2, g3] @ others) # later))) =
    Some (Some (int u, int n, int sy, int i))"
proof -
  let ?t = "spaced [dec_nat u, dec_nat n, dec_nat sy, dec_nat i] [g1, g2, g3] @ others"
  have f: "find_line (lit ''cpu'') (unlines ((lit ''cpu'' @ g0 @ ?t) # later)) = Some (lit ''cpu'' @ g0 @ ?t @ [10])"
    using find_line_key [of "[]" "lit ''cpu''" "g0 @ ?t" later] assms(4) by simp
  have "hd (others @ [10]) \<noteq> 48" "\<not> is_digit (hd (others @ [10]))" using assms(3)
    by (cases others; auto simp: is_digit_def word_le_def)+
  then have "scan_lls 4 (?t @ [10]) = Some ([int u, int n, int sy, int i], others @ [10])"
    using scan_lls4 [of g1 g2 g3 u n sy i "others @ [10]"] assms(1,2) by simp
  moreover have "after_key (lit ''cpu'') (lit ''cpu'' @ g0 @ ?t @ [10]) = ?t @ [10]"
    using after_key_gap [of g0 "lit ''cpu''" "?t @ [10]"] assms(1) dec_no_space by (simp add: gap_def)
  ultimately show ?thesis unfolding cpu_times_def option.case f by (simp del: append_assoc)
qed

text \<open>
  The percentage as the function computes it, with \<open>double\<close>: \<open>double_percent d t\<close> for \<open>d\<close> of \<open>t\<close>.  Its five
  roundings keep it between 0 and 100, and not further than \<open>2 ^ (- 42)\<close> from the real percentage.
\<close>

definition double_percent :: "int \<Rightarrow> int \<Rightarrow> rat" where
  "double_percent d t = fl 53 (fl 53 (fl 53 (of_int d) / fl 53 (of_int t)) * fl 53 (of_int 100))"

lemma fl_100 [simp]: "fl 53 1 = 1" "fl 53 100 = 100"
  using fl_int [of 1 53] fl_int [of 100 53] by simp_all

lemma fl_rel:
  assumes "0 \<le> x"
  shows "x * (1 - 1 / 2 ^ 53) \<le> fl 53 x" "fl 53 x \<le> x * (1 + 1 / 2 ^ 53)" "0 \<le> fl 53 x"
proof -
  have "\<bar>fl 53 x - x\<bar> \<le> x / 2 ^ 53" using fl_near [of 53 x] assms by simp
  then have "x - x / 2 ^ 53 \<le> fl 53 x" "fl 53 x \<le> x + x / 2 ^ 53" by linarith+
  then show "x * (1 - 1 / 2 ^ 53) \<le> fl 53 x" "fl 53 x \<le> x * (1 + 1 / 2 ^ 53)"
    by (simp_all add: distrib_left right_diff_distrib)
  show "0 \<le> fl 53 x" using fl_mono [OF assms, of 53] by simp
qed

lemma double_percent_range:
  assumes "0 \<le> d" "d \<le> t" "0 < t"
  shows "0 \<le> double_percent d t" "double_percent d t \<le> 100"
proof -
  let ?D = "fl 53 (of_int d)" and ?T = "fl 53 (of_int t)"
  have D: "0 \<le> ?D" "?D \<le> ?T" using assms fl_rel(3) fl_mono by simp_all
  then have T: "0 \<le> ?T" by linarith
  have q: "0 \<le> ?D / ?T" "?D / ?T \<le> 1" using D T by (simp, cases "?T = 0", simp_all add: divide_le_eq_1)
  then have "0 \<le> fl 53 (?D / ?T)" "fl 53 (?D / ?T) \<le> 1" using fl_rel(3) [OF q(1)] fl_mono [OF q(2), of 53] by simp_all
  then have m: "0 \<le> fl 53 (?D / ?T) * 100" "fl 53 (?D / ?T) * 100 \<le> 100" by simp_all
  show "0 \<le> double_percent d t" "double_percent d t \<le> 100"
    using fl_rel(3) [OF m(1)] fl_mono [OF m(2), of 53] by (simp_all add: double_percent_def)
qed

lemma quotient_rel:
  assumes "0 \<le> d" "0 < (t :: rat)" "d * (1 - u) \<le> D" "D \<le> d * (1 + u)" "t * (1 - u) \<le> T" "T \<le> t * (1 + u)" "0 < u" "u \<le> 1 / 4"
  shows "d / t * (1 - 2 * u) \<le> D / T" "D / T \<le> d / t * (1 + 3 * u)"
proof -
  have T: "0 < T" using assms(2,5,8) mult_pos_pos [of t "1 - u"] by linarith
  have r: "0 \<le> d / t" "d = d / t * t" using assms(1,2) by simp_all
  have uu: "u * u \<le> u * (1 / 4)" using assms(7,8) by (intro mult_left_mono) simp_all
  have "d / t * (1 - 2 * u) * T \<le> d / t * (1 - 2 * u) * (t * (1 + u))"
  proof (intro mult_left_mono)
    show "0 \<le> d / t * (1 - 2 * u)" using assms(8) r(1) by (intro mult_nonneg_nonneg) simp_all
  qed (rule assms(6))
  also have "\<dots> = d * ((1 - 2 * u) * (1 + u))" using assms(2) by simp
  also have "\<dots> \<le> d * (1 - u)" using assms(1,7) by (intro mult_left_mono) (simp_all add: algebra_simps)
  also have "\<dots> \<le> D" by (rule assms(3))
  finally show "d / t * (1 - 2 * u) \<le> D / T" using T by (simp add: pos_le_divide_eq)
  have "D \<le> d * (1 + u)" by (rule assms(4))
  also have "\<dots> \<le> d * ((1 + 3 * u) * (1 - u))" using assms(1,7) uu by (intro mult_left_mono) (simp_all add: algebra_simps)
  also have "\<dots> = d / t * (1 + 3 * u) * (t * (1 - u))" using assms(2) by simp
  also have "\<dots> \<le> d / t * (1 + 3 * u) * T"
  proof (intro mult_left_mono)
    show "0 \<le> d / t * (1 + 3 * u)" using assms(7) r(1) by (intro mult_nonneg_nonneg) simp_all
  qed (rule assms(5))
  finally show "D / T \<le> d / t * (1 + 3 * u)" using T by (simp add: pos_divide_le_eq)
qed

lemma rounded_factors:
  assumes "(0 :: rat) < u" "u \<le> 1 / 64"
  shows "1 - 8 * u \<le> (1 - 2 * u) * (1 - u) * (1 - u)" "(1 + 3 * u) * (1 + u) * (1 + u) \<le> 1 + 8 * u"
proof -
  have uu: "0 \<le> u * u" "u * u \<le> u * (1 / 64)" using assms by (auto intro!: mult_left_mono)
  have uuu: "0 \<le> u * (u * u)" "u * (u * u) \<le> 1 / 64 * (u * u)" using assms uu by (auto intro!: mult_right_mono)
  have "(1 - 2 * u) * (1 - u) * (1 - u) = 1 - 4 * u + 5 * (u * u) - 2 * (u * (u * u))" by (simp add: algebra_simps)
  then show "1 - 8 * u \<le> (1 - 2 * u) * (1 - u) * (1 - u)" using uu uuu assms by linarith
  have "(1 + 3 * u) * (1 + u) * (1 + u) = 1 + 5 * u + 7 * (u * u) + 3 * (u * (u * u))" by (simp add: algebra_simps)
  then show "(1 + 3 * u) * (1 + u) * (1 + u) \<le> 1 + 8 * u" using uu uuu assms by linarith
qed

lemma double_percent_near:
  assumes "0 \<le> d" "d \<le> t" "0 < t"
  shows "\<bar>double_percent d t - of_int (d * 100) / of_int t\<bar> < 1 / 2 ^ 42"
proof -
  define u :: rat where "u = 1 / 2 ^ 53"
  have u: "0 < u" "u \<le> 1 / 64" by (simp_all add: u_def)
  let ?D = "fl 53 (of_int d)" and ?T = "fl 53 (of_int t)" and ?r = "of_int d / of_int t :: rat"
  define q where "q = fl 53 (?D / ?T)"
  have dt: "0 \<le> (of_int d :: rat)" "0 < (of_int t :: rat)" "0 \<le> (of_int t :: rat)" using assms by simp_all
  have r: "0 \<le> ?r" "?r \<le> 1" using assms by (simp_all add: divide_le_eq_1)
  have 1: "?r * (1 - 2 * u) \<le> ?D / ?T" "?D / ?T \<le> ?r * (1 + 3 * u)"
    using quotient_rel [OF dt(1,2), of u ?D ?T] fl_rel(1,2) [OF dt(1)] fl_rel(1,2) [OF dt(3)] u by (simp_all add: u_def)
  have DT: "0 \<le> ?D / ?T" using fl_rel(3) [OF dt(1)] fl_rel(3) [OF dt(3)] by simp
  have 2: "?D / ?T * (1 - u) \<le> q" "q \<le> ?D / ?T * (1 + u)" "0 \<le> q * 100" using fl_rel [OF DT] by (simp_all add: q_def u_def)
  have "double_percent d t = fl 53 (q * 100)" by (simp add: double_percent_def q_def)
  then have 3: "q * (1 - u) * 100 \<le> double_percent d t" "double_percent d t \<le> q * (1 + u) * 100"
    using fl_rel(1,2) [OF 2(3)] by (simp_all add: u_def mult.commute mult.left_commute)
  have "?r * (1 - 8 * u) \<le> ?r * ((1 - 2 * u) * (1 - u) * (1 - u))"
    using rounded_factors(1) [OF u] r by (intro mult_left_mono)
  also have "\<dots> = ?r * (1 - 2 * u) * (1 - u) * (1 - u)" by (simp only: mult.assoc)
  also have "\<dots> \<le> ?D / ?T * (1 - u) * (1 - u)" using 1(1) u by (intro mult_right_mono) simp_all
  also have "\<dots> \<le> q * (1 - u)" using 2(1) u by (intro mult_right_mono) simp_all
  finally have "?r * (1 - 8 * u) * 100 \<le> q * (1 - u) * 100" by (rule mult_right_mono) simp
  then have lo: "?r * (1 - 8 * u) * 100 \<le> double_percent d t" using 3(1) by (rule order.trans)
  have "q * (1 + u) \<le> ?D / ?T * (1 + u) * (1 + u)" using 2(2) u by (intro mult_right_mono) simp_all
  also have "\<dots> \<le> ?r * (1 + 3 * u) * (1 + u) * (1 + u)" using 1(2) u by (intro mult_right_mono) simp_all
  also have "\<dots> = ?r * ((1 + 3 * u) * (1 + u) * (1 + u))" by (simp only: mult.assoc)
  also have "\<dots> \<le> ?r * (1 + 8 * u)" using rounded_factors(2) [OF u] r by (intro mult_left_mono)
  finally have "q * (1 + u) * 100 \<le> ?r * (1 + 8 * u) * 100" by (rule mult_right_mono) simp
  with 3(2) have hi: "double_percent d t \<le> ?r * (1 + 8 * u) * 100" by (rule order.trans)
  have x: "of_int (d * 100) / of_int t = ?r * 100" by simp
  have "?r * u \<le> 1 * u" using r u by (intro mult_right_mono) simp_all
  then have "?r * u * 800 \<le> 800 / 2 ^ 53" by (simp add: u_def)
  moreover have "(800 / 2 ^ 53 :: rat) < 1 / 2 ^ 42" by simp
  ultimately have z: "?r * u * 800 < 1 / 2 ^ 42" by (rule le_less_trans)
  have e: "?r * (1 - 8 * u) * 100 = ?r * 100 - ?r * u * 800" "?r * (1 + 8 * u) * 100 = ?r * 100 + ?r * u * 800"
    by (simp_all add: algebra_simps)
  have between: "\<bar>y - m\<bar> < h" if "m - z \<le> y" "y \<le> m + z" "z < h" for y m z h :: rat
    using that by (simp add: abs_less_iff)
  show ?thesis unfolding x by (rule between [OF lo [unfolded e] hi [unfolded e] z])
qed

text \<open>
  So the integer part is that of the real percentage, or beside it; and for totals up to \<open>2 ^ 40\<close> it is that, or one
  less when the percentage is a whole number.
\<close>

lemma floor_near:
  assumes n: "\<bar>y - of_int a / of_int t\<bar> < 1 / 2 ^ 42" and t: "0 < (t :: int)"
  shows "\<lfloor>y :: rat\<rfloor> \<in> {a div t - 1, a div t, a div t + 1}"
    and "t \<le> 2 ^ 40 \<Longrightarrow> \<lfloor>y\<rfloor> = a div t \<or> a mod t = 0 \<and> \<lfloor>y\<rfloor> = a div t - 1"
proof -
  have e: "(1 / 2 ^ 42 :: rat) < 1 / 2 ^ 40" "(1 / 2 ^ 40 :: rat) < 1" by simp_all
  have t': "(0 :: rat) < of_int t" using t by simp
  have a: "(of_int a :: rat) = of_int t * of_int (a div t) + of_int (a mod t)"
    unfolding of_int_mult [symmetric] of_int_add [symmetric] by (simp only: mult_div_mod_eq)
  then have x: "of_int a / of_int t = (of_int (a div t) + of_int (a mod t) / of_int t :: rat)"
    using t' by (simp add: add_divide_distrib)
  have m: "0 \<le> a mod t" "a mod t < t" using t by simp_all
  have f: "0 \<le> (of_int (a mod t) / of_int t :: rat)" "(of_int (a mod t) / of_int t :: rat) < 1"
    using m t' by (simp_all add: pos_divide_less_eq)
  have y: "of_int (a div t) - 1 < y" "y < of_int (a div t) + 2"
    using n f e unfolding x abs_less_iff by linarith+
  then have fl: "a div t - 1 \<le> \<lfloor>y\<rfloor>" "\<lfloor>y\<rfloor> < a div t + 2" by (simp_all add: le_floor_iff floor_less_iff)
  then show "\<lfloor>y\<rfloor> \<in> {a div t - 1, a div t, a div t + 1}" by auto
  show "\<lfloor>y\<rfloor> = a div t \<or> a mod t = 0 \<and> \<lfloor>y\<rfloor> = a div t - 1" if s: "t \<le> 2 ^ 40"
  proof -
    have "(of_int t :: rat) \<le> of_int (2 ^ 40)" using s by (simp only: of_int_le_iff)
    then have g: "1 / 2 ^ 40 \<le> (1 / of_int t :: rat)" using t' by (intro divide_left_mono) simp_all
    have up: "(of_int (a mod t) / of_int t :: rat) \<le> 1 - 1 / of_int t"
    proof -
      have "a mod t + 1 \<le> t" using m by simp
      then have "(of_int (a mod t + 1) :: rat) \<le> of_int t" by (simp only: of_int_le_iff)
      then have "(of_int (a mod t) + 1) / of_int t \<le> (1 :: rat)" using t' by (simp add: pos_divide_le_eq)
      then show ?thesis by (simp add: add_divide_distrib)
    qed
    have "y < of_int (a div t) + 1" using n up g e unfolding x abs_less_iff by linarith
    then have 1: "\<lfloor>y\<rfloor> < a div t + 1" by (simp only: floor_less_iff of_int_add of_int_1)
    show ?thesis
    proof (cases "a mod t = 0")
      case False
      then have "1 \<le> a mod t" using m by simp
      then have "(of_int 1 :: rat) \<le> of_int (a mod t)" by (simp only: of_int_le_iff)
      then have "(1 / of_int t :: rat) \<le> of_int (a mod t) / of_int t" using t' by (intro divide_right_mono) simp_all
      then have "of_int (a div t) \<le> y" using n g e unfolding x abs_less_iff by linarith
      then have "a div t \<le> \<lfloor>y\<rfloor>" by (simp add: le_floor_iff)
      then show ?thesis using 1 by simp
    qed (use 1 fl in auto)
  qed
qed

text \<open>What the function returns, from counters that have not moved back.\<close>

lemma UsagePercent_run:
  assumes "cpu_times stat = Some (Some (u, n, sy, i))" "0 \<le> u" "0 \<le> n" "0 \<le> sy"
    and a: "a = u + n + sy + i" "a < 2 ^ 63" and c: "0 \<le> llIdleTime c" "llIdleTime c \<le> i" "0 \<le> llAllCPUTime c" "llAllCPUTime c < a"
    and "i - llIdleTime c \<le> a - llAllCPUTime c"
  shows "CiUtils_GetCPUInfo_UsagePercent machine_fpu stat (Some c) =
    Some (100 - \<lfloor>double_percent (i - llIdleTime c) (a - llAllCPUTime c)\<rfloor>, Some \<lparr>llAllCPUTime = a, llIdleTime = i\<rparr>)"
proof -
  let ?d = "i - llIdleTime c" and ?t = "a - llAllCPUTime c"
  let ?y = "double_percent ?d ?t"
  have y: "0 \<le> ?y" "?y \<le> 100" using double_percent_range [of ?d ?t] assms(11) c by simp_all
  then have p: "0 \<le> \<lfloor>?y\<rfloor>" "\<lfloor>?y\<rfloor> \<le> 100" "rat_trunc ?y = \<lfloor>?y\<rfloor>" by (simp_all add: floor_le_iff rat_trunc_def)
  have ck: "ck_ll (u + n) = Some (u + n)" "ck_ll (u + n + sy) = Some (u + n + sy)" "ck_ll (u + n + sy + i) = Some a"
    "ck_ll ?d = Some ?d" "ck_ll ?t = Some ?t" using assms(2-4) a c by (simp_all add: ck_ll_def)
  have "(100 - z) mod 2 ^ 32 = 100 - z \<and> ck_uint z = Some z" if "0 \<le> z" "z \<le> 100" for z :: int
    using that by (simp add: ck_uint_def)
  then have "(100 - \<lfloor>?y\<rfloor>) mod 2 ^ 32 = 100 - \<lfloor>?y\<rfloor>" "ck_uint \<lfloor>?y\<rfloor> = Some \<lfloor>?y\<rfloor>" using p(1,2) by blast+
  moreover have "d_to_int machine_fpu (d_mul machine_fpu (d_div machine_fpu (d_of_int machine_fpu ?d) (d_of_int machine_fpu ?t))
      (d_of_int machine_fpu 100)) = \<lfloor>?y\<rfloor>"
    using p(3) by (simp add: machine_fpu_def double_percent_def)
  ultimately show ?thesis using c(4)
    by (simp add: CiUtils_GetCPUInfo_UsagePercent_def assms(1) ck del: of_int_diff)
qed

text \<open>When the sum of the counters has not grown, it returns 0, and remembers nothing.\<close>

lemma UsagePercent_still:
  assumes "cpu_times stat = Some (Some (u, n, sy, i))" "0 \<le> u" "0 \<le> n" "0 \<le> sy" "0 \<le> i" "u + n + sy + i < 2 ^ 63"
    and "u + n + sy + i \<le> llAllCPUTime c"
  shows "CiUtils_GetCPUInfo_UsagePercent F stat (Some c) = Some (0, Some c)"
  using assms by (simp add: CiUtils_GetCPUInfo_UsagePercent_def ck_ll_def)

text \<open>When the idle time has moved back by as much as the whole has grown, the conversion is undefined.\<close>

lemma UsagePercent_moved_back:
  assumes "cpu_times stat = Some (Some (u, n, sy, i))" "llAllCPUTime c < u + n + sy + i"
    and "u + n + sy + i - llAllCPUTime c \<le> llIdleTime c - i"
  shows "CiUtils_GetCPUInfo_UsagePercent machine_fpu stat (Some c) = None"
proof -
  let ?d = "i - llIdleTime c" and ?t = "u + n + sy + i - llAllCPUTime c"
  have T: "0 < fl 53 (of_int ?t)"
    using assms(2) fl_pos_pos [of "of_int ?t" 53] by (simp add: fl_def del: of_int_diff of_int_add)
  have "(of_int ?d :: rat) \<le> - of_int ?t" using assms(3) unfolding of_int_minus [symmetric] of_int_le_iff by linarith
  then have "fl 53 (of_int ?d) \<le> - fl 53 (of_int ?t)" using fl_mono [of "of_int ?d" "- of_int ?t" 53] by (simp only: fl_minus)
  then have "fl 53 (of_int ?d) / fl 53 (of_int ?t) \<le> - 1" using T by (simp add: pos_divide_le_eq del: of_int_diff of_int_add)
  then have "fl 53 (fl 53 (of_int ?d) / fl 53 (of_int ?t)) \<le> fl 53 (- 1)" by (intro fl_mono) simp_all
  then have "fl 53 (fl 53 (of_int ?d) / fl 53 (of_int ?t)) * 100 \<le> - 100" by (simp add: fl_minus del: of_int_diff of_int_add)
  then have "double_percent ?d ?t \<le> fl 53 (- 100)"
    unfolding double_percent_def by (intro fl_mono) (simp_all del: of_int_diff of_int_add)
  then have "double_percent ?d ?t \<le> - 100" by (simp add: fl_minus)
  then have "rat_trunc (double_percent ?d ?t) < 0" by (simp add: rat_trunc_def ceiling_less_iff)
  then have "ck_uint (rat_trunc (double_percent ?d ?t)) = None" by (simp add: ck_uint_def)
  then show ?thesis using assms(2)
    by (auto simp: CiUtils_GetCPUInfo_UsagePercent_def assms(1) ck_ll_def machine_fpu_def double_percent_def simp del: of_int_diff of_int_add)
qed

text \<open>
  The memory is that of the line with the key, when \<open>free\<close> prints one; when it does not, the function reports success and
  no memory at all.
\<close>

lemma GetMemInfo_run:
  assumes "sh free_command fs = (ret, fs1)" "0 \<le> ret" "fs1 free_result = Some (unlines (pre @ (cache_key @ t) # post))"
    and "list_all line_ok pre" "list_all (\<lambda>l. str_find cache_key (l @ [10]) = None) pre" "line_ok (cache_key @ t)"
    and "t = g0 @ dec_nat used @ g @ dec_nat avail" "list_all is_space g0" "gap g" "int (used + avail) < 2 ^ 63"
  shows "CiUtils_GetMemInfo sh fs = Some ((True, Some (int (used + avail), int avail)), remove_file free_result fs1)"
proof -
  have f: "find_line cache_key (unlines (pre @ (cache_key @ t) # post)) = Some (cache_key @ t @ [10])"
    using find_line_key assms(4-6) by blast
  have k: "after_key cache_key (cache_key @ t @ [10]) = dec_nat used @ g @ dec_nat avail @ [10]"
    using after_key_gap [OF assms(8), of cache_key] dec_no_space by (simp add: assms(7))
  have nl: "\<not> is_digit 10" by (simp add: is_digit_def word_le_def)
  have "scan_lls 2 (dec_nat used @ g @ dec_nat avail @ [10]) = Some ([int used, int avail], [10])"
    using scan_lls_dec [of "[]" used "g @ dec_nat avail @ [10]" 1] scan_lls_dec [OF gap_spaces [OF assms(9)], of avail "[10]" 0]
      assms(9,10) nl by (simp add: numeral_2_eq_2 gap_not_digit del: scan_lls.simps(2))
  then show ?thesis using assms(2,10)
    by (simp add: CiUtils_GetMemInfo_def assms(1,3) f k ck_ll_def)
qed

lemma GetMemInfo_none:
  assumes "sh free_command fs = (ret, fs1)" "0 \<le> ret" "fs1 free_result = Some (unlines ls)"
    and "list_all line_ok ls" "list_all (\<lambda>l. str_find cache_key (l @ [10]) = None) ls"
  shows "CiUtils_GetMemInfo sh fs = Some ((True, Some (0, 0)), remove_file free_result fs1)"
proof -
  have "dropWhile (\<lambda>l. str_find cache_key (l @ [10]) = None) ls = []"
    using assms(5) by (simp only: dropWhile_eq_Nil_conv list_all_iff)
  then have "find_line cache_key (unlines ls) = None" by (simp only: find_line_unlines [OF assms(4)] list.case)
  then show ?thesis using assms(2) by (simp add: CiUtils_GetMemInfo_def assms(1,3))
qed

lemma check_nics_step:
  obtains a d fs1 where "check_nics sh (i # is) all down fs = check_nics sh is a d fs1"
    "all \<le> a" "a \<le> all + 1" "down \<le> d" "d - down \<le> a - all"
proof -
  obtain ret fs1 where r: "sh (ethtool_command i) fs = (ret, fs1)" by fastforce
  have "check_nics sh (i # is) all down fs = check_nics sh is all down fs1 \<or>
      check_nics sh (i # is) all down fs = check_nics sh is (all + 1) down fs1 \<or>
      check_nics sh (i # is) all down fs = check_nics sh is (all + 1) (down + 1) fs1"
    by (auto simp: r split: option.splits)
  then show thesis using that [of all down fs1] that [of "all + 1" down fs1] that [of "all + 1" "down + 1" fs1] by auto
qed

lemma check_nics_bounds:
  "check_nics sh is all down fs = ((all1, down1), fs1) \<Longrightarrow>
     all \<le> all1 \<and> all1 \<le> all + int (length is) \<and> down \<le> down1 \<and> down1 - down \<le> all1 - all"
proof (induction "is" arbitrary: all down fs)
  case (Cons i "is")
  obtain a d fs2 where "check_nics sh (i # is) all down fs = check_nics sh is a d fs2"
    "all \<le> a" "a \<le> all + 1" "down \<le> d" "d - down \<le> a - all" by (rule check_nics_step)
  then show ?case using Cons.IH [of a d fs2] Cons.prems by simp
qed simp

end
