(* ===== verification/Spec2Isabelle.thy ===== *)
theory Spec2Isabelle
  imports HB_Responser HB_Session Calendar_Time Linked_List Ci_Net_Life Complex_Server Real_Time_Complex
    Ci_Utils File_Utils Net_Interfaces Sys_Info
begin

text \<open>
  Verification of libcastis_heartbeat: a small library with which a server process answers the
  heartbeat requests of a monitor over UDP, once in an old version on raw sockets and threads
  (\<open>src/legacy_compatible\<close>), once on boost::asio (\<open>src/asio_base\<close>), and the utility library its
  example programs bring along (\<open>src/examples/Externals/CiUtils\<close>).

  The parts and their theories.
  \<^item> \<open>Prelude\<close>: bytes, integers at their width and their memory images, \<open>htonl\<close> and \<open>ntohl\<close> on
    hosts of both byte orders, arrays with checked writes.
  \<^item> \<open>Kernel\<close>: the system calls.  What they return is a function of the number of calls made so far
    (the record \<open>kernel\<close>, a parameter of everything above it), what the program did to the outside
    is the record \<open>world\<close>.
  \<^item> \<open>Semaphore\<close>, \<open>Thread2\<close>, \<open>Net_Thread\<close>: \<open>CCiSemaphore\<close>, \<open>CCiThread2\<close> and \<open>CNetworkThread\<close> of
    \<open>legacy_support.cpp\<close>.  A virtual call is a call through a record of functions (\<open>thread_vtbl\<close>,
    \<open>nt_vtbl\<close>); the state machine of the thread is the function \<open>ThreadProc\<close>, its table of
    descriptors and its poll loop are \<open>PollFDAdd\<close> to \<open>ProcessReadEvent\<close>.
  \<^item> \<open>HB_Protocol\<close>: the message types and states of \<open>CiHBDefines.h\<close>, and the wire format: what a request
    is, the bytes of a response, and that different responses have different bytes.
  \<^item> \<open>HB_Responser\<close>: \<open>CiHBResponser.cpp\<close>, whose \<open>CCiHBResponser\<close> instantiates the network thread.
  \<^item> \<open>HB_Session\<close>: \<open>HeartBeatSession.cpp\<close>; boost::asio is a parameter, the io_service is a
    step relation that runs completed handlers.
  \<^item> \<open>Safe_String\<close>, \<open>C_Text\<close>, \<open>Time_Span\<close>, \<open>Calendar_Time\<close>: \<open>CiSafeString.cpp\<close>, the C functions
    the time classes use (\<open>atoi\<close>, \<open>strtok_r\<close>, \<open>sprintf\<close>), \<open>CMTimeSpan2\<close> and \<open>CMTime2\<close>.
  \<^item> \<open>Link_Queue\<close>, \<open>Linked_List\<close>: the templates of \<open>LinkedListTemplate.h\<close> over a heap of nodes.
  \<^item> \<open>Net_Io\<close>, \<open>Net_Util\<close>: the loops around \<open>poll\<close>, \<open>recv\<close> and \<open>send\<close> and the integers on the wire that
    \<open>NetUtil.cpp\<close> and \<open>CiSocket.cpp\<close> share, and the functions of \<open>NetUtil.cpp\<close>.
  \<^item> \<open>Ring\<close>, \<open>Ci_Socket\<close>, \<open>Socket_Send\<close>: the ring buffers of \<open>CCiSocket\<close> and what they hold, the class
    with its receiving side, and its sending side.
  \<^item> \<open>Ci_Frames\<close>: \<open>ReceiveIntMessage\<close> of the network thread of CiUtils, which cuts a connection into
    messages.
  \<^item> \<open>Ci_Registry\<close>, \<open>Ci_Registry_Inv\<close>: the state of that network thread (\<open>NetworkThread.cpp\<close>), its
    \<open>CCiSocket\<close> objects with \<open>new\<close> and \<open>delete\<close>, its three tables (read sockets, write sockets, \<open>poll\<close>)
    and their operations; what it means that the tables agree with the objects (\<open>ct_wf\<close>), and that the
    operations keep it.
  \<^item> \<open>Ci_Net_Thread\<close>, \<open>Ci_Net_Server\<close>, \<open>Ci_Net_Life\<close>: its event loop, from \<open>WaitNetworkEvent\<close> to \<open>Run\<close>;
    the contract of the derived class and what a round of \<open>Run\<close> does under it; its life from \<open>InitInstance\<close>
    to the destructor.
  \<^item> \<open>Thread_Complex\<close>, \<open>Complex_Server\<close>, \<open>Real_Time_Complex\<close>: \<open>CCiThreadComplex\<close>, a thread that runs the
    threads of a list (\<open>CiThreadComplex.cpp\<close>); network threads as its members; the complex that keeps to a
    schedule (\<open>CiThreadRealTimeComplex.cpp\<close>, \<open>RealTimeFlavor.cpp\<close>).
  \<^item> \<open>Ci_Utils\<close>, \<open>File_Utils\<close>: the functions of \<open>CiUtils.cpp\<close> on texts, and on files, over a file
    system that is a parameter.
  \<^item> \<open>Double\<close>: the arithmetic of \<open>float\<close> and \<open>double\<close>, with the rounding of each operation, without a bound of the
    exponent.
  \<^item> \<open>Net_Interfaces\<close>, \<open>Sys_Info\<close>: the functions at the end of \<open>NetUtil.cpp\<close> that ask for the network
    interfaces; the functions of \<open>CiUtils.cpp\<close> that read \<open>/proc/stat\<close> or what \<open>df\<close>, \<open>free\<close> and
    \<open>ethtool\<close> print, over a shell that is a parameter.

  What is shown.  What the two responders put on the wire tells sequence number, state and addresses
  apart, and the buffer of the response is exactly as long as it has to be.  The responder, its thread and its event loop together
  refine a server that answers each valid request once and in order; nothing but responses is
  sent; no reachable state is stuck in undefined behaviour; a request to end is honoured and
  closes the sockets of a thread in service.  The state machine of the thread is compared with a life cycle, the table
  of descriptors with a bag, the semaphore with its counter under signals.  The session answers a datagram of at least
  eight bytes as the responder does, keeps one receive outstanding, sends each answer to where its datagram came from, and is silent
  after an error, which it reports; the ways in which it differs from the responder are theorems of their own.  The safe strings truncate where \<open>strlcpy\<close> and \<open>strlcat\<close> do.  Time spans and times are read back
  from their fields and texts, frames and negative spans that are no whole days excepted.  The queue is a FIFO, the list a
  list without duplicates; its destructor frees everything once.  What an application reads from a
  buffered socket is what arrived, in order; what it writes is on the wire or waits in the buffer, in
  order; integers are the same on both hosts; a write that insists gives up after a bounded number of
  refusals.  The messages a connection delivers are the complete frames in its bytes.  The server of
  CiUtils never uses a socket that is gone, whatever connections come, send and go; a connection it accepts is
  registered, exactly when there is room and the derived class wants it, or closed; \<open>ExitInstance\<close> closes every descriptor once, and a destructor that runs without it
  deletes objects twice.  A complex of such threads, asked to end, ends all of them; with a schedule, no
  round that is less than 4294968 milliseconds away is before its time.  Numbers are read back but for large negative ones, and a file that is
  copied or moved onto itself, however the two paths are spelled, is lost.  The name found for an address leads back to it; the processor usage is the percentage
  that the counters say, as \<open>double\<close> rounds it; the mount point is what \<open>df\<close> prints, in arrays larger than documented.

  Interfaces are locales: \<open>thread_hooks\<close> (what a thread promises its state machine), \<open>poll_hooks\<close>
  (what a network thread promises its event loop; a \<open>sublocale\<close> of the former), \<open>node_queue\<close> and
  \<open>object_list\<close> for the containers, \<open>conn_hooks\<close> (what the server of CiUtils asks of the functions a derived
  class overrides), \<open>complex_members\<close> (what a complex asks of its threads; with enough fuel, \<open>ending_complex\<close>, a
  complex is itself a thread, a \<open>sublocale\<close>), \<open>file_system\<close> (what is documented of \<open>boost::filesystem\<close>, interpreted on a tree of files and directories), \<open>byte_source\<close> and \<open>byte_sink\<close> (what the integer functions need of
  the function they read or write with, interpreted on the stream, timed, datagram and buffered
  versions); each is interpreted on the definitions of the code.

  Bounds and fuel.  An \<open>option\<close> that is \<open>None\<close> is undefined behaviour of C++ (a write outside an
  array, a null or freed pointer, an overflow of a signed integer), so a theorem that a result is
  \<open>Some\<close> is a safety theorem.  Loops over lists and buffers are recursions that end.
  The loops that wait for the outside (\<open>thread_loop\<close>, \<open>member_loop\<close>, \<open>proc_iter\<close>, \<open>Sem_Wait\<close> under signals)
  take their number of rounds as an argument, and the theorems say how many are enough.  The loops
  over a chain of nodes are partial functions: on a cyclic chain they have no value.  So are the
  loops of the sockets that the kernel can keep busy: under endless signals (\<open>signals_end\<close> excludes
  them) or a \<open>send\<close> that takes nothing (\<open>sends_progress\<close>; POSIX has it take at least a byte or fail).

  Not modelled: the Windows branches (select, events, critical sections, the registry), the example programs, the
  creation of UUIDs, \<open>CiMutex.cpp\<close>, which only calls the mutex of the system, and headers that only hold constants.
  The rest of \<open>CiThread2.cpp\<close> and \<open>CiSemaphore.cpp\<close> are the code of \<open>legacy_support.cpp\<close> again, modelled there.
  The streams of \<open>Net_Io\<close> are one connection per world, so which descriptor they use
  is not recorded.
  The calendar of the C library, boost::asio, the file system and the system calls are
  parameters with the behaviour their documentation states; so is floating-point arithmetic, for which the machine's is in \<open>Double\<close>.
  How long a thread sleeps is a result where it matters (\<open>msleep\<close> of the complex with a schedule) and left out elsewhere; so is
  \<open>errno\<close> where a function only leaves it for its caller.
\<close>

section \<open>A kernel to run the examples on\<close>

text \<open>
  Every call succeeds, the socket is always readable and every datagram is the request with
  sequence number 7 from the address \<open>[1]\<close>.
\<close>

definition sample_request :: "byte list" where
  "sample_request = [0, 0, 0, 0, 0, 0, 0, 7]"

definition sample_kernel :: kernel where
  "sample_kernel =
     \<lparr>k_socket = \<lambda>c. 3, k_setsockopt = \<lambda>c. True, k_bind = \<lambda>c. True, k_close = \<lambda>c. True,
      k_poll = \<lambda>c. PollReady (\<lambda>s. POLLIN), k_recv = \<lambda>c. RecvData [1] sample_request,
      k_send = \<lambda>c. SendOk 100\<rparr>"

text \<open>The same machine with the port already taken.\<close>

definition port_taken :: kernel where
  "port_taken = sample_kernel\<lparr>k_bind := \<lambda>c. False\<rparr>"

definition sample_junk :: "nat \<Rightarrow> byte" where
  "sample_junk n = 0xCC"

abbreviation sample_responder :: hb_responser where
  "sample_responder \<equiv> CCiHBResponser sample_junk [65] 8090 [66] 0"

definition sample_asio :: asio where
  "sample_asio =
     \<lparr>a_open = \<lambda>c. 0, a_set_option = \<lambda>c. 0, a_bind = \<lambda>c. 0, a_close = \<lambda>c. 0,
      a_send = \<lambda>c. Inr 22, a_message = \<lambda>ec. ''error'', a_to_string = \<lambda>ep. Some ''10.0.0.1''\<rparr>"

definition sample_world :: asio_world where
  "sample_world = \<lparr>a_clock = 0, a_ops = [], a_arrived = [], a_sent = [], a_log = []\<rparr>"

abbreviation sample_session :: session where
  "sample_session \<equiv> HeartBeatSession [65] [66] 8090"

lemma sample_may_init: "may_init sample_kernel c"
  by (simp add: may_init_def sample_kernel_def)

lemma sample_inv: "hb_inv [65] [66] (sample_responder, world0)"
  by (simp add: hb_inv_def new_responder only_responses_def world0_def)

lemma sample_ses_inv: "ses_inv [65] [66] (sample_session, sample_world)"
  by (simp add: ses_inv_def HeartBeatSession_def sample_world_def answered_Nil)

lemma sample_request_seq: "request_seq sample_request = Some 7"
  by code_simp

section \<open>The protocol\<close>

text \<open>
  The datagrams that the code makes for two addresses, a state and a sequence number: what
  \<open>SendHeartbeatResponse\<close> builds and what \<open>do_write_response\<close> builds, on hosts of either byte order.
\<close>

definition responses_with :: "cstr \<Rightarrow> cstr \<Rightarrow> CiHBState_t \<Rightarrow> i32 \<Rightarrow> byte list set" where
  "responses_with rep loc st seq =
     {m. \<exists>e junk. response_message e junk rep loc st seq = Some m} \<union>
     {m. \<exists>e o1. ses_representativeIP o1 = rep \<and> ses_localIP o1 = loc \<and> ses_processState o1 = st \<and>
        m = response_bytes e o1 seq}"

lemma responses_with_encode:
  assumes "m \<in> responses_with rep loc st seq" "20 + length rep + length loc < 2 ^ 31"
  shows "m = encode_response \<lparr>hr_seq = seq, hr_representative = rep, hr_state = st, hr_local = loc\<rparr>"
  using assms by (auto simp: responses_with_def response_message_encode response_bytes_encode)

lemma session_bytes:
  "response_bytes e o1 seq \<in> responses_with (ses_representativeIP o1) (ses_localIP o1) (ses_processState o1) seq"
  unfolding responses_with_def by blast

text \<open>
  C1: what the responder and the session put on the wire says what they meant: two messages built by either of them, on hosts of
  any byte order, are the same only when sequence number, state and both addresses are; and no message is the beginning of
  a longer one, so whatever follows it does not change how it is read.
\<close>

theorem response_unambiguous:
  assumes "m \<in> responses_with rep loc st seq" and "m' \<in> responses_with rep' loc' st' seq'"
    and "20 + length rep + length loc < 2 ^ 31" and "20 + length rep' + length loc' < 2 ^ 31"
  shows "m @ x = m' @ y \<longleftrightarrow> rep = rep' \<and> loc = loc' \<and> st = st' \<and> seq = seq' \<and> x = y"
  using assms(3,4) unfolding responses_with_encode [OF assms(1,3)] responses_with_encode [OF assms(2,4)]
  by (subst encode_response_append) auto

theorem response_unambiguous_witness:
  "\<exists>m. response_message LittleEndian sample_junk [65] [66] CIHB_STATE_ALIVE 7 = Some m \<and>
     m @ [0] \<noteq> response_bytes BigEndian (HBS_SetProcessSWError sample_session) 7 @ [0] \<and>
     m @ [0] = response_bytes BigEndian sample_session 7 @ [0]"
proof -
  obtain m where m: "response_message LittleEndian sample_junk [65] [66] CIHB_STATE_ALIVE 7 = Some m"
    using response_message_encode [of "[65]" "[66]" LittleEndian sample_junk] by simp
  then have 1: "m \<in> responses_with [65] [66] CIHB_STATE_ALIVE 7" by (auto simp: responses_with_def)
  have 2: "response_bytes BigEndian (HBS_SetProcessSWError sample_session) 7 \<in> responses_with [65] [66] CIHB_STATE_SW_ERROR 7"
    "response_bytes BigEndian sample_session 7 \<in> responses_with [65] [66] CIHB_STATE_ALIVE 7"
    using session_bytes [of BigEndian "HBS_SetProcessSWError sample_session" 7] session_bytes [of BigEndian sample_session 7]
    by (simp_all add: HeartBeatSession_def HBS_SetProcessSWError_def HBS_SetProcessState_def)
  show ?thesis using m response_unambiguous [OF 1 2(1), of "[0]" "[0]"] response_unambiguous [OF 1 2(2), of "[0]" "[0]"] by simp
qed

text \<open>
  C2: The message that \<open>SendHeartbeatResponse\<close> builds in its array of \<open>iMsgStrSize\<close> bytes is exactly
  the encoded response, on either byte order and whatever the fresh array contained: the copies
  stay inside the array and fill it.  The two addresses must leave the size within an \<open>int\<close>.
\<close>

theorem response_bytes_exact:
  assumes "20 + length rep + length loc < 2 ^ 31"
  shows "response_message e junk rep loc st seq =
    Some (encode_response \<lparr>hr_seq = seq, hr_representative = rep, hr_state = st, hr_local = loc\<rparr>)"
  using assms by (rule response_message_encode)

theorem response_bytes_exact_witness:
  "response_message LittleEndian sample_junk [65] [66, 67] CIHB_STATE_HW_ERROR 7 =
    Some (encode_response \<lparr>hr_seq = 7, hr_representative = [65], hr_state = CIHB_STATE_HW_ERROR,
                           hr_local = [66, 67]\<rparr>)"
  by (rule response_bytes_exact) simp

section \<open>The responder thread\<close>

text \<open>
  C3: A responder whose socket could be opened behaves as the abstract server \<open>server_trace\<close>: after
  any number of calls of \<open>ThreadProc\<close> the datagrams sent are exactly the replies to the requests the
  kernel delivered, each sent once, in order, to the address its request came from; polls that
  fail, foreign datagrams and failed sends change nothing else, and the thread keeps running.
\<close>

theorem responder_refines_server:
  assumes "20 + length rep + length loc < 2 ^ 31" and "may_init K (clock w)"
  shows "\<exists>o2 w2. proc_iter (Suc n) (hb_thread_vtbl e K junk)
       ((CCiHBResponser junk rep port loc t)\<lparr>m_bExit := False\<rparr>, w) = Some (o2, w2) \<and>
     m_state o2 = CI_THREAD2_DONE_INITINSTANCE \<and>
     (let tr = server_trace (Suc n) K (heartbeat_reply rep loc CIHB_STATE_ALIVE)
                 (k_socket K (clock w)) (clock w + 3)
      in clock w2 = fst tr \<and> sent w2 = sent w @ snd tr)"
proof -
  let ?o = "(CCiHBResponser junk rep port loc t)\<lparr>m_bExit := False\<rparr>"
  note new = new_responder [OF assms(1)]
  have r: "hb_reply ?o = heartbeat_reply rep loc CIHB_STATE_ALIVE"
    by (simp add: hb_reply_def new fun_eq_iff)
  obtain o1 w1 where 1: "serving (k_socket K (clock w)) o1" "\<not> m_bExit o1"
      "m_state o1 = CI_THREAD2_DONE_INITINSTANCE" "hb_reply o1 = hb_reply ?o"
      "clock w1 = clock w + 3" "sent w1 = sent w"
      "proc_iter (Suc n) (hb_thread_vtbl e K junk) (?o, w) =
         proc_iter (Suc n) (hb_thread_vtbl e K junk) (o1, w1)"
    using first_call [OF assms(2), where ?o1.0 = ?o and n = n and e = e and junk = junk] by (auto simp: new hb_sized_bExit)
  show ?thesis
    using proc_round [OF 1(1-3), of "Suc n" e K junk w1] 1 r
    by (auto simp: Let_def same_service_def simp del: proc_iter.simps server_trace.simps)
qed

theorem responder_refines_server_witness:
  "\<exists>o2 w2. proc_iter (Suc 1) (hb_thread_vtbl BigEndian sample_kernel sample_junk)
       (sample_responder\<lparr>m_bExit := False\<rparr>, world0) = Some (o2, w2) \<and>
     m_state o2 = CI_THREAD2_DONE_INITINSTANCE \<and>
     (let tr = server_trace (Suc 1) sample_kernel (heartbeat_reply [65] [66] CIHB_STATE_ALIVE)
                 (k_socket sample_kernel (clock world0)) (clock world0 + 3)
      in clock w2 = fst tr \<and> sent w2 = sent world0 @ snd tr)"
  by (rule responder_refines_server) (simp_all add: sample_may_init)

text \<open>
  C4: One ready socket, one datagram: an eight byte request gets the response that carries its sequence
  number and the current process state, sent to the address it came from; any other datagram gets
  nothing; in both cases the responder stays in service on the same socket.
\<close>

theorem request_answered:
  assumes "serving s o1" and "k_recv K (clock w) = RecvData sa d" and "k_send K (Suc (clock w)) = SendOk n"
  shows "\<exists>o2 w2. serve_entry (hb_vtbl e K junk) 0 (o1, w) = Some (o2, w2) \<and> serving s o2 \<and>
     sent w2 = sent w @ (case request_seq (take 8 d) of None \<Rightarrow> [] | Some seq \<Rightarrow>
       [(s, sa, encode_response \<lparr>hr_seq = seq, hr_representative = m_szRepresentativeIP o1,
                                 hr_state = m_processState o1, hr_local = m_szLocalIP o1\<rparr>)])"
  by (rule serve_entry_run [OF assms(1), of e K junk w])
     (use assms in \<open>auto simp: answer_step_def hb_reply_Some hb_response_for_def split: option.splits\<close>)

theorem request_answered_witness:
  "\<exists>o2 w2. serve_entry (hb_vtbl LittleEndian sample_kernel sample_junk) 0
      (registered 3 sample_responder, world0) = Some (o2, w2) \<and> serving 3 o2 \<and>
     sent w2 = [(3, [1], encode_response \<lparr>hr_seq = 7, hr_representative = [65],
                           hr_state = CIHB_STATE_ALIVE, hr_local = [66]\<rparr>)]"
proof -
  obtain w2 where "serving 3 (registered 3 sample_responder)"
    using InitInstance_serving [OF sample_may_init, of sample_responder LittleEndian]
    by (auto simp: new_responder sample_kernel_def)
  from request_answered [OF this, of sample_kernel world0 "[1]" sample_request 100 LittleEndian sample_junk]
  show ?thesis
    using sample_request_seq
    by (simp add: sample_kernel_def world0_def registered_fields new_responder sample_request_def)
qed

text \<open>
  C5: However the thread's calls interleave with requests to end it and with changes of the process state
  made by the rest of the program, the poll table stays well-formed, and every datagram sent is a well-formed response
  with the two configured addresses.
\<close>

theorem only_responses_are_sent:
  assumes "hb_reach e K junk (o1, w) (o2, w2)" and "hb_inv rep loc (o1, w)"
  shows "nt_wf o2 \<and> (\<forall>(s, sa, m) \<in> set (sent w2). \<exists>seq st. m = encode_response
     \<lparr>hr_seq = seq, hr_representative = rep, hr_state = st, hr_local = loc\<rparr>)"
  using hb_reach_inv [OF assms] by (auto simp: hb_inv_def only_responses_def)

theorem only_responses_are_sent_witness:
  "\<exists>o2 w2 m. hb_reach LittleEndian sample_kernel sample_junk
       (sample_responder\<lparr>m_bExit := False\<rparr>, world0) (o2, w2) \<and> (3, [1], m) \<in> set (sent w2) \<and>
     nt_wf o2 \<and> (\<exists>seq st. m = encode_response
       \<lparr>hr_seq = seq, hr_representative = [65], hr_state = st, hr_local = [66]\<rparr>)"
proof -
  let ?o = "sample_responder\<lparr>m_bExit := False\<rparr>"
  have I: "hb_inv [65] [66] (?o, world0)"
    using sample_inv by (simp add: hb.thread.inv_bExit)
  obtain o1 w1 where 1: "serving 3 o1" "\<not> m_bExit o1"
      "m_state o1 = CI_THREAD2_DONE_INITINSTANCE" "sent w1 = []"
      "proc_iter (Suc 0) (hb_thread_vtbl LittleEndian sample_kernel sample_junk) (?o, world0) =
       proc_iter (Suc 0) (hb_thread_vtbl LittleEndian sample_kernel sample_junk) (o1, w1)"
      "hb_reply o1 = hb_reply ?o"
    using first_call [OF sample_may_init, where ?o1.0 = ?o and n = 0 and e = LittleEndian
      and junk = sample_junk and w = world0]
    by (auto simp: new_responder hb_sized_bExit sample_kernel_def world0_def)
  obtain o2 w2 where 2: "ThreadProc (hb_thread_vtbl LittleEndian sample_kernel sample_junk)
        (?o, world0) = Some (o2, w2)" "sent w2 \<noteq> []" "\<forall>(s, sa, m) \<in> set (sent w2). s = 3 \<and> sa = [1]"
    using proc_round [OF 1(1-3), of "Suc 0" LittleEndian sample_kernel sample_junk w1] 1(4-6)
    by (auto simp: poll_step_def answer_step_def sample_kernel_def hb_reply_Some sample_request_def
        request_seq_def read_events_def of_be_def split: bind_splits)
  then obtain m where m: "(3, [1], m) \<in> set (sent w2)" by (cases "sent w2") auto
  have "hb_reach LittleEndian sample_kernel sample_junk (?o, world0) (o2, w2)"
    using 2(1) by (intro hb_more [OF hb_start] in_thread worker)
      (simp_all add: IsThreadDone_def new_responder)
  then show ?thesis
    using only_responses_are_sent [OF _ I] m by blast
qed

text \<open>
  C6: In every state reached by any interleaving of the thread with the rest of the program the next call of
  \<open>ThreadProc\<close> returns: no access outside an array, no use of freed or missing objects, whatever the
  kernel returned so far.
\<close>

theorem responder_never_stuck:
  assumes "20 + length rep + length loc < 2 ^ 31"
    and "hb_reach e K junk (CCiHBResponser mem rep port loc t, world0) s"
  shows "\<exists>u. ThreadProc (hb_thread_vtbl e K junk) s = Some u"
proof -
  have "hb_inv rep loc (CCiHBResponser mem rep port loc t, world0)"
    using new_responder [OF assms(1)] by (simp add: hb_inv_def only_responses_def world0_def)
  then show ?thesis by (rule hb_reach_progress [OF assms(2)])
qed

theorem responder_never_stuck_witness:
  "\<exists>u. ThreadProc (hb_thread_vtbl LittleEndian port_taken sample_junk)
     (SetProcessSWError sample_responder, world0) = Some u"
  by (rule responder_never_stuck [where rep = "[65]" and loc = "[66]" and mem = sample_junk and
        port = 8090 and t = 0])
     (auto intro: hb_more hb_start sw_error)

text \<open>
  C7: From any reachable state, once the end of the thread is requested the loop stops: three evaluations
  of its guard are enough.
\<close>

theorem exit_request_honoured:
  assumes "hb_reach e K junk s (o1, w)" and "hb_inv rep loc s"
  shows "\<exists>t. thread_loop 3 (hb_thread_vtbl e K junk) (EndThread o1, w) = Some t \<and>
     IsThreadDone (fst t)"
  using assms by (rule hb_reach_ends)

theorem exit_request_honoured_witness:
  "\<exists>t. thread_loop 3 (hb_thread_vtbl LittleEndian sample_kernel sample_junk)
      (EndThread sample_responder, world0) = Some t \<and> IsThreadDone (fst t)"
  by (rule exit_request_honoured [OF hb_start sample_inv])

text \<open>
  C8: for a thread in service, whose state is \<open>CI_THREAD2_DONE_INITINSTANCE\<close>, the call of \<open>ThreadProc\<close> after the exit request closes
  every socket of the socket set, once each and in ascending order, empties the set and the poll table, sends nothing, and
  leaves the thread in \<open>CI_THREAD2_DONE\<close>.
\<close>

theorem shutdown_closes_sockets:
  assumes "m_state o1 = CI_THREAD2_DONE_INITINSTANCE"
  shows "\<exists>o2 w2. ThreadProc (hb_thread_vtbl e K junk) (EndThread o1, w) = Some (o2, w2) \<and>
    m_state o2 = CI_THREAD2_DONE \<and> m_ReadSockets o2 = {} \<and> m_iPollFdCount o2 = 0 \<and>
    closed_fds w2 = closed_fds w @ sorted_list_of_set (m_ReadSockets o1) \<and> sent w2 = sent w"
  using assms by (rule last_call)

theorem shutdown_closes_sockets_witness:
  "\<exists>o2 w2. ThreadProc (hb_thread_vtbl LittleEndian sample_kernel sample_junk)
      (EndThread (sample_responder\<lparr>m_state := CI_THREAD2_DONE_INITINSTANCE,
                                   m_ReadSockets := {3}\<rparr>), world0) = Some (o2, w2) \<and>
    m_state o2 = CI_THREAD2_DONE \<and> m_ReadSockets o2 = {} \<and> m_iPollFdCount o2 = 0 \<and>
    closed_fds w2 = [3] \<and> sent w2 = []"
  using shutdown_closes_sockets [of "sample_responder\<lparr>m_state := CI_THREAD2_DONE_INITINSTANCE,
      m_ReadSockets := {3}\<rparr>" LittleEndian sample_kernel sample_junk world0]
  by (simp add: world0_def)

text \<open>
  When \<open>setsockopt\<close> or \<open>bind\<close> fails the thread ends in an error state, but the socket that \<open>socket\<close>
  has returned is never closed: the early returns of \<open>InitInstance\<close> leak it, and \<open>ExitInstance\<close>
  closes only what is in the socket set.
\<close>

theorem failed_start_keeps_socket:
  assumes "0 \<le> k_socket K (clock w)" and "\<not> k_setsockopt K (clock w + 1) \<or> \<not> k_bind K (clock w + 2)"
    and "m_state o1 = CI_THREAD2_READY" "m_ReadSockets o1 = {}"
  shows "\<exists>o2 w2. thread_loop 3 (hb_thread_vtbl e K junk) (o1, w) = Some (o2, w2) \<and>
    m_state o2 = CI_THREAD2_DONE_ERROR \<and> closed_fds w2 = closed_fds w"
  using failed_start [of K w o1 e junk] assms by (auto simp: may_init_def)

theorem failed_start_keeps_socket_witness:
  "\<exists>o2 w2. thread_loop 3 (hb_thread_vtbl LittleEndian port_taken sample_junk)
      (sample_responder, world0) = Some (o2, w2) \<and>
    m_state o2 = CI_THREAD2_DONE_ERROR \<and> closed_fds w2 = closed_fds world0"
  by (rule failed_start_keeps_socket)
     (simp_all add: port_taken_def sample_kernel_def new_responder)

text \<open>
  C9: The state machine of \<open>ThreadProc\<close>, driven by its loop, does what the structured program \<open>lifecycle\<close>
  does: initialise once, run until an exit is requested or \<open>Run\<close> fails, clean up once; the two end
  in the same state of the object and the world, or neither ends.
\<close>

theorem thread_machine_is_lifecycle:
  assumes "hb_inv rep loc s" and "m_state (fst s) = CI_THREAD2_READY"
  shows "(\<exists>n. thread_loop n (hb_thread_vtbl e K junk) s = Some r) \<longleftrightarrow>
    (\<exists>n. lifecycle n (hb_thread_vtbl e K junk) s = Some r)"
  using hb.thread.machine_is_lifecycle [OF assms, of K e junk r] by (simp add: hb_thread_vtbl_def)

theorem thread_machine_is_lifecycle_witness:
  "\<forall>r. (\<exists>n. thread_loop n (hb_thread_vtbl LittleEndian port_taken sample_junk)
        (sample_responder, world0) = Some r) \<longleftrightarrow>
    (\<exists>n. lifecycle n (hb_thread_vtbl LittleEndian port_taken sample_junk)
        (sample_responder, world0) = Some r)"
  by (rule allI, rule thread_machine_is_lifecycle [OF sample_inv]) (simp add: new_responder)

text \<open>
  Whenever \<open>RunThreadHere\<close> returns on an idle responder, it reports success, the thread is done and the
  exit semaphore has its value back, so that the object can be run again.
\<close>

theorem run_here_restores_semaphore:
  assumes "hb_inv rep loc s" and "m_ciThreadHandle (fst s) = CI_THREAD2_INVALID_THREAD_HANDLE"
    and "m_semExit (fst s) = \<lparr>sem_valid = True, sem_value = 1\<rparr>"
    and "RunThreadHere n (hb_thread_vtbl e K junk) s = Some (ok, t)"
  shows "ok \<and> IsThreadDone (fst t) \<and> m_semExit (fst t) = m_semExit (fst s)"
  using hb.thread.RunThreadHere_result [OF assms(1-3), of n K e junk ok t] assms(4)
  by (simp add: hb_thread_vtbl_def)

theorem run_here_restores_semaphore_witness:
  "\<exists>ok t. RunThreadHere 3 (hb_thread_vtbl LittleEndian port_taken sample_junk)
       (sample_responder, world0) = Some (ok, t) \<and> ok \<and> IsThreadDone (fst t) \<and>
     m_semExit (fst t) = m_semExit sample_responder"
proof -
  have h: "m_ciThreadHandle sample_responder = 0"
    "m_semExit sample_responder = \<lparr>sem_valid = True, sem_value = 1\<rparr>"
    by (simp_all add: CCiHBResponser_def network_thread_new_def network_thread.defs
        hb_responser.defs ci_thread2.defs ci_thread2_new_def Sem_Initialize_def SEM_VALUE_MAX_def)
  let ?o = "sample_responder\<lparr>m_bExit := False, m_state := CI_THREAD2_READY,
      m_semExit := \<lparr>sem_valid = True, sem_value = 0\<rparr>\<rparr>"
  have p: "PrepareRunning (sample_responder, world0) = Some (True, ?o, world0)"
    using h by (simp add: PrepareRunning_def Sem_Wait_free)
  have "\<not> may_init port_taken (clock world0)" by (simp add: may_init_def port_taken_def)
  from failed_start [OF this, of ?o LittleEndian sample_junk]
  obtain o2 w2 where "thread_loop 3 (hb_thread_vtbl LittleEndian port_taken sample_junk)
      (?o, world0) = Some (o2, w2)" by (auto simp: new_responder)
  then have r: "RunThreadHere 3 (hb_thread_vtbl LittleEndian port_taken sample_junk)
      (sample_responder, world0) = Some (True, NotifyExit o2, w2)"
    using h p by (simp add: RunThreadHere_def)
  show ?thesis
    using run_here_restores_semaphore [OF sample_inv _ _ r] h r by auto
qed

text \<open>
  C10: The retry loop of \<open>CCiSemaphore::Wait\<close> on a valid semaphore returns exactly when the semaphore is free or
  some thread posts while it waits; interruptions by signals, however many, only delay it.
\<close>

theorem sem_wait_returns:
  assumes "sem_valid s"
  shows "Sem_Wait s evs \<noteq> None \<longleftrightarrow> 0 < sem_value s \<or> Posted \<in> set evs"
  using assms by (rule Sem_Wait_returns_iff)

theorem sem_wait_returns_witness:
  "Sem_Wait \<lparr>sem_valid = True, sem_value = 0\<rparr> [Signal, Signal, Posted] \<noteq> None \<longleftrightarrow>
     0 < sem_value \<lparr>sem_valid = True, sem_value = 0\<rparr> \<or> Posted \<in> set [Signal, Signal, Posted]"
  by (rule sem_wait_returns) simp

section \<open>The socket registry\<close>

text \<open>
  C11: The poll table with its swap-with-last deletion is a bag of descriptors: on a well-formed table adding
  succeeds exactly for a valid descriptor while there is room and adds one occurrence, deleting
  succeeds exactly for a registered descriptor and removes one occurrence, and both keep the
  table well-formed.
\<close>

theorem registry_is_a_bag:
  assumes "nt_wf o1"
  shows "(fst (PollFDAdd s o1) \<longleftrightarrow> s \<noteq> NU_INVALID_SOCKET \<and> size (poll_fds o1) < m_iMaxFDSize o1) \<and>
    poll_fds (snd (PollFDAdd s o1)) =
      (if fst (PollFDAdd s o1) then add_mset s (poll_fds o1) else poll_fds o1) \<and>
    (fst (PollFDDelete s o1) \<longleftrightarrow> s \<in># poll_fds o1) \<and>
    poll_fds (snd (PollFDDelete s o1)) = poll_fds o1 - {#s#} \<and>
    nt_wf (snd (PollFDAdd s o1)) \<and> nt_wf (snd (PollFDDelete s o1))"
  using assms
  by (simp add: PollFDAdd_ok size_poll_fds PollFDAdd_fds PollFDDelete_ok PollFDDelete_fds
      PollFDAdd_wf PollFDDelete_wf)

theorem registry_is_a_bag_witness:
  "fst (PollFDAdd 5 (network_thread_new 2 0)) \<and>
   poll_fds (snd (PollFDAdd 5 (network_thread_new 2 0))) = {#5#}"
proof -
  let ?o = "network_thread_new 2 0"
  have "poll_fds ?o = {#}" "m_iMaxFDSize ?o = 2"
    by (simp_all add: poll_fds_def network_thread_new_def network_thread.defs ci_thread2.defs)
  then show ?thesis using registry_is_a_bag [OF nt_wf_new, of 5 2 0] by simp
qed

text \<open>
  C12: Through the whole life of a base \<open>CNetworkThread\<close>, interleaved with requests to end it, the poll table
  and the socket set hold the same descriptors, each registered once: every path that drops a
  socket drops it from both.
\<close>

theorem registry_in_step:
  assumes "thread_reach (nt_thread_vtbl K Thread2_InitInstance (nt_base_vtbl K)) s t"
    and "nt_sync (fst s)" and "m_state (fst s) = CI_THREAD2_READY"
  shows "nt_sync (fst t)"
  using base_net.thread.reach_invariant [OF assms] by simp

text \<open>A socket is registered and ready, so that the first round has it to serve.\<close>

theorem registry_in_step_witness:
  "\<exists>t. ThreadProc (nt_thread_vtbl sample_kernel Thread2_InitInstance (nt_base_vtbl sample_kernel))
       (registered 3 (network_thread_new 4 0), world0) = Some t \<and>
     m_ReadSockets (registered 3 (network_thread_new 4 0)) = {3} \<and> nt_sync (fst t)"
proof -
  let ?o = "registered 3 (network_thread_new 4 0)" and ?v = "nt_thread_vtbl sample_kernel Thread2_InitInstance (nt_base_vtbl sample_kernel)"
  have r4: "replicate 4 x = [x, x, x, x]" "replicate 3 x = [x, x, x]" for x :: pollfd by (simp_all add: eval_nat_numeral)
  have n: "m_ReadSockets ?o = {3}" "nt_sync ?o" "m_state ?o = CI_THREAD2_READY" "\<not> IsThreadDone ?o"
    by (simp_all add: r4 registered_def AddReadSocket_def PollFDAdd_def nt_sync_def nt_simps network_thread_new_def network_thread.defs
        ci_thread2.defs ci_thread2_new_def IsThreadDone_def)
  obtain t where t: "ThreadProc ?v (?o, world0) = Some t"
    using base_net.thread.proc_step [of "(?o, world0)" sample_kernel] n(2) by auto
  have r: "thread_reach ?v (?o, world0) t"
    using n(4) t by (intro reach_step [OF reach_start] thread_step.worker) simp_all
  from registry_in_step [OF r] n t r show ?thesis by auto
qed

section \<open>The asio session\<close>

text \<open>
  C13: A receive that completes without an error is answered as if its bytes were padded with zeros to a
  request: the reply goes to the sender of the datagram, and exactly one new receive is started.
\<close>

theorem session_answers:
  assumes "ses_socket o1 = Some k" and "length request = 8"
  shows "\<exists>w2. handle_read_request e A junk request 0 n (o1, w) = Some (o1, w2) \<and>
    a_ops w2 = a_ops w @ [Waiting (new_array junk 8)] \<and>
    a_sent w2 = a_sent w @ sends A (a_clock w) (ses_sender_endpoint o1)
      (heartbeat_reply (ses_representativeIP o1) (ses_localIP o1) (ses_processState o1)
         (zero_padded (take n request)))"
  using handle_read_request_ok [OF assms, of e A junk n w] unfolding session_reply_def by blast

theorem session_answers_witness:
  "\<exists>w2. handle_read_request LittleEndian sample_asio sample_junk sample_request 0 8
      (sample_session, sample_world) = Some (sample_session, w2) \<and>
    a_ops w2 = [Waiting (new_array sample_junk 8)] \<and> length (a_sent w2) = 1"
proof -
  have "ses_socket sample_session = Some closed_socket" by (simp add: HeartBeatSession_def)
  then have "\<exists>w2. handle_read_request LittleEndian sample_asio sample_junk sample_request 0 8
      (sample_session, sample_world) = Some (sample_session, w2) \<and>
    a_ops w2 = a_ops sample_world @ [Waiting (new_array sample_junk 8)] \<and>
    a_sent w2 = a_sent sample_world @ sends sample_asio (a_clock sample_world)
      (ses_sender_endpoint sample_session)
      (heartbeat_reply (ses_representativeIP sample_session) (ses_localIP sample_session)
         (ses_processState sample_session) (zero_padded (take 8 sample_request)))"
    by (rule session_answers) (simp add: sample_request_def)
  moreover have "zero_padded (take 8 sample_request) = sample_request"
    by (simp add: zero_padded_def sample_request_def)
  ultimately show ?thesis
    using sample_request_seq
    by (auto simp: sample_world_def sends_def sample_asio_def heartbeat_reply_def)
qed

text \<open>
  C14: the responder of the legacy library and the asio session, with the same addresses and process state, handle the same datagram from the same sender,
  and both sends succeed.  When it has at least eight bytes, of which both look at eight, they do the same: the same reply to
  the sender, or none when it is no request, on hosts of any byte order.  To a shorter datagram the responder sends
  nothing; the session treats it as if it were padded with zeros.
\<close>

theorem responders_agree:
  assumes "serving s o1" and "k_recv K (clock w) = RecvData sa d" and "k_send K (Suc (clock w)) = SendOk n"
    and "ses_socket t = Some k" and "a_send A (a_clock v) = Inr n'" and "length b = 8"
    and "ses_representativeIP t = m_szRepresentativeIP o1" and "ses_localIP t = m_szLocalIP o1"
    and "ses_processState t = m_processState o1"
  shows "\<exists>o2 w2 t2 v2 ms. serve_entry (hb_vtbl e K junk) 0 (o1, w) = Some (o2, w2) \<and>
    handle_read_request e' A junk' (take 8 d @ drop (length (take 8 d)) b) 0 (length (take 8 d))
      (t\<lparr>ses_sender_endpoint := sa\<rparr>, v) = Some (t2, v2) \<and>
    a_sent v2 = a_sent v @ map (\<lambda>m. (sa, m)) ms \<and>
    ms = (case session_reply t (take 8 d) of None \<Rightarrow> [] | Some m \<Rightarrow> [m]) \<and>
    sent w2 = sent w @ (if 8 \<le> length d then map (\<lambda>m. (s, sa, m)) ms else [])"
proof -
  let ?t = "t\<lparr>ses_sender_endpoint := sa\<rparr>" and ?b = "take 8 d @ drop (length (take 8 d)) b"
  obtain o2 w2 where 1: "serve_entry (hb_vtbl e K junk) 0 (o1, w) = Some (o2, w2)"
    "sent w2 = sent w @ snd (answer_step K (hb_reply o1) s (clock w))"
    using serve_entry_run [OF assms(1), of e K junk w] by metis
  have "ses_socket ?t = Some k" "length ?b = 8" using assms(4,6) by (simp_all add: min_def)
  from handle_read_request_ok [OF this, of e' A junk' "length (take 8 d)" v] obtain v2 where
    2: "handle_read_request e' A junk' ?b 0 (length (take 8 d)) (?t, v) = Some (?t, v2)"
      "a_sent v2 = a_sent v @ sends A (a_clock v) sa (session_reply ?t (take (length (take 8 d)) ?b))" by auto
  have "take (length (take 8 d)) ?b = take 8 d" by (simp add: min_def)
  moreover have "session_reply ?t x = session_reply t x" for x by (simp add: session_reply_def)
  ultimately have v: "a_sent v2 = a_sent v @ map (\<lambda>m. (sa, m)) (case session_reply t (take 8 d) of None \<Rightarrow> [] | Some m \<Rightarrow> [m])"
    using 2(2) assms(5) by (simp add: sends_def split: option.split)
  have rep: "hb_reply o1 (take 8 d) = (if 8 \<le> length d then session_reply t (take 8 d) else None)"
    using assms(7-9) by (simp add: hb_reply_def session_reply_def zero_padded_long heartbeat_reply_def request_seq_def)
  have "snd (answer_step K (hb_reply o1) s (clock w)) = (if 8 \<le> length d
      then map (\<lambda>m. (s, sa, m)) (case session_reply t (take 8 d) of None \<Rightarrow> [] | Some m \<Rightarrow> [m]) else [])"
    using assms(2,3) rep by (simp add: answer_step_def split: option.split)
  then show ?thesis using 1 2(1) v by auto
qed

theorem responders_agree_witness:
  "\<exists>o2 w2 t2 v2 m. serve_entry (hb_vtbl LittleEndian sample_kernel sample_junk) 0 (registered 3 sample_responder, world0) = Some (o2, w2) \<and>
    handle_read_request BigEndian sample_asio sample_junk sample_request 0 8
      (sample_session\<lparr>ses_sender_endpoint := [1]\<rparr>, sample_world) = Some (t2, v2) \<and>
    a_sent v2 = [([1], m)] \<and> sent w2 = [(3, [1], m)]"
proof -
  obtain w2 where s: "serving 3 (registered 3 sample_responder)"
    using InitInstance_serving [OF sample_may_init, of sample_responder LittleEndian]
    by (auto simp: new_responder sample_kernel_def)
  have k: "ses_socket sample_session = Some closed_socket" by (simp add: HeartBeatSession_def)
  have q: "\<exists>m. session_reply sample_session sample_request = Some m"
    using sample_request_seq by (simp add: session_reply_def zero_padded_long heartbeat_reply_def sample_request_def)
  have eq: "ses_representativeIP sample_session = m_szRepresentativeIP (registered 3 sample_responder)"
    "ses_localIP sample_session = m_szLocalIP (registered 3 sample_responder)"
    "ses_processState sample_session = m_processState (registered 3 sample_responder)"
    by (simp_all add: HeartBeatSession_def registered_fields new_responder)
  have l: "length sample_request = 8" by (simp add: sample_request_def)
  from responders_agree [OF s, of sample_kernel world0 "[1]" sample_request 100 sample_session closed_socket sample_asio sample_world 22
      "replicate 8 0" LittleEndian sample_junk BigEndian sample_junk] k eq q
  show ?thesis by (auto simp: l sample_kernel_def sample_asio_def sample_world_def world0_def)
qed

text \<open>
  An empty datagram, which is no request, is answered by the asio session as a request with sequence
  number 0: the missing bytes are read from zero-initialised integers.
\<close>

theorem empty_datagram_answered:
  assumes "ses_socket o1 = Some k" and "length request = 8" and "a_send A (a_clock w) = Inr n"
  shows "request_seq [] = None \<and>
    (\<exists>w2. handle_read_request e A junk request 0 0 (o1, w) = Some (o1, w2) \<and>
       a_sent w2 = a_sent w @ [(ses_sender_endpoint o1, encode_response
         \<lparr>hr_seq = 0, hr_representative = ses_representativeIP o1,
          hr_state = ses_processState o1, hr_local = ses_localIP o1\<rparr>)])"
proof -
  have "zero_padded [] = encode_request 0" by (rule zero_padded_empty)
  then have "sends A (a_clock w) (ses_sender_endpoint o1) (session_reply o1 []) =
      [(ses_sender_endpoint o1, encode_response
         \<lparr>hr_seq = 0, hr_representative = ses_representativeIP o1,
          hr_state = ses_processState o1, hr_local = ses_localIP o1\<rparr>)]"
    using assms(3) by (simp add: sends_def session_reply_def heartbeat_reply_def request_seq_encode)
  then show ?thesis
    using handle_read_request_ok [OF assms(1,2), of e A junk 0 w] by (auto simp: request_seq_def)
qed

theorem empty_datagram_answered_witness:
  "\<exists>w2. handle_read_request LittleEndian sample_asio sample_junk (replicate 8 0xCC) 0 0
     (sample_session, sample_world) = Some (sample_session, w2) \<and> a_sent w2 \<noteq> []"
proof -
  have "ses_socket sample_session = Some closed_socket" by (simp add: HeartBeatSession_def)
  from empty_datagram_answered [OF this, of "replicate 8 0xCC" sample_asio sample_world 22
      LittleEndian sample_junk]
  show ?thesis by (auto simp: sample_asio_def)
qed

text \<open>
  C15: In every state of a session, however arrivals, failures, handlers, state changes and \<open>clear\<close>
  interleave, at most one receive is outstanding; when it has completed and its handler has not run yet, \<open>sender_endpoint_\<close> is
  the sender of the datagram in its buffer, the last one that has arrived.  So the datagrams sent answer datagrams that have arrived:
  each is the reply to one of them, with the configured addresses, and goes to its sender; none is answered twice, and the order is theirs.
  The error that \<open>clear\<close> leaves for the receive that it aborts is not 0.
\<close>

theorem one_receive_outstanding:
  assumes "ses_reach e A junk aborted (o1, w) (o2, w2)" and "ses_inv rep loc (o1, w)" and "aborted \<noteq> 0"
  shows "length (a_ops w2) \<le> 1 \<and> answered rep loc (a_arrived w2) (a_sent w2) \<and>
    (\<forall>b n. a_ops w2 = [Queued b 0 n] \<longrightarrow> (\<exists>ds. a_arrived w2 = ds @ [(ses_sender_endpoint o2, take n b)]))"
proof -
  have i: "ses_inv rep loc (o2, w2)" using ses_reach_inv [OF assms] .
  then obtain ds where ds: "a_arrived w2 = ds @ pending (o2, w2)" "answered rep loc ds (a_sent w2)"
    by (auto simp: ses_inv_def)
  have "answered rep loc (a_arrived w2) (a_sent w2)" unfolding ds(1) using ds(2) by (rule answered_more)
  then show ?thesis using i ds(1) by (auto simp: ses_inv_def)
qed

text \<open>A session that waits, gets the request and runs its handler.\<close>

abbreviation waiting_world :: asio_world where
  "waiting_world \<equiv> sample_world\<lparr>a_ops := [Waiting (replicate 8 0)]\<rparr>"

lemma waiting_inv: "ses_inv [65] [66] (sample_session, waiting_world)"
  by (simp add: ses_inv_def HeartBeatSession_def sample_world_def answered_Nil)

theorem one_receive_outstanding_witness:
  "\<exists>o2 w2. ses_reach LittleEndian sample_asio sample_junk 125 (sample_session, waiting_world) (o2, w2) \<and>
     length (a_sent w2) = 1 \<and> a_arrived w2 = [([1], sample_request)] \<and> length (a_ops w2) \<le> 1 \<and>
     answered [65] [66] [([1], sample_request)] (a_sent w2)"
proof -
  let ?o = "sample_session\<lparr>ses_sender_endpoint := [1]\<rparr>" and ?d = "([1], sample_request)"
  let ?w = "sample_world\<lparr>a_ops := [Queued sample_request 0 8], a_arrived := [?d]\<rparr>"
    and ?v = "sample_world\<lparr>a_ops := [], a_arrived := [?d]\<rparr>"
  have r: "take 8 sample_request = sample_request" "length sample_request = 8" by (simp_all add: sample_request_def)
  have "ses_step LittleEndian sample_asio sample_junk 125 (sample_session, waiting_world)
     (?o, waiting_world\<lparr>a_ops := [] @ Queued (take 8 sample_request @ drop (length (take 8 sample_request)) (replicate 8 0)) 0
        (length (take 8 sample_request)) # [], a_arrived := a_arrived waiting_world @ [([1], take 8 sample_request)]\<rparr>)"
    by (rule arrive) (simp_all add: HeartBeatSession_def)
  then have 1: "ses_step LittleEndian sample_asio sample_junk 125 (sample_session, waiting_world) (?o, ?w)"
    by (simp add: r sample_world_def)
  have k: "ses_socket ?o = Some closed_socket" by (simp add: HeartBeatSession_def)
  have "session_reply ?o sample_request \<noteq> None"
    using sample_request_seq by (simp add: session_reply_def zero_padded_long heartbeat_reply_def r)
  then obtain w2 where h: "handle_read_request LittleEndian sample_asio sample_junk sample_request 0 8 (?o, ?v) = Some (?o, w2)"
      "length (a_sent w2) = 1" "a_arrived w2 = [?d]"
    using handle_read_request_ok [OF k r(2), of LittleEndian sample_asio sample_junk 8 ?v]
    by (auto simp: sends_def sample_asio_def sample_world_def r)
  have v: "?w\<lparr>a_ops := [] @ []\<rparr> = ?v" by (simp add: sample_world_def)
  have 2: "ses_step LittleEndian sample_asio sample_junk 125 (?o, ?w) (?o, w2)"
  proof (rule dispatch)
    show "a_ops ?w = [] @ Queued sample_request 0 8 # []" by simp
    show "handle_read_request LittleEndian sample_asio sample_junk sample_request 0 8 (?o, ?w\<lparr>a_ops := [] @ []\<rparr>) = Some (?o, w2)"
      unfolding v by (rule h(1))
  qed
  have 3: "ses_reach LittleEndian sample_asio sample_junk 125 (sample_session, waiting_world) (?o, w2)"
    by (rule ses_more [OF ses_more [OF ses_start 1] 2])
  from one_receive_outstanding [OF 3 waiting_inv] h(2,3) 3 show ?thesis by (intro exI [of _ ?o] exI [of _ w2]) simp
qed

text \<open>
  C16: After one failed receive the session is dead: the handler reports the error, with its code, its text and the address of the last
  sender, changes nothing else and starts no new receive; from then on no interleaving of events makes the session send anything again
  or start a receive, and the report stays in the log.
\<close>

theorem receive_error_silences:
  assumes "a_ops w = [Queued b err n]" and "err \<noteq> 0"
  shows "\<exists>s. handle_read_request e A junk b err n (o1, w\<lparr>a_ops := []\<rparr>) = Some s \<and> fst s = o1 \<and>
    snd s = w\<lparr>a_ops := [], a_log := a_log w @ [(err, report A o1 (a_message A err))]\<rparr> \<and>
    (\<forall>t. ses_reach e A junk aborted s t \<longrightarrow>
       a_ops (snd t) = [] \<and> a_sent (snd t) = a_sent w \<and> prefix (a_log (snd s)) (a_log (snd t)))"
proof -
  let ?s = "(o1, handle_error err (report A o1 (a_message A err)) (w\<lparr>a_ops := []\<rparr>))"
  have "a_ops (snd ?s) = []" "a_sent (snd ?s) = a_sent w" by (simp_all add: handle_error_def)
  then have "a_ops (snd t) = [] \<and> a_sent (snd t) = a_sent w \<and> prefix (a_log (snd ?s)) (a_log (snd t))"
    if "ses_reach e A junk aborted ?s t" for t
    using ses_reach_idle [OF that] ses_reach_log [OF that] by simp
  then show ?thesis using handle_read_request_error [OF assms(2)]
    by (intro exI [of _ ?s]) (simp add: handle_error_def)
qed

theorem receive_error_silences_witness:
  "\<exists>s t. handle_read_request LittleEndian sample_asio sample_junk (replicate 8 0) 111 0 (sample_session, sample_world) = Some s \<and>
     ses_reach LittleEndian sample_asio sample_junk 125 s t \<and> ses_socket (fst t) = None \<and> a_sent (snd t) = [] \<and>
     prefix [(111, ''error from 10.0.0.1'')] (a_log (snd t))"
proof -
  let ?w = "sample_world\<lparr>a_ops := [Queued (replicate 8 0) 111 0]\<rparr>"
  have w: "?w\<lparr>a_ops := []\<rparr> = sample_world" by (simp add: sample_world_def)
  obtain s where s: "handle_read_request LittleEndian sample_asio sample_junk (replicate 8 0) 111 0 (sample_session, sample_world) = Some s"
      "fst s = sample_session" "a_log (snd s) = [(111, report sample_asio sample_session ''error'')]"
    and t: "\<And>t. ses_reach LittleEndian sample_asio sample_junk 125 s t \<Longrightarrow>
      a_sent (snd t) = [] \<and> prefix (a_log (snd s)) (a_log (snd t))"
    using receive_error_silences [of ?w "replicate 8 0" 111 0 LittleEndian sample_asio sample_junk sample_session 125]
    unfolding w by (auto simp: sample_world_def sample_asio_def)
  let ?t = "HBS_clear sample_asio 125 s"
  have r: "ses_reach LittleEndian sample_asio sample_junk 125 s ?t" by (rule ses_more [OF ses_start close])
  have n: "ses_socket (fst ?t) = None" by (simp add: HBS_clear_def Let_def split: option.split)
  have l: "report sample_asio sample_session ''error'' = ''error from 10.0.0.1''"
    by (simp add: report_def remote_address_def sample_asio_def)
  show ?thesis using s(1) r n t [OF r] unfolding s(3) l by blast
qed

text \<open>
  C17: A handler that was already queued with success when \<open>clear\<close> ran dereferences the null socket pointer:
  such a state is reached by a datagram that arrives just before \<open>clear\<close>.
\<close>

theorem handler_after_clear_undefined:
  assumes "ses_socket o1 = Some k" and "a_ops w = [Waiting b]"
  shows "\<exists>o2 w2 b2 n. ses_reach e A junk aborted (o1, w) (o2, w2) \<and> a_ops w2 = [Queued b2 0 n] \<and>
    handle_read_request e A junk b2 0 n (o2, w2\<lparr>a_ops := []\<rparr>) = None"
proof -
  let ?b = "take 8 sample_request @ drop (length (take 8 sample_request)) b"
  let ?s = "(o1\<lparr>ses_sender_endpoint := []\<rparr>,
      w\<lparr>a_ops := [] @ Queued ?b 0 (length (take 8 sample_request)) # [],
        a_arrived := a_arrived w @ [([], take 8 sample_request)]\<rparr>)"
  obtain o2 w2 where 2: "HBS_clear A aborted ?s = (o2, w2)" by fastforce
  have "ses_reach e A junk aborted (o1, w) ?s"
    using assms by (intro ses_more [OF ses_start] arrive) simp_all
  then have "ses_reach e A junk aborted (o1, w) (o2, w2)"
    using ses_more [OF _ close, of e A junk aborted "(o1, w)" ?s] 2 by metis
  moreover have "ses_socket o2 = None" "a_ops w2 = [Queued ?b 0 (length (take 8 sample_request))]"
    using 2 assms(1) by (auto simp: HBS_clear_def handle_error_def a_tick_def Let_def split: if_splits)
  ultimately show ?thesis using handle_read_request_cleared by blast
qed

theorem handler_after_clear_undefined_witness:
  "\<exists>o2 w2 b2 n. ses_reach LittleEndian sample_asio sample_junk 125
      (sample_session, sample_world\<lparr>a_ops := [Waiting (replicate 8 0)]\<rparr>) (o2, w2) \<and>
    a_ops w2 = [Queued b2 0 n] \<and>
    handle_read_request LittleEndian sample_asio sample_junk b2 0 n (o2, w2\<lparr>a_ops := []\<rparr>) = None"
  by (rule handler_after_clear_undefined [of _ closed_socket _ "replicate 8 0"])
     (simp_all add: HeartBeatSession_def)

section \<open>Safe strings\<close>

text \<open>
  The safe copy into an array of at least \<open>iNDest\<close> bytes, \<open>iNDest\<close> positive, never writes behind \<open>iNDest\<close>, always
  leaves a terminated string, copies as much of the source as fits, and reports the length of
  the source and whether all of it fitted.
\<close>

theorem safe_copy_truncates:
  assumes "is_cstring src" "0 < iNDest" "iNDest \<le> int (length dest)"
  shows "\<exists>a. CiStrCpy (Some dest) (Some src) iNDest =
      Some (int (length (text_of src)) < iNDest, Some a, length (text_of src)) \<and>
    length a = length dest \<and> is_cstring a \<and>
    text_of a = take (nat iNDest - 1) (text_of src) \<and>
    drop (nat iNDest) a = drop (nat iNDest) dest"
  by (rule CiStrCpy_run [OF assms])

theorem safe_copy_truncates_witness:
  "\<exists>a. CiStrCpy (Some [1, 2, 3, 4]) (Some [65, 66, 67, 68, 0]) 3 = Some (False, Some a, 4) \<and>
     text_of a = [65, 66] \<and> drop 3 a = [4]"
  using safe_copy_truncates [of "[65, 66, 67, 68, 0]" 3 "[1, 2, 3, 4]"] by auto

text \<open>
  The safe append keeps the destination a terminated string within \<open>iNDest\<close> bytes: it holds as
  much of the concatenation as fits, nothing behind \<open>iNDest\<close> changes, and the result tells the
  length of the concatenation and whether all of it fitted.
\<close>

theorem safe_append_truncates:
  assumes "is_cstring dest" "is_cstring src" "0 < iNDest" "iNDest \<le> int (length dest)"
  shows "\<exists>a. CiStrCat (Some dest) (Some src) iNDest =
      Some (int (length (text_of dest @ text_of src)) < iNDest, Some a,
            length (text_of dest @ text_of src)) \<and>
    length a = length dest \<and> is_cstring a \<and>
    text_of a = take (nat iNDest - 1) (text_of dest @ text_of src) \<and>
    drop (nat iNDest) a = drop (nat iNDest) dest"
  by (rule CiStrCat_run [OF assms])

theorem safe_append_truncates_witness:
  "\<exists>a. CiStrCat (Some [65, 66, 0, 3, 4]) (Some [67, 68, 0]) 4 = Some (False, Some a, 4) \<and>
     text_of a = [65, 66, 67] \<and> drop 4 a = [4]"
  using safe_append_truncates [of "[65, 66, 0, 3, 4]" "[67, 68, 0]" 4] by auto

section \<open>Time\<close>

text \<open>
  A time span below \<open>2 ^ 31\<close> days in magnitude, positive or negative, is split into days, hours,
  minutes, seconds and milliseconds without overflow, and the five fields make the same span
  again.
\<close>

theorem span_fields_round_trip:
  assumes "magnitude m < 2 ^ 31 * MS_DAY"
  shows "\<exists>d h mi s ms. ts_GetFields (CMTimeSpan2 m) = Some (d, h, mi, s, ms) \<and>
    ts_SetFields d h mi s ms = Some (CMTimeSpan2 m)"
  by (rule ts_fields_round_trip [OF assms])

theorem span_fields_round_trip_witness:
  "\<exists>d h mi s ms. ts_GetFields (CMTimeSpan2 (- 90061001)) = Some (d, h, mi, s, ms) \<and>
     ts_SetFields d h mi s ms = Some (CMTimeSpan2 (- 90061001))"
  by (rule span_fields_round_trip) (simp add: magnitude_simps)

lemma span_text_kept:
  "(if m < 0 then magnitude m - 2 * days_of (magnitude m) * MS_DAY else m) = m \<longleftrightarrow> 0 \<le> m \<or> MS_DAY dvd m"
proof (cases "m < 0")
  case True
  then have a: "magnitude m = - m" by (simp add: magnitude_simps)
  have "- m - 2 * (- m div MS_DAY) * MS_DAY = m \<longleftrightarrow> - m = - m div MS_DAY * MS_DAY" by linarith
  also have "\<dots> \<longleftrightarrow> - m mod MS_DAY = 0" using div_mult_mod_eq [of "- m" MS_DAY] by linarith
  also have "\<dots> \<longleftrightarrow> MS_DAY dvd m" by (simp only: mod_eq_0_iff_dvd dvd_minus_iff)
  finally show ?thesis using True by (simp add: a days_of_def)
qed simp

text \<open>
  C18: the text of a span below a hundred days fits its array and is read back.  A span that is not negative or a whole number
  of days comes back unchanged, and no other does: of a negative one only the days keep their sign, since it is written once, in front of the
  days, and the reader takes each of the five numbers on its own.
\<close>

theorem span_text_read_back:
  assumes "magnitude m < 100 * MS_DAY"
  shows "\<exists>a b. ts_GetText junk (CMTimeSpan2 m) = Some a \<and> ts_SetText junk' a = Some (CMTimeSpan2 b) \<and>
    b = (if m < 0 then magnitude m - 2 * days_of (magnitude m) * MS_DAY else m) \<and>
    (b = m \<longleftrightarrow> 0 \<le> m \<or> MS_DAY dvd m)"
  using ts_text_read_back [OF assms, of junk junk'] span_text_kept [of m] by blast

theorem span_text_read_back_witness:
  "\<forall>junk. (\<exists>a. ts_GetText junk (CMTimeSpan2 (- 1)) = Some a \<and> ts_SetText junk a = Some (CMTimeSpan2 1)) \<and>
     (\<exists>a. ts_GetText junk (CMTimeSpan2 (- 86400000)) = Some a \<and> ts_SetText junk a = Some (CMTimeSpan2 (- 86400000)))"
proof
  fix junk
  have "magnitude (- 1) = 1" "magnitude (- 86400000) = 86400000" by (simp_all add: magnitude_simps)
  then show "(\<exists>a. ts_GetText junk (CMTimeSpan2 (- 1)) = Some a \<and> ts_SetText junk a = Some (CMTimeSpan2 1)) \<and>
     (\<exists>a. ts_GetText junk (CMTimeSpan2 (- 86400000)) = Some a \<and> ts_SetText junk a = Some (CMTimeSpan2 (- 86400000)))"
    using span_text_read_back [of "- 1" junk junk] span_text_read_back [of "- 86400000" junk junk] by (simp add: days_of_def)
qed

text \<open>
  With exact arithmetic and a whole frame rate \<open>r\<close> of at least two, \<open>sec\<close> seconds are \<open>sec * r\<close> frames, but
  \<open>r\<close> frames are converted to at least 1500 milliseconds: the remainder is taken after the
  whole seconds, not after the frames in them.
\<close>

theorem frames_of_a_second:
  assumes "2 \<le> r" "r < 2 ^ 31" "0 \<le> sec" "sec * 1000 < 2 ^ 63"
  shows "MSecondToFrame exact_fpu (sec * 1000) (of_int r) = Some (sec * r) \<and>
    (\<exists>ms. FrameToMSecond exact_fpu r (of_int r) = Some ms \<and> 1500 \<le> ms)"
  using MSecondToFrame_seconds [of sec r] FrameToMSecond_one_second [of r] assms by simp

theorem frames_of_a_second_witness:
  "MSecondToFrame exact_fpu (2 * 1000) (of_int 25) = Some (2 * 25) \<and>
     (\<exists>ms. FrameToMSecond exact_fpu 25 (of_int 25) = Some ms \<and> 1500 \<le> ms)"
  by (rule frames_of_a_second) simp_all

text \<open>
  The text of a point in time fits its array, and reading it gives the same time to the
  millisecond, wherever \<open>mktime\<close> (with the uninitialised daylight saving flag it is given) undoes
  \<open>localtime\<close> and the fields lie in their calendar ranges.
\<close>

theorem time_text_round_trip:
  assumes "0 \<le> m_llMSecond t" "m_llMSecond t < 2 ^ 63"
    and "c_localtime C (m_llMSecond t div 1000) = Some p"
    and "c_mktime C (p\<lparr>tm_isdst := isdst\<rparr>) = m_llMSecond t div 1000"
    and "valid_fields (tm_year p + 1900, tm_mon p + 1, tm_mday p, tm_hour p, tm_min p, tm_sec p,
        m_llMSecond t mod 1000)"
  shows "\<exists>a. mt_GetText C junk t = Some (Some a) \<and> mt_SetText C isdst junk' a u = Some (True, t)"
  by (rule time_round_trip [OF assms])

text \<open>The first day of 1970 in a zone without daylight saving.\<close>

definition sample_clib :: clib where
  "sample_clib =
     \<lparr>c_mktime = \<lambda>p. tm_hour p * 3600 + tm_min p * 60 + tm_sec p,
      c_localtime = \<lambda>t. Some \<lparr>tm_year = 70, tm_mon = 0, tm_mday = 1, tm_hour = t div 3600,
        tm_min = t mod 3600 div 60, tm_sec = t mod 60, tm_isdst = 0\<rparr>,
      c_ftime = (0, 0)\<rparr>"

theorem time_text_round_trip_witness:
  "\<forall>junk isdst u. \<exists>a. mt_GetText sample_clib junk (CMTime2 45296789) = Some (Some a) \<and>
     mt_SetText sample_clib isdst junk a u = Some (True, CMTime2 45296789)"
  by (intro allI time_text_round_trip [where p = "\<lparr>tm_year = 70, tm_mon = 0, tm_mday = 1,
        tm_hour = 12, tm_min = 34, tm_sec = 56, tm_isdst = 0\<rparr>"])
     (simp_all add: sample_clib_def valid_fields_def)

text \<open>
  The difference of two times, where it does not overflow, added to the second gives the first, and subtracted from the first
  gives the second.
\<close>

theorem time_difference_adds_up:
  assumes "ck_ll (m_llMSecond a) \<noteq> None" "ck_ll (m_llMSecond b) \<noteq> None" "mt_diff a b = Some ts"
  shows "mt_add b ts = Some a \<and> mt_sub a ts = Some b"
  using mt_diff_add [OF assms(1,3)] assms(2) by auto

theorem time_difference_adds_up_witness:
  "mt_add (CMTime2 7) (CMTimeSpan2 (- 4)) = Some (CMTime2 3) \<and>
     mt_sub (CMTime2 3) (CMTimeSpan2 (- 4)) = Some (CMTime2 7)"
  by (rule time_difference_adds_up)
     (simp_all add: ck_ll_def mt_diff_def ts_SetTimeSpan_def)

section \<open>Lists of nodes\<close>

text \<open>Two allocated nodes that belong to nothing yet.\<close>

definition two_nodes :: lmem where
  "two_nodes =
     \<lparr>nodes = [1 \<mapsto> \<lparr>m_pPrevious = 0, m_pNext = 0, m_pItem = 0\<rparr>,
               2 \<mapsto> \<lparr>m_pPrevious = 0, m_pNext = 0, m_pItem = 0\<rparr>],
      objects = {}, brk = 3\<rparr>"

text \<open>
  C19: under a working mutex every sequence of enqueues and dequeues, in any order and on an empty
  queue, too, gives the nodes a list would give and leaves the queue holding what the list holds, with the count
  right, as long as no node is enqueued that is in the queue already.
\<close>

theorem queue_is_fifo:
  assumes "safe_rep s xs" "well_used (raw_spare s) cs xs"
  shows "\<exists>s'. queue_run safe_enq safe_deq cs s = Some (fst (list_run cs xs), s') \<and>
    safe_rep s' (snd (list_run cs xs))"
  by (rule safeq.run_is_list_run [OF assms])

theorem queue_is_fifo_witness:
  "\<exists>s'. queue_run safe_enq safe_deq [Enq 2, Enq 1, Deq, Enq 2, Deq, Deq, Deq] (queue_new, two_nodes) =
     Some ([2, 1, 2, 0], s') \<and> safe_rep s' []"
  using queue_is_fifo [of "(queue_new, two_nodes)" "[]" "[Enq 2, Enq 1, Deq, Enq 2, Deq, Deq, Deq]"]
  by (simp add: safe_rep_def raw_rep_def queue_rep_new
      raw_spare_def two_nodes_def Let_def)

text \<open>
  C20: every sequence of additions, deletions (that keep the object), reads at a position, searches and
  counts on the linked list gives the results and leaves the contents that the same operations
  have on a plain list of objects, for every choice of identities; positions are not negative.
\<close>

theorem list_refines_spec:
  assumes "list_holds s xs" "list_all index_ok cs"
  shows "\<exists>s'. run_steps (list_step (AddItem I) (\<lambda>v. DeleteItem I v True) GetItem FindIndex GetNItems)
        cs s = Some (fst (spec_run (same_id I) cs xs), s') \<and>
      list_holds s' (snd (spec_run (same_id I) cs xs))"
  by (rule clist.run_refines [OF assms])

text \<open>A list as it is constructed.\<close>

definition new_list :: ll where
  "new_list = (list_new 100, \<lparr>nodes = Map.empty, objects = {}, brk = 1\<rparr>)"

lemma new_list_holds: "list_holds new_list []"
  unfolding list_holds_def new_list_def using list_rep_new [of "\<lparr>nodes = Map.empty, objects = {}, brk = 1\<rparr>" 100]
  by auto

lemma same_default: "same_id default_ids = (=)"
  by (simp add: same_id_def default_ids_def fun_eq_iff)

theorem list_refines_spec_witness:
  "\<exists>s'. run_steps (list_step (AddItem default_ids) (\<lambda>v. DeleteItem default_ids v True) GetItem
        FindIndex GetNItems) [Add 5, Add 5, Add 6, Item 1, Remove 5, Index 6, Count] new_list =
      Some ([Done True, Done False, Done True, Object 6, Done True, Number 0, Number 1], s') \<and>
      list_holds s' [6]"
  using list_refines_spec [OF new_list_holds, of "[Add 5, Add 5, Add 6, Item 1, Remove 5, Index 6, Count]"
      default_ids]
  by (simp add: same_default known_def Let_def)

text \<open>
  A list that was constructed and then only used through these operations never holds two objects
  with the same identity, and none of the operations follows a dangling pointer.
\<close>

theorem list_objects_unique:
  assumes "0 < brk m" "list_all index_ok cs"
  shows "\<exists>s' out xs. run_steps (list_step (AddItem I) (\<lambda>v. DeleteItem I v True) GetItem FindIndex
        GetNItems) cs (list_new k, m) = Some (out, s') \<and> list_holds s' xs \<and>
      sorted_wrt (\<lambda>x y. \<not> same_id I x y) xs"
proof -
  have "list_holds (list_new k, m) []" unfolding list_holds_def using list_rep_new [OF assms(1)] by auto
  from clist.run_refines [OF this assms(2), of I] spec_run_unique [of "same_id I" "[]" cs]
  show ?thesis by auto
qed

theorem list_objects_unique_witness:
  "\<exists>s' out xs. run_steps (list_step (AddItem default_ids) (\<lambda>v. DeleteItem default_ids v True) GetItem
        FindIndex GetNItems) [Add 5, Add 5] (list_new 0, two_nodes) = Some (out, s') \<and>
      list_holds s' xs \<and> sorted_wrt (\<lambda>x y. \<not> same_id default_ids x y) xs"
  by (rule list_objects_unique) (simp_all add: two_nodes_def)

text \<open>
  C21: the destructor deletes every object of the list, once, and every node of the list and of its
  cache: nothing is deleted twice and nothing is left allocated.
\<close>

theorem destructor_frees_all:
  assumes "list_rep s xs ys" "distinct (map snd xs)" "0 \<notin> snd ` set xs" "snd ` set xs \<subseteq> objects (snd s)"
  shows "\<exists>m. list_destroy s = Some m \<and> objects m = objects (snd s) - snd ` set xs \<and>
    (\<forall>a \<in> fst ` set xs \<union> fst ` set ys. nodes m a = None)"
  by (rule list_destroy_run [OF assms])

text \<open>Two lists of one object each, at nodes 1 and 2 of one memory.\<close>

definition one_item :: "addr \<Rightarrow> linked_list" where
  "one_item p = \<lparr>m_linkItemCache = queue_new, m_iCacheSize = 100, m_pHead = p, m_pTail = p, m_iNItems = 1\<rparr>"

definition two_items :: lmem where
  "two_items =
     \<lparr>nodes = [1 \<mapsto> \<lparr>m_pPrevious = 0, m_pNext = 0, m_pItem = 8\<rparr>,
               2 \<mapsto> \<lparr>m_pPrevious = 0, m_pNext = 0, m_pItem = 9\<rparr>],
      objects = {8, 9}, brk = 3\<rparr>"

lemma one_item_rep:
  "list_rep (one_item 1, two_items) [(1, 8)] []" "list_rep (one_item 2, two_items) [(2, 9)] []"
  by (simp_all add: list_rep_def one_item_def two_items_def dll_def counted_def queue_rep_def queue_new_def)

theorem destructor_frees_all_witness:
  "\<exists>m. list_destroy (one_item 1, two_items) = Some m \<and> objects m = {9} \<and> nodes m 1 = None"
  using destructor_frees_all [OF one_item_rep(1)] by (auto simp: two_items_def)

text \<open>
  Concatenating a list of distinct, non-null objects to one that has none of them (with the
  default identities) moves all of them, in order, and leaves the source empty, although the nodes are released to
  one cache and allocated from another while the source is being traversed.
\<close>

theorem concatenation_moves_all:
  assumes "list_rep (dst, m) xs ys" "list_rep (src, m) us zs"
    and "(fst ` set xs \<union> fst ` set ys) \<inter> (fst ` set us \<union> fst ` set zs) = {}"
    and "distinct (map snd us)" "0 \<notin> snd ` set us" "snd ` set us \<inter> snd ` set xs = {}"
  shows "\<exists>dst' src' m'. Concatenation default_ids dst src m = Some (True, dst', src', m') \<and>
    list_holds (dst', m') (map snd xs @ map snd us) \<and> list_holds (src', m') [] \<and>
    objects m' = objects m"
proof -
  obtain dst' src' m' ys' zs' ws where
    "concat_from default_ids (first 0 us) (first 0 (tl us)) dst src m = Some (True, dst', src', m')"
    "list_rep (dst', m') (xs @ ws) ys'" "list_rep (src', m') [] zs'" "map snd ws = map snd us"
    "objects m' = objects m"
    using concat_from_run [OF assms] by blast
  then show ?thesis
    unfolding Concatenation_def GetFirstPosition2_run [OF assms(2)] list_holds_def by fastforce
qed

theorem concatenation_moves_all_witness:
  "\<exists>dst' src' m'. Concatenation default_ids (one_item 1) (one_item 2) two_items =
      Some (True, dst', src', m') \<and> list_holds (dst', m') [8, 9] \<and> list_holds (src', m') [] \<and>
      objects m' = objects two_items"
  using concatenation_moves_all [OF one_item_rep] by simp

text \<open>
  When the destination already has an object with the identity of the source's first one, the
  concatenation takes that object out of the source, fails to add it and stops: the object is in
  neither list any more (unless it is the very one the destination holds).
\<close>

theorem concatenation_drops_object:
  assumes "list_rep (dst, m) xs ys" "list_rep (src, m) (u # us) zs"
    and "(fst ` set xs \<union> fst ` set ys) \<inter> (fst ` set (u # us) \<union> fst ` set zs) = {}"
    and "snd u \<noteq> 0" "same_id I (snd u) (snd u)" "known (same_id I) (snd u) (map snd xs)"
  shows "\<exists>src' m'. Concatenation I dst src m = Some (False, dst, src', m') \<and>
    list_holds (dst, m') (map snd xs) \<and> list_holds (src', m') (map snd us) \<and>
    objects m' = objects m"
  by (rule Concatenation_drops [OF assms])

theorem concatenation_drops_object_witness:
  "\<exists>src' m'. Concatenation \<lparr>GetIDOf = (\<lambda>p. 7), IsIDEqual = (=)\<rparr> (one_item 1) (one_item 2) two_items =
      Some (False, one_item 1, src', m') \<and> list_holds (one_item 1, m') [8] \<and>
      list_holds (src', m') [] \<and> objects m' = {8, 9}"
  using concatenation_drops_object [OF one_item_rep, of "\<lparr>GetIDOf = (\<lambda>p. 7), IsIDEqual = (=)\<rparr>"]
  by (simp add: same_id_def known_def two_items_def)

text \<open>
  Releasing nodes through the raw interface of the cache never counts them, so the cache takes
  any number of nodes and its size limit has no effect.
\<close>

theorem raw_release_unbounded:
  assumes "queue_rep q m ys" "q_iNItems q < k" "distinct (map fst ys @ ps)"
    and "\<forall>p \<in> set ps. p \<noteq> 0 \<and> nodes m p \<noteq> None"
  shows "\<exists>q' m' zs. raw_release_all k ps (q, m) = Some (q', m') \<and> queue_rep q' m' zs \<and>
    map fst zs = map fst ys @ ps \<and> q_iNItems q' = q_iNItems q"
  by (rule raw_release_all_run [OF assms])

theorem raw_release_unbounded_witness:
  "\<exists>q' m' zs. raw_release_all 1 [1, 2] (queue_new, two_nodes) = Some (q', m') \<and> queue_rep q' m' zs \<and>
     map fst zs = [1, 2] \<and> q_iNItems q' = 0"
  using raw_release_unbounded [OF queue_rep_new, of 1 "[1, 2]" two_nodes]
  by (simp add: two_nodes_def queue_new_def)

section \<open>Sockets\<close>

text \<open>
  A host for the examples: the calls of \<open>net_calls\<close> succeed and know one address; an allocator with
  a thousand bytes; a connected socket with two empty buffers of \<open>n\<close> bytes.
\<close>

definition sample_net :: net_calls where
  "sample_net =
     \<lparr>n_getfl = \<lambda>c. True, n_setfl = \<lambda>c. True, n_connect = \<lambda>c. Some CI_EINPROGRESS, n_listen = \<lambda>c. True,
      n_accept = \<lambda>c. Some (4, 1, 1), n_so_error = \<lambda>c. Some 111, n_buf_size = \<lambda>c. Some 4096,
      n_local = \<lambda>c. Some (1, 1), n_peer = \<lambda>c. Some (1, 1), n_parse = \<lambda>t. if t = [49] then Some 1 else None,
      n_addr = \<lambda>t. 1, n_text = \<lambda>a. [49]\<rparr>"

definition sample_heap :: heap where
  "sample_heap = \<lparr>h_ok = \<lambda>n. n < 1000, h_junk = sample_junk\<rparr>"

definition sample_socket :: "nat \<Rightarrow> sock_state" where
  "sample_socket n =
     (\<lparr>m_iSocket = 3, m_socketType = CI_SOCKET_TCP, m_iConnectTimeOutMillieSec = 2000,
       m_iSendTimeOutMillieSec = 2000, m_iRecvTimeOutMillieSec = 3000,
       m_send = mk_ring (replicate n 0) 0 0, m_recv = mk_ring (replicate n 0) 0 0\<rparr>, world0)"

lemma sample_socket_ok:
  assumes "0 < n" "n < 2 ^ 31"
  shows "recv_ok (sample_socket n)" "recv_data (sample_socket n) = []"
    "send_ok (sample_socket n)" "send_data (sample_socket n) = []"
  using assms by (simp_all add: sample_socket_def recv_ok_def send_ok_def ring_ok_mk ring_bytes_def)

lemma sample_progress: "sends_progress sample_kernel" and sample_signals: "signals_end sample_kernel"
  by (simp_all add: sends_progress_def signals_end_def sample_kernel_def)

text \<open>
  C22: however reads from the network into the buffer and reads out of the buffer alternate, the bytes the application
  got, followed by those in the buffer, are exactly the bytes the connection delivered; no byte is
  lost, doubled or reordered when the buffer wraps, and no operation leaves its block of memory.
\<close>

theorem socket_reads_in_order:
  assumes "reads K s xs t" and "recv_ok s" and "recv_data s = []" and "instream (snd s) = []"
  shows "instream (snd t) = xs @ recv_data t \<and>
    GetCurrentRecvDataSize (fst t) = int (length (recv_data t)) \<and>
    (\<exists>ok u. ReadFromNetworkToBuffer K t = Some (ok, u)) \<and>
    (\<forall>n. 0 \<le> n \<longrightarrow> (\<exists>r u. ReadN n t = Some (r, u)))"
proof -
  obtain ys where t: "recv_ok t" "took ys (snd s) (snd t)" "recv_data s @ ys = xs @ recv_data t"
    using reads_in_order [OF assms(1,2)] by blast
  have "instream (snd t) = xs @ recv_data t" using t(2,3) assms(3,4) by (simp add: took_def)
  moreover have "GetCurrentRecvDataSize (fst t) = int (length (recv_data t))"
    using t(1) ring_used_ok by (simp add: GetCurrentRecvDataSize_def recv_ok_def)
  moreover have "\<exists>ok u. ReadFromNetworkToBuffer K t = Some (ok, u)"
    using ReadFromNetworkToBuffer_ok [OF t(1)] by blast
  moreover have "\<exists>r u. ReadN n t = Some (r, u)" if "0 \<le> n" for n
    using ReadN_ok [OF t(1) that] by (auto split: if_splits)
  ultimately show ?thesis by blast
qed

text \<open>A buffer of four bytes: three bytes arrive, two are taken out, and the next fill wraps.\<close>

theorem socket_reads_in_order_witness:
  "\<exists>t. reads sample_kernel (sample_socket 4) [0, 0] t \<and> instream (snd t) = [0, 0] @ recv_data t \<and>
     length (recv_data t) = 2"
proof -
  let ?s = "sample_socket 4"
  note sel = sample_socket_def sample_kernel_def sample_request_def world0_def
  note eval = ReadFromNetworkToBuffer_def ReadN_def ring_get_def recv_into.simps sys_recv_def put_at_def
    get_at_def slice_of_def blit_def eval_nat_numeral tick_def Let_def
  obtain s1 where s1: "ReadFromNetworkToBuffer sample_kernel ?s = Some (True, s1)"
    "m_recv (fst s1) = mk_ring [0, 0, 0, 0] 0 3"
    by (simp add: sel eval mk_ring_def)
  obtain s2 where s2: "ReadN 2 s1 = Some ((True, Some 2, [0, 0]), s2)"
    "m_recv (fst s2) = mk_ring [0, 0, 0, 0] 2 3"
    by (simp add: s1(2) eval mk_ring_def)
  obtain s3 where s3: "ReadFromNetworkToBuffer sample_kernel s2 = Some (True, s3)"
    "m_recv (fst s3) = mk_ring [0, 0, 0, 0] 2 0"
    by (simp add: s2(2) eval sample_kernel_def sample_request_def mk_ring_def)
  have l: "length (recv_data s3) = 2" by (simp add: s3(2) ring_bytes_def)
  have r: "reads sample_kernel ?s [0, 0] s3"
    using reads.fill [OF reads.take [OF reads.fill [OF reads.start s1(1)] _ s2(1)] s3(1)] by simp
  have "recv_ok ?s" "recv_data ?s = []" "instream (snd ?s) = []"
    using sample_socket_ok [of 4] by (simp_all add: sample_socket_def world0_def)
  from socket_reads_in_order [OF r this] l r show ?thesis by blast
qed

text \<open>
  C23: as long as the send buffer has room, or can grow without being wrapped, a write never leaves its block of memory
  and takes a prefix of the caller's bytes, in order behind all that was accepted before: what is on
  the wire and what waits in the buffer is what was accepted.  When it returns true it took
  everything, and says so.
\<close>

theorem socket_writes_in_order:
  assumes "sends_progress K" and "send_ok s" and "send_room H (length bs) (m_send (fst s))"
  shows "\<exists>ok n s' xs rest. WriteN H K bs s = Some ((ok, n), s') \<and> bs = xs @ rest \<and>
    send_ok s' \<and> outgoing s' = outgoing s @ xs \<and> instream (snd s') = instream (snd s) \<and>
    (ok \<longrightarrow> rest = [] \<and> n = Some (int (length bs)))"
  by (rule WriteN_ok [OF assms])

theorem socket_writes_in_order_witness:
  "\<exists>ok n s' xs rest. WriteN sample_heap sample_kernel [1, 2, 3] (sample_socket 8) = Some ((ok, n), s') \<and>
    [1, 2, 3] = xs @ rest \<and> send_ok s' \<and> outgoing s' = outgoing (sample_socket 8) @ xs \<and>
    instream (snd s') = instream (snd (sample_socket 8)) \<and>
    (ok \<longrightarrow> rest = [] \<and> n = Some (int (length [1, 2, 3 :: byte])))"
proof (rule socket_writes_in_order [OF sample_progress])
  show "send_ok (sample_socket 8)" by (rule sample_socket_ok) simp_all
  show "send_room sample_heap (length [1, 2, 3 :: byte]) (m_send (fst (sample_socket 8)))"
    by (simp add: send_room_def sample_socket_def ring_bytes_def)
qed

text \<open>
  C24: a message of a 16, a 32 and a 64 bit integer, written on a host of either byte order, is read back on a
  host of either byte order from the bytes that the writes put out: each read succeeds, gives the
  integer that was written and leaves exactly the bytes behind it.
\<close>

theorem integers_cross_hosts:
  assumes "sends_progress K" and "send_ok s"
    and "WriteInt16 e1 H K a s = Some (True, s1)" and "send_room H 2 (m_send (fst s))"
    and "WriteInt32 e1 H K b s1 = Some (True, s2)" and "send_room H 4 (m_send (fst s1))"
    and "WriteInt64 e1 H K c s2 = Some (True, s3)" and "send_room H 8 (m_send (fst s2))"
    and "outgoing s3 = outgoing s @ msg" and "recv_ok t" and "recv_data t = msg @ rest"
  shows "\<exists>t1 t2 t3. ReadInt16 e2 t = Some (Some a, t1) \<and> ReadInt32 e2 t1 = Some (Some b, t2) \<and>
    ReadInt64 e2 t2 = Some (Some c, t3) \<and> recv_data t3 = rest"
proof -
  note 1 = WriteInt16_gave [OF assms(3,1,2,4)]
  note 2 = WriteInt32_gave [OF assms(5,1) _ assms(6)]
  note 3 = WriteInt64_gave [OF assms(7,1) _ assms(8)]
  have "msg = be_image a @ be_image b @ be_image c" using 1 2 3 assms(9) by simp
  then have d: "recv_data t = be_image a @ be_image b @ be_image c @ rest" using assms(11) by simp
  obtain t1 where t1: "ReadInt16 e2 t = Some (Some a, t1)" "recv_ok t1"
    "recv_data t1 = be_image b @ be_image c @ rest" using ReadInt_takes(1) [OF assms(10) d] by blast
  obtain t2 where t2: "ReadInt32 e2 t1 = Some (Some b, t2)" "recv_ok t2" "recv_data t2 = be_image c @ rest"
    using ReadInt_takes(2) [OF t1(2,3)] by blast
  from ReadInt_takes(3) [OF t2(2,3)] t1(1) t2(1) show ?thesis by blast
qed

lemma sample_write:
  assumes "send_data s = []" "send_ok s" "bs \<noteq> []" "length bs \<le> 100"
  shows "\<exists>s'. WriteN sample_heap sample_kernel bs s = Some ((True, Some (int (length bs))), s') \<and>
    fst s' = fst s \<and> outgoing s' = outgoing s @ bs"
proof -
  have "k_send sample_kernel (clock (snd s)) = SendOk 100" by (simp add: sample_kernel_def)
  from WriteN_at_once [OF assms(2,1,3) this assms(4)] show ?thesis
    using assms(1) by (simp add: outgoing_def)
qed

theorem integers_cross_hosts_witness:
  "\<exists>t t1 t2 t3. recv_data t = be_image (258 :: i16) @ be_image (7 :: i32) @ be_image (9 :: i64) @ [5] \<and>
    ReadInt16 BigEndian t = Some (Some 258, t1) \<and> ReadInt32 BigEndian t1 = Some (Some 7, t2) \<and>
    ReadInt64 BigEndian t2 = Some (Some 9, t3) \<and> recv_data t3 = [5]"
proof -
  let ?s = "sample_socket 32" and ?w = "WriteN sample_heap sample_kernel"
  let ?m1 = "mem_image LittleEndian (hton LittleEndian (258 :: i16))"
  let ?m2 = "mem_image LittleEndian (hton LittleEndian (7 :: i32))"
  let ?m3 = "mem_image LittleEndian (swap64 LittleEndian 9)"
  have s: "send_data ?s = []" "send_ok ?s" by (simp_all add: sample_socket_ok)
  have l: "length ?m1 = 2" "length ?m2 = 4" "length ?m3 = 8" by simp_all
  have ne: "?m1 \<noteq> []" "?m2 \<noteq> []" "?m3 \<noteq> []" using l by (metis list.size(3) zero_neq_numeral)+
  obtain s1 where s1: "?w ?m1 ?s = Some ((True, Some (int (length ?m1))), s1)" "fst s1 = fst ?s"
    using sample_write [OF s ne(1)] l by auto
  have e1: "send_data s1 = []" "send_ok s1" using s s1(2) by (simp_all add: send_ok_def)
  obtain s2 where s2: "?w ?m2 s1 = Some ((True, Some (int (length ?m2))), s2)" "fst s2 = fst ?s"
    using sample_write [OF e1 ne(2)] l s1(2) by auto
  have e2: "send_data s2 = []" "send_ok s2" using s s2(2) by (simp_all add: send_ok_def)
  obtain s3 where s3: "?w ?m3 s2 = Some ((True, Some (int (length ?m3))), s3)"
    using sample_write [OF e2 ne(3)] l by auto
  have w: "WriteInt16 LittleEndian sample_heap sample_kernel 258 ?s = Some (True, s1)"
    "WriteInt32 LittleEndian sample_heap sample_kernel 7 s1 = Some (True, s2)"
    "WriteInt64 LittleEndian sample_heap sample_kernel 9 s2 = Some (True, s3)"
    using s1(1) s2(1) s3
    by (simp_all add: WriteInt16_def WriteInt32_def WriteInt64_def send_int_def send_int64_def send_image_def)
  have room: "send_room sample_heap n (m_send (fst ?s))" if "n < 32" for n
    using that by (simp add: send_room_def sample_socket_def ring_bytes_def)
  let ?msg = "be_image (258 :: i16) @ be_image (7 :: i32) @ be_image (9 :: i64)"
  have out: "outgoing s3 = outgoing ?s @ ?msg"
    using WriteInt16_gave [OF w(1) sample_progress s(2) room] WriteInt32_gave [OF w(2) sample_progress e1(2)]
      WriteInt64_gave [OF w(3) sample_progress e2(2)] room s1(2) s2(2) by simp
  let ?t = "((fst ?s)\<lparr>m_recv := mk_ring (?msg @ [5, 0]) 0 15\<rparr>, world0)"
  have t: "recv_ok ?t" "recv_data ?t = ?msg @ [5]"
    by (simp_all add: recv_ok_def ring_ok_mk ring_bytes_def)
  from integers_cross_hosts [OF sample_progress s(2) w(1) room w(2) _ w(3) _ out t, of BigEndian] room s1(2) s2(2) t
  show ?thesis by fastforce
qed

text \<open>
  C25: what growing does to a buffer whose data is wrapped: \<open>PrepareSendBuffer\<close> moves as many bytes as the block grows
  by, not as many as lie between the start position and the end of the block, so when the tail is
  shorter than the growth the move runs past the end of the new block.
\<close>

theorem wrapped_growth_overruns:
  assumes "send_ok s" and "r_end (m_send (fst s)) < r_start (m_send (fst s))"
    and "RemainingSendBufferSize (fst s) \<le> int (length bs)"
    and "length (send_data s) + length bs + 1 < 2 ^ 31" and "h_ok H (length (send_data s) + length bs + 1)"
    and "r_size (m_send (fst s)) - r_start (m_send (fst s))
           < int (length (send_data s) + length bs + 1) - r_size (m_send (fst s))"
  shows "WriteNToBuffer H bs (fst s) = None"
proof -
  obtain b st e where r: "m_send (fst s) = mk_ring b st e" "length b < 2 ^ 31" "st < length b" "e < length b"
    using ring_ok_cases [OF assms(1) [unfolded send_ok_def]] by blast
  have "r_size (m_send (fst s)) \<le> int (length (send_data s) + length bs)"
    using assms(3) ring_remaining_mk [OF r(2-4)] by (simp add: RemainingSendBufferSize_def r(1))
  from ring_put_overrun [OF assms(1) [unfolded send_ok_def] assms(2,4,5) this assms(6)]
  show ?thesis by (simp add: WriteNToBuffer_ring_put)
qed

theorem wrapped_growth_overruns_witness:
  "WriteNToBuffer sample_heap [5, 6, 7, 8, 9]
     ((fst (sample_socket 4))\<lparr>m_send := mk_ring [1, 2, 3, 4] 3 2\<rparr>) = None"
  using wrapped_growth_overruns [of "((fst (sample_socket 4))\<lparr>m_send := mk_ring [1, 2, 3, 4] 3 2\<rparr>, world0)"
      "[5, 6, 7, 8, 9]" sample_heap]
  by (simp add: send_ok_def ring_ok_mk ring_bytes_def sample_heap_def RemainingSendBufferSize_def ring_remaining_mk)

text \<open>
  C26: \<open>WriteNFlush\<close> always returns, after at most 3001 calls of \<open>send\<close> for each byte, however
  often the kernel refuses; what was sent is a prefix of the caller's bytes, and when it returns true
  everything was sent.
\<close>

theorem flush_write_bounded:
  assumes "sends_progress K"
  shows "\<exists>ok n w' xs rest. WriteNFlush K bs s = Some ((ok, n), fst s, w') \<and>
    bs = xs @ rest \<and> outstream w' = outstream (snd s) @ xs \<and>
    (ok \<longrightarrow> rest = [] \<and> n = Some (int (length bs))) \<and>
    clock w' \<le> clock (snd s) + 3001 * length bs"
proof -
  obtain ok rest w' xs where f: "flush_loop K 0 bs (snd s) = Some ((ok, rest), w')" "bs = xs @ rest"
    "gave xs (snd s) w'" "ok \<longrightarrow> rest = []"
    "if bs = [] then clock w' = clock (snd s) else clock w' + 0 \<le> clock (snd s) + 3001 * length bs"
    using flush_loop_returns [OF assms le0, of bs "snd s"] by (elim exE conjE) blast
  have "WriteNFlush K bs s =
      Some ((ok, if ok then Some (int (length bs) - int (length rest)) else None), fst s, w')"
    by (simp add: WriteNFlush_def f(1))
  moreover have "clock w' \<le> clock (snd s) + 3001 * length bs" using f(5) by (simp split: if_splits)
  ultimately show ?thesis using f(2-4) unfolding gave_def by fastforce
qed

theorem flush_write_bounded_witness:
  "\<exists>ok n w' xs rest. WriteNFlush (sample_kernel\<lparr>k_send := \<lambda>c. SendFail CI_EWOULDBLOCK\<rparr>) [1, 2] (sample_socket 8) =
      Some ((ok, n), fst (sample_socket 8), w') \<and>
    [1, 2] = xs @ rest \<and> outstream w' = outstream (snd (sample_socket 8)) @ xs \<and>
    (ok \<longrightarrow> rest = [] \<and> n = Some (int (length [1, 2 :: byte]))) \<and>
    clock w' \<le> clock (snd (sample_socket 8)) + 3001 * length [1, 2 :: byte]"
  by (rule flush_write_bounded) (simp add: sends_progress_def)

text \<open>
  C27: \<open>Connect\<close> returns, and in one of three states: connected on a new descriptor to the parsed address;
  failed before \<open>connect\<close>, with the new, unconnected descriptor left in the object; or failed after
  it, with the descriptor closed and the object invalid again.  In none of them is the descriptor
  the object had before closed.
\<close>

theorem connect_outcome:
  assumes "signals_end K"
  shows "\<exists>ok s'. CiSocket_Connect e K N server port source n s = Some (ok, s') \<and>
    (let new = k_socket K (clock (snd s)) in
     if ok
     then IsValidSocket (fst s') \<and> m_iSocket (fst s') = new \<and> closed_fds (snd s') = closed_fds (snd s) \<and>
       (\<exists>addr. n_parse N server = Some addr \<and> conns (snd s') = conns (snd s) @ [(new, addr, hton e port)])
     else m_iSocket (fst s') = new \<and> quiet (snd s) (snd s') \<or>
       \<not> IsValidSocket (fst s') \<and> 0 \<le> new \<and> closed_fds (snd s') = closed_fds (snd s) @ [new])"
proof -
  obtain ok s' where c: "CiSocket_Connect e K N server port source n s = Some (ok, s')"
    using Connect_returns [OF assms] by blast
  from Connect_result [OF c] c show ?thesis unfolding Let_def by blast
qed

theorem connect_outcome_witness:
  "\<exists>ok s'. CiSocket_Connect LittleEndian sample_kernel sample_net [49] 80 None 0 (sample_socket 8) = Some (ok, s') \<and>
    (let new = k_socket sample_kernel (clock (snd (sample_socket 8))) in
     if ok
     then IsValidSocket (fst s') \<and> m_iSocket (fst s') = new \<and>
       closed_fds (snd s') = closed_fds (snd (sample_socket 8)) \<and>
       (\<exists>addr. n_parse sample_net [49] = Some addr \<and>
          conns (snd s') = conns (snd (sample_socket 8)) @ [(new, addr, hton LittleEndian 80)])
     else m_iSocket (fst s') = new \<and> quiet (snd (sample_socket 8)) (snd s') \<or>
       \<not> IsValidSocket (fst s') \<and> 0 \<le> new \<and>
       closed_fds (snd s') = closed_fds (snd (sample_socket 8)) @ [new])"
  by (rule connect_outcome [OF sample_signals])

text \<open>
  Searching the receive buffer for a text gives the offset of its first occurrence in the bytes that wait to be
  read, wrapped or not, or -1 when there is none, and leaves those bytes alone; the bytes must not
  contain a zero.
\<close>

theorem buffered_text_found:
  assumes "recv_ok s" and "recv_data s \<noteq> []" and "0 \<notin> set (recv_data s)"
  shows "\<exists>i c. StrExistInReadBuffer (Some p) (fst s) = Some (i, c) \<and>
    ring_ok (m_recv c) \<and> ring_data (m_recv c) = recv_data s \<and>
    (if i = - 1 then \<forall>j. take (length p) (drop j (recv_data s)) \<noteq> p
     else 0 \<le> i \<and> take (length p) (drop (nat i) (recv_data s)) = p \<and>
       (\<forall>j < nat i. take (length p) (drop j (recv_data s)) \<noteq> p))"
proof (cases "str_find p (recv_data s)")
  case None
  then show ?thesis using StrExist_ok [OF assms, of p] str_find_spec(2) [OF None] by auto
next
  case (Some i)
  have "int i \<noteq> - 1" by simp
  then show ?thesis using StrExist_ok [OF assms, of p] str_find_spec(1) [OF Some] Some
    by (intro exI [of _ "int i"]) auto
qed

theorem buffered_text_found_witness:
  "\<exists>i c. StrExistInReadBuffer (Some [4, 1])
       ((fst (sample_socket 4))\<lparr>m_recv := mk_ring [1, 2, 3, 4] 3 2\<rparr>) = Some (i, c) \<and> i \<noteq> - 1 \<and>
     ring_data (m_recv c) = [4, 1, 2]"
proof -
  let ?c = "(fst (sample_socket 4))\<lparr>m_recv := mk_ring [1, 2, 3, 4] 3 2\<rparr>"
  have d: "recv_ok (?c, world0)" "recv_data (?c, world0) = [4, 1, 2]"
    by (simp_all add: recv_ok_def ring_ok_mk ring_bytes_def)
  have "recv_data (?c, world0) \<noteq> []" "0 \<notin> set (recv_data (?c, world0))" unfolding d(2) by simp_all
  from buffered_text_found [OF d(1) this, of "[4, 1]"] obtain i c where f:
    "StrExistInReadBuffer (Some [4, 1]) ?c = Some (i, c)" "ring_data (m_recv c) = [4, 1, 2]"
    "i = - 1 \<Longrightarrow> \<forall>j. take (length [4, 1 :: byte]) (drop j [4, 1, 2 :: byte]) \<noteq> [4, 1]"
    unfolding d(2) by (auto simp: fst_conv split: if_splits)
  have "take (length [4, 1 :: byte]) (drop 0 [4, 1, 2 :: byte]) = [4, 1]" by simp
  then have "i \<noteq> - 1" using f(3) by metis
  then show ?thesis using f(1,2) by blast
qed

text \<open>
  An integer that one host wrote to a stream and another host read from it, the bytes delivered in order, is the same
  integer on both, whatever their byte orders and whether they wait with a time limit or not; and the
  reader stands where the writer stands.
\<close>

theorem stream_integers_cross_hosts:
  assumes "instream u = outstream w"
    and "nu_write_int32 e1 K1 a w = Some (True, w1)" and "nu_read_int32_async e2 K2 s2 u = Some (Some x, u1)"
    and "nu_write_int64_async e1 K1 s1 b w1 = Some (True, w2)" and "nu_read_int64 e2 K2 u1 = Some (Some y, u2)"
    and "delivered w1 u1" and "delivered w2 u2"
  shows "x = a \<and> y = b \<and> instream u2 = outstream w2"
proof -
  have "x = a \<and> instream u1 = outstream w1"
    by (rule delivered_int [OF nu_write_gave(4) [OF assms(2)] nu_read_took(8) [OF assms(3)] assms(1,6)
        dvd_widths(2)])
  moreover from this have "y = b \<and> instream u2 = outstream w2"
    using delivered_int [OF nu_write_gave(6) [OF assms(4)] nu_read_took(2) [OF assms(5)] _ assms(7)
        dvd_widths(3)] by blast
  ultimately show ?thesis by blast
qed

text \<open>A writer whose socket is always writable, and a reader that receives the two integers.\<close>

definition writer_kernel :: kernel where
  "writer_kernel = sample_kernel\<lparr>k_poll := \<lambda>c. PollReady (\<lambda>s. POLLOUT)\<rparr>"

definition reader_kernel :: kernel where
  "reader_kernel = sample_kernel\<lparr>k_recv := \<lambda>c. RecvData []
     (if c = 1 then [0, 0, 0, 7] else [0, 0, 0, 0, 0, 0, 0, 9])\<rparr>"

lemma writer_ready: "poll_one writer_kernel 3 write_events w = Some (1, tick w)"
  by (simp add: poll_one.simps [of _ _ _ w] writer_kernel_def poll_array_def poll_entry_def write_events_def Let_def)

lemma reader_ready: "poll_one reader_kernel 3 read_events w = Some (1, tick w)"
  by (simp add: poll_one.simps [of _ _ _ w] reader_kernel_def sample_kernel_def poll_array_def poll_entry_def
      read_events_def Let_def)

lemma writer_sends:
  assumes "bs \<noteq> []" "length bs \<le> 100"
  shows "sys_send writer_kernel bs w = (Inr (length bs), (tick w)\<lparr>outstream := outstream w @ bs\<rparr>)"
  using assms by (simp add: sys_send_def writer_kernel_def sample_kernel_def min_def)

lemma writer_timed:
  assumes "bs \<noteq> []" "length bs \<le> 100"
  shows "nu_writen_async writer_kernel 3 bs w =
    Some ((True, Some (int (length bs))), (tick (tick w))\<lparr>outstream := outstream w @ bs\<rparr>)"
  using assms(1) writer_sends [OF assms]
  by (simp add: nu_writen_async_def write_n_timed_def send_timed.simps [of _ _ _ bs]
      send_timed.simps [of _ _ _ "[]"] writer_ready)

lemma sample_images:
  "be_image (7 :: i32) = [0, 0, 0, 7]" "be_image (9 :: i64) = [0, 0, 0, 0, 0, 0, 0, 9]"
  by code_simp+

theorem stream_integers_cross_hosts_witness:
  "\<exists>w1 w2 u1 u2. nu_write_int32 LittleEndian writer_kernel 7 world0 = Some (True, w1) \<and>
     nu_read_int32_async BigEndian reader_kernel 3 world0 = Some (Some 7, u1) \<and>
     nu_write_int64_async LittleEndian writer_kernel 3 9 w1 = Some (True, w2) \<and>
     nu_read_int64 BigEndian reader_kernel u1 = Some (Some 9, u2) \<and> instream u2 = outstream w2"
proof -
  let ?m1 = "mem_image LittleEndian (hton LittleEndian (7 :: i32))"
  let ?m2 = "mem_image LittleEndian (swap64 LittleEndian 9)"
  have l: "length ?m1 = 4" "length ?m2 = 8" by simp_all
  have ne: "?m1 \<noteq> []" "?m2 \<noteq> []" using l by (metis list.size(3) zero_neq_numeral)+
  define w1 where "w1 = (tick world0)\<lparr>outstream := outstream world0 @ ?m1\<rparr>"
  define w2 where "w2 = (tick (tick w1))\<lparr>outstream := outstream w1 @ ?m2\<rparr>"
  have "k_send writer_kernel c = SendOk 100" for c by (simp add: writer_kernel_def sample_kernel_def)
  from nu_writen_at_once [OF ne(1) this] have w: "nu_write_int32 LittleEndian writer_kernel 7 world0 = Some (True, w1)"
    using l by (simp add: nu_write_int32_def send_int_def send_image_def w1_def)
  have w': "nu_write_int64_async LittleEndian writer_kernel 3 9 w1 = Some (True, w2)"
    using writer_timed [OF ne(2)] l
    by (simp add: nu_write_int64_async_def send_int64_def send_image_def w2_def)
  note out = nu_write_gave(4) [OF w] nu_write_gave(6) [OF w']
  define u1 where "u1 = (tick (tick world0))\<lparr>instream := [0, 0, 0, 7]\<rparr>"
  have recv: "sys_recv reader_kernel 4 (tick world0) = (Inr [0, 0, 0, 7], u1)"
    by (simp add: sys_recv_def reader_kernel_def world0_def u1_def tick_def)
  have u: "nu_read_int32_async BigEndian reader_kernel 3 world0 =
      Some (Some (ntoh BigEndian (mem_load BigEndian [0, 0, 0, 7])), u1)"
    by (simp add: nu_read_int32_async_def recv_int_def recv_image_def nu_readn_async_def read_n_timed_def
        recv_timed.simps [of _ _ 4] recv_timed.simps [of _ _ 0] reader_ready recv)
  obtain y u2 where u': "nu_read_int64 BigEndian reader_kernel u1 = Some (Some y, u2)" 
      "instream u2 = instream u1 @ [0, 0, 0, 0, 0, 0, 0, 9]"
    by (simp add: nu_read_int64_def recv_int64_def recv_image_def nu_readn_def recv_loop.simps [of _ 8]
        recv_loop.simps [of _ 0] sys_recv_def reader_kernel_def u1_def tick_def world0_def)
  have start: "instream world0 = outstream world0" by (simp add: world0_def)
  have o: "outstream w1 = [0, 0, 0, 7]" "outstream w2 = outstream w1 @ [0, 0, 0, 0, 0, 0, 0, 9]"
    using out by (simp_all add: gave_def world0_def sample_images)
  have d: "delivered w1 u1" "delivered w2 u2"
    using o u'(2) by (simp_all add: delivered_def u1_def)
  from stream_integers_cross_hosts [OF start w u w' u'(1) d]
  have e: "ntoh BigEndian (mem_load BigEndian [0, 0, 0, 7]) = (7 :: i32)" "y = 9" "instream u2 = outstream w2"
    by blast+
  show ?thesis using w w' u [unfolded e(1)] u'(1) [unfolded e(2)] e(3) by blast
qed

text \<open>
  \<open>nu_write_int16\<close> and its sibling with a time limit keep \<open>htons\<close> of the integer in an \<open>int\<close> and send the
  first two bytes of that: on a little-endian host those are the integer, on a big-endian host they
  are two zeros, whatever the integer is.
\<close>

theorem short_integers_lost:
  assumes "nu_write_int16 e K v w = Some (True, w1)" and "nu_write_int16_async e K s v w1 = Some (True, w2)"
  shows "outstream w2 = outstream w @
    (case e of LittleEndian \<Rightarrow> be_image v @ be_image v | BigEndian \<Rightarrow> [0, 0, 0, 0])"
  using nu_write_gave(3) [OF assms(1)] nu_write_gave(7) [OF assms(2)]
  by (simp add: gave_def split: endian.splits)

theorem short_integers_lost_witness:
  "\<exists>w1 w2. nu_write_int16 BigEndian writer_kernel 258 world0 = Some (True, w1) \<and>
     nu_write_int16_async BigEndian writer_kernel 3 258 w1 = Some (True, w2) \<and>
     outstream w2 = [0, 0, 0, 0]"
proof -
  let ?m = "take 2 (mem_image BigEndian (ucast (hton BigEndian (258 :: i16)) :: i32))"
  have l: "length ?m = 2" by simp
  then have ne: "?m \<noteq> []" by (metis list.size(3) zero_neq_numeral)
  define w1 where "w1 = (tick world0)\<lparr>outstream := outstream world0 @ ?m\<rparr>"
  define w2 where "w2 = (tick (tick w1))\<lparr>outstream := outstream w1 @ ?m\<rparr>"
  have "k_send writer_kernel c = SendOk 100" for c by (simp add: writer_kernel_def sample_kernel_def)
  from nu_writen_at_once [OF ne this] have w: "nu_write_int16 BigEndian writer_kernel 258 world0 = Some (True, w1)"
    using l by (simp add: nu_write_int16_def send_int16_of_int_def send_image_def w1_def)
  have w': "nu_write_int16_async BigEndian writer_kernel 3 258 w1 = Some (True, w2)"
    using writer_timed [OF ne] l
    by (simp add: nu_write_int16_async_def send_int16_of_int_def send_image_def w2_def)
  from short_integers_lost [OF w w'] w w' show ?thesis by (auto simp: world0_def)
qed

section \<open>Messages of a connection\<close>

text \<open>A connection that delivers a header, its body of two bytes, and then nothing for a while.\<close>

definition framing_kernel :: kernel where
  "framing_kernel = sample_kernel\<lparr>k_recv := \<lambda>c.
     if c = 0 then RecvData [1] [0, 0, 0, 7, 0, 0, 0, 2]
     else if c = 1 then RecvData [1] [65, 66] else RecvFail CI_EWOULDBLOCK\<rparr>"

text \<open>
  C28: when every \<open>OnMessage\<close> reads the rest of its frame, the messages \<open>ReceiveIntMessage\<close> has reported, however the bytes arrived,
  are the complete frames in the bytes the connection delivered, and the buffer holds the beginning of
  the next frame and nothing else; so a peer that sent whole frames has had all of them delivered, in
  order.  The next call is never undefined, as long as blocks of 2 GB are not to be had.
\<close>

theorem frames_delivered:
  assumes "serves_frames e H K s ms t" and "between_frames s" and "recv_data s = []"
    and "instream (snd s) = []" and "small_blocks H"
  shows "split_frames (instream (snd t)) = (ms, recv_data t) \<and>
    (\<exists>r u. ReceiveIntMessage e H K t = Some (r, u)) \<and>
    (\<forall>all. (\<forall>m\<in>set all. length (snd m) < 2 ^ 31) \<longrightarrow>
       instream (snd t) = concat (map frame_bytes all) \<longrightarrow> ms = all \<and> recv_data t = [])"
proof -
  obtain ys where t: "between_frames t" "took ys (snd s) (snd t)" "split_frames ys = (ms, recv_data t)"
    using serves_frames_split [OF assms(1-3,5)] by blast
  have i: "instream (snd t) = ys" using t(2) assms(4) by (simp add: took_def)
  moreover have "\<exists>r u. ReceiveIntMessage e H K t = Some (r, u)"
    using ReceiveIntMessage_ok [of t H e K] t(1) assms(5) unfolding between_frames_def by blast
  moreover have "ms = all \<and> recv_data t = []"
    if "\<forall>m\<in>set all. length (snd m) < 2 ^ 31" "instream (snd t) = concat (map frame_bytes all)" for all
    using split_frame_bytes [OF that(1)] t(3) that(2) by (simp add: i)
  ultimately show ?thesis using t(3) by blast
qed

theorem frames_delivered_witness:
  "\<exists>t. serves_frames LittleEndian sample_heap framing_kernel (sample_socket 16) [(7, [65, 66])] t \<and>
     split_frames (instream (snd t)) = ([(7, [65, 66])], recv_data t) \<and> recv_data t = []"
proof -
  let ?s = "sample_socket 16"
  define u where "u = snd (the (ReceiveIntMessage LittleEndian sample_heap framing_kernel ?s))"
  define v where "v = snd (the (ReadN (GetCurrentRecvDataSize (fst u)) u))"
  have "map_option fst (ReceiveIntMessage LittleEndian sample_heap framing_kernel ?s) =
      Some (RECEIVE_INT_MESSAGE_TRUE, Some 7)" by code_simp
  then have 1: "ReceiveIntMessage LittleEndian sample_heap framing_kernel ?s =
      Some ((RECEIVE_INT_MESSAGE_TRUE, Some 7), u)" by (auto simp: u_def)
  have "map_option fst (ReadN (GetCurrentRecvDataSize (fst u)) u) = Some (True, Some 6, [0, 0, 0, 2, 65, 66])"
    unfolding u_def by code_simp
  then have 2: "ReadN (GetCurrentRecvDataSize (fst u)) u = Some ((True, Some 6, [0, 0, 0, 2, 65, 66]), v)"
    by (auto simp: v_def)
  have run: "serves_frames LittleEndian sample_heap framing_kernel ?s [(7, [65, 66])] v"
    using serves_frames.message [OF serves_frames.open_conn 1 2] by simp
  have "between_frames ?s" "recv_data ?s = []" "instream (snd ?s) = []" "small_blocks sample_heap"
    using sample_socket_ok [of 16]
    by (simp_all add: between_frames_def Ci_Frames.linear_def recv_ok_def has_frame_def small_blocks_def sample_heap_def
        sample_socket_def world0_def)
  from frames_delivered [OF run this] have "split_frames (instream (snd v)) = ([(7, [65, 66])], recv_data v)" by blast
  moreover have "recv_data v = []" unfolding v_def u_def by code_simp
  ultimately show ?thesis using run by blast
qed

text \<open>
  C29: the size of the body is taken from the network as it is: a peer that announces a body of at least \<open>2 ^ 31 - 8\<close> bytes, on a
  host that grants that much memory, drives \<open>ReceiveIntMessage\<close> into undefined behaviour before a byte
  of the body has arrived.
\<close>

theorem oversized_frame_undefined:
  assumes "8 < length b" and "length b < 2 ^ 31" and "m_recv (fst s) = mk_ring b 0 0"
    and "k_recv K (clock (snd s)) = RecvData a hdr" and "length hdr = 8"
    and "k_recv K (Suc (clock (snd s))) = RecvFail CI_EWOULDBLOCK"
    and "2 ^ 31 - 8 \<le> body_size hdr" and "h_ok H (nat (body_size hdr) + 9)"
  shows "ReceiveIntMessage e H K s = None"
  by (rule oversized_frame [OF assms])

theorem oversized_frame_undefined_witness:
  "ReceiveIntMessage LittleEndian (sample_heap\<lparr>h_ok := \<lambda>n. True\<rparr>)
     (framing_kernel\<lparr>k_recv := \<lambda>c. if c = 0 then RecvData [1] [0, 0, 0, 7, 127, 255, 255, 255]
        else RecvFail CI_EWOULDBLOCK\<rparr>) (sample_socket 16) = None"
proof (rule oversized_frame_undefined)
  show "m_recv (fst (sample_socket 16)) = mk_ring (replicate 16 0) 0 0" by (simp add: sample_socket_def)
  have "body_size [0, 0, 0, 7, 127, 255, 255, 255] = 2 ^ 31 - 1" by code_simp
  then show "2 ^ 31 - 8 \<le> body_size [0, 0, 0, 7, 127, 255, 255, 255]" by simp
qed (simp_all add: sample_socket_def world0_def)

section \<open>The server of CiUtils\<close>

text \<open>
  A host on which every socket is always ready, \<open>accept\<close> gives descriptor 4, the listen socket is 3, and
  a connection delivers the bytes of \<open>framing_kernel\<close>.
\<close>

definition server_env :: net_env where
  "server_env = \<lparr>ne_endian = LittleEndian,
     ne_kernel = framing_kernel\<lparr>k_poll := \<lambda>c. PollReady (\<lambda>s. POLLIN OR POLLRDNORM)\<rparr>,
     ne_calls = sample_net, ne_heap = sample_heap, ne_mem = fst (sample_socket 8)\<rparr>"

abbreviation sample_server :: ci_net_thread where
  "sample_server \<equiv> CNetworkThread_ci 8080 20 20 5 [] 4"

definition started_server :: "ci_net_thread st" where
  "started_server = snd (the (CT_InitInstance server_env (sample_server, world0)))"

lemma sample_server_sel:
  "at_rest sample_server" "ct_iMaxFDSize sample_server = 4" "ct_iListenPortNumber sample_server = 8080"
  "ct_ListenIPAddr sample_server = []" "ct_fresh sample_server = 1"
  by (simp_all add: at_rest_new)
    (simp_all add: CNetworkThread_ci_def CCiThread2_ci_def ci_net_thread.defs ci_thread2_lock.defs ci_thread2.defs)

lemma server_listens:
  obtains c w where "CT_InitInstance server_env (sample_server, world0) = Some (True, listening_at c sample_server, w)"
    "m_iSocket c = 3"
proof -
  have "\<exists>w1. nu_create_listen_socket (ne_endian server_env) (ne_kernel server_env) (ne_calls server_env)
      (word_of_int (ct_iListenPortNumber sample_server)) (ct_iListenQueueSize sample_server)
      (ct_ListenIPAddr sample_server) world0 = (Some 3, w1)"
    by (simp add: nu_create_listen_socket_def sys_socket_def sys_setsockopt_def sys_bind_def sys_listen_def
        server_env_def framing_kernel_def sample_kernel_def sample_net_def sample_server_sel Let_def)
  then show ?thesis using that InitInstance_listens [OF sample_server_sel(1), of server_env world0 3]
    by (auto simp: sample_server_sel)
qed

lemma server_starts: "CT_InitInstance server_env (sample_server, world0) = Some (True, started_server)"
proof -
  obtain c w where "CT_InitInstance server_env (sample_server, world0) = Some (True, listening_at c sample_server, w)"
    using server_listens .
  then show ?thesis by (simp add: started_server_def)
qed

lemma server_table:
  obtains c w where "started_server = (listening_at c sample_server, w)" "m_iSocket c = 3"
    "table (listening_at c sample_server) = [(\<lparr>pfd = 3, pevents = read_events, prevents = 0\<rparr>, 1)]"
proof -
  obtain c w where c: "CT_InitInstance server_env (sample_server, world0) = Some (True, listening_at c sample_server, w)"
    "m_iSocket c = 3" using server_listens .
  have "table (listening_at c sample_server) = [(\<lparr>pfd = 3, pevents = read_events, prevents = 0\<rparr>, 1)]"
    using listening_table [OF sample_server_sel(1)] c(2) by (simp add: sample_server_sel)
  then show ?thesis using that c by (simp add: started_server_def)
qed

lemma server_granted: "granted server_env 20 20"
  by (simp add: granted_def fair_env_def server_env_def small_blocks_def sample_heap_def sends_progress_def
      framing_kernel_def sample_kernel_def)

lemma server_accepts: "accept_ok server_env t (fst started_server)" "accepted server_env t = Some 4"
proof -
  show "accept_ok server_env t (fst started_server)"
  proof -
    obtain c w where t: "started_server = (listening_at c sample_server, w)"
      "table (listening_at c sample_server) = [(\<lparr>pfd = 3, pevents = read_events, prevents = 0\<rparr>, 1)]"
      using server_table .
    have "entry_fd ` set (table (fst started_server)) = {3}"
      unfolding t(1) fst_conv t(2) by (simp add: entry_fd_def)
    then show ?thesis
      unfolding accept_ok_def by (simp only:) (simp add: server_env_def sample_net_def CI_MAX_IP_ADDRESS_LENGTH_def)
  qed
qed (simp add: accepted_def server_env_def sample_net_def)




lemma server_in_service: "in_service server_env (fst started_server)" "listens (fst started_server)"
  using started [OF server_starts _ server_granted] by simp_all

text \<open>A class that takes no descriptor from 4 on turns down the connection that comes first.\<close>

lemma first_connection:
  "wanted server_env (message_vtbl server_env read_message) 4 s"
  "\<not> wanted server_env (message_vtbl server_env (picky_message 4)) 4 s"
proof -
  obtain o1 w where s: "s = (o1, w)" by fastforce
  obtain c w1 where n: "CCiSocket_accepted (ne_heap server_env) (ne_calls server_env) (ne_mem server_env) 4 CI_SOCKET_TCP
      (ct_iConnectedSocketSendBufferSize o1) (ct_iConnectedSocketRecvBufferSize o1) w = (c, w1)" by fastforce
  have "m_iSocket c = 4" using CCiSocket_accepted_frame(1) n by (metis fst_conv)
  then show "wanted server_env (message_vtbl server_env read_message) 4 s"
    "\<not> wanted server_env (message_vtbl server_env (picky_message 4)) 4 s"
    by (simp_all add: s n wanted_def new_socket_with message_vtbl_def read_message_def picky_message_def
        CT_ProcessWithConnectedSocket_def on_obj_def with_new_def split: option.split)
qed

text \<open>
  C31: a connection that \<open>accept\<close> gives to \<open>ProcessConnection\<close> is never lost: either the function returns true and it is a socket object in the table of
  connections, with the descriptor that was accepted, or the function returns false, that descriptor is closed exactly once and the
  connections are those of before.  It is taken exactly when there is a place for it among the connections and in the table of
  \<open>poll\<close>, and the \<open>ProcessWithConnectedSocket\<close> of the derived class, called with the new object, wants it.  What it does leaves
  the server consistent either way.  The derived class is any whose \<open>OnMessage\<close> reads its frame and whose \<open>ProcessWithConnectedSocket\<close>
  changes only the buffers of its socket, leaves them ready for a frame if it wants it, and closes nothing.
\<close>

theorem connection_registered_or_closed:
  assumes "in_service E o1" and "listens o1" and "reads_frames E om"
    and "accept_ok E (clock w) o1" and "accepted E (clock w) = Some sock"
  shows "\<exists>r o2 w2. ProcessConnection E (message_vtbl E om) (o1, w) = Some (r, o2, w2) \<and> in_service E o2 \<and>
    served_or_closed sock r (o1, w) (o2, w2) \<and>
    (fst r \<longleftrightarrow> ct_iReadSocketCount o1 < int (ct_iMaxFDSize o1) \<and> ct_iPollFdCount o1 < ct_iMaxFDSize o1 \<and>
       wanted E (message_vtbl E om) sock (the (listen_served o1), tick w))"
proof -
  obtain e where e: "(e, ct_pListenSocket o1) \<in> set (table o1)" using assms(2) by (auto simp: listens_def)
  from conn_hooks.ProcessConnection_ok [OF frame_hooks [OF assms(3)] _ _ e assms(4)] assms(1,5)
  obtain r o2 w2 where "ProcessConnection E (message_vtbl E om) (o1, w) = Some (r, o2, w2)"
    "server_ok (idle_conn E) o2" "same_server o1 o2" "served_or_closed sock r (o1, w) (o2, w2)"
    "fst r \<longleftrightarrow> has_room o1 \<and> wanted E (message_vtbl E om) sock (the (listen_served o1), tick w)"
    by (auto simp: in_service_def)
  then show ?thesis using in_service_same [OF assms(1)] unfolding has_room_def by blast
qed

theorem connection_registered_or_closed_witness:
  "(\<exists>r o2 w2. ProcessConnection server_env (message_vtbl server_env read_message) started_server = Some (r, o2, w2) \<and>
     in_service server_env o2 \<and> served_or_closed 4 r started_server (o2, w2) \<and>
     (fst r \<longleftrightarrow> has_room (fst started_server))) \<and>
   (\<exists>r o2 w2. ProcessConnection server_env (message_vtbl server_env (picky_message 4)) started_server = Some (r, o2, w2) \<and>
     in_service server_env o2 \<and> served_or_closed 4 r started_server (o2, w2) \<and> \<not> fst r)"
proof -
  note 1 = connection_registered_or_closed [OF server_in_service read_message_reads server_accepts, of "snd started_server"]
  note 2 = connection_registered_or_closed [OF server_in_service picky_message_reads server_accepts, of 4 "snd started_server"]
  show ?thesis using 1 2 first_connection unfolding prod.collapse has_room_def by blast
qed

text \<open>
  C32: \<open>ExitInstance\<close> of a server in service succeeds and closes the descriptor of every connection and of the listen socket, each
  exactly once and no other; no object and no entry of a table is left.  The destructor, run after it, has nothing to do: it deletes
  nothing a second time.
\<close>

theorem exit_closes_everything:
  assumes "in_service E o1"
  defines "fds \<equiv> fds_of (ct_objs o1) (ct_ReadSockets o1 @ [ct_pListenSocket o1])"
  shows "distinct fds \<and>
    (\<exists>o2 w2. CT_ExitInstance K (o1, w) = Some (True, o2, w2) \<and> at_rest o2 \<and> closed_fds w2 = closed_fds w @ fds \<and>
       CNetworkThread_destroy K (o2, w2) = Some (o2, w2))"
proof -
  have "ct_wf o1" "ct_pListenSocket o1 = 0 \<or> listens o1" using assms(1) by (simp_all add: in_service_def server_ok_def)
  from ExitInstance_ok [OF this, of K w] obtain o2 w2 where
    "CT_ExitInstance K (o1, w) = Some (True, o2, w2)" "at_rest o2" "closed_fds w2 = closed_fds w @ fds"
    unfolding fds_def by blast
  then show ?thesis using in_service_fds [OF assms(1)] destroy_at_rest [of o2] unfolding fds_def by blast
qed

theorem exit_closes_everything_witness:
  "\<exists>o2 w2. CT_ExitInstance (ne_kernel server_env) started_server = Some (True, o2, w2) \<and> at_rest o2"
  using exit_closes_everything [OF server_in_service(1), of "ne_kernel server_env" "snd started_server"]
  by (metis prod.collapse)

text \<open>
  C33: the destructor of a server that was not taken down by \<open>ExitInstance\<close> goes wrong: a socket is in the list of connections, or is the
  listen socket, and is also in the table for \<open>poll\<close>, and the destructor deletes the sockets of all of these arrays,
  so it deletes an object that it has deleted before.
\<close>

theorem destructor_deletes_twice:
  assumes "in_service E o1" and "listens o1"
  shows "CNetworkThread_destroy K (o1, w) = None"
proof (rule destroy_in_service)
  show wf: "ct_wf o1" using assms(1) by (simp add: in_service_def server_ok_def)
  obtain e where "(e, ct_pListenSocket o1) \<in> set (table o1)" using assms(2) by (auto simp: listens_def)
  then show "0 < ct_iPollFdCount o1" by (cases "ct_iPollFdCount o1") (simp_all add: table_def)
qed

theorem destructor_deletes_twice_witness:
  "CNetworkThread_destroy (ne_kernel server_env) started_server = None"
  using destructor_deletes_twice [OF server_in_service, of "ne_kernel server_env" "snd started_server"] by simp

theorem disabled_cleanup_reads_null:
  assumes "0 \<in> set (ct_ReadSockets o1)"
  shows "DeleteDisabledReadSockets K preserve (o1, w) = None"
  using drop_disabled_null [OF assms, of K preserve "(o1, w)"] by (simp add: DeleteDisabledReadSockets_def)

section \<open>Threads that run threads\<close>

text \<open>A complex with one member, the server of above on a host without clients, at address 5.\<close>

abbreviation quiet_env :: net_env where
  "quiet_env \<equiv> cut_off server_env"

definition one_member :: ll where
  "one_member = snd (the (AddItem default_ids 5 (list_new 100, \<lparr>nodes = Map.empty, objects = {5}, brk = 1\<rparr>)))"

definition sample_complex :: "ci_net_thread ci_complex" where
  "sample_complex = set_list one_member (CCiThreadComplex (snd one_member) [5 \<mapsto> sample_server])"

lemma one_member_holds: "list_holds one_member [5]"
proof -
  have "list_holds (list_new 100, \<lparr>nodes = Map.empty, objects = {5 :: nat}, brk = 1\<rparr>) []"
    unfolding list_holds_def using list_rep_new [of "\<lparr>nodes = Map.empty, objects = {5}, brk = 1\<rparr>" 100] by auto
  from AddItem_refines [OF this, of default_ids 5] show ?thesis by (auto simp: one_member_def known_def)
qed

lemma sample_complex_sel:
  "cx_list sample_complex = one_member" "cx_threads sample_complex = [5 \<mapsto> sample_server]"
  "m_state sample_complex = CI_THREAD2_READY"
  by (simp_all add: sample_complex_def set_list_def cx_list_def CCiThreadComplex_def CCiThread2_ci_def
      ci_complex.defs ci_thread2_lock.defs ci_thread2.defs)

lemma sample_member: "server_member quiet_env sample_server"
proof -
  have "granted quiet_env 20 20" using server_granted
    by (simp add: granted_def fair_env_def sends_progress_def cut_off_def)
  moreover have "m_state sample_server = CI_THREAD2_READY" "ct_iConnectedSocketSendBufferSize sample_server = 20"
    "ct_iConnectedSocketRecvBufferSize sample_server = 20"
    by (simp_all add: CNetworkThread_ci_def CCiThread2_ci_def ci_net_thread.defs ci_thread2_lock.defs ci_thread2.defs)
  ultimately show ?thesis by (simp add: server_member_def sample_server_sel)
qed

text \<open>
  C34: a complex of network threads that was started or is about to start, asked to end, is done after one call of \<open>ThreadProc\<close>, and by
  then each of its members has ended, whatever state it was in: its tables are empty and all its socket objects are deleted.
  It is asked of the host that no clients connect meanwhile.
\<close>

theorem complex_ends_its_servers:
  fixes o1 :: "('a ci_net_thread_scheme, 'c) ci_complex_scheme"
  assumes "no_clients E" and "reads_frames E om" and "2 < n"
    and "list_holds (cx_list o1) is" and "members_ok (\<lambda>p s. server_member E (fst s)) is (o1, w)"
    and "m_state o1 \<in> {CI_THREAD2_READY, CI_THREAD2_DONE_INITINSTANCE}"
  shows "\<exists>o2 w2. thread_loop 2 (cx_vtbl n (server_vtbls E om)) (EndThread o1, w) = Some (o2, w2) \<and>
    m_state o2 = CI_THREAD2_DONE \<and>
    (\<forall>p\<in>set is. \<exists>m. member_at p o2 = Some m \<and> IsThreadDone m \<and> at_rest m)"
proof -
  have members: "complex_members (server_vtbls E om) (\<lambda>p s. server_member E (fst s)) ending_thread rounds_left 2"
    using server_members [OF assms(1-3)] by (rule ending_complex.axioms)
  from complex_members.complex_ends [OF members assms(4,5,3,6)] obtain o2 w2 where
    "thread_loop 2 (cx_vtbl n (server_vtbls E om)) (EndThread o1, w) = Some (o2, w2)" "m_state o2 = CI_THREAD2_DONE"
    "\<forall>p\<in>set is. \<exists>m. member_at p o2 = Some m \<and> server_member E (fst (m, w2)) \<and> IsThreadDone m" by blast
  moreover have "at_rest m" if "server_member E m" "IsThreadDone m" for m :: "'a ci_net_thread_scheme"
    using that by (auto simp: server_member_def IsThreadDone_def)
  ultimately show ?thesis by fastforce
qed

theorem complex_ends_its_servers_witness:
  "\<exists>o2 w2. thread_loop 2 (cx_vtbl 3 (server_vtbls quiet_env read_message)) (EndThread sample_complex, world0) = Some (o2, w2) \<and>
     m_state o2 = CI_THREAD2_DONE \<and> (\<exists>m. member_at 5 o2 = Some m \<and> IsThreadDone m \<and> at_rest m)"
proof -
  have "members_ok (\<lambda>p s. server_member quiet_env (fst s)) [5] (sample_complex, world0)"
    using sample_member by (simp add: members_ok_def member_at_def sample_complex_sel)
  from complex_ends_its_servers [OF cut_off_no_clients read_message_reads _ _ this, of 3] one_member_holds
  show ?thesis by (simp add: sample_complex_sel)
qed

text \<open>
  A clock that stands still, and a complex without members with the period \<open>p\<close>: of a second and a bit, or
  of an hour and a half.
\<close>

definition standing :: "nat \<Rightarrow> clib" where
  "standing t = \<lparr>c_mktime = \<lambda>p. 0, c_localtime = \<lambda>s. None, c_ftime = (0, 0)\<rparr>"

definition paced_complex :: "int \<Rightarrow> ci_net_thread rt_complex" where
  "paced_complex p = ci_complex.extend (CCiThreadComplex \<lparr>nodes = Map.empty, objects = {}, brk = 1\<rparr> Map.empty)
     (rt_complex.fields \<lparr>m_mdBaseTime = CMTime2 0, m_iPeriodMillieSec = p, m_llExecutionCounter = 0\<rparr>)"

lemma paced_flavor:
  "rt_flavor (paced_complex p) = \<lparr>m_mdBaseTime = CMTime2 0, m_iPeriodMillieSec = p, m_llExecutionCounter = 0\<rparr>"
  by (simp add: paced_complex_def rt_complex.defs ci_complex.defs CCiThreadComplex_def CCiThread2_ci_def
      ci_thread2_lock.defs ci_thread2.defs)

lemma paced_run:
  assumes "\<bar>p\<bar> < 2 ^ 31"
  shows "\<exists>o2 w2. RT_Run standing mv (paced_complex p, world0) = Some (True, o2, w2)"
proof -
  let ?f = "rt_flavor (paced_complex p)"
  have f: "?f = \<lparr>m_mdBaseTime = CMTime2 0, m_iPeriodMillieSec = p, m_llExecutionCounter = 0\<rparr>" by (rule paced_flavor)
  have g: "cx_ciThreads (paced_complex p) = list_new 100" "cx_mem (paced_complex p) = \<lparr>nodes = Map.empty, objects = {}, brk = 1\<rparr>"
    by (simp_all add: paced_complex_def rt_complex.defs ci_complex.defs CCiThreadComplex_def CCiThread2_ci_def
        ci_thread2_lock.defs ci_thread2.defs)
  have "rt_GetPaceInMillieSec (standing 0) (?f\<lparr>m_llExecutionCounter := 1\<rparr>) = Some p"
    using assms by (subst pace_returns) (simp_all add: f(1) due_def now_ms_def standing_def)
  then have 1: "\<exists>us. rt_next standing ?f world0 = Some (us, ?f\<lparr>m_llExecutionCounter := 1\<rparr>, tick (tick world0))"
    using f(1) by (simp add: rt_next_def C_Text.ck_ll_def world0_def Let_def)
  have "list_holds (cx_list ((paced_complex p)\<lparr>rt_flavor := g\<rparr>)) []" for g
    using list_rep_new [of "\<lparr>nodes = Map.empty, objects = {}, brk = 1\<rparr>" 100]
    by (auto simp: cx_list_def g list_holds_def)
  then show ?thesis using 1 by (auto simp: RT_Run_def traversals_run(1))
qed

text \<open>
  C35: before its round a real-time complex calls \<open>usleep\<close> once.  With \<open>late\<close> the milliseconds until the period that starts, read from the clock, it asks
  for no time when that is past, and else for \<open>late * 1000\<close> microseconds, of which only the 32 bits of a \<open>useconds_t\<close> are left: so
  when the period starts in less than 4294968 milliseconds, the sleep ends when it starts, and when it starts later, the sleep
  ends too early.  Its start is the base time plus the period times the number of the round.  The rounds are numbered one after the other, the base time
  stays, and only at the largest \<open>long long\<close> are both set back.
\<close>

theorem round_keeps_schedule:
  assumes "RT_Run C mv (o1, w) = Some (r, o2, w2)"
  defines "f \<equiv> rt_flavor o1"
  shows "\<exists>us f2 w1 t start. rt_next C f w = Some (us, f2, w1) \<and>
    CX_Run mv (o1\<lparr>rt_flavor := f2\<rparr>, w1) = Some (r, o2, w2) \<and>
    clock w \<le> t \<and> t < clock w1 \<and>
    start = m_llMSecond (m_mdBaseTime f2) + m_iPeriodMillieSec f2 * m_llExecutionCounter f2 \<and>
    uint us = (if start \<le> now_ms (C t) then 0 else (start - now_ms (C t)) * 1000 mod 2 ^ 32) \<and>
    (if start - now_ms (C t) < 4294968 then now_ms (C t) * 1000 + uint us = max (now_ms (C t)) start * 1000
     else now_ms (C t) * 1000 + uint us < start * 1000) \<and>
    m_iPeriodMillieSec f2 = m_iPeriodMillieSec f \<and>
    (if m_llExecutionCounter f = 2 ^ 63 - 1
     then m_llMSecond (m_mdBaseTime f2) = now_ms (C (clock w)) \<and> m_llExecutionCounter f2 = 1
     else m_mdBaseTime f2 = m_mdBaseTime f \<and> m_llExecutionCounter f2 = m_llExecutionCounter f + 1)"
proof -
  obtain us f2 w1 where 1: "rt_next C f w = Some (us, f2, w1)" "CX_Run mv (o1\<lparr>rt_flavor := f2\<rparr>, w1) = Some (r, o2, w2)"
    using assms(1) by (auto simp: RT_Run_def f_def split: bind_splits)
  note run = rt_next_run [OF 1(1)]
  obtain t where t: "clock w \<le> t" "t < clock w1" "us = msleep (word_of_int
      (if due f2 (m_llExecutionCounter f2) < now_ms (C t) then 0 else due f2 (m_llExecutionCounter f2) - now_ms (C t)))"
    using run by blast
  define start where "start = due f2 (m_llExecutionCounter f2)"
  have us: "us = msleep (word_of_int (if start - now_ms (C t) < 0 then 0 else start - now_ms (C t)))"
    using t(3) by (simp add: start_def)
  note sl = sleep_reaches [OF us]
  have "uint us = (if start \<le> now_ms (C t) then 0 else (start - now_ms (C t)) * 1000 mod 2 ^ 32)" using sl(1) by simp
  moreover have "if start - now_ms (C t) < 4294968 then now_ms (C t) * 1000 + uint us = max (now_ms (C t)) start * 1000
     else now_ms (C t) * 1000 + uint us < start * 1000" using sl(2,3) [of "now_ms (C t)"] by simp
  moreover have "start = m_llMSecond (m_mdBaseTime f2) + m_iPeriodMillieSec f2 * m_llExecutionCounter f2"
    by (simp add: start_def due_def)
  ultimately show ?thesis using 1 t(1,2) run by blast
qed

theorem round_keeps_schedule_witness:
  "(\<exists>us f2 w1. rt_next standing (rt_flavor (paced_complex 1040)) world0 = Some (us, f2, w1) \<and> uint us = 1040000) \<and>
   (\<exists>us f2 w1. rt_next standing (rt_flavor (paced_complex 5400000)) world0 = Some (us, f2, w1) \<and> uint us = 1105032704)"
proof -
  have one: "\<exists>us f2 w1. rt_next standing (rt_flavor (paced_complex p)) world0 = Some (us, f2, w1) \<and> uint us = p * 1000 mod 2 ^ 32"
    if p: "0 < p" "p < 2 ^ 31" for p
  proof -
    have "\<bar>p\<bar> < 2 ^ 31" using p by simp
    from paced_run [OF this, of "\<lambda>p. thread_member thread2_vtbl"] obtain o2 w2 where
      "RT_Run standing (\<lambda>p. thread_member thread2_vtbl) (paced_complex p, world0) = Some (True, o2, w2)" by blast
    from round_keeps_schedule [OF this] obtain us f2 w1 t start where
      1: "rt_next standing (rt_flavor (paced_complex p)) world0 = Some (us, f2, w1)"
        "start = m_llMSecond (m_mdBaseTime f2) + m_iPeriodMillieSec f2 * m_llExecutionCounter f2"
        "uint us = (if start \<le> now_ms (standing t) then 0 else (start - now_ms (standing t)) * 1000 mod 2 ^ 32)"
        "m_iPeriodMillieSec f2 = m_iPeriodMillieSec (rt_flavor (paced_complex p))"
        "if m_llExecutionCounter (rt_flavor (paced_complex p)) = 2 ^ 63 - 1
         then m_llMSecond (m_mdBaseTime f2) = now_ms (standing (clock world0)) \<and> m_llExecutionCounter f2 = 1
         else m_mdBaseTime f2 = m_mdBaseTime (rt_flavor (paced_complex p)) \<and>
           m_llExecutionCounter f2 = m_llExecutionCounter (rt_flavor (paced_complex p)) + 1"
      by (elim exE conjE)
    have "start = p" using 1(2,4,5) by (simp add: paced_flavor)
    then have "uint us = p * 1000 mod 2 ^ 32" using 1(3) p by (simp add: now_ms_def standing_def)
    then show ?thesis using 1(1) by blast
  qed
  show ?thesis using one [of 1040] one [of 5400000] by simp
qed

section \<open>Helpers\<close>

text \<open>
  C36: what \<open>CiUtils_StringToLLong\<close> reads of a number that \<open>CiUtils_LLongToString\<close> has written, up to \<open>2 ^ 31 * 10 ^ 8\<close> in magnitude: the number itself, when it is
  not negative or has at most seven digits; of a longer negative one the last eight digits are added instead of
  subtracted.
\<close>

theorem numbers_read_back:
  assumes "- (2 ^ 31 * 10 ^ 8) < n" and "n < 2 ^ 31 * 10 ^ 8"
  shows "\<exists>t. CiUtils_LLongToString n = Some t \<and>
    CiUtils_StringToLLong (t @ [0]) = Some (if n \<le> - (10 ^ 7) then n + 2 * (- n mod 10 ^ 8) else n)"
  using number_read_back [OF assms] by (simp only: misread_def)

theorem numbers_read_back_witness:
  "(\<exists>t. CiUtils_LLongToString 123456789 = Some t \<and> CiUtils_StringToLLong (t @ [0]) = Some 123456789) \<and>
   (\<exists>t. CiUtils_LLongToString (- 123456789) = Some t \<and> CiUtils_StringToLLong (t @ [0]) = Some (- 76543211))"
  using numbers_read_back [of 123456789] numbers_read_back [of "- 123456789"] by simp

text \<open>
  C37: \<open>CiUtils_CopyFile\<close> and \<open>CiUtils_MoveFile\<close> remove the target before they look for the source.  So when the source is the
  target, however it is spelled, or lies in it, or does not exist, the call fails, and then neither of them is there, unless
  the removal of the target, or the test whether it is there, has failed with the error that is reported.  When the copy succeeds, source and target hold what the source held, and
  either way it changes nothing else that the removal of the target has left.
  \<open>there\<close> is what files and directories there are, \<open>content\<close> what the regular files contain, \<open>through\<close>
  which paths lead through another one; of \<open>boost::filesystem\<close> only what its documentation says is asked, and that no other process is at work.
\<close>

theorem copy_looks_too_late:
  assumes "file_system F there content through" and "f \<in> {CiUtils_CopyFile F, CiUtils_MoveFile F}"
    and "f p q err s = ((ok, e), s1)"
  shows "(through s p q \<or> \<not> there s p \<longrightarrow>
      \<not> ok \<and> (\<not> there s1 p \<and> \<not> there s1 q \<or> (\<exists>s2. remove_if_exists F q s = (Inl e, s2)))) \<and>
    (f = CiUtils_CopyFile F \<longrightarrow>
      (ok \<longrightarrow> e = err \<and> (\<forall>c. content s p = Some c \<longrightarrow> content s1 p = Some c \<and> content s1 q = Some c)) \<and>
      (\<forall>x. there (snd (remove_if_exists F q s)) x \<longrightarrow> there s1 x \<and> content s1 x = content s x))"
proof -
  obtain rem s2 where rem: "remove_if_exists F q s = (rem, s2)" by fastforce
  have "\<exists>go. f p q err s = caught err (thenf (remove_if_exists F q) (\<lambda>_. thenf (fs_exists F p) (\<lambda>ex.
      if \<not> ex then retf (False, Some NO_SOURCE) else go))) s"
  proof (cases "f = CiUtils_CopyFile F")
    case True
    show ?thesis unfolding True by (intro exI) (rule file_system.CopyFile_start [OF assms(1)])
  next
    case False
    then have "f = CiUtils_MoveFile F" using assms(2) by simp
    then show ?thesis using file_system.MoveFile_start [OF assms(1)] by simp
  qed
  then obtain go where "caught err (thenf (remove_if_exists F q) (\<lambda>_. thenf (fs_exists F p) (\<lambda>ex.
      if \<not> ex then retf (False, Some NO_SOURCE) else go))) s = ((ok, e), s1)" using assms(3) by auto
  note missed = file_system.source_missed [OF assms(1) this]
  have copy: "CiUtils_CopyFile F p q err s = ((ok, e), s1)" if "f = CiUtils_CopyFile F" using assms(3) that by simp
  note copied = file_system.CopyFile_run [OF assms(1) copy rem]
  show ?thesis
  proof (intro conjI impI)
    assume "f = CiUtils_CopyFile F"
    note copied = copied [OF this]
    show "e = err" if ok using copied that by blast
    show "\<forall>c. content s p = Some c \<longrightarrow> content s1 p = Some c \<and> content s1 q = Some c" if ok using copied that by blast
    show "\<forall>x. there (snd (remove_if_exists F q s)) x \<longrightarrow> there s1 x \<and> content s1 x = content s x"
      unfolding rem snd_conv using copied by blast
  next
    assume "through s p q \<or> \<not> there s p"
    from missed [OF this] show "\<not> ok" "\<not> there s1 p \<and> \<not> there s1 q \<or> (\<exists>s2. remove_if_exists F q s = (Inl e, s2))" by simp_all
  qed
qed

text \<open>To run the functions on small trees.\<close>

lemma sample_paths:
  "components ''a'' = [''a'']" "components ''./a'' = [''a'']" "components ''b'' = [''b'']" "components ''d//'' = [''d'']"
  "components ''d/a'' = [''d'', ''a'']"
  by (simp_all add: components_def)

lemmas tree_runs = sample_paths tree_fs_def barred_def node_at_def lessThan_Suc tree_there_def in_folders_def is_folder_def
  tree_content_def

theorem copy_looks_too_late_witness:
  "(\<exists>e s1. CiUtils_CopyFile tree_fs ''./a'' ''a'' [] [([''a''], File ''x'')] = ((False, e), s1) \<and> \<not> tree_there s1 ''a'') \<and>
   (\<exists>e s1. CiUtils_MoveFile tree_fs ''d/a'' ''d//'' [] [([''d''], Folder True), ([''d'', ''a''], File ''x'')] = ((False, e), s1) \<and>
     \<not> tree_there s1 ''d/a'') \<and>
   (\<exists>s1. CiUtils_CopyFile tree_fs ''d/a'' ''b'' [] [([''d''], Folder True), ([''d'', ''a''], File ''x'')] = ((True, []), s1) \<and>
     tree_content s1 ''b'' = Some ''x'')"
proof -
  note law = copy_looks_too_late [OF tree.file_system_axioms]
  let ?a = "[([''a''], File ''x'')]" and ?d = "[([''d''], Folder True), ([''d'', ''a''], File ''x'')]"
  have 1: "tree_through ?a ''./a'' ''a''" "tree_through ?d ''d/a'' ''d//''" "tree_content ?d ''d/a'' = Some ''x''"
    by code_simp+
  have 2: "fst (remove_if_exists tree_fs ''a'' ?a) = Inr ()" "fst (remove_if_exists tree_fs ''d//'' ?d) = Inr ()"
    "fst (CiUtils_CopyFile tree_fs ''d/a'' ''b'' [] ?d) = (True, [])"
    by (simp_all add: tree_runs CiUtils_CopyFile_def caught_def remove_if_exists_def thenf_def retf_def)
  have triple: "(\<And>a b c. x = ((a, b), c) \<Longrightarrow> P) \<Longrightarrow> P" for x :: "(bool \<times> string) \<times> tree" and P by (cases x) auto
  obtain ok e s1 where a: "CiUtils_CopyFile tree_fs ''./a'' ''a'' [] ?a = ((ok, e), s1)" by (rule triple)
  obtain ok2 e2 s2 where m: "CiUtils_MoveFile tree_fs ''d/a'' ''d//'' [] ?d = ((ok2, e2), s2)" by (rule triple)
  obtain s3 where c: "CiUtils_CopyFile tree_fs ''d/a'' ''b'' [] ?d = ((True, []), s3)" using triple 2(3) by (metis fst_conv)
  have no: "\<not> (\<exists>u. x = (Inl y, u))" if "fst x = Inr ()" for x :: "unit thrown \<times> tree" and y using that by auto
  have "\<not> ok \<and> \<not> tree_there s1 ''a''"
    using law [OF insertI1 a, THEN conjunct1, rule_format, OF disjI1 [OF 1(1)]] no [OF 2(1)] by blast
  moreover have "\<not> ok2 \<and> \<not> tree_there s2 ''d/a''"
    using law [OF insertI2 [OF singletonI] m, THEN conjunct1, rule_format, OF disjI1 [OF 1(2)]] no [OF 2(2)] by blast
  moreover have "tree_content s3 ''b'' = Some ''x''" using law [OF insertI1 c, THEN conjunct2] 1(3) by blast
  ultimately show ?thesis using a m c
    by (intro conjI exI [of _ e] exI [of _ s1] exI [of _ e2] exI [of _ s2] exI [of _ s3]) simp_all
qed

text \<open>
  The name of a directory, in an array that is large enough, ends in exactly the delimiter it had or was
  given; the function fails when there is no room for it.  Nothing is written behind the length it is
  told.
\<close>

theorem directory_name_ends:
  assumes "is_cstring src" and "text_of src \<noteq> []" and "0 < n" and "n \<le> int (length dest)"
  shows "\<exists>a. CiUtils_MakeDirectoryString (Some dest) n (Some src) =
      Some (int (length (with_delimiter (text_of src))) < n, Some a) \<and>
    (int (length (with_delimiter (text_of src))) < n \<longrightarrow> text_of a = with_delimiter (text_of src)) \<and>
    drop (nat n) a = drop (nat n) dest"
  using MakeDirectoryString_run [OF assms] by blast

theorem directory_name_ends_witness:
  "\<exists>a. CiUtils_MakeDirectoryString (Some [1, 2, 3, 4, 5]) 4 (Some [65, 66, 0]) = Some (True, Some a) \<and> text_of a = [65, 66, 47]"
  using directory_name_ends [of "[65, 66, 0]" 4 "[1, 2, 3, 4, 5]"] by (auto simp: with_delimiter_def DIRECTORY_DELIMITER_def)

section \<open>The host\<close>

text \<open>A host with the interfaces \<open>lo\<close> and \<open>eth0\<close>, and a file system with a long mount point.\<close>

definition two_nics :: nic_calls where
  "two_nics = \<lparr>ic_conf = \<lambda>c. Some [([108, 111], 1), ([101, 116, 104, 48], 2)], ic_hwaddr = \<lambda>c name. None\<rparr>"

definition plain_text :: net_calls where
  "plain_text = \<lparr>n_getfl = \<lambda>c. True, n_setfl = \<lambda>c. True, n_connect = \<lambda>c. None, n_listen = \<lambda>c. True,
     n_accept = \<lambda>c. None, n_so_error = \<lambda>c. None, n_buf_size = \<lambda>c. None, n_local = \<lambda>c. None, n_peer = \<lambda>c. None,
     n_parse = \<lambda>t. None, n_addr = \<lambda>t. 0, n_text = \<lambda>a. [48 + ucast a]\<rparr>"

text \<open>
  C38: when the kernel lists the interfaces, \<open>nu_get_nic_from_ip\<close> gives the name of the last one with the address, a terminated string
  that is empty exactly if none has it (the function reports success all the same), and with different
  names \<open>nu_get_ip_from_nic\<close> of that name gives the address back.  At most ten interfaces are looked at, and the socket
  that was opened for the question is closed.
\<close>

theorem interface_of_address:
  assumes "interfaces K I w = (Some es, w1)" and "names_ok es" and "CI_MAX_NAME_LENGTH \<le> length nic"
  shows "\<exists>a. nu_get_nic_from_ip K I N nic ip w = Some ((True, a), w1) \<and> is_cstring a \<and>
    text_of a = last_match (\<lambda>e. ip = n_text N (snd e)) fst es \<and>
    (text_of a = [] \<longleftrightarrow> (\<forall>e \<in> set es. ip \<noteq> n_text N (snd e))) \<and>
    (\<forall>s w2 w3. distinct (map fst es) \<and> text_of a \<noteq> [] \<and> interfaces K I w2 = (Some es, w3) \<longrightarrow>
       nu_get_ip_from_nic K I N s (text_of a) w2 = ((True, ip), w3)) \<and>
    length es \<le> CI_MAX_NIC_COUNT \<and> closed_fds w1 = closed_fds w @ [k_socket K (clock w)]"
proof -
  obtain a where a: "nu_get_nic_from_ip K I N nic ip w = Some ((True, a), w1)" "is_cstring a"
    "text_of a = last_match (\<lambda>e. ip = n_text N (snd e)) fst es"
    using nu_get_nic_from_ip_run [OF assms] by blast
  have "closed_fds w1 = closed_fds w @ [k_socket K (clock w)]"
    using assms(1) by (auto simp: interfaces_run split: if_splits)
  moreover have "nu_get_ip_from_nic K I N s (text_of a) w2 = ((True, ip), w3)"
    if "distinct (map fst es) \<and> text_of a \<noteq> [] \<and> interfaces K I w2 = (Some es, w3)" for s w2 w3
    using that name_has_address [OF _ a(3)] by blast
  moreover have "text_of a = [] \<longleftrightarrow> (\<forall>e \<in> set es. ip \<noteq> n_text N (snd e))" unfolding a(3) by (rule no_match [OF assms(2)])
  ultimately show ?thesis using a interfaces_at_most [OF assms(1)] by (intro exI [of _ a] conjI allI impI) simp_all
qed

theorem interface_of_address_witness:
  "\<exists>a w1. nu_get_nic_from_ip sample_kernel two_nics plain_text (replicate 64 0) [50] world0 = Some ((True, a), w1) \<and>
     text_of a = [101, 116, 104, 48] \<and> closed_fds w1 = [3]"
proof -
  obtain w1 where 1: "interfaces sample_kernel two_nics world0 = (Some [([108, 111], 1), ([101, 116, 104, 48], 2)], w1)"
    by (simp add: interfaces_run sample_kernel_def two_nics_def CI_MAX_NIC_COUNT_def world0_def)
  have 2: "names_ok [([108, 111], 1), ([101, 116, 104, 48], 2)]" by (simp add: names_ok_def IFNAMSIZ_def)
  from interface_of_address [OF 1 2, of "replicate 64 0" plain_text "[50]"] show ?thesis
    by (auto simp: CI_MAX_NAME_LENGTH_def last_match_def plain_text_def sample_kernel_def world0_def)
qed

text \<open>Where the numbers are not what exact arithmetic gives: 29 of 100 are 28.999999999999996 percent.\<close>

lemma percent_29: "\<lfloor>double_percent 29 100\<rfloor> = 28"
  by code_simp

text \<open>
  C39: from the first line of \<open>/proc/stat\<close>, with whatever gaps between the numbers and whatever follows them, the
  function returns 0 and remembers nothing when the sum of the counters has not grown since the last call.  When it has grown and the idle counter has
  not moved back and has not grown by more than the sum, the function computes with \<open>double\<close> a hundred less the percentage of idle time, which is between
  nothing and a hundred, and remembers the new counters.  The percentage is rounded down, but where it is a whole number the rounding of \<open>double\<close>
  may take one off; for sums that have grown by more than \<open>2 ^ 40\<close> it may also be off by one otherwise.
\<close>

theorem cpu_usage_measured:
  assumes "list_all gap [g0, g1, g2, g3]" and "others = [] \<or> \<not> is_digit (hd others)"
    and "line_ok (lit ''cpu'' @ g0 @ spaced [dec_nat u, dec_nat n, dec_nat sy, dec_nat i] [g1, g2, g3] @ others)"
    and "a = u + n + sy + i" "int a < 2 ^ 63"
    and "0 \<le> llIdleTime c" "0 \<le> llAllCPUTime c"
  shows "let usage = CiUtils_GetCPUInfo_UsagePercent machine_fpu (Some (unlines ((lit ''cpu'' @ g0 @
           spaced [dec_nat u, dec_nat n, dec_nat sy, dec_nat i] [g1, g2, g3] @ others) # later))) (Some c);
         percent = (int i - llIdleTime c) * 100 div (int a - llAllCPUTime c) in
    (int a \<le> llAllCPUTime c \<longrightarrow> usage = Some (0, Some c)) \<and>
    (llAllCPUTime c < int a \<and> llIdleTime c \<le> int i \<and> int i - llIdleTime c \<le> int a - llAllCPUTime c \<longrightarrow>
      (\<exists>p. usage = Some (100 - p, Some \<lparr>llAllCPUTime = int a, llIdleTime = int i\<rparr>) \<and> 0 \<le> p \<and> p \<le> 100 \<and>
         p \<in> {percent - 1, percent, percent + 1} \<and>
         (int a - llAllCPUTime c \<le> 2 ^ 40 \<longrightarrow>
            p = percent \<or> (int i - llIdleTime c) * 100 mod (int a - llAllCPUTime c) = 0 \<and> p = percent - 1)))"
proof -
  let ?usage = "CiUtils_GetCPUInfo_UsagePercent machine_fpu (Some (unlines ((lit ''cpu'' @ g0 @
        spaced [dec_nat u, dec_nat n, dec_nat sy, dec_nat i] [g1, g2, g3] @ others) # later))) (Some c)"
  let ?percent = "(int i - llIdleTime c) * 100 div (int a - llAllCPUTime c)"
  have ns: "list_all (\<lambda>n. int n < 2 ^ 63) [u, n, sy, i]" "int a = int u + int n + int sy + int i"
    using assms(4,5) by simp_all
  note t = cpu_times_run [OF assms(1) ns(1) assms(2,3), of later]
  have still: "?usage = Some (0, Some c)" if "int a \<le> llAllCPUTime c"
    using ns(2) assms(5) that by (intro UsagePercent_still [OF t]) simp_all
  let ?d = "int i - llIdleTime c" and ?t = "int a - llAllCPUTime c"
  have grown: "\<exists>p. ?usage = Some (100 - p, Some \<lparr>llAllCPUTime = int a, llIdleTime = int i\<rparr>) \<and> 0 \<le> p \<and> p \<le> 100 \<and>
         p \<in> {?percent - 1, ?percent, ?percent + 1} \<and>
         (?t \<le> 2 ^ 40 \<longrightarrow> p = ?percent \<or> ?d * 100 mod ?t = 0 \<and> p = ?percent - 1)"
    if "llAllCPUTime c < int a" "llIdleTime c \<le> int i" "?d \<le> ?t"
  proof (intro exI [of _ "\<lfloor>double_percent ?d ?t\<rfloor>"] conjI)
    have d: "0 \<le> ?d" "?d \<le> ?t" "0 < ?t" using that by simp_all
    note near = floor_near [OF double_percent_near [OF d] d(3)]
    show "?usage = Some (100 - \<lfloor>double_percent ?d ?t\<rfloor>, Some \<lparr>llAllCPUTime = int a, llIdleTime = int i\<rparr>)"
      using UsagePercent_run [OF t _ _ _ ns(2) assms(5,6) that(2) assms(7) that(1,3)] by simp
    show "0 \<le> \<lfloor>double_percent ?d ?t\<rfloor>" "\<lfloor>double_percent ?d ?t\<rfloor> \<le> 100"
      using double_percent_range [OF d] by (simp_all add: floor_le_iff)
    show "\<lfloor>double_percent ?d ?t\<rfloor> \<in> {?percent - 1, ?percent, ?percent + 1}" by (rule near(1))
    show "?t \<le> 2 ^ 40 \<longrightarrow> \<lfloor>double_percent ?d ?t\<rfloor> = ?percent \<or> ?d * 100 mod ?t = 0 \<and> \<lfloor>double_percent ?d ?t\<rfloor> = ?percent - 1"
      using near(2) by blast
  qed
  show ?thesis unfolding Let_def using still grown by blast
qed

theorem cpu_usage_measured_witness:
  "CiUtils_GetCPUInfo_UsagePercent machine_fpu
     (Some (unlines [lit ''cpu'' @ [32, 32] @ spaced [dec_nat 6, dec_nat 0, dec_nat 1, dec_nat 5] [[32], [32], [32]] @ []]))
     (Some CiCpu_Info) = Some (59, Some \<lparr>llAllCPUTime = 12, llIdleTime = 5\<rparr>) \<and>
   CiUtils_GetCPUInfo_UsagePercent machine_fpu
     (Some (unlines [lit ''cpu'' @ [32, 32] @ spaced [dec_nat 6, dec_nat 0, dec_nat 1, dec_nat 5] [[32], [32], [32]] @ []]))
     (Some \<lparr>llAllCPUTime = 12, llIdleTime = 5\<rparr>) = Some (0, Some \<lparr>llAllCPUTime = 12, llIdleTime = 5\<rparr>)"
proof -
  have g: "list_all gap [[32, 32], [32], [32], [32 :: byte]]" by (simp add: gap_def is_space_def)
  have l: "line_ok (lit ''cpu'' @ [32, 32] @ spaced [dec_nat 6, dec_nat 0, dec_nat 1, dec_nat 5] [[32], [32], [32]] @ [])"
    by (simp add: line_ok_def dec_nat.simps lit_def)
  note run = cpu_usage_measured [OF g _ l, of 12 _ "[]"]
  have "(500 :: int) div 12 = 41" "(500 :: int) mod 12 \<noteq> 0" by simp_all
  then show ?thesis using run [of CiCpu_Info] run [of "\<lparr>llAllCPUTime = 12, llIdleTime = 5\<rparr>"]
    by (auto simp: CiCpu_Info_def)
qed

text \<open>With 29 idle of 100, the function reports 72.\<close>

theorem usage_of_29:
  "CiUtils_GetCPUInfo_UsagePercent machine_fpu
     (Some (unlines [lit ''cpu'' @ [32, 32] @ spaced [dec_nat 70, dec_nat 0, dec_nat 1, dec_nat 29] [[32], [32], [32]] @ []]))
     (Some CiCpu_Info) = Some (72, Some \<lparr>llAllCPUTime = 100, llIdleTime = 29\<rparr>)"
proof -
  have g: "list_all gap [[32, 32], [32], [32], [32 :: byte]]" by (simp add: gap_def is_space_def)
  have l: "line_ok (lit ''cpu'' @ [32, 32] @ spaced [dec_nat 70, dec_nat 0, dec_nat 1, dec_nat 29] [[32], [32], [32]] @ [])"
    by (simp add: line_ok_def dec_nat.simps lit_def)
  from UsagePercent_run [OF cpu_times_run [OF g _ _ l], of 100 CiCpu_Info "[]"] percent_29 show ?thesis by (simp add: CiCpu_Info_def)
qed

text \<open>
  C40: from what \<open>df\<close> prints, \<open>CiUtils_GetDiskInfo\<close> gives the device and the mount point, when the arrays of the caller have 257
  bytes, and removes the result file.  An array that the text does not fit is overrun: the limit of the copy
  is not the \<open>CI_MAX_NAME_LENGTH\<close> that the header asks the arrays to have.
\<close>

theorem disk_info_reported:
  assumes "sh (df_command path) fs = (ret, fs1)" and "0 \<le> ret"
    and "fs1 df_result = Some (unlines (title # spaced [dev, dec_nat a, dec_nat b, dec_nat c, pct, mnt] [g1, g2, g3, g4, g5] # later))"
    and "line_ok title" and "line_ok (spaced [dev, dec_nat a, dec_nat b, dec_nat c, pct, mnt] [g1, g2, g3, g4, g5])"
    and "list_all word_ok [dev, pct, mnt]" and "list_all gap [g1, g2, g3, g4, g5]"
    and "list_all (\<lambda>n. int n < 2 ^ 63) [a, b, c]"
  shows "(257 \<le> length d1 \<and> 257 \<le> length d2 \<longrightarrow>
      (\<exists>p m. CiUtils_GetDiskInfo junk sh (Some path) (Some d1) (Some d2) fs =
         Some ((True, Some p, Some m), remove_file df_result fs1) \<and> text_of p = dev \<and> text_of m = mnt)) \<and>
    (length d1 \<le> length dev \<or> length d2 \<le> length mnt \<longrightarrow>
       CiUtils_GetDiskInfo junk sh (Some path) (Some d1) (Some d2) fs = None)"
proof -
  obtain p m where t: "scan_df junk (spaced [dev, dec_nat a, dec_nat b, dec_nat c, pct, mnt] [g1, g2, g3, g4, g5] @ [10]) = Some (p, m)"
    "is_cstring p" "text_of p = dev" "is_cstring m" "text_of m = mnt"
    using scan_df_run [OF assms(6-8,5)] by blast
  note run = GetDiskInfo_lines [where sh = sh and path = path and fs = fs, OF assms(1-5) t(1)]
  have l: "length dev < 255" "length mnt < 255" using assms(5) by (simp_all add: line_ok_def)
  show ?thesis
  proof (intro conjI impI)
    assume d: "257 \<le> length d1 \<and> 257 \<le> length d2"
    obtain x y where "CiStrCpy (Some d1) (Some p) 257 = Some (True, Some x, length dev)" "text_of x = dev"
      "CiStrCpy (Some d2) (Some m) 257 = Some (True, Some y, length mnt)" "text_of y = mnt"
      using CiStrCpy_run [OF t(2), of 257 d1] CiStrCpy_run [OF t(4), of 257 d2] t(3,5) l d by auto
    then show "\<exists>p m. CiUtils_GetDiskInfo junk sh (Some path) (Some d1) (Some d2) fs =
         Some ((True, Some p, Some m), remove_file df_result fs1) \<and> text_of p = dev \<and> text_of m = mnt"
      by (simp add: run)
  next
    assume "length d1 \<le> length dev \<or> length d2 \<le> length mnt"
    then have "CiStrCpy (Some d1) (Some p) 257 = None \<or> CiStrCpy (Some d2) (Some m) 257 = None"
      using CiStrCpy_overrun [of d1 p 257] CiStrCpy_overrun [of d2 m 257] t(3,5) l by auto
    then show "CiUtils_GetDiskInfo junk sh (Some path) (Some d1) (Some d2) fs = None"
      unfolding run by (cases "CiStrCpy (Some d1) (Some p) 257") auto
  qed
qed

text \<open>A \<open>df\<close> that prints the device \<open>d\<close> and a mount point of 64 characters.\<close>

definition df_prints :: shell where
  "df_prints cmd fs = (0, fs(df_result := Some (unlines [[70],
     spaced [[100], dec_nat 9, dec_nat 4, dec_nat 5, [44], replicate 64 47] [[32], [32], [32], [32], [32]]])))"

theorem disk_info_reported_witness:
  "CiUtils_GetDiskInfo sample_junk df_prints (Some [47]) (Some (replicate 64 0)) (Some (replicate 64 0)) Map.empty = None \<and>
   (\<exists>p m fs. CiUtils_GetDiskInfo sample_junk df_prints (Some [47]) (Some (replicate 257 0)) (Some (replicate 257 0)) Map.empty =
      Some ((True, Some p, Some m), fs) \<and> text_of p = [100] \<and> text_of m = replicate 64 47)"
proof -
  let ?l = "spaced [[100], dec_nat 9, dec_nat 4, dec_nat 5, [44], replicate 64 47] [[32], [32], [32], [32], [32]]"
  have 1: "df_prints (df_command [47]) Map.empty = (0, [df_result \<mapsto> unlines [[70], ?l]])" by (simp add: df_prints_def)
  have 2: "line_ok [70]" "line_ok ?l" by (simp_all add: line_ok_def dec_nat.simps)
  have 3: "list_all word_ok [[100], [44], replicate 64 47]" "list_all gap [[32], [32], [32], [32], [32]]"
    by (simp_all add: word_ok_def gap_def is_space_def list_all_iff)
  note df = disk_info_reported [where sh = df_prints and path = "[47]" and fs = Map.empty and later = "[]", OF 1 _ _ 2 3]
  show ?thesis using df [of "replicate 64 0" "replicate 64 0" sample_junk] df [of "replicate 257 0" "replicate 257 0" sample_junk]
    by auto
qed

end
